(* ===== verification/Js_Prelude.thy ===== *)
theory Js_Prelude
  imports Complex_Main "HOL-Library.Char_ord" "HOL-Library.List_Lexorder" "HOL-Library.Word" "HOL-Library.Code_Target_Nat"
begin

text \<open>
  The vocabulary shared by all component theories: the part of the JavaScript language and of
  its standard library that the modelled code uses. Strings are lists of UTF-16 code units
  restricted to the Latin-1 range (one \<^typ>\<open>char\<close> per code unit), numbers are the special
  values NaN and the two infinities or an exact rational (every double is one; rounding and
  the sign of zero are not modelled), dynamically typed request and JSON values are
  \<open>jsval\<close>. Functions that may throw return \<open>'e + 'a\<close> with \<open>Inl\<close> for the
  thrown error. The comparison of strings is the lexicographic order on code units, which is
  what \<open>Array.prototype.sort\<close> without a comparator uses.
\<close>

named_theorems js_str \<open>facts on the string primitives\<close>

type_synonym jstring = string

subsection \<open>Fallible computations\<close>

fun bind_res :: "'e + 'a \<Rightarrow> ('a \<Rightarrow> 'e + 'b) \<Rightarrow> 'e + 'b" where
  "bind_res (Inl e) f = Inl e"
| "bind_res (Inr a) f = f a"

text \<open>A loop that may throw: stops at the first error.\<close>

fun fold_res :: "('a \<Rightarrow> 's \<Rightarrow> 'e + 's) \<Rightarrow> 'a list \<Rightarrow> 's \<Rightarrow> 'e + 's" where
  "fold_res f [] s = Inr s"
| "fold_res f (x # xs) s = bind_res (f x s) (fold_res f xs)"

fun map_res :: "('a \<Rightarrow> 'e + 'b) \<Rightarrow> 'a list \<Rightarrow> 'e + 'b list" where
  "map_res f [] = Inr []"
| "map_res f (x # xs) = bind_res (f x) (\<lambda>y. bind_res (map_res f xs) (\<lambda>ys. Inr (y # ys)))"

lemma bind_res_Inr_iff: "bind_res r f = Inr b \<longleftrightarrow> (\<exists>a. r = Inr a \<and> f a = Inr b)"
  by (cases r) auto

lemma bind_res_Inl_iff:
  "bind_res r f = Inl e \<longleftrightarrow> r = Inl e \<or> (\<exists>a. r = Inr a \<and> f a = Inl e)"
  by (cases r) auto

lemmas bind_res_iff = bind_res_Inr_iff bind_res_Inl_iff

lemma bind_res_cong [fundef_cong]:
  "r = r' \<Longrightarrow> (\<And>a. r' = Inr a \<Longrightarrow> f a = f' a) \<Longrightarrow> bind_res r f = bind_res r' f'"
  by (cases r') auto

text \<open>The invariant rule of a loop that may throw.\<close>

lemma fold_res_invariant:
  assumes "fold_res f xs s = Inr t" and "P s"
    and "\<And>x s t. x \<in> set xs \<Longrightarrow> P s \<Longrightarrow> f x s = Inr t \<Longrightarrow> P t"
  shows "P t"
  using assms by (induction xs arbitrary: s) (auto simp: bind_res_iff)

lemma bind_res_assoc:
  "bind_res (bind_res r f) g = bind_res r (\<lambda>x. bind_res (f x) g)"
  by (cases r) auto

lemma fold_res_append:
  "fold_res f (xs @ ys) s = bind_res (fold_res f xs s) (fold_res f ys)"
proof (induction xs arbitrary: s)
  case (Cons x xs)
  then show ?case by (cases "f x s") simp_all
qed simp

lemma map_res_Inr_iff:
  "map_res f xs = Inr ys \<longleftrightarrow> list_all2 (\<lambda>x y. f x = Inr y) xs ys"
  by (induction xs arbitrary: ys) (auto simp: bind_res_iff list_all2_Cons1)

subsection \<open>Characters and strings\<close>

text \<open>White space as \<open>String.prototype.trim\<close> sees it, on the Latin-1 range.\<close>

definition js_ws :: "char \<Rightarrow> bool" where
  "js_ws c \<longleftrightarrow> of_char c \<in> ({9, 10, 11, 12, 13, 32, 160} :: nat set)"

definition is_digit :: "char \<Rightarrow> bool" where
  "is_digit c \<longleftrightarrow> (48 :: nat) \<le> of_char c \<and> of_char c \<le> (57 :: nat)"

definition is_control :: "char \<Rightarrow> bool" where
  "is_control c \<longleftrightarrow> of_char c < (32 :: nat) \<or> of_char c = (127 :: nat)"

definition is_lower_az :: "char \<Rightarrow> bool" where
  "is_lower_az c \<longleftrightarrow> (97 :: nat) \<le> of_char c \<and> of_char c \<le> (122 :: nat)"

definition is_upper_az :: "char \<Rightarrow> bool" where
  "is_upper_az c \<longleftrightarrow> (65 :: nat) \<le> of_char c \<and> of_char c \<le> (90 :: nat)"

definition is_alnum :: "char \<Rightarrow> bool" where
  "is_alnum c \<longleftrightarrow> is_digit c \<or> is_lower_az c \<or> is_upper_az c"

definition is_hex :: "char \<Rightarrow> bool" where
  "is_hex c \<longleftrightarrow> is_digit c \<or> ((97 :: nat) \<le> of_char c \<and> of_char c \<le> (102 :: nat))
     \<or> ((65 :: nat) \<le> of_char c \<and> of_char c \<le> (70 :: nat))"

definition trim_start :: "string \<Rightarrow> string" where
  "trim_start s = dropWhile js_ws s"

definition trim :: "string \<Rightarrow> string" where
  "trim s = rev (dropWhile js_ws (rev (dropWhile js_ws s)))"

text \<open>Lower and upper case on the Latin-1 range (the multiplication and division signs stay).\<close>

definition lower_char :: "char \<Rightarrow> char" where
  "lower_char c = (let n = of_char c :: nat in
     if (65 \<le> n \<and> n \<le> 90) \<or> (192 \<le> n \<and> n \<le> 222 \<and> n \<noteq> 215) then char_of (n + 32) else c)"

definition to_lower :: "string \<Rightarrow> string" where
  "to_lower s = map lower_char s"

definition upper_char :: "char \<Rightarrow> char" where
  "upper_char c = (let n = of_char c :: nat in
     if 97 \<le> n \<and> n \<le> 122 then char_of (n - 32) else c)"

text \<open>\<open>s.split(c)\<close> for a one-character separator: never the empty list.\<close>

fun split_on :: "char \<Rightarrow> string \<Rightarrow> string list" where
  "split_on d [] = [[]]"
| "split_on d (c # cs) =
     (if c = d then [] # split_on d cs
      else (case split_on d cs of [] \<Rightarrow> [[c]] | p # ps \<Rightarrow> (c # p) # ps))"

fun join :: "string \<Rightarrow> string list \<Rightarrow> string" where
  "join sep [] = []"
| "join sep [x] = x"
| "join sep (x # y # zs) = x @ sep @ join sep (y # zs)"

definition starts_with :: "string \<Rightarrow> string \<Rightarrow> bool" where
  "starts_with p s \<longleftrightarrow> take (length p) s = p"

definition ends_with :: "string \<Rightarrow> string \<Rightarrow> bool" where
  "ends_with p s \<longleftrightarrow> starts_with (rev p) (rev s)"

fun str_includes :: "string \<Rightarrow> string \<Rightarrow> bool" where
  "str_includes p [] = (p = [])"
| "str_includes p (c # cs) = (starts_with p (c # cs) \<or> str_includes p cs)"

text \<open>\<open>new Set(xs)\<close> spread back into an array: first occurrences, in order.\<close>

definition uniq :: "'a list \<Rightarrow> 'a list" where
  "uniq xs = rev (remdups (rev xs))"

text \<open>\<open>if (!out.includes(x)) out.push(x)\<close>.\<close>

definition push_new :: "'a \<Rightarrow> 'a list \<Rightarrow> 'a list" where
  "push_new x out = (if x \<in> set out then out else out @ [x])"

subsection \<open>Numbers and their text\<close>

fun digits_val :: "nat \<Rightarrow> string \<Rightarrow> nat" where
  "digits_val acc [] = acc"
| "digits_val acc (c # cs) = digits_val (10 * acc + (of_char c - 48)) cs"

text \<open>\<open>Number(s)\<close> of a string of decimal digits.\<close>

definition nat_of_digits :: "string \<Rightarrow> nat" where
  "nat_of_digits s = digits_val 0 s"

fun str_of_nat :: "nat \<Rightarrow> string" where
  "str_of_nat n =
     (if n < 10 then [char_of (48 + n)] else str_of_nat (n div 10) @ [char_of (48 + n mod 10)])"

declare str_of_nat.simps [simp del]

definition str_of_int :: "int \<Rightarrow> string" where
  "str_of_int i = (if i < 0 then CHR ''-'' # str_of_nat (nat (- i)) else str_of_nat (nat i))"

text \<open>\<open>/^\d{1,n}$/\<close>.\<close>

definition digits_upto :: "nat \<Rightarrow> string \<Rightarrow> bool" where
  "digits_upto n s \<longleftrightarrow> 1 \<le> length s \<and> length s \<le> n \<and> list_all is_digit s"

definition all_digits :: "string \<Rightarrow> bool" where
  "all_digits s \<longleftrightarrow> s \<noteq> [] \<and> list_all is_digit s"

datatype jsnum = NaN | PosInf | NegInf | Fin rat

definition is_integer :: "jsnum \<Rightarrow> bool" where
  "is_integer n = (case n of Fin r \<Rightarrow> of_int \<lfloor>r\<rfloor> = r | _ \<Rightarrow> False)"

definition num_int :: "jsnum \<Rightarrow> int" where
  "num_int n = (case n of Fin r \<Rightarrow> \<lfloor>r\<rfloor> | _ \<Rightarrow> 0)"

definition jint :: "int \<Rightarrow> jsnum" where
  "jint i = Fin (of_int i)"

text \<open>Digits after the decimal point of a fraction in \<open>[0, 1)\<close>; doubles print at most 17
  significant digits, the fuel 25 is more than enough for the plain notation.\<close>

fun frac_digits :: "nat \<Rightarrow> rat \<Rightarrow> string" where
  "frac_digits 0 r = []"
| "frac_digits (Suc k) r =
     (if r = 0 then []
      else char_of (48 + nat \<lfloor>10 * r\<rfloor>) # frac_digits k (10 * r - of_int \<lfloor>10 * r\<rfloor>))"

text \<open>\<open>String(n)\<close> in the plain notation (magnitudes from 10 to the -6 up to 10 to the 21).\<close>

definition num_str :: "jsnum \<Rightarrow> string" where
  "num_str n = (case n of
       NaN \<Rightarrow> ''NaN'' | PosInf \<Rightarrow> ''Infinity'' | NegInf \<Rightarrow> ''-Infinity''
     | Fin r \<Rightarrow>
        (let a = \<bar>r\<bar>; i = \<lfloor>a\<rfloor>; f = frac_digits 25 (a - of_int i)
         in (if r < 0 then ''-'' else []) @ str_of_nat (nat i)
            @ (if f = [] then [] else ''.'' @ f)))"

text \<open>\<open>Number(s)\<close> of an arbitrary string: white space is trimmed, the empty string is 0,
  then an optional sign, a decimal literal with optional fraction and exponent, a hexadecimal,
  octal or binary literal without sign, or the word Infinity.\<close>

definition hex_val :: "char \<Rightarrow> nat" where
  "hex_val c = (let n = of_char c :: nat in
     if is_digit c then n - 48 else if 97 \<le> n then n - 87 else n - 55)"

fun radix_val :: "nat \<Rightarrow> nat \<Rightarrow> string \<Rightarrow> nat option" where
  "radix_val b acc [] = Some acc"
| "radix_val b acc (c # cs) =
     (if is_hex c \<and> hex_val c < b then radix_val b (b * acc + hex_val c) cs else None)"

definition pow10 :: "int \<Rightarrow> rat" where
  "pow10 e = (if 0 \<le> e then 10 ^ nat e else 1 / 10 ^ nat (- e))"

definition exponent_part :: "string \<Rightarrow> int option" where
  "exponent_part s = (case s of [] \<Rightarrow> Some 0
     | c # cs \<Rightarrow>
        if c = CHR ''e'' \<or> c = CHR ''E'' then
          (case cs of [] \<Rightarrow> None
           | d # ds \<Rightarrow>
              if d = CHR ''-'' then (if all_digits ds then Some (- int (nat_of_digits ds)) else None)
              else if d = CHR ''+'' then (if all_digits ds then Some (int (nat_of_digits ds)) else None)
              else (if all_digits cs then Some (int (nat_of_digits cs)) else None))
        else None)"

definition decimal_literal :: "string \<Rightarrow> rat option" where
  "decimal_literal s =
     (let ip = takeWhile is_digit s; r1 = dropWhile is_digit s;
          dot = (r1 \<noteq> [] \<and> hd r1 = CHR ''.'');
          r2 = (if dot then tl r1 else r1);
          fp = (if dot then takeWhile is_digit r2 else []);
          r3 = (if dot then dropWhile is_digit r2 else r2)
      in if ip = [] \<and> fp = [] then None
         else (case exponent_part r3 of None \<Rightarrow> None
               | Some e \<Rightarrow> Some (of_nat (nat_of_digits (ip @ fp)) * pow10 (e - int (length fp)))))"

definition radix_literal :: "nat \<Rightarrow> string \<Rightarrow> jsnum" where
  "radix_literal b s = (if s = [] then NaN
     else case radix_val b 0 s of None \<Rightarrow> NaN | Some n \<Rightarrow> Fin (of_nat n))"

definition unsigned_literal :: "string \<Rightarrow> jsnum" where
  "unsigned_literal t = (if t = ''Infinity'' then PosInf
     else case decimal_literal t of None \<Rightarrow> NaN | Some r \<Rightarrow> Fin r)"

definition str_number :: "string \<Rightarrow> jsnum" where
  "str_number s0 =
     (let s = trim s0
      in if s = [] then Fin 0
         else if take 2 s = ''0x'' \<or> take 2 s = ''0X'' then radix_literal 16 (drop 2 s)
         else if take 2 s = ''0o'' \<or> take 2 s = ''0O'' then radix_literal 8 (drop 2 s)
         else if take 2 s = ''0b'' \<or> take 2 s = ''0B'' then radix_literal 2 (drop 2 s)
         else if hd s = CHR ''-'' then
           (case unsigned_literal (tl s) of PosInf \<Rightarrow> NegInf | Fin r \<Rightarrow> Fin (- r) | _ \<Rightarrow> NaN)
         else unsigned_literal (if hd s = CHR ''+'' then tl s else s))"

subsection \<open>Dynamically typed values\<close>

text \<open>Property lists are in the order in which \<open>Object.entries\<close> lists them; \<open>getp\<close> reads a property, missing ones
  (and properties of non-objects) are \<open>undefined\<close>.\<close>

datatype jsval =
    JUndef | JNull | JBool bool | JNum jsnum | JStr string
  | JArr "jsval list" | JObj "(string \<times> jsval) list"

fun getp :: "jsval \<Rightarrow> string \<Rightarrow> jsval" where
  "getp (JObj ps) k = (case map_of ps k of Some v \<Rightarrow> v | None \<Rightarrow> JUndef)"
| "getp _ k = JUndef"

fun has_own :: "jsval \<Rightarrow> string \<Rightarrow> bool" where
  "has_own (JObj ps) k = (k \<in> fst ` set ps)"
| "has_own _ k = False"

fun is_nullish :: "jsval \<Rightarrow> bool" where
  "is_nullish JUndef = True"
| "is_nullish JNull = True"
| "is_nullish _ = False"

fun js_truthy :: "jsval \<Rightarrow> bool" where
  "js_truthy JUndef = False"
| "js_truthy JNull = False"
| "js_truthy (JBool b) = b"
| "js_truthy (JNum n) = (n \<noteq> NaN \<and> n \<noteq> Fin 0)"
| "js_truthy (JStr s) = (s \<noteq> [])"
| "js_truthy _ = True"

text \<open>\<open>String(v)\<close>: null and undefined elements of an array print as the empty string.\<close>

fun js_string :: "jsval \<Rightarrow> string" where
  "js_string JUndef = ''undefined''"
| "js_string JNull = ''null''"
| "js_string (JBool b) = (if b then ''true'' else ''false'')"
| "js_string (JNum n) = num_str n"
| "js_string (JStr s) = s"
| "js_string (JArr vs) = join '','' (map (\<lambda>v. if is_nullish v then [] else js_string v) vs)"
| "js_string (JObj ps) = ''[object Object]''"

text \<open>\<open>String(v ?? "")\<close>.\<close>

definition str_or_empty :: "jsval \<Rightarrow> string" where
  "str_or_empty v = (if is_nullish v then [] else js_string v)"

text \<open>\<open>Number(v)\<close>.\<close>

fun js_number :: "jsval \<Rightarrow> jsnum" where
  "js_number JUndef = NaN"
| "js_number JNull = Fin 0"
| "js_number (JBool b) = Fin (if b then 1 else 0)"
| "js_number (JNum n) = n"
| "js_number (JStr s) = str_number s"
| "js_number (JArr vs) = str_number (js_string (JArr vs))"
| "js_number (JObj ps) = NaN"

subsection \<open>Facts on the string primitives\<close>

lemma of_char_char_of_digit [js_str]: "d < 10 \<Longrightarrow> (of_char (char_of (48 + d)) :: nat) = 48 + d"
  for d :: nat
  by (simp add: of_char_of)

lemma is_digit_char_of [js_str]: "d < 10 \<Longrightarrow> is_digit (char_of (48 + d))" for d :: nat
  by (simp add: is_digit_def of_char_of)

lemma str_of_nat_not_Nil [simp]: "str_of_nat n \<noteq> []"
  by (subst str_of_nat.simps) simp

lemma str_of_nat_digits [simp]: "list_all is_digit (str_of_nat n)"
proof (induction n rule: str_of_nat.induct)
  case (1 n)
  then show ?case
    by (subst str_of_nat.simps) (simp add: is_digit_char_of)
qed

lemma digits_val_append: "digits_val acc (xs @ ys) = digits_val (digits_val acc xs) ys"
  by (induction xs arbitrary: acc) auto

lemma nat_of_digits_str_of_nat [simp]: "nat_of_digits (str_of_nat n) = n"
  unfolding nat_of_digits_def
proof (induction n rule: str_of_nat.induct)
  case (1 n)
  show ?case
  proof (cases "n < 10")
    case True
    then show ?thesis by (simp add: str_of_nat.simps [of n] of_char_char_of_digit)
  next
    case False
    with "1" have "digits_val 0 (str_of_nat (n div 10)) = n div 10" by simp
    with False show ?thesis
      by (simp add: str_of_nat.simps [of n] digits_val_append of_char_char_of_digit)
  qed
qed

lemma str_of_nat_inject [simp]: "str_of_nat m = str_of_nat n \<longleftrightarrow> m = n"
  by (metis nat_of_digits_str_of_nat)

lemma length_str_of_nat: "n < 10 ^ Suc k \<Longrightarrow> length (str_of_nat n) \<le> Suc k"
proof (induction k arbitrary: n)
  case 0
  then show ?case by (simp add: str_of_nat.simps [of n])
next
  case (Suc k)
  show ?case
  proof (cases "n < 10")
    case True
    then show ?thesis by (simp add: str_of_nat.simps [of n])
  next
    case False
    from Suc.prems have "n div 10 < 10 ^ Suc k" by simp
    from Suc.IH [OF this] False show ?thesis by (simp add: str_of_nat.simps [of n])
  qed
qed

lemma str_of_nat_3 [simp]: "n < 1000 \<Longrightarrow> length (str_of_nat n) \<le> 3"
  using length_str_of_nat [of n 2] by simp

lemma str_of_nat_2 [simp]: "n < 100 \<Longrightarrow> length (str_of_nat n) \<le> 2"
  using length_str_of_nat [of n 1] by simp

lemma digits_upto_str_of_nat:
  "n < 10 ^ Suc k \<Longrightarrow> digits_upto (Suc k) (str_of_nat n)"
  using length_str_of_nat [of n k] str_of_nat_digits [of n] str_of_nat_not_Nil [of n]
  by (simp add: digits_upto_def Suc_le_eq del: str_of_nat_digits str_of_nat_not_Nil)

lemma split_on_not_Nil [simp]: "split_on d s \<noteq> []"
  by (induction s) (auto split: list.splits)

lemma split_on_no_sep: "d \<notin> set s \<Longrightarrow> split_on d s = [s]"
  by (induction s) auto

lemma split_on_append_sep: "d \<notin> set s \<Longrightarrow> split_on d (s @ d # t) = s # split_on d t"
  by (induction s) auto

lemma split_on_append: "split_on d (a @ d # t) = split_on d a @ split_on d t"
  by (induction a) (auto split: list.splits)

lemma split_on_join:
  "ps \<noteq> [] \<Longrightarrow> \<forall>p \<in> set ps. d \<notin> set p \<Longrightarrow> split_on d (join [d] ps) = ps"
proof (induction ps rule: induct_list012)
  case (2 x)
  then show ?case by (simp add: split_on_no_sep)
next
  case (3 x y zs)
  then show ?case by (simp add: split_on_append_sep)
qed simp

lemma join_split_on [simp]: "join [d] (split_on d s) = s"
proof (induction s)
  case (Cons c cs)
  show ?case
  proof (cases "split_on d cs")
    case Nil
    then show ?thesis by simp
  next
    case (Cons p ps)
    with Cons.IH show ?thesis by (cases ps) auto
  qed
qed simp

lemma split_on_eq_iff:
  "split_on d s = ps \<longleftrightarrow> ps \<noteq> [] \<and> s = join [d] ps \<and> (\<forall>p \<in> set ps. d \<notin> set p)"
proof
  have "\<forall>p \<in> set (split_on d s). d \<notin> set p"
    by (induction s) (auto split: list.splits)
  then show "split_on d s = ps \<Longrightarrow> ps \<noteq> [] \<and> s = join [d] ps \<and> (\<forall>p \<in> set ps. d \<notin> set p)"
    by auto
qed (auto simp: split_on_join)

lemma digit_not_ws: "is_digit c \<Longrightarrow> \<not> js_ws c"
  by (auto simp: is_digit_def js_ws_def)

lemma trim_id:
  assumes "s \<noteq> []" "\<not> js_ws (hd s)" "\<not> js_ws (last s)"
  shows "trim s = s"
proof -
  have "dropWhile js_ws s = s" using assms by (cases s) auto
  moreover have "dropWhile js_ws (rev s) = rev s"
    using assms by (cases s rule: rev_cases) auto
  ultimately show ?thesis by (simp add: trim_def)
qed

lemma trim_no_ws: "\<forall>c \<in> set s. \<not> js_ws c \<Longrightarrow> trim s = s"
  by (cases "s = []") (simp add: trim_def, simp add: trim_id)

lemma set_trim: "set (trim s) \<subseteq> set s"
  unfolding trim_def by (auto dest!: set_dropWhileD)

lemma dropWhile_ends: "dropWhile P xs = [] \<or> \<not> P (hd (dropWhile P xs))"
  using hd_dropWhile [of P xs] by blast

lemma trim_idem [simp]: "trim (trim s) = trim s"
proof (cases "trim s = []")
  case True
  have "trim [] = []" by (simp add: trim_def)
  with True show ?thesis by simp
next
  case False
  let ?d = "dropWhile js_ws s"
  let ?e = "dropWhile js_ws (rev ?d)"
  have e: "?e \<noteq> []" and last: "\<not> js_ws (hd ?e)"
    using False dropWhile_ends [of js_ws "rev ?d"] by (auto simp: trim_def)
  have d: "?d \<noteq> []" using e by (metis dropWhile.simps(1) rev.simps(1))
  then have "\<not> js_ws (hd ?d)" using dropWhile_ends [of js_ws s] by auto
  obtain k where "rev ?d = k @ ?e" using takeWhile_dropWhile_id by metis
  then have "?d = rev ?e @ rev k" by (metis rev_append rev_rev_ident)
  then have "hd ?d = hd (rev ?e)" using e by (metis hd_append rev_is_Nil_conv)
  with last \<open>\<not> js_ws (hd ?d)\<close> e have "trim (rev ?e) = rev ?e"
    by (intro trim_id) (auto simp: last_rev)
  then show ?thesis by (simp add: trim_def)
qed

lemma set_uniq [simp]: "set (uniq xs) = set xs"
  by (simp add: uniq_def)

lemma distinct_uniq [simp]: "distinct (uniq xs)"
  by (simp add: uniq_def)

lemma uniq_id: "distinct xs \<Longrightarrow> uniq xs = xs"
  by (simp add: uniq_def distinct_remdups_id)

lemma set_push_new [simp]: "set (push_new x out) = insert x (set out)"
  by (auto simp: push_new_def)

lemma distinct_push_new: "distinct out \<Longrightarrow> distinct (push_new x out)"
  by (simp add: push_new_def)

subsection \<open>Numbers read from digit strings\<close>

lemma takeWhile_digits: "list_all is_digit s \<Longrightarrow> takeWhile is_digit s = s"
  by (induction s) auto

lemma dropWhile_digits: "list_all is_digit s \<Longrightarrow> dropWhile is_digit s = []"
  by (induction s) auto

lemma trim_digits: "list_all is_digit s \<Longrightarrow> trim s = s"
  by (rule trim_no_ws) (auto simp: list_all_iff digit_not_ws)

lemma decimal_literal_digits:
  "all_digits s \<Longrightarrow> decimal_literal s = Some (of_nat (nat_of_digits s))"
  by (simp add: decimal_literal_def all_digits_def takeWhile_digits dropWhile_digits
      exponent_part_def pow10_def)

lemma unsigned_literal_digits:
  "all_digits s \<Longrightarrow> unsigned_literal s = Fin (of_nat (nat_of_digits s))"
proof -
  assume s: "all_digits s"
  have "s \<noteq> ''Infinity''"
  proof
    assume "s = ''Infinity''"
    with s show False by (simp add: all_digits_def is_digit_def)
  qed
  with s show ?thesis by (simp add: unsigned_literal_def decimal_literal_digits)
qed

lemma str_number_digits:
  assumes "all_digits s"
  shows "str_number s = Fin (of_nat (nat_of_digits s))"
proof -
  obtain c cs where s: "s = c # cs" and c: "is_digit c" and cs: "list_all is_digit cs"
    using assms by (cases s) (auto simp: all_digits_def)
  have two: "take 2 s \<noteq> [a, b]" if "\<not> is_digit b" for a b
    using that cs s by (cases cs) auto
  have "hd s \<noteq> CHR ''-''" "hd s \<noteq> CHR ''+''" "s \<noteq> []" using c s by (auto simp: is_digit_def)
  moreover have "trim s = s" using assms by (simp add: all_digits_def trim_digits)
  moreover have "take 2 s \<notin> {''0x'', ''0X'', ''0o'', ''0O'', ''0b'', ''0B''}"
    by (auto simp: two is_digit_def)
  ultimately show ?thesis
    using unsigned_literal_digits [OF assms] unfolding str_number_def Let_def by simp
qed

lemma all_digits_str_of_nat [simp]: "all_digits (str_of_nat n)"
  by (simp add: all_digits_def)

lemma str_number_str_of_nat [simp]: "str_number (str_of_nat n) = Fin (of_nat n)"
  by (simp add: str_number_digits)

end
