(* ===== verification/Ipv4_Cidr.thy ===== *)
theory Ipv4_Cidr
  imports Js_Prelude
begin

text \<open>
  IPv4 addresses and CIDR texts as backend/internal/agent-ingress-rules.js handles them
  (\<open>ipToInt\<close>, \<open>intToIp\<close>, \<open>canonicalCidr\<close>, \<open>cidrContains\<close>,
  \<open>hostIp\<close>), the overlap test of site-isolation-rules.js and the decimal
  conversions of agent-direct-link-rules.js. The JavaScript operators \<open><<\<close>,
  \<open>&\<close> and \<open>>>>\<close> work on 32 bits, so an address is a \<^typ>\<open>32 word\<close>.
  A CIDR text denotes a set of addresses; containment and overlap of texts are proved to be
  inclusion and intersection of these sets, and the canonical text is proved unique.
\<close>

unbundle bit_operations_syntax

type_synonym addr = "32 word"

subsection \<open>Addresses\<close>

text \<open>\<open>IPV4_RE.exec(ip)\<close>: the four groups of one to three digits.\<close>

definition ipv4_groups :: "string \<Rightarrow> (nat \<times> nat \<times> nat \<times> nat) option" where
  "ipv4_groups ip = (case split_on CHR ''.'' ip of
       [a, b, c, d] \<Rightarrow>
         if list_all (digits_upto 3) [a, b, c, d]
         then Some (nat_of_digits a, nat_of_digits b, nat_of_digits c, nat_of_digits d)
         else None
     | _ \<Rightarrow> None)"

definition ipToInt :: "string \<Rightarrow> addr option" where
  "ipToInt ip = (case ipv4_groups ip of
       None \<Rightarrow> None
     | Some (a, b, c, d) \<Rightarrow>
         if a > 255 \<or> b > 255 \<or> c > 255 \<or> d > 255 then None
         else Some (push_bit 24 (of_nat a) + push_bit 16 (of_nat b)
                    + push_bit 8 (of_nat c) + of_nat d))"

definition octet :: "nat \<Rightarrow> addr \<Rightarrow> nat" where
  "octet k n = unat (drop_bit k n AND 255)"

definition intToIp :: "addr \<Rightarrow> string" where
  "intToIp n = join ''.'' [str_of_nat (octet 24 n), str_of_nat (octet 16 n),
                           str_of_nat (octet 8 n), str_of_nat (octet 0 n)]"

subsection \<open>CIDR texts\<close>

definition prefix_mask :: "nat \<Rightarrow> addr" where
  "prefix_mask p = (if p = 0 then 0 else push_bit (32 - p) (- 1))"

definition cidr_text :: "addr \<Rightarrow> nat \<Rightarrow> string" where
  "cidr_text n p = intToIp n @ CHR ''/'' # str_of_nat p"

definition canonicalCidr :: "string \<Rightarrow> string option" where
  "canonicalCidr value =
     (let s = trim value
      in if s = [] then None
         else (case split_on CHR ''/'' s of
             [addr] \<Rightarrow>
               (case ipToInt addr of None \<Rightarrow> None
                | Some n \<Rightarrow> Some (cidr_text (n AND prefix_mask 32) 32))
           | [addr, prefixStr] \<Rightarrow>
               (case ipToInt addr of None \<Rightarrow> None
                | Some n \<Rightarrow>
                   if \<not> digits_upto 2 prefixStr then None
                   else (let prefix = nat_of_digits prefixStr
                         in if prefix > 32 then None
                            else Some (cidr_text (n AND prefix_mask prefix) prefix)))
           | _ \<Rightarrow> None))"

text \<open>The call on a request value: \<open>String(value ?? "")\<close> first.\<close>

definition canonicalCidr_of :: "jsval \<Rightarrow> string option" where
  "canonicalCidr_of v = canonicalCidr (str_or_empty v)"

text \<open>\<open>const [addr, p] = c.split("/")\<close> of a canonical text.\<close>

definition cidr_addr :: "string \<Rightarrow> string" where
  "cidr_addr c = split_on CHR ''/'' c ! 0"

definition cidr_prefix :: "string \<Rightarrow> nat" where
  "cidr_prefix c = (case split_on CHR ''/'' c of _ # p # _ \<Rightarrow> nat_of_digits p | _ \<Rightarrow> 0)"

definition cidrContains :: "string \<Rightarrow> string \<Rightarrow> bool" where
  "cidrContains outer inner =
     (case (canonicalCidr outer, canonicalCidr inner) of
        (Some o', Some i') \<Rightarrow>
          if cidr_prefix i' < cidr_prefix o' then False
          else (let mask = prefix_mask (cidr_prefix o')
                in (case (ipToInt (cidr_addr i'), ipToInt (cidr_addr o')) of
                      (Some x, Some y) \<Rightarrow> x AND mask = y AND mask
                    | _ \<Rightarrow> False))
      | _ \<Rightarrow> False)"

definition cidrOverlaps :: "string \<Rightarrow> string \<Rightarrow> bool" where
  "cidrOverlaps x y \<longleftrightarrow> cidrContains x y \<or> cidrContains y x"

definition hostIp :: "string \<Rightarrow> string" where
  "hostIp cidr = (if ends_with ''/32'' cidr then take (length cidr - 3) cidr else cidr)"

text \<open>The address arithmetic of agent-direct-link-rules.js and site-isolation-rules.js:
  \<open>ip.split(".").reduce((acc, o) => acc * 256 + Number(o), 0)\<close> and back.\<close>

definition ip_reduce :: "string \<Rightarrow> nat" where
  "ip_reduce ip = foldl (\<lambda>acc o'. acc * 256 + nat_of_digits o') 0 (split_on CHR ''.'' ip)"

definition ip_of_nat :: "nat \<Rightarrow> string" where
  "ip_of_nat n = join ''.'' (map (\<lambda>s. str_of_nat ((n div 2 ^ s) mod 256)) [24, 16, 8, 0])"

subsection \<open>The addresses a network covers\<close>

type_synonym net = "addr \<times> nat"

definition net_set :: "net \<Rightarrow> addr set" where
  "net_set N = {x. x AND prefix_mask (snd N) = fst N AND prefix_mask (snd N)}"

text \<open>Reading a text as a network: masked address and prefix length.\<close>

definition net_of :: "string \<Rightarrow> net option" where
  "net_of s = (case canonicalCidr s of None \<Rightarrow> None
     | Some c \<Rightarrow> (case ipToInt (cidr_addr c) of None \<Rightarrow> None
                 | Some n \<Rightarrow> Some (n, cidr_prefix c)))"

definition cidr_set :: "string \<Rightarrow> addr set option" where
  "cidr_set s = map_option net_set (net_of s)"

definition is_canonical :: "string \<Rightarrow> bool" where
  "is_canonical s \<longleftrightarrow> canonicalCidr s = Some s"

subsection \<open>Printing and reading addresses\<close>

lemma octet_lt: "octet k n < 256"
proof -
  have "unat (drop_bit k n AND 255) \<le> unat (255 :: addr)"
    by (rule word_and_le1 [THEN word_le_nat_alt [THEN iffD1]])
  then show ?thesis by (simp add: octet_def)
qed

lemma octet_eq: "octet k n = unat n div 2 ^ k mod 256"
proof -
  have "drop_bit k n AND 255 = take_bit 8 (drop_bit k n)"
    by (simp add: take_bit_eq_mask mask_eq_exp_minus_1)
  then show ?thesis
    unfolding octet_def by (simp only: unsigned_take_bit_eq unat_drop_bit_eq)
      (simp add: take_bit_eq_mod drop_bit_eq_div)
qed

lemma base256: "n < 2 ^ 32 \<Longrightarrow>
  n div 2 ^ 24 mod 256 * 2 ^ 24 + n div 2 ^ 16 mod 256 * 2 ^ 16 + n div 2 ^ 8 mod 256 * 2 ^ 8
    + n mod 256 = n" for n :: nat
proof -
  assume n: "n < 2 ^ 32"
  have digits: "q * 16777216 + r2 * 65536 + r1 * 256 + r0 = n"
    if "a * 256 + r0 = n" "b * 256 + r1 = a" "q * 256 + r2 = b" for a b q r0 r1 r2 :: nat
    using that by simp
  have b: "n div 256 div 256 = n div 65536" and q: "n div 65536 div 256 = n div 16777216"
    using div_mult2_eq [of n 256 256] div_mult2_eq [of n 65536 256] by simp_all
  have "n div 16777216 mod 256 = n div 16777216" using n by (intro mod_less) simp
  moreover have "n div 16777216 * 16777216 + n div 65536 mod 256 * 65536
      + n div 256 mod 256 * 256 + n mod 256 = n"
  proof (rule digits)
    show "n div 256 * 256 + n mod 256 = n" by (rule div_mult_mod_eq)
    show "n div 65536 * 256 + n div 256 mod 256 = n div 256"
      using div_mult_mod_eq [of "n div 256" 256] unfolding b .
    show "n div 16777216 * 256 + n div 65536 mod 256 = n div 65536"
      using div_mult_mod_eq [of "n div 65536" 256] unfolding q .
  qed
  ultimately show ?thesis by simp
qed

lemma octets_sum:
  "push_bit 24 (of_nat (octet 24 n)) + push_bit 16 (of_nat (octet 16 n))
     + push_bit 8 (of_nat (octet 8 n)) + of_nat (octet 0 n) = n"
proof -
  have "unat n < 2 ^ 32" using unsigned_less [of n] by simp
  then have "of_nat (octet 24 n * 2 ^ 24 + octet 16 n * 2 ^ 16 + octet 8 n * 2 ^ 8 + octet 0 n) = n"
    using base256 [of "unat n"] by (simp add: octet_eq)
  then show ?thesis by (simp add: push_bit_eq_mult)
qed

lemma dot_not_digit: "list_all is_digit s \<Longrightarrow> CHR ''.'' \<notin> set s"
  by (auto simp: list_all_iff is_digit_def)

lemma slash_not_digit: "list_all is_digit s \<Longrightarrow> CHR ''/'' \<notin> set s"
  by (auto simp: list_all_iff is_digit_def)

lemma split_intToIp:
  "split_on CHR ''.'' (intToIp n) =
     [str_of_nat (octet 24 n), str_of_nat (octet 16 n), str_of_nat (octet 8 n), str_of_nat (octet 0 n)]"
  unfolding intToIp_def by (rule split_on_join) (auto simp: dot_not_digit)

lemma digits_upto_octet: "digits_upto 3 (str_of_nat (octet k n))"
  using digits_upto_str_of_nat [of "octet k n" 2] octet_lt [of k n] by simp

lemma ipToInt_intToIp [simp]: "ipToInt (intToIp n) = Some n"
proof -
  have "\<not> octet k n > 255" for k using octet_lt [of k n] by simp
  then show ?thesis
    by (simp add: ipToInt_def ipv4_groups_def split_intToIp digits_upto_octet octets_sum)
qed

lemma intToIp_inject [simp]: "intToIp m = intToIp n \<longleftrightarrow> m = n"
  by (metis ipToInt_intToIp option.inject)

lemma set_intToIp: "c \<in> set (intToIp n) \<Longrightarrow> is_digit c \<or> c = CHR ''.''"
  using str_of_nat_digits unfolding intToIp_def list_all_iff by auto

lemma slash_not_intToIp: "CHR ''/'' \<notin> set (intToIp n)"
  using set_intToIp [of "CHR ''/''" n] by (auto simp: is_digit_def)

subsection \<open>Canonical texts\<close>

lemma cidr_text_no_ws: "c \<in> set (cidr_text n p) \<Longrightarrow> \<not> js_ws c"
  using set_intToIp [of c n] str_of_nat_digits [of p] digit_not_ws [of c]
  by (auto simp: cidr_text_def list_all_iff js_ws_def simp del: str_of_nat_digits)

lemma trim_cidr_text [simp]: "trim (cidr_text n p) = cidr_text n p"
  by (rule trim_no_ws) (auto dest: cidr_text_no_ws)

lemma cidr_text_not_Nil [simp]: "cidr_text n p \<noteq> []"
  by (simp add: cidr_text_def)

lemma split_cidr_text [simp]: "split_on CHR ''/'' (cidr_text n p) = [intToIp n, str_of_nat p]"
  by (simp add: cidr_text_def split_on_append_sep slash_not_intToIp split_on_no_sep slash_not_digit)

lemma cidr_addr_text [simp]: "cidr_addr (cidr_text n p) = intToIp n"
  by (simp add: cidr_addr_def)

lemma cidr_prefix_text [simp]: "cidr_prefix (cidr_text n p) = p"
  by (simp add: cidr_prefix_def)

lemma cidr_text_inject [simp]: "cidr_text m p = cidr_text n q \<longleftrightarrow> m = n \<and> p = q"
  by (metis cidr_addr_text cidr_prefix_text intToIp_inject)

lemma canonicalCidr_text: "p \<le> 32 \<Longrightarrow>
  canonicalCidr (cidr_text n p) = Some (cidr_text (n AND prefix_mask p) p)"
  using digits_upto_str_of_nat [of p 1] by (simp add: canonicalCidr_def numeral_2_eq_2)

lemma mask_idem [simp]: "(n AND prefix_mask p) AND prefix_mask p = n AND prefix_mask p"
  by (simp add: and.assoc)

lemma canonicalCidr_cases:
  assumes "canonicalCidr s = Some c"
  obtains n p where "p \<le> 32" "n AND prefix_mask p = n" "c = cidr_text n p"
proof -
  from assms obtain n p where "p \<le> 32" and "c = cidr_text (n AND prefix_mask p) p"
    unfolding canonicalCidr_def Let_def
    by (auto split: if_splits list.splits option.splits)
  then show ?thesis using that [of p "n AND prefix_mask p"] by simp
qed

lemma canonicalCidr_idem: "canonicalCidr s = Some c \<Longrightarrow> canonicalCidr c = Some c"
  by (erule canonicalCidr_cases) (simp add: canonicalCidr_text)

lemma canonical_is_canonical: "canonicalCidr s = Some c \<Longrightarrow> is_canonical c"
  by (simp add: is_canonical_def canonicalCidr_idem)

lemma canonicalCidr_not_Nil: "canonicalCidr s = Some c \<Longrightarrow> c \<noteq> []"
  by (erule canonicalCidr_cases) simp

lemma canonicalCidr_Nil [simp]: "canonicalCidr [] = None"
  by (simp add: canonicalCidr_def trim_def)

lemma net_of_cases:
  assumes "net_of s = Some N"
  obtains n p where "N = (n, p)" "p \<le> 32" "n AND prefix_mask p = n"
    "canonicalCidr s = Some (cidr_text n p)"
  using assms unfolding net_of_def
  by (auto split: option.splits elim!: canonicalCidr_cases)

lemma net_of_text: "p \<le> 32 \<Longrightarrow> net_of (cidr_text n p) = Some (n AND prefix_mask p, p)"
  by (simp add: net_of_def canonicalCidr_text)

lemma canonicalCidr_net_of:
  "canonicalCidr s = map_option (\<lambda>(n, p). cidr_text n p) (net_of s)"
  unfolding net_of_def by (auto split: option.splits elim!: canonicalCidr_cases)

lemma net_of_canonical: "canonicalCidr s = Some c \<Longrightarrow> net_of c = net_of s"
  by (simp add: net_of_def canonicalCidr_idem)

lemma net_of_None_iff: "net_of s = None \<longleftrightarrow> canonicalCidr s = None"
  by (simp add: canonicalCidr_net_of)

lemma net_of_inject_canonical:
  "is_canonical s \<Longrightarrow> is_canonical t \<Longrightarrow> net_of s = net_of t \<Longrightarrow> s = t"
  by (metis canonicalCidr_net_of is_canonical_def option.inject)

subsection \<open>Containment is inclusion\<close>

lemma cidrContains_net_of:
  "cidrContains outer inner \<longleftrightarrow> (\<exists>a p b q. net_of outer = Some (a, p) \<and> net_of inner = Some (b, q)
     \<and> p \<le> q \<and> b AND prefix_mask p = a)"
proof (cases "net_of outer")
  case None
  then show ?thesis using net_of_None_iff [of outer] by (simp add: cidrContains_def)
next
  case (Some N)
  then obtain a p where o': "N = (a, p)" "p \<le> 32" "a AND prefix_mask p = a"
    "canonicalCidr outer = Some (cidr_text a p)" by (rule net_of_cases)
  show ?thesis
  proof (cases "net_of inner")
    case None
    then show ?thesis
      using net_of_None_iff [of inner] by (simp add: cidrContains_def split: option.splits)
  next
    case (Some M)
    then obtain b q where "M = (b, q)" "canonicalCidr inner = Some (cidr_text b q)"
      by (rule net_of_cases)
    with Some o' \<open>net_of outer = Some N\<close> show ?thesis by (auto simp: cidrContains_def)
  qed
qed

lemma bit_prefix_mask: "p \<le> 32 \<Longrightarrow> bit (prefix_mask p) k \<longleftrightarrow> 32 - p \<le> k \<and> k < 32"
  by (auto simp: prefix_mask_def bit_not_iff bit_mask_iff)

lemma mask_le: "p \<le> q \<Longrightarrow> q \<le> 32 \<Longrightarrow> prefix_mask q AND prefix_mask p = prefix_mask p"
  by (rule bit_word_eqI) (auto simp: bit_and_iff bit_prefix_mask)

lemma and_mask_le:
  "p \<le> q \<Longrightarrow> q \<le> 32 \<Longrightarrow> (x AND prefix_mask q) AND prefix_mask p = x AND prefix_mask p"
  by (simp add: and.assoc mask_le)

lemma mask_eq_mono:
  assumes "x AND prefix_mask q = y AND prefix_mask q" "p \<le> q" "q \<le> 32"
  shows "x AND prefix_mask p = y AND prefix_mask p"
proof -
  have "x AND prefix_mask p = (x AND prefix_mask q) AND prefix_mask p"
    by (rule sym) (rule and_mask_le [OF assms(2,3)])
  also note assms(1)
  also have "(y AND prefix_mask q) AND prefix_mask p = y AND prefix_mask p"
    by (rule and_mask_le [OF assms(2,3)])
  finally show ?thesis .
qed

lemma net_set_subset_iff:
  assumes p: "p \<le> 32" and q: "q \<le> 32" and b: "b AND prefix_mask q = b" and a: "a AND prefix_mask p = a"
  shows "net_set (b, q) \<subseteq> net_set (a, p) \<longleftrightarrow> p \<le> q \<and> b AND prefix_mask p = a"
proof
  assume sub: "net_set (b, q) \<subseteq> net_set (a, p)"
  have "b \<in> net_set (b, q)" by (simp add: net_set_def)
  with sub a have ba: "b AND prefix_mask p = a" by (auto simp: net_set_def)
  have "p \<le> q"
  proof (rule ccontr)
    assume "\<not> p \<le> q"
    then have k: "32 - p < 32 - q" "32 - p < 32" using p by auto
    let ?x = "flip_bit (32 - p) b"
    have "?x AND prefix_mask q = b AND prefix_mask q"
      using k q by (intro bit_word_eqI) (auto simp: bit_and_iff bit_prefix_mask bit_flip_bit_iff)
    then have "?x \<in> net_set (a, p)" using sub by (auto simp: net_set_def)
    then have "?x AND prefix_mask p = b AND prefix_mask p" using ba a by (simp add: net_set_def)
    moreover have "bit (?x AND prefix_mask p) (32 - p) \<noteq> bit (b AND prefix_mask p) (32 - p)"
      using k p by (auto simp: bit_and_iff bit_prefix_mask bit_flip_bit_iff)
    ultimately show False by simp
  qed
  with ba show "p \<le> q \<and> b AND prefix_mask p = a" by simp
next
  assume pq: "p \<le> q \<and> b AND prefix_mask p = a"
  show "net_set (b, q) \<subseteq> net_set (a, p)"
  proof
    fix x assume "x \<in> net_set (b, q)"
    then have "x AND prefix_mask q = b AND prefix_mask q" by (simp add: net_set_def)
    then have "x AND prefix_mask p = b AND prefix_mask p"
      using pq q by (blast intro: mask_eq_mono)
    also have "\<dots> = a AND prefix_mask p" using pq a by (elim conjE) (rule trans, assumption, rule sym)
    finally show "x \<in> net_set (a, p)"
      by (simp only: net_set_def mem_Collect_eq fst_conv snd_conv)
  qed
qed

lemma cidrContains_iff_subset:
  "cidrContains outer inner \<longleftrightarrow>
     (\<exists>A B. cidr_set outer = Some A \<and> cidr_set inner = Some B \<and> B \<subseteq> A)"
proof (cases "net_of outer = None \<or> net_of inner = None")
  case True
  then show ?thesis by (auto simp: cidrContains_net_of cidr_set_def)
next
  case False
  then obtain N M where N: "net_of outer = Some N" and M: "net_of inner = Some M" by auto
  from N obtain a p where "N = (a, p)" "p \<le> 32" "a AND prefix_mask p = a" by (rule net_of_cases)
  moreover from M obtain b q where "M = (b, q)" "q \<le> 32" "b AND prefix_mask q = b"
    by (rule net_of_cases)
  ultimately show ?thesis
    using N M by (simp add: cidrContains_net_of cidr_set_def net_set_subset_iff)
qed

lemma net_sets_laminar:
  assumes "p \<le> q" "q \<le> 32" "x \<in> net_set (a, p)" "x \<in> net_set (b, q)"
  shows "net_set (b, q) \<subseteq> net_set (a, p)"
proof
  fix y assume "y \<in> net_set (b, q)"
  with assms(4) have "y AND prefix_mask q = x AND prefix_mask q" by (simp add: net_set_def)
  then have "y AND prefix_mask p = x AND prefix_mask p" using assms(1,2) by (rule mask_eq_mono)
  with assms(3) show "y \<in> net_set (a, p)" by (simp add: net_set_def)
qed

lemma net_set_not_empty: "net_set N \<noteq> {}"
  by (auto simp: net_set_def)

lemma cidr_sets_laminar:
  assumes "cidr_set s = Some A" "cidr_set t = Some B" "A \<inter> B \<noteq> {}"
  shows "A \<subseteq> B \<or> B \<subseteq> A"
proof -
  from assms obtain N M where N: "net_of s = Some N" "A = net_set N" and M: "net_of t = Some M" "B = net_set M"
    by (auto simp: cidr_set_def)
  obtain a p where "N = (a, p)" "p \<le> 32" using N(1) by (rule net_of_cases)
  moreover obtain b q where "M = (b, q)" "q \<le> 32" using M(1) by (rule net_of_cases)
  ultimately show ?thesis
    using assms(3) N M net_sets_laminar [of p q _ a b] net_sets_laminar [of q p _ b a]
    by (cases "p \<le> q") auto
qed

subsection \<open>The laws of network texts\<close>

text \<open>
  What every component relies on when it compares networks: each text denotes a set of
  addresses or nothing, containment is inclusion, and two networks are nested or disjoint.
\<close>

locale network_texts =
  fixes den :: "'s \<Rightarrow> 'a set option"
    and contains :: "'s \<Rightarrow> 's \<Rightarrow> bool"
  assumes contains_iff:
      "contains x y \<longleftrightarrow> (\<exists>A B. den x = Some A \<and> den y = Some B \<and> B \<subseteq> A)"
    and laminar: "den s = Some A \<Longrightarrow> den t = Some B \<Longrightarrow> A \<inter> B \<noteq> {} \<Longrightarrow> A \<subseteq> B \<or> B \<subseteq> A"
    and nonempty: "den s = Some A \<Longrightarrow> A \<noteq> {}"
begin

lemma contains_refl_iff: "contains x x \<longleftrightarrow> den x \<noteq> None"
  by (auto simp: contains_iff)

lemma contains_trans: "contains x y \<Longrightarrow> contains y z \<Longrightarrow> contains x z"
  by (fastforce simp: contains_iff)

lemma contains_valid: "contains x y \<Longrightarrow> den x \<noteq> None \<and> den y \<noteq> None"
  by (auto simp: contains_iff)

lemma overlap_iff:
  "contains x y \<or> contains y x \<longleftrightarrow> (\<exists>A B. den x = Some A \<and> den y = Some B \<and> A \<inter> B \<noteq> {})"
proof
  assume "contains x y \<or> contains y x"
  then show "\<exists>A B. den x = Some A \<and> den y = Some B \<and> A \<inter> B \<noteq> {}"
    using nonempty by (fastforce simp: contains_iff)
next
  assume "\<exists>A B. den x = Some A \<and> den y = Some B \<and> A \<inter> B \<noteq> {}"
  then obtain A B where AB: "den x = Some A" "den y = Some B" "A \<inter> B \<noteq> {}" by blast
  from laminar [OF this] AB show "contains x y \<or> contains y x" by (auto simp: contains_iff)
qed

text \<open>Every member of a finite collection lies in a member no other one contains.\<close>

lemma maximal_above:
  assumes "finite N" "n \<in> N" "den n \<noteq> None" and inj: "inj_on den N"
  shows "\<exists>m \<in> N. contains m n \<and> \<not> (\<exists>k \<in> N. k \<noteq> m \<and> contains k m)"
proof -
  let ?S = "{m \<in> N. contains m n}"
  let ?d = "\<lambda>m. the (den m)"
  have "finite (?d ` ?S)" and "?d ` ?S \<noteq> {}"
    using assms(1-3) by (auto simp: contains_refl_iff)
  from finite_has_maximal [OF this]
  obtain D where D: "D \<in> ?d ` ?S" and max: "\<forall>E \<in> ?d ` ?S. D \<le> E \<longrightarrow> D = E" by metis
  from D obtain m where m: "m \<in> N" "contains m n" "D = ?d m" by blast
  have "k = m" if k: "k \<in> N" "contains k m" for k
  proof -
    have "contains k n" using k(2) m(2) by (rule contains_trans)
    moreover have "D \<subseteq> ?d k" using k(2) m(3) by (auto simp: contains_iff)
    ultimately have "D = ?d k" using k(1) max by (simp add: image_iff)
    then have "den k = den m" using m(3) contains_valid [OF k(2)] by auto
    with inj k(1) m(1) show ?thesis by (auto simp: inj_on_def)
  qed
  with m show ?thesis by blast
qed

lemma drop_contained_covers:
  assumes "inj_on den (set ns)" and "\<forall>n \<in> set ns. den n \<noteq> None"
  shows "(\<Union>n \<in> set (filter (\<lambda>n. \<not> (\<exists>k \<in> set ns. k \<noteq> n \<and> contains k n)) ns). the (den n))
       = (\<Union>n \<in> set ns. the (den n))" (is "?L = ?R")
proof
  show "?R \<subseteq> ?L"
  proof
    fix x assume "x \<in> ?R"
    then obtain n where n: "n \<in> set ns" "x \<in> the (den n)" by blast
    obtain m where "m \<in> set ns" "contains m n" "\<not> (\<exists>k \<in> set ns. k \<noteq> m \<and> contains k m)"
      using maximal_above [OF finite_set n(1) _ assms(1)] assms(2) n(1) by blast
    then show "x \<in> ?L" using n(2) by (force simp: contains_iff)
  qed
qed auto

lemma drop_contained_disjoint:
  assumes "m \<in> set (filter (\<lambda>n. \<not> (\<exists>k \<in> set ns. k \<noteq> n \<and> contains k n)) ns)"
    and "n \<in> set (filter (\<lambda>n. \<not> (\<exists>k \<in> set ns. k \<noteq> n \<and> contains k n)) ns)"
    and "m \<noteq> n" "den m = Some A" "den n = Some B"
  shows "A \<inter> B = {}"
proof (rule ccontr)
  assume "A \<inter> B \<noteq> {}"
  then have "contains m n \<or> contains n m" using assms(4,5) overlap_iff by blast
  with assms(1-3) show False by auto
qed

end

interpretation cidr: network_texts cidr_set cidrContains
proof
  fix s t :: string and A B :: "addr set"
  show "cidrContains s t \<longleftrightarrow> (\<exists>A B. cidr_set s = Some A \<and> cidr_set t = Some B \<and> B \<subseteq> A)"
    by (rule cidrContains_iff_subset)
  show "cidr_set s = Some A \<Longrightarrow> cidr_set t = Some B \<Longrightarrow> A \<inter> B \<noteq> {} \<Longrightarrow> A \<subseteq> B \<or> B \<subseteq> A"
    by (rule cidr_sets_laminar)
  show "cidr_set s = Some A \<Longrightarrow> A \<noteq> {}"
    by (auto simp: cidr_set_def net_set_not_empty)
qed

lemma cidr_set_None_iff: "cidr_set s = None \<longleftrightarrow> canonicalCidr s = None"
  by (simp add: cidr_set_def net_of_None_iff)

lemma cidr_set_canonical: "canonicalCidr s = Some c \<Longrightarrow> cidr_set c = cidr_set s"
  by (simp add: cidr_set_def net_of_canonical)

lemma cidrContains_canonical:
  "canonicalCidr s = Some c \<Longrightarrow> cidrContains x c = cidrContains x s \<and> cidrContains c y = cidrContains s y"
  by (simp add: cidr.contains_iff cidr_set_canonical)

lemma net_set_inject:
  assumes "p \<le> 32" "q \<le> 32" "a AND prefix_mask p = a" "b AND prefix_mask q = b"
    "net_set (a, p) = net_set (b, q)"
  shows "a = b \<and> p = q"
  using net_set_subset_iff [OF assms(1,2,4,3)] net_set_subset_iff [OF assms(2,1,3,4)] assms by auto

text \<open>Two canonical texts that denote the same addresses are the same text.\<close>

lemma cidr_set_inject:
  assumes "is_canonical s" "is_canonical t" "cidr_set s = cidr_set t"
  shows "s = t"
proof -
  obtain a p where s: "p \<le> 32" "a AND prefix_mask p = a" "s = cidr_text a p"
    using assms(1) unfolding is_canonical_def by (rule canonicalCidr_cases)
  obtain b q where t: "q \<le> 32" "b AND prefix_mask q = b" "t = cidr_text b q"
    using assms(2) unfolding is_canonical_def by (rule canonicalCidr_cases)
  have "net_set (a, p) = net_set (b, q)"
    using assms(3) s t by (simp add: cidr_set_def net_of_text)
  with s t show ?thesis using net_set_inject by blast
qed

lemma inj_on_cidr_set: "\<forall>s \<in> S. is_canonical s \<Longrightarrow> inj_on cidr_set S"
  by (auto intro!: inj_onI cidr_set_inject)

lemma cidrContains_antisym:
  "is_canonical s \<Longrightarrow> is_canonical t \<Longrightarrow> cidrContains s t \<Longrightarrow> cidrContains t s \<Longrightarrow> s = t"
  by (auto simp: cidr.contains_iff intro!: cidr_set_inject)

lemma prefix_mask_32 [simp]: "prefix_mask 32 = - 1"
  by (simp add: prefix_mask_def)

lemma prefix_mask_0 [simp]: "prefix_mask 0 = 0"
  by (simp add: prefix_mask_def)

lemma cidr_set_host: "cidr_set (cidr_text n 32) = Some {n}"
  by (simp add: cidr_set_def net_of_text net_set_def)

text \<open>Membership of one address, as a filter tests it.\<close>

definition in_cidr :: "addr \<Rightarrow> string \<Rightarrow> bool" where
  "in_cidr x s = (case net_of s of None \<Rightarrow> False
     | Some (a, p) \<Rightarrow> x AND prefix_mask p = a AND prefix_mask p)"

lemma in_cidr_iff: "in_cidr x s \<longleftrightarrow> (\<exists>A. cidr_set s = Some A \<and> x \<in> A)"
  by (auto simp: in_cidr_def cidr_set_def net_set_def split: option.splits)

lemma in_cidr_contains: "in_cidr x s \<longleftrightarrow> cidrContains s (cidr_text x 32)"
  by (auto simp: in_cidr_iff cidr.contains_iff cidr_set_host)

lemma str_32: "str_of_nat 32 = ''32''"
  by code_simp

lemma hostIp_text: "hostIp (cidr_text n 32) = intToIp n"
proof -
  have t: "cidr_text n 32 = intToIp n @ ''/32''"
    using str_32 by (simp add: cidr_text_def)
  show ?thesis unfolding hostIp_def t by (simp add: ends_with_def starts_with_def)
qed

lemma ip_reduce_text: "ip_reduce (intToIp n) = unat n"
proof -
  have "unat n < 2 ^ 32" using unsigned_less [of n] by simp
  then show ?thesis using base256 [of "unat n"]
    by (simp add: ip_reduce_def split_intToIp octet_eq)
qed

lemma ip_of_nat_unat: "ip_of_nat (unat n) = intToIp n"
  by (simp add: ip_of_nat_def intToIp_def octet_eq)

subsection \<open>Code equations\<close>

text \<open>The same values without bit shifts of words, so that concrete texts evaluate quickly.\<close>

lemma prefix_mask_code [code]: "prefix_mask p = (if p = 0 then 0 else of_nat (2 ^ 32 - 2 ^ (32 - p)))"
proof (cases "p = 0")
  case False
  have le: "(2 :: nat) ^ (32 - p) \<le> 2 ^ 32" by (rule power_increasing) simp_all
  have "push_bit (32 - p) (- 1 :: addr) = - of_nat (2 ^ (32 - p))"
    by (simp add: push_bit_eq_mult)
  also have "\<dots> = of_nat (2 ^ 32) - of_nat (2 ^ (32 - p))" by simp
  also have "\<dots> = of_nat (2 ^ 32 - 2 ^ (32 - p))" by (rule of_nat_diff [symmetric, OF le])
  finally show ?thesis using False by (simp add: prefix_mask_def)
qed (simp add: prefix_mask_def)

lemma octets_code:
  "push_bit 24 (of_nat a) + push_bit 16 (of_nat b) + push_bit 8 (of_nat c) + of_nat d
   = (of_nat (((a * 256 + b) * 256 + c) * 256 + d) :: addr)"
  by (simp add: push_bit_eq_mult algebra_simps)

lemma ipToInt_code [code]:
  "ipToInt ip = (case ipv4_groups ip of
       None \<Rightarrow> None
     | Some (a, b, c, d) \<Rightarrow>
         if a > 255 \<or> b > 255 \<or> c > 255 \<or> d > 255 then None
         else Some (of_nat (((a * 256 + b) * 256 + c) * 256 + d)))"
  unfolding ipToInt_def octets_code ..

lemma octet_code [code]: "octet k n = unat n div 2 ^ k mod 256"
  by (rule octet_eq)

lemma intToIp_code [code]: "intToIp n = ip_of_nat (unat n)"
  by (rule ip_of_nat_unat [symmetric])

text \<open>Reading a text as a network directly, without printing and re-reading it.\<close>

definition net_masked :: "addr \<Rightarrow> nat \<Rightarrow> net option" where
  "net_masked n p = (if p > 32 then None else Some (n AND prefix_mask p, p))"

definition net_parse :: "string list \<Rightarrow> net option" where
  "net_parse parts = (case parts of
       [a] \<Rightarrow> (case ipToInt a of None \<Rightarrow> None | Some n \<Rightarrow> Some (n, 32))
     | [a, p] \<Rightarrow> (case ipToInt a of None \<Rightarrow> None
         | Some n \<Rightarrow> if digits_upto 2 p then net_masked n (nat_of_digits p) else None)
     | _ \<Rightarrow> None)"

lemma canonicalCidr_parse:
  "canonicalCidr s = map_option (\<lambda>(n, p). cidr_text n p) (net_parse (split_on CHR ''/'' (trim s)))"
proof (cases "trim s = []")
  case True
  have "ipToInt [] = None" by (simp add: ipToInt_def ipv4_groups_def)
  with True show ?thesis by (simp add: canonicalCidr_def net_parse_def)
next
  case False
  then show ?thesis unfolding canonicalCidr_def net_parse_def net_masked_def Let_def
    by (simp split: list.split option.split)
qed

lemma net_parse_masked: "net_parse ps = Some (n, p) \<Longrightarrow> p \<le> 32 \<and> n AND prefix_mask p = n"
  by (auto simp: net_parse_def net_masked_def split: list.split_asm option.split_asm if_split_asm)

lemma net_of_code [code]: "net_of s = net_parse (split_on CHR ''/'' (trim s))"
proof (cases "net_parse (split_on CHR ''/'' (trim s))")
  case None
  then show ?thesis by (simp add: net_of_None_iff canonicalCidr_parse)
next
  case (Some N)
  then obtain n p where N: "N = (n, p)" "p \<le> 32" "n AND prefix_mask p = n"
    using net_parse_masked by (cases N) auto
  with Some have "canonicalCidr s = Some (cidr_text n p)" by (simp add: canonicalCidr_parse)
  with Some N show ?thesis by (simp add: net_of_def)
qed

lemma canonicalCidr_code [code]:
  "canonicalCidr s = map_option (\<lambda>(n, p). cidr_text n p) (net_of s)"
  by (rule canonicalCidr_net_of)

fun net_contains :: "net option \<Rightarrow> net option \<Rightarrow> bool" where
  "net_contains (Some (a, p)) (Some (b, q)) = (p \<le> q \<and> b AND prefix_mask p = a)"
| "net_contains _ _ = False"

lemma cidrContains_code [code]: "cidrContains x y = net_contains (net_of x) (net_of y)"
  unfolding cidrContains_net_of by (auto elim!: net_contains.elims)

subsection \<open>A network as an interval of numbers\<close>

lemma and_mask_eq_iff:
  assumes "p \<le> 32"
  shows "x AND prefix_mask p = y AND prefix_mask p \<longleftrightarrow> unat x div 2 ^ (32 - p) = unat y div 2 ^ (32 - p)"
proof -
  have "x AND prefix_mask p = y AND prefix_mask p \<longleftrightarrow> (\<forall>k. 32 - p \<le> k \<and> k < 32 \<longrightarrow> bit x k = bit y k)"
    using assms by (auto simp: bit_eq_iff bit_and_iff bit_prefix_mask)
  also have "\<dots> \<longleftrightarrow> (\<forall>k. bit x (32 - p + k) = bit y (32 - p + k))" (is "?L \<longleftrightarrow> ?R")
  proof
    assume h: ?L
    show ?R
    proof
      fix k
      show "bit x (32 - p + k) = bit y (32 - p + k)"
        using h bit_imp_le_length [of x "32 - p + k"] bit_imp_le_length [of y "32 - p + k"]
        by (cases "32 - p + k < 32") auto
    qed
  next
    assume h: ?R
    show ?L
    proof (intro allI impI)
      fix k assume "32 - p \<le> k \<and> k < 32"
      then show "bit x k = bit y k" using h by (metis le_add_diff_inverse)
    qed
  qed
  also have "\<dots> \<longleftrightarrow> drop_bit (32 - p) x = drop_bit (32 - p) y"
  proof -
    have "bit z (32 - p + k) \<Longrightarrow> k < 32" for z :: addr and k
      using bit_imp_le_length [of z "32 - p + k"] by simp
    then show ?thesis by (simp add: bit_eq_iff bit_drop_bit_eq) blast
  qed
  also have "\<dots> \<longleftrightarrow> unat x div 2 ^ (32 - p) = unat y div 2 ^ (32 - p)"
    by (simp only: word_unat_eq_iff unat_drop_bit_eq) (simp add: drop_bit_eq_div)
  finally show ?thesis .
qed

lemma net_set_div:
  "p \<le> 32 \<Longrightarrow> x \<in> net_set (a, p) \<longleftrightarrow> unat x div 2 ^ (32 - p) = unat a div 2 ^ (32 - p)"
  by (simp add: net_set_def and_mask_eq_iff)

lemma and_mask_id:
  assumes "p \<le> 32" "unat n mod 2 ^ (32 - p) = 0"
  shows "n AND prefix_mask p = n"
proof -
  have "unat (take_bit (32 - p) n) = 0"
    using assms(2) by (simp only: unsigned_take_bit_eq) (simp add: take_bit_eq_mod)
  then have "take_bit (32 - p) n = 0" by (simp add: unat_eq_0)
  then have "32 - p \<le> k" if "bit n k" for k
    using that by (metis bit_0_eq bit_take_bit_iff bot_apply bot_bool_def linorder_not_less)
  then show ?thesis
    using assms(1) by (intro bit_word_eqI) (auto simp: bit_and_iff bit_prefix_mask)
qed

lemma unat_of_nat_addr: "n < 2 ^ 32 \<Longrightarrow> unat (of_nat n :: addr) = n"
  by (simp add: unat_of_nat take_bit_nat_eq_self)

lemma ip_of_nat_of_nat: "n < 2 ^ 32 \<Longrightarrow> ip_of_nat n = intToIp (of_nat n)"
  using ip_of_nat_unat [of "of_nat n"] by (simp add: unat_of_nat_addr)

text \<open>The decimal conversions of agent-direct-link-rules.js agree with the bitwise ones.\<close>

lemma ipv4_groups_reduce:
  "ipv4_groups s = Some (a, b, c, d) \<Longrightarrow> ip_reduce s = ((a * 256 + b) * 256 + c) * 256 + d"
  by (auto simp: ipv4_groups_def ip_reduce_def split: list.split_asm if_split_asm)

lemma ipToInt_reduce: "ipToInt s = Some n \<Longrightarrow> n = of_nat (ip_reduce s) \<and> ip_reduce s < 2 ^ 32"
  by (auto simp: ipToInt_code ipv4_groups_reduce simp del: of_nat_add of_nat_mult of_nat_Suc
      split: option.split_asm if_split_asm)

text \<open>A network with zero host bits holds the block of numbers that starts at its address.\<close>

lemma net_set_block:
  assumes "p \<le> 32" "m mod 2 ^ (32 - p) = 0" "m + 2 ^ (32 - p) \<le> 2 ^ 32" "x < 2 ^ 32"
  shows "of_nat x \<in> net_set (of_nat m, p) \<longleftrightarrow> m \<le> x \<and> x < m + 2 ^ (32 - p)"
proof -
  have "(0 :: nat) < 2 ^ (32 - p)" by simp
  then have "m < 2 ^ 32" using assms(3) by linarith
  then have eq: "of_nat x \<in> net_set (of_nat m, p) \<longleftrightarrow> x div 2 ^ (32 - p) = m div 2 ^ (32 - p)"
    using assms by (simp add: net_set_div unat_of_nat_addr)
  define B where "B = (2 :: nat) ^ (32 - p)"
  have "m mod B = 0" "0 < B" using assms(2) by (simp_all add: B_def)
  then obtain q where m: "m = q * B" by (metis dvd_def mod_0_imp_dvd mult.commute)
  have "x div B = q \<longleftrightarrow> q \<le> x div B \<and> x div B < Suc q" by auto
  also have "\<dots> \<longleftrightarrow> q * B \<le> x \<and> x < q * B + B"
    using \<open>0 < B\<close> by (simp add: less_eq_div_iff_mult_less_eq div_less_iff_less_mult add.commute)
  finally have "x div B = q \<longleftrightarrow> q * B \<le> x \<and> x < q * B + B" .
  moreover have "m div B = q" using m \<open>0 < B\<close> by simp
  ultimately show ?thesis using eq m by (simp add: B_def)
qed

lemma addr_of_nat: "\<exists>x < 2 ^ 32. a = of_nat x" for a :: addr
  using unsigned_less [of a] by (intro exI [of _ "unat a"]) simp

subsection \<open>Properties\<close>

text \<open>C19: Containment of CIDR texts, as the panel decides it on 32-bit words, is inclusion of
  the address sets they denote, and two texts overlap exactly when they share an address.\<close>

theorem cidrContains_correct:
  "(cidrContains x y \<longleftrightarrow> (\<exists>A B. cidr_set x = Some A \<and> cidr_set y = Some B \<and> B \<subseteq> A))
   \<and> (cidrOverlaps x y \<longleftrightarrow> (\<exists>A B. cidr_set x = Some A \<and> cidr_set y = Some B \<and> A \<inter> B \<noteq> {}))"
  unfolding cidrOverlaps_def cidr.overlap_iff by (simp add: cidr.contains_iff)

text \<open>The canonical text is a normal form: it is a fixed point, it denotes the same
  addresses as the input, and two accepted inputs have the same canonical text exactly when
  they denote the same addresses; so comparing stored texts compares networks.\<close>

theorem canonicalCidr_normal_form:
  assumes "canonicalCidr s = Some c" "canonicalCidr t = Some d"
  shows "canonicalCidr c = Some c \<and> cidr_set c = cidr_set s \<and> (c = d \<longleftrightarrow> cidr_set s = cidr_set t)"
proof -
  have "is_canonical c" "is_canonical d" using assms canonical_is_canonical by auto
  then have "c = d" if "cidr_set c = cidr_set d" using that by (intro cidr_set_inject)
  then show ?thesis
    using canonicalCidr_idem [OF assms(1)] cidr_set_canonical [OF assms(1)] cidr_set_canonical [OF assms(2)] by auto
qed

theorem canonicalCidr_normal_form_witness:
  "canonicalCidr '' 10.1.2.3/8'' = Some ''10.0.0.0/8'' \<and> canonicalCidr ''10.0.0.0/8'' = Some ''10.0.0.0/8''
   \<and> cidr_set ''10.0.0.0/8'' = cidr_set '' 10.1.2.3/8''"
proof -
  have s: "canonicalCidr '' 10.1.2.3/8'' = Some ''10.0.0.0/8''" "canonicalCidr ''10.0.0.0/8'' = Some ''10.0.0.0/8''"
    by code_simp+
  from canonicalCidr_normal_form [OF s] s show ?thesis by blast
qed

text \<open>The characters of a dotted address.\<close>

lemma split_on_chars: "c \<in> set s \<Longrightarrow> c = d \<or> (\<exists>p \<in> set (split_on d s). c \<in> set p)"
proof (induction s)
  case (Cons a s)
  obtain p ps where "split_on d s = p # ps" using split_on_not_Nil [of d s] by (cases "split_on d s") auto
  with Cons show ?case by auto
qed simp

lemma groups_chars: "ipv4_groups a \<noteq> None \<Longrightarrow> c \<in> set a \<Longrightarrow> is_digit c \<or> c = CHR ''.''"
proof -
  assume g: "ipv4_groups a \<noteq> None" and c: "c \<in> set a"
  have "\<forall>p \<in> set (split_on CHR ''.'' a). list_all is_digit p"
    using g by (auto simp: ipv4_groups_def digits_upto_def split: list.split_asm if_split_asm)
  with split_on_chars [OF c, of "CHR ''.''"] show ?thesis by (auto simp: list_all_iff)
qed

end
