(* ===== verification/Ingress_Rules.thy ===== *)
theory Ingress_Rules
  imports Ipv4_Cidr "HOL-Library.Multiset"
begin

text \<open>
  backend/internal/agent-ingress-rules.js without the ruleset generator: the validation of a
  rule payload, the line-count limits, re-arming, hit counters, rule coverage and the tunnel
  addresses of a wg-quick file. A request value is a \<open>jsval\<close>, a stored rule the record
  \<open>ingress_rule\<close> (its \<open>id\<close> is an integer database column, \<open>sources\<close>,
  \<open>destinations\<close> and \<open>ports\<close> hold arbitrary texts). Each \<open>throw\<close> of the
  code is a constructor of \<open>ingress_error\<close> that carries the interpolated values.
\<close>

subsection \<open>Constants, records and errors\<close>

definition MAX_RULES_PER_AGENT :: nat where "MAX_RULES_PER_AGENT = 500"
definition MAX_LIST :: nat where "MAX_LIST = 64"
definition MAX_LINES_PER_RULE :: nat where "MAX_LINES_PER_RULE = 256"
definition MAX_LINES_TOTAL :: nat where "MAX_LINES_TOTAL = 4000"
definition NAME_MAX :: nat where "NAME_MAX = 100"
definition NOTE_MAX :: nat where "NOTE_MAX = 255"
definition MAX_SAFE_INTEGER :: int where "MAX_SAFE_INTEGER = 2 ^ 53 - 1"

definition INGRESS_MODES :: "string list" where
  "INGRESS_MODES = [''open'', ''restricted'']"

definition INGRESS_PROTOS :: "string list" where
  "INGRESS_PROTOS = [''tcp'', ''udp'']"

record port_spec =
  proto :: string
  port :: string

record ingress_rule =
  rule_id :: int
  rule_name :: string
  sources :: "string list"
  destinations :: "string list"
  ports :: "port_spec list"
  enabled :: bool
  rule_note :: "string option"
  hit_packets :: int
  last_hit_at :: "int option"
  created_on :: jsval
  armed_on :: "int option"

text \<open>A sanitized payload: a field the patch omits is \<open>None\<close>.\<close>

record rule_patch =
  p_name :: "string option"
  p_sources :: "string list option"
  p_destinations :: "string list option"
  p_ports :: "port_spec list option"
  p_enabled :: "bool option"
  p_note :: "string option option"

text \<open>A value echoed in a message: its text and whether it was clipped.\<close>

type_synonym echo = "string \<times> bool"

datatype ingress_error =
    NotAnArray string
  | TooManyEntries string
  | InvalidCidr string echo
  | MustNotBeEmpty string
  | InvalidProtocol echo
  | InvalidPort echo
  | NameRequired
  | RuleTooLarge nat
  | RulesetTooLarge nat
  | InvalidMode
  | InvalidWgInterface string
  | InvalidDirectInterface string
  | TooManyRules
  | RuleWithoutId
  | BadCidr int
  | BadPort int
  | TooManyLines

subsection \<open>Small helpers\<close>

definition isWgIface :: "string \<Rightarrow> bool" where
  "isWgIface name \<longleftrightarrow> take 2 name = ''wg'' \<and> digits_upto 3 (drop 2 name)"

definition isDirectIface :: "string \<Rightarrow> bool" where
  "isDirectIface name \<longleftrightarrow> take 3 name = ''fgd'' \<and> digits_upto 4 (drop 3 name)"

definition splitLinkId :: "string \<Rightarrow> (string \<times> string) option" where
  "splitLinkId s = (if CHR '':'' \<in> set s
     then Some (takeWhile (\<lambda>c. c \<noteq> CHR '':'') s, tl (dropWhile (\<lambda>c. c \<noteq> CHR '':'') s))
     else None)"

definition pubKey8 :: "string \<Rightarrow> string" where
  "pubKey8 pub = take 8 pub"

definition echoValue :: "jsval \<Rightarrow> echo" where
  "echoValue v = (let s = str_or_empty v in if length s > 64 then (take 64 s, True) else (s, False))"

definition cleanText :: "jsval \<Rightarrow> nat \<Rightarrow> string" where
  "cleanText value m =
     take m (trim (map (\<lambda>c. if is_control c then CHR '' '' else c) (str_or_empty value)))"

subsection \<open>Validation of a payload\<close>

definition sanitizeCidrList :: "jsval \<Rightarrow> string \<Rightarrow> bool \<Rightarrow> ingress_error + string list" where
  "sanitizeCidrList input field allowEmpty =
     (case (if is_nullish input then JArr [] else input) of
        JArr value \<Rightarrow>
          if length value > MAX_LIST then Inl (TooManyEntries field)
          else bind_res
            (fold_res (\<lambda>raw out. case canonicalCidr_of raw of
                 None \<Rightarrow> Inl (InvalidCidr field (echoValue raw))
               | Some c \<Rightarrow> Inr (push_new c out)) value [])
            (\<lambda>out. if \<not> allowEmpty \<and> out = [] then Inl (MustNotBeEmpty field) else Inr out)
      | _ \<Rightarrow> Inl (NotAnArray field))"

text \<open>\<open>/^(\d{1,5})(?:[:-](\d{1,5}))?$/\<close>: the two groups.\<close>

definition port_groups :: "string \<Rightarrow> (string \<times> string option) option" where
  "port_groups s =
     (let a = takeWhile is_digit s
      in if \<not> digits_upto 5 a then None
         else (case dropWhile is_digit s of
             [] \<Rightarrow> Some (a, None)
           | c # b \<Rightarrow> if (c = CHR '':'' \<or> c = CHR ''-'') \<and> digits_upto 5 b then Some (a, Some b) else None))"

text \<open>Both checks of the port text (its shape and its bounds) throw the same error.\<close>

definition port_range :: "string \<Rightarrow> (nat \<times> nat) option" where
  "port_range portStr = (case port_groups portStr of
       None \<Rightarrow> None
     | Some (m1, m2) \<Rightarrow>
         (let from = nat_of_digits m1;
              upto' = (case m2 of Some t \<Rightarrow> nat_of_digits t | None \<Rightarrow> from)
          in if from < 1 \<or> upto' > 65535 \<or> upto' < from then None else Some (from, upto')))"

definition sanitizePort :: "jsval \<Rightarrow> ingress_error + port_spec" where
  "sanitizePort raw =
     (let proto = to_lower (if is_nullish (getp raw ''proto'') then ''tcp'' else js_string (getp raw ''proto''))
      in if proto \<notin> set INGRESS_PROTOS then Inl (InvalidProtocol (echoValue (JStr proto)))
         else (let portStr = trim (str_or_empty (getp raw ''port''))
               in (case port_range portStr of
                    None \<Rightarrow> Inl (InvalidPort (echoValue (JStr portStr)))
                  | Some (from, upto') \<Rightarrow>
                      Inr \<lparr>proto = proto,
                           port = (if from = upto' then str_of_nat from
                                   else str_of_nat from @ '':'' @ str_of_nat upto')\<rparr>)))"

definition sanitizePorts :: "jsval \<Rightarrow> ingress_error + port_spec list" where
  "sanitizePorts value =
     (if is_nullish value then Inr []
      else (case value of
          JArr vs \<Rightarrow>
            if length vs > MAX_LIST then Inl (TooManyEntries ''ports'')
            else fold_res (\<lambda>raw out. bind_res (sanitizePort raw) (\<lambda>p. Inr (push_new p out))) vs []
        | _ \<Rightarrow> Inl (NotAnArray ''ports'')))"

definition line_count :: "string list \<Rightarrow> string list \<Rightarrow> port_spec list \<Rightarrow> nat" where
  "line_count srcs dsts ps = length srcs * max 1 (length dsts) * max 1 (length ps)"

definition ruleLineCount :: "ingress_rule \<Rightarrow> nat" where
  "ruleLineCount rule = line_count (sources rule) (destinations rule) (ports rule)"

definition assertRuleLineCount :: "nat \<Rightarrow> ingress_error + unit" where
  "assertRuleLineCount lines =
     (if lines > MAX_LINES_PER_RULE then Inl (RuleTooLarge lines) else Inr ())"

definition patch_line_count :: "rule_patch \<Rightarrow> nat" where
  "patch_line_count p =
     line_count (case p_sources p of Some s \<Rightarrow> s | None \<Rightarrow> [])
                (case p_destinations p of Some d \<Rightarrow> d | None \<Rightarrow> [])
                (case p_ports p of Some q \<Rightarrow> q | None \<Rightarrow> [])"

text \<open>A field is present when the payload is complete or the property is defined.\<close>

definition sanitize_field ::
  "bool \<Rightarrow> jsval \<Rightarrow> (jsval \<Rightarrow> ingress_error + 'a) \<Rightarrow> ingress_error + 'a option" where
  "sanitize_field partial v f =
     (if \<not> partial \<or> v \<noteq> JUndef then bind_res (f v) (\<lambda>x. Inr (Some x)) else Inr None)"

definition sanitize_name :: "jsval \<Rightarrow> ingress_error + string" where
  "sanitize_name v = (let name = cleanText v NAME_MAX
                      in if name = [] then Inl NameRequired else Inr name)"

definition sanitize_enabled :: "jsval \<Rightarrow> bool" where
  "sanitize_enabled v =
     (if v = JUndef then True
      else js_truthy v \<and> v \<noteq> JStr ''false'' \<and> v \<noteq> JNum (Fin 0))"

definition sanitize_note :: "jsval \<Rightarrow> string option" where
  "sanitize_note v = (let t = cleanText v NOTE_MAX in if t = [] then None else Some t)"

definition sanitizeIngressRule :: "jsval \<Rightarrow> bool \<Rightarrow> ingress_error + rule_patch" where
  "sanitizeIngressRule data partial =
     (let d = (if js_truthy data then data else JObj [])
      in bind_res (sanitize_field partial (getp d ''name'') sanitize_name) (\<lambda>nm.
         bind_res (sanitize_field partial (getp d ''sources'')
                     (\<lambda>v. sanitizeCidrList v ''sources'' False)) (\<lambda>src.
         bind_res (sanitize_field partial (getp d ''destinations'')
                     (\<lambda>v. sanitizeCidrList v ''destinations'' True)) (\<lambda>dst.
         bind_res (sanitize_field partial (getp d ''ports'') sanitizePorts) (\<lambda>pts.
         bind_res (sanitize_field partial (getp d ''enabled'') (\<lambda>v. Inr (sanitize_enabled v))) (\<lambda>en.
         bind_res (sanitize_field partial (getp d ''note'') (\<lambda>v. Inr (sanitize_note v))) (\<lambda>nt.
         (let out = \<lparr>p_name = nm, p_sources = src, p_destinations = dst, p_ports = pts,
                     p_enabled = en, p_note = nt\<rparr>
          in if partial then Inr out
             else bind_res (assertRuleLineCount (patch_line_count out)) (\<lambda>_. Inr out)))))))))"

definition assertTotalLineCount :: "ingress_rule list \<Rightarrow> nat \<Rightarrow> ingress_error + unit" where
  "assertTotalLineCount rules ifaceCount =
     (let total = sum_list (map ruleLineCount (filter enabled rules)) * max 1 ifaceCount
      in if total > MAX_LINES_TOTAL then Inl (RulesetTooLarge total) else Inr ())"

definition sanitizeIngressMode :: "jsval \<Rightarrow> ingress_error + string" where
  "sanitizeIngressMode mode =
     (let m = trim (str_or_empty mode) in if m \<notin> set INGRESS_MODES then Inl InvalidMode else Inr m)"

subsection \<open>Re-arming\<close>

text \<open>The order-insensitive key of a list: its entries as texts, sorted. JSON.stringify of
  a string list is injective, so the list stands for its text.\<close>

definition cidrs_key :: "string list \<Rightarrow> string list" where
  "cidrs_key xs = sort xs"

definition ports_key :: "port_spec list \<Rightarrow> string list" where
  "ports_key ps = sort (map (\<lambda>p. proto p @ ''/'' @ port p) ps)"

definition changed_key :: "('a \<Rightarrow> string list) \<Rightarrow> 'a option \<Rightarrow> 'a \<Rightarrow> bool" where
  "changed_key key new old = (case new of None \<Rightarrow> False | Some v \<Rightarrow> key v \<noteq> key old)"

definition armedOnPatch :: "ingress_rule \<Rightarrow> rule_patch \<Rightarrow> int \<Rightarrow> int option" where
  "armedOnPatch existing clean now =
     (let switchedOn = p_enabled clean = Some True \<and> \<not> enabled existing;
          targetsChanged = changed_key cidrs_key (p_sources clean) (sources existing)
            \<or> changed_key cidrs_key (p_destinations clean) (destinations existing)
            \<or> changed_key ports_key (p_ports clean) (ports existing)
      in if switchedOn \<or> targetsChanged then Some now else None)"

subsection \<open>Hit counters\<close>

text \<open>\<open>Object.entries(value)\<close> of the heartbeat, at most \<open>MAX_RULES_PER_AGENT\<close> of them.\<close>

definition counter_entry :: "string \<times> jsval \<Rightarrow> (int \<rightharpoonup> int) \<Rightarrow> (int \<rightharpoonup> int)" where
  "counter_entry kv out =
     (let n = str_number (fst kv); packets = js_number (snd kv)
      in if \<not> is_integer n \<or> num_int n < 1 then out
         else (case packets of
             Fin r \<Rightarrow> if r < 0 then out else out(num_int n \<mapsto> min \<lfloor>r\<rfloor> MAX_SAFE_INTEGER)
           | _ \<Rightarrow> out))"

definition sanitizeIngressCounters :: "jsval \<Rightarrow> (int \<rightharpoonup> int)" where
  "sanitizeIngressCounters value =
     (case value of
        JObj ps \<Rightarrow> fold counter_entry (take MAX_RULES_PER_AGENT ps) Map.empty
      | _ \<Rightarrow> Map.empty)"

text \<open>The new bookkeeping (packets, last hit) from a sample.\<close>

definition nextHitState :: "int \<times> int option \<Rightarrow> int \<Rightarrow> int \<Rightarrow> int \<times> int option" where
  "nextHitState st packets now =
     (let prev = fst st;
          delta = (if packets \<ge> prev then packets - prev else packets)
      in (packets, if delta > 0 then Some now
                   else (case snd st of Some t \<Rightarrow> if t = 0 then None else Some t | None \<Rightarrow> None)))"

subsection \<open>Coverage\<close>

record flow =
  f_src :: string
  f_dst :: string
  f_port :: "int option"
  f_proto :: string

definition num_le :: "jsnum \<Rightarrow> jsnum \<Rightarrow> bool" where
  "num_le a b = (case (a, b) of
       (NaN, _) \<Rightarrow> False | (_, NaN) \<Rightarrow> False
     | (NegInf, _) \<Rightarrow> True | (_, PosInf) \<Rightarrow> True
     | (Fin x, Fin y) \<Rightarrow> x \<le> y | _ \<Rightarrow> False)"

definition port_in_range :: "int \<Rightarrow> string \<Rightarrow> bool" where
  "port_in_range p s =
     (let parts = map str_number (split_on CHR '':'' s); a = parts ! 0;
          b = (if length parts > 1 then parts ! 1 else a)
      in num_le a (jint p) \<and> num_le (jint p) b)"

definition ruleCovers :: "ingress_rule \<Rightarrow> flow \<Rightarrow> bool" where
  "ruleCovers rule f =
     (if \<not> enabled rule then False
      else if \<not> list_ex (\<lambda>s. cidrContains s (f_src f)) (sources rule) then False
      else if destinations rule \<noteq> [] \<and> \<not> list_ex (\<lambda>d. cidrContains d (f_dst f)) (destinations rule) then False
      else if ports rule = [] then True
      else (case f_port f of
          None \<Rightarrow> False
        | Some p \<Rightarrow> list_ex (\<lambda>q. proto q = f_proto f \<and> port_in_range p (port q)) (ports rule)))"

definition isHubSourced :: "ingress_rule \<Rightarrow> string list \<Rightarrow> bool" where
  "isHubSourced rule hubSrcs \<longleftrightarrow>
     sources rule \<noteq> [] \<and> list_all (\<lambda>s. list_ex (\<lambda>h. cidrContains h s) hubSrcs) (sources rule)"

text \<open>An upstream of the hub behind an agent.\<close>

record upstream =
  u_host :: string
  u_port :: "int option"
  u_proto :: "string option"
  u_source :: "string option"
  u_kind :: string
  u_label :: string
  u_enabled :: bool

definition truthy_str :: "string option \<Rightarrow> string option" where
  "truthy_str s = (case s of Some t \<Rightarrow> if t = [] then None else Some t | None \<Rightarrow> None)"

definition upstream_proto :: "upstream \<Rightarrow> string" where
  "upstream_proto u = (case truthy_str (u_proto u) of Some p \<Rightarrow> p | None \<Rightarrow> ''tcp'')"

definition upstream_flow :: "upstream \<Rightarrow> string \<Rightarrow> flow" where
  "upstream_flow u src =
     \<lparr>f_src = src, f_dst = u_host u, f_port = u_port u, f_proto = upstream_proto u\<rparr>"

definition upstreamCovered :: "upstream \<Rightarrow> ingress_rule list \<Rightarrow> string list \<Rightarrow> bool" where
  "upstreamCovered u rules hubHosts =
     (let srcs = (case truthy_str (u_source u) of Some s \<Rightarrow> [s] | None \<Rightarrow> hubHosts)
      in list_ex (\<lambda>src. list_ex (\<lambda>r. ruleCovers r (upstream_flow u src)) rules) srcs)"

subsection \<open>Tunnel addresses of a wg-quick file\<close>

definition line_end :: "char \<Rightarrow> bool" where
  "line_end c \<longleftrightarrow> c = CHR 0x0A \<or> c = CHR 0x0D"

definition next_line :: "string \<Rightarrow> string" where
  "next_line s = drop 1 (dropWhile (\<lambda>c. \<not> line_end c) s)"

text \<open>\<open>/^\s*Address\s*=\s*(.+)$/im\<close> at a line start: what follows the last white space run,
  if the rest matches. White space includes line ends, so it may run over them; a group of
  white space only (the result of backtracking) yields no entry and is left out.\<close>

definition after_key :: "string \<Rightarrow> string" where
  "after_key s = dropWhile js_ws (drop 7 (dropWhile js_ws s))"

definition address_value :: "string \<Rightarrow> string option" where
  "address_value s =
     (if to_lower (take 7 (dropWhile js_ws s)) \<noteq> ''address'' then None
      else (case after_key s of
          [] \<Rightarrow> None
        | c # r \<Rightarrow> if c = CHR ''='' \<and> dropWhile js_ws r \<noteq> [] then Some (dropWhile js_ws r) else None))"

lemma length_dropWhile_le': "length (dropWhile P xs) \<le> length xs"
  by (simp add: length_dropWhile_le)

lemma next_line_less: "s \<noteq> [] \<Longrightarrow> length (next_line s) < length s"
  using length_dropWhile_le' [of "\<lambda>c. \<not> line_end c" s] by (cases s) (auto simp: next_line_def)

lemma length_after_key: "length (after_key s) \<le> length s"
  unfolding after_key_def
  using length_dropWhile_le' [of js_ws "drop 7 (dropWhile js_ws s)"]
    length_dropWhile_le' [of js_ws s] by (simp only: length_drop)

lemma address_value_less:
  assumes "address_value s = Some v"
  shows "length v < length s"
proof -
  obtain c r where "after_key s = c # r" and v: "v = dropWhile js_ws r"
    using assms unfolding address_value_def by (cases "after_key s") (simp_all split: if_split_asm)
  then show ?thesis
    using length_after_key [of s] length_dropWhile_le' [of js_ws r] by simp
qed

function address_lines :: "string \<Rightarrow> string list" where
  "address_lines s =
     (if s = [] then []
      else (case address_value s of
          Some v \<Rightarrow> takeWhile (\<lambda>c. \<not> line_end c) v # address_lines (next_line v)
        | None \<Rightarrow> address_lines (next_line s)))"
  by pat_completeness auto
termination
proof (relation "measure length")
  fix s v
  assume "s \<noteq> []" "address_value s = Some v"
  then show "(next_line v, s) \<in> measure length"
    using address_value_less [of s v] next_line_less [of v] by (cases "v = []") (auto simp: next_line_def)
qed (auto simp: next_line_less)

declare address_lines.simps [simp del]

definition tunnelAddressEntries :: "string \<Rightarrow> string list" where
  "tunnelAddressEntries confText =
     filter (\<lambda>p. p \<noteq> []) (map trim (concat (map (split_on CHR '','') (address_lines confText))))"

definition hubTunnelHosts :: "string \<Rightarrow> string list" where
  "hubTunnelHosts confText =
     concat (map (\<lambda>p. let ip = split_on CHR ''/'' p ! 0
                      in if ipToInt ip \<noteq> None then [ip @ ''/32''] else [])
            (tunnelAddressEntries confText))"

subsection \<open>Sanitized lists\<close>

lemma sanitizeCidrList_invariant:
  assumes "fold_res (\<lambda>raw out. case canonicalCidr_of raw of
       None \<Rightarrow> Inl (InvalidCidr field (echoValue raw)) | Some c \<Rightarrow> Inr (push_new c out)) vs out = Inr res"
    and "distinct out"
  shows "distinct res \<and> set res = set out \<union> (the \<circ> canonicalCidr_of) ` set vs
     \<and> (\<forall>v \<in> set vs. canonicalCidr_of v \<noteq> None) \<and> length res \<le> length out + length vs"
  using assms
proof (induction vs arbitrary: out)
  case (Cons v vs)
  then obtain c where c: "canonicalCidr_of v = Some c" by (cases "canonicalCidr_of v") auto
  have "length (push_new c out) \<le> Suc (length out)" by (simp add: push_new_def)
  with Cons.IH [of "push_new c out"] Cons.prems c show ?case
    by (auto simp: distinct_push_new)
qed simp

lemma sanitizeCidrList_result:
  assumes "sanitizeCidrList v field allowEmpty = Inr out"
  shows "distinct out \<and> length out \<le> MAX_LIST \<and> list_all is_canonical out
     \<and> (allowEmpty \<or> out \<noteq> [])"
proof -
  obtain vs where vs: "(if is_nullish v then JArr [] else v) = JArr vs" "length vs \<le> MAX_LIST"
    and loop: "fold_res (\<lambda>raw out. case canonicalCidr_of raw of
       None \<Rightarrow> Inl (InvalidCidr field (echoValue raw)) | Some c \<Rightarrow> Inr (push_new c out)) vs [] = Inr out"
    and ne: "allowEmpty \<or> out \<noteq> []"
    using assms by (auto simp: sanitizeCidrList_def bind_res_iff split: jsval.splits if_splits)
  from sanitizeCidrList_invariant [OF loop] have
    "distinct out" and set: "set out = (the \<circ> canonicalCidr_of) ` set vs"
    and def: "\<forall>v \<in> set vs. canonicalCidr_of v \<noteq> None" and "length out \<le> length vs" by auto
  moreover have "is_canonical c" if "c \<in> set out" for c
    using that set def by (auto simp: canonicalCidr_of_def intro: canonical_is_canonical)
  ultimately show ?thesis using vs ne by (auto simp: list_all_iff)
qed

lemma sanitizeCidrList_of_canonical:
  assumes "distinct out" "length out \<le> MAX_LIST" "list_all is_canonical out" "allowEmpty \<or> out \<noteq> []"
  shows "sanitizeCidrList (JArr (map JStr out)) field allowEmpty = Inr out"
proof -
  have "fold_res (\<lambda>raw out. case canonicalCidr_of raw of
       None \<Rightarrow> Inl (InvalidCidr field (echoValue raw)) | Some c \<Rightarrow> Inr (push_new c out))
       (map JStr xs) acc = Inr (acc @ xs)"
    if "distinct (acc @ xs)" "list_all is_canonical xs" for xs acc
    using that
    by (induction xs arbitrary: acc)
      (simp_all add: canonicalCidr_of_def str_or_empty_def is_canonical_def push_new_def)
  from this [of "[]" out] assms show ?thesis by (simp add: sanitizeCidrList_def)
qed

subsection \<open>Sanitized ports\<close>

text \<open>A port entry as it is stored: a known protocol and one port or a proper range.\<close>

definition port_span :: "port_spec \<Rightarrow> nat \<Rightarrow> nat \<Rightarrow> bool" where
  "port_span p a b \<longleftrightarrow> 1 \<le> a \<and> a \<le> b \<and> b \<le> 65535 \<and>
     port p = (if a = b then str_of_nat a else str_of_nat a @ '':'' @ str_of_nat b)"

definition wf_port :: "port_spec \<Rightarrow> bool" where
  "wf_port p \<longleftrightarrow> proto p \<in> set INGRESS_PROTOS \<and> (\<exists>a b. port_span p a b)"

lemma colon_not_digit: "list_all is_digit s \<Longrightarrow> CHR '':'' \<notin> set s"
  by (auto simp: list_all_iff is_digit_def)

lemma split_port:
  "port_span p a b \<Longrightarrow> split_on CHR '':'' (port p) =
     (if a = b then [str_of_nat a] else [str_of_nat a, str_of_nat b])"
  by (simp add: port_span_def split_on_no_sep split_on_append_sep colon_not_digit)

lemma port_in_range_iff:
  "port_span p a b \<Longrightarrow> port_in_range n (port p) \<longleftrightarrow> int a \<le> n \<and> n \<le> int b"
  by (simp add: port_in_range_def split_port num_le_def jint_def)
    (metis of_int_le_iff of_int_of_nat_eq)

lemma takeWhile_digits_append:
  "list_all is_digit s \<Longrightarrow> \<not> is_digit c \<Longrightarrow> takeWhile is_digit (s @ c # t) = s \<and> dropWhile is_digit (s @ c # t) = c # t"
  by (induction s) auto

lemma port_groups_text:
  assumes "port_span p a b"
  shows "port_groups (port p) = Some (str_of_nat a, if a = b then None else Some (str_of_nat b))"
proof -
  have "digits_upto 5 (str_of_nat n)" if "n \<le> 65535" for n
    using digits_upto_str_of_nat [of n 4] that by simp
  moreover have "\<not> is_digit CHR '':''" by (simp add: is_digit_def)
  ultimately show ?thesis
    using assms takeWhile_digits_append [of "str_of_nat a" "CHR '':''" "str_of_nat b"]
    by (simp add: port_span_def port_groups_def takeWhile_digits dropWhile_digits)
qed

lemma port_range_bounds: "port_range s = Some (a, b) \<Longrightarrow> 1 \<le> a \<and> a \<le> b \<and> b \<le> 65535"
  by (auto simp: port_range_def Let_def split: option.split_asm if_split_asm)

lemma sanitizePort_cases:
  assumes "sanitizePort raw = Inr p"
  obtains a b where "proto p \<in> set INGRESS_PROTOS" "port_span p a b"
    "port_range (trim (str_or_empty (getp raw ''port''))) = Some (a, b)"
proof (cases "port_range (trim (str_or_empty (getp raw ''port'')))")
  case (Some ab)
  then obtain a b where ab: "port_range (trim (str_or_empty (getp raw ''port''))) = Some (a, b)"
    by (cases ab) auto
  from assms ab port_range_bounds [OF ab] show ?thesis
    by (intro that [OF _ _ ab]) (auto simp: sanitizePort_def port_span_def Let_def split: if_split_asm)
qed (use assms in \<open>simp add: sanitizePort_def Let_def split: if_split_asm\<close>)

lemma sanitizePort_wf: "sanitizePort raw = Inr p \<Longrightarrow> wf_port p"
  by (erule sanitizePort_cases) (auto simp: wf_port_def)

lemma trim_port: "port_span p a b \<Longrightarrow> trim (port p) = port p"
proof (rule trim_no_ws)
  assume "port_span p a b"
  moreover have "is_digit c \<Longrightarrow> \<not> js_ws c" for c by (rule digit_not_ws)
  ultimately show "\<forall>c \<in> set (port p). \<not> js_ws c"
    using str_of_nat_digits [of a] str_of_nat_digits [of b]
    by (auto simp: port_span_def list_all_iff js_ws_def simp del: str_of_nat_digits split: if_splits)
qed

definition port_value :: "port_spec \<Rightarrow> jsval" where
  "port_value p = JObj [(''proto'', JStr (proto p)), (''port'', JStr (port p))]"

lemma lower_protos: "s \<in> set INGRESS_PROTOS \<Longrightarrow> to_lower s = s"
proof -
  have "to_lower ''tcp'' = ''tcp''" "to_lower ''udp'' = ''udp''" by code_simp+
  then show "s \<in> set INGRESS_PROTOS \<Longrightarrow> to_lower s = s" by (auto simp: INGRESS_PROTOS_def)
qed

lemma sanitizePort_of_wf:
  assumes "wf_port p"
  shows "sanitizePort (port_value p) = Inr p"
proof -
  from assms obtain a b where ab: "port_span p a b" and pr: "proto p \<in> set INGRESS_PROTOS"
    by (auto simp: wf_port_def)
  then show ?thesis
    using lower_protos [OF pr] port_groups_text [OF ab] trim_port [OF ab]
    by (simp add: sanitizePort_def port_range_def port_value_def str_or_empty_def port_span_def)
qed

lemma sanitizePorts_loop:
  assumes "fold_res (\<lambda>raw out. bind_res (sanitizePort raw) (\<lambda>p. Inr (push_new p out))) vs out = Inr res"
    and "distinct out" "list_all wf_port out"
  shows "distinct res \<and> list_all wf_port res \<and> length res \<le> length out + length vs"
  using assms
proof (induction vs arbitrary: out)
  case (Cons v vs)
  then obtain p where p: "sanitizePort v = Inr p" by (auto simp: bind_res_iff)
  have "length (push_new p out) \<le> Suc (length out)" by (simp add: push_new_def)
  with Cons.IH [of "push_new p out"] Cons.prems p sanitizePort_wf [OF p] show ?case
    by (auto simp: distinct_push_new list_all_iff)
qed simp

lemma sanitizePorts_result:
  assumes "sanitizePorts v = Inr out"
  shows "distinct out \<and> list_all wf_port out \<and> length out \<le> MAX_LIST"
proof (cases v)
  case (JArr vs)
  with assms have "length vs \<le> MAX_LIST"
    and "fold_res (\<lambda>raw out. bind_res (sanitizePort raw) (\<lambda>p. Inr (push_new p out))) vs [] = Inr out"
    by (auto simp: sanitizePorts_def split: if_splits)
  with sanitizePorts_loop [OF this(2)] show ?thesis by auto
qed (use assms in \<open>auto simp: sanitizePorts_def\<close>)

lemma sanitizePorts_of_wf:
  assumes "distinct out" "list_all wf_port out" "length out \<le> MAX_LIST"
  shows "sanitizePorts (JArr (map port_value out)) = Inr out"
proof -
  have "fold_res (\<lambda>raw out. bind_res (sanitizePort raw) (\<lambda>p. Inr (push_new p out))) (map port_value xs) acc
      = Inr (acc @ xs)" if "distinct (acc @ xs)" "list_all wf_port xs" for xs acc
    using that by (induction xs arbitrary: acc) (simp_all add: sanitizePort_of_wf push_new_def)
  from this [of "[]" out] assms show ?thesis by (simp add: sanitizePorts_def)
qed

subsection \<open>Whole payloads\<close>

lemma cleanText_bounds: "length (cleanText v m) \<le> m \<and> list_all (\<lambda>c. \<not> is_control c) (cleanText v m)"
proof -
  have "set (cleanText v m) \<subseteq> set (map (\<lambda>c. if is_control c then CHR '' '' else c) (str_or_empty v))"
    unfolding cleanText_def using set_take_subset set_trim by fast
  moreover have "\<not> is_control CHR '' ''" by (simp add: is_control_def)
  ultimately show ?thesis by (auto simp: list_all_iff cleanText_def split: if_splits)
qed

text \<open>What a sanitized rule of a complete payload looks like.\<close>

definition wf_rule_fields :: "string \<Rightarrow> string list \<Rightarrow> string list \<Rightarrow> port_spec list \<Rightarrow> bool" where
  "wf_rule_fields nm src dst pts \<longleftrightarrow>
     nm \<noteq> [] \<and> length nm \<le> NAME_MAX \<and> list_all (\<lambda>c. \<not> is_control c) nm
   \<and> src \<noteq> [] \<and> length src \<le> MAX_LIST \<and> distinct src \<and> list_all is_canonical src
   \<and> length dst \<le> MAX_LIST \<and> distinct dst \<and> list_all is_canonical dst
   \<and> length pts \<le> MAX_LIST \<and> distinct pts \<and> list_all wf_port pts
   \<and> line_count src dst pts \<le> MAX_LINES_PER_RULE"

lemma sanitize_name_bounds:
  "sanitize_name v = Inr nm \<Longrightarrow> nm \<noteq> [] \<and> length nm \<le> NAME_MAX \<and> list_all (\<lambda>c. \<not> is_control c) nm"
  using cleanText_bounds [of v NAME_MAX] by (auto simp: sanitize_name_def Let_def split: if_splits)

lemma sanitizeIngressRule_fields:
  assumes "sanitizeIngressRule data False = Inr p"
  obtains nm src dst pts en nt where
    "p = \<lparr>p_name = Some nm, p_sources = Some src, p_destinations = Some dst, p_ports = Some pts,
          p_enabled = Some en, p_note = Some nt\<rparr>"
    "wf_rule_fields nm src dst pts"
proof -
  let ?d = "if js_truthy data then data else JObj []"
  from assms obtain nm src dst pts en nt where
    nm: "sanitize_name (getp ?d ''name'') = Inr nm" and
    src: "sanitizeCidrList (getp ?d ''sources'') ''sources'' False = Inr src" and
    dst: "sanitizeCidrList (getp ?d ''destinations'') ''destinations'' True = Inr dst" and
    pts: "sanitizePorts (getp ?d ''ports'') = Inr pts" and
    p: "p = \<lparr>p_name = Some nm, p_sources = Some src, p_destinations = Some dst, p_ports = Some pts,
          p_enabled = Some en, p_note = Some nt\<rparr>" and
    lines: "line_count src dst pts \<le> MAX_LINES_PER_RULE"
    unfolding sanitizeIngressRule_def sanitize_field_def Let_def
    by (auto simp: bind_res_iff assertRuleLineCount_def patch_line_count_def not_less
        simp del: getp.simps split: if_split_asm)
  show ?thesis
    using that [OF p] sanitize_name_bounds [OF nm] sanitizeCidrList_result [OF src]
      sanitizeCidrList_result [OF dst] sanitizePorts_result [OF pts] lines
    by (simp add: wf_rule_fields_def)
qed

subsection \<open>Keys of lists\<close>

lemma sort_eq_iff: "sort xs = sort ys \<longleftrightarrow> mset xs = mset ys"
  by (metis mset_sort sorted_list_of_multiset_mset)

lemma changed_key_cidrs:
  "changed_key cidrs_key new old \<longleftrightarrow> (\<exists>v. new = Some v \<and> mset v \<noteq> mset old)"
  by (auto simp: changed_key_def cidrs_key_def sort_eq_iff split: option.splits)

lemma changed_key_ports:
  "changed_key ports_key new old \<longleftrightarrow> (\<exists>v. new = Some v \<and>
     mset (map (\<lambda>p. proto p @ ''/'' @ port p) v) \<noteq> mset (map (\<lambda>p. proto p @ ''/'' @ port p) old))"
  by (auto simp: changed_key_def ports_key_def sort_eq_iff split: option.splits)

subsection \<open>Coverage as inclusion of address sets\<close>

lemma list_ex_contains:
  "list_ex (\<lambda>s. cidrContains s c) ss \<longleftrightarrow>
     (\<exists>C. cidr_set c = Some C \<and> (\<exists>s \<in> set ss. \<exists>A. cidr_set s = Some A \<and> C \<subseteq> A))"
  by (auto simp: list_ex_iff cidr.contains_iff)

lemma list_ex_contains_narrow:
  "list_ex (\<lambda>s. cidrContains s c) ss \<Longrightarrow> cidrContains c d \<Longrightarrow> list_ex (\<lambda>s. cidrContains s d) ss"
  by (auto simp: list_ex_iff intro: cidr.contains_trans)

lemma ruleCovers_narrow:
  assumes "ruleCovers r f" "cidrContains (f_src f) s" "cidrContains (f_dst f) d"
  shows "ruleCovers r (f\<lparr>f_src := s, f_dst := d\<rparr>)"
  using assms list_ex_contains_narrow unfolding ruleCovers_def by (auto split: if_splits option.splits)

lemma ruleCovers_host:
  assumes "f_src f = cidr_text s 32" "f_dst f = cidr_text d 32" "list_all wf_port (ports r)"
  shows "ruleCovers r f \<longleftrightarrow> enabled r
     \<and> (\<exists>t \<in> set (sources r). \<exists>A. cidr_set t = Some A \<and> s \<in> A)
     \<and> (destinations r = [] \<or> (\<exists>t \<in> set (destinations r). \<exists>A. cidr_set t = Some A \<and> d \<in> A))
     \<and> (ports r = [] \<or> (\<exists>p. f_port f = Some p \<and>
          (\<exists>q \<in> set (ports r). proto q = f_proto f \<and> port_in_range p (port q))))"
  unfolding ruleCovers_def list_ex_contains assms(1,2) cidr_set_host
  by (auto simp: list_ex_iff split: option.splits)

subsection \<open>Counters\<close>

lemma counter_entry_bounds:
  assumes "\<And>i n. m i = Some n \<Longrightarrow> 1 \<le> i \<and> 0 \<le> n \<and> n \<le> MAX_SAFE_INTEGER"
    and "counter_entry kv m i = Some n"
  shows "1 \<le> i \<and> 0 \<le> n \<and> n \<le> MAX_SAFE_INTEGER"
  using assms
  by (auto simp: counter_entry_def Let_def MAX_SAFE_INTEGER_def split: if_splits jsnum.splits)

lemma counter_fold_bounds:
  assumes "\<And>i n. m i = Some n \<Longrightarrow> 1 \<le> i \<and> 0 \<le> n \<and> n \<le> MAX_SAFE_INTEGER"
    and "fold counter_entry kvs m i = Some n"
  shows "1 \<le> i \<and> 0 \<le> n \<and> n \<le> MAX_SAFE_INTEGER"
  using assms
proof (induction kvs arbitrary: m)
  case (Cons kv kvs)
  have "\<And>i n. counter_entry kv m i = Some n \<Longrightarrow> 1 \<le> i \<and> 0 \<le> n \<and> n \<le> MAX_SAFE_INTEGER"
    using Cons.prems(1) by (rule counter_entry_bounds)
  from Cons.IH [OF this] Cons.prems(2) show ?case by simp
qed auto

lemma counter_entry_dom: "card (dom (counter_entry kv m)) \<le> Suc (card (dom m)) \<and>
    (finite (dom m) \<longrightarrow> finite (dom (counter_entry kv m)))"
  by (auto simp: counter_entry_def Let_def card_insert_if card_insert_le_m1 split: jsnum.splits)

lemma counter_fold_dom:
  "finite (dom m) \<Longrightarrow> card (dom (fold counter_entry kvs m)) \<le> card (dom m) + length kvs"
proof (induction kvs arbitrary: m)
  case (Cons kv kvs)
  have "card (dom (counter_entry kv m)) \<le> Suc (card (dom m))" "finite (dom (counter_entry kv m))"
    using counter_entry_dom [of kv m] Cons.prems by auto
  with Cons.IH [of "counter_entry kv m"] show ?case by simp
qed simp

subsection \<open>Properties\<close>

text \<open>C20: A complete payload the validation accepts is well formed: a non-empty name without
  control characters, at least one source, distinct canonical networks, distinct port entries
  with a known protocol and a range inside 1 to 65535, and at most 256 filter lines. The stored
  lists pass the validation again unchanged.\<close>

theorem sanitizeIngressRule_wf:
  assumes "sanitizeIngressRule data False = Inr p"
  shows "\<exists>nm src dst pts. p_name p = Some nm \<and> p_sources p = Some src \<and> p_destinations p = Some dst
    \<and> p_ports p = Some pts \<and> wf_rule_fields nm src dst pts
    \<and> sanitizeCidrList (JArr (map JStr src)) ''sources'' False = Inr src
    \<and> sanitizeCidrList (JArr (map JStr dst)) ''destinations'' True = Inr dst
    \<and> sanitizePorts (JArr (map port_value pts)) = Inr pts"
proof -
  obtain nm src dst pts en nt where
    p: "p = \<lparr>p_name = Some nm, p_sources = Some src, p_destinations = Some dst, p_ports = Some pts,
          p_enabled = Some en, p_note = Some nt\<rparr>" and wf: "wf_rule_fields nm src dst pts"
    using sanitizeIngressRule_fields [OF assms] .
  from wf have "sanitizeCidrList (JArr (map JStr src)) ''sources'' False = Inr src"
    "sanitizeCidrList (JArr (map JStr dst)) ''destinations'' True = Inr dst"
    "sanitizePorts (JArr (map port_value pts)) = Inr pts"
    unfolding wf_rule_fields_def by (intro sanitizeCidrList_of_canonical sanitizePorts_of_wf; simp)+
  with p wf show ?thesis by auto
qed

definition ex_payload :: jsval where
  "ex_payload = JObj [(''name'', JStr '' web ''), (''sources'', JArr [JStr ''10.1.2.3/8'', JStr ''10.0.0.0/8'']),
     (''ports'', JArr [JObj [(''port'', JStr ''80-90'')]])]"

theorem sanitizeIngressRule_wf_witness:
  "case sanitizeIngressRule ex_payload False of
     Inr p \<Rightarrow> p_sources p = Some [''10.0.0.0/8''] \<and> (\<exists>nm src dst pts. p_name p = Some nm \<and> wf_rule_fields nm src dst pts)
   | Inl e \<Rightarrow> False"
proof -
  have "case sanitizeIngressRule ex_payload False of Inr p \<Rightarrow> p_sources p = Some [''10.0.0.0/8''] | Inl e \<Rightarrow> False"
    by code_simp
  then obtain p where p: "sanitizeIngressRule ex_payload False = Inr p" "p_sources p = Some [''10.0.0.0/8'']"
    by (auto split: sum.split_asm)
  from sanitizeIngressRule_wf [OF p(1)] p show ?thesis by auto
qed

text \<open>An update re-arms a rule exactly when it switches the rule on or changes one of its
  three target lists as a multiset of entries; reordering a list, renaming or editing the
  note keeps the reference time.\<close>

theorem armedOnPatch_iff:
  "armedOnPatch existing clean now = (if (p_enabled clean = Some True \<and> \<not> enabled existing)
      \<or> (\<exists>v. p_sources clean = Some v \<and> mset v \<noteq> mset (sources existing))
      \<or> (\<exists>v. p_destinations clean = Some v \<and> mset v \<noteq> mset (destinations existing))
      \<or> (\<exists>v. p_ports clean = Some v \<and> mset (map (\<lambda>p. proto p @ ''/'' @ port p) v)
             \<noteq> mset (map (\<lambda>p. proto p @ ''/'' @ port p) (ports existing)))
    then Some now else None)"
  unfolding armedOnPatch_def Let_def changed_key_cidrs changed_key_ports by simp

text \<open>Coverage of a flow between two host addresses is what the rule says about
  addresses and ports: the source lies in one of its networks, the destination in one of its
  networks unless the list is empty, and the port in one of its ranges of the same protocol
  unless the list is empty; an unknown port is only covered by a rule without ports.\<close>

theorem ruleCovers_correct:
  assumes "f_src f = cidr_text s 32" "f_dst f = cidr_text d 32" "list_all wf_port (ports r)"
  shows "ruleCovers r f \<longleftrightarrow> enabled r
     \<and> (\<exists>t \<in> set (sources r). \<exists>A. cidr_set t = Some A \<and> s \<in> A)
     \<and> (destinations r = [] \<or> (\<exists>t \<in> set (destinations r). \<exists>A. cidr_set t = Some A \<and> d \<in> A))
     \<and> (ports r = [] \<or> (\<exists>p. f_port f = Some p \<and> (\<exists>q \<in> set (ports r). proto q = f_proto f
          \<and> (\<exists>a b. port_span q a b \<and> int a \<le> p \<and> p \<le> int b))))"
proof -
  have "port_in_range p (port q) \<longleftrightarrow> (\<exists>a b. port_span q a b \<and> int a \<le> p \<and> p \<le> int b)"
    if "q \<in> set (ports r)" for p q
    using assms(3) that port_in_range_iff unfolding list_all_iff wf_port_def by blast
  then show ?thesis unfolding ruleCovers_host [OF assms] by blast
qed

definition ex_stored_rule :: ingress_rule where
  "ex_stored_rule = \<lparr>rule_id = 1, rule_name = ''web'', sources = [''10.0.0.0/8''], destinations = [],
     ports = [\<lparr>proto = ''tcp'', port = ''80:90''\<rparr>], enabled = True, rule_note = None,
     hit_packets = 0, last_hit_at = None, created_on = JUndef, armed_on = None\<rparr>"

theorem ruleCovers_correct_witness:
  "let f = \<lparr>f_src = cidr_text 0x0A000001 32, f_dst = cidr_text 5 32, f_port = Some 85, f_proto = ''tcp''\<rparr>
   in ruleCovers ex_stored_rule f \<and> (\<exists>a b. port_span \<lparr>proto = ''tcp'', port = ''80:90''\<rparr> a b \<and> int a \<le> 85 \<and> 85 \<le> int b)"
proof -
  let ?f = "\<lparr>f_src = cidr_text 0x0A000001 32, f_dst = cidr_text 5 32, f_port = Some 85, f_proto = ''tcp''\<rparr>"
  have "sanitizePort (port_value \<lparr>proto = ''tcp'', port = ''80:90''\<rparr>) = Inr \<lparr>proto = ''tcp'', port = ''80:90''\<rparr>"
    by code_simp
  then have "list_all wf_port (ports ex_stored_rule)" by (simp add: ex_stored_rule_def sanitizePort_wf)
  note c = ruleCovers_correct [OF _ _ this, of ?f]
  have "ruleCovers ex_stored_rule ?f" by code_simp
  moreover from this have "\<exists>a b. port_span \<lparr>proto = ''tcp'', port = ''80:90''\<rparr> a b \<and> int a \<le> 85 \<and> 85 \<le> int b"
    by (subst (asm) c) (auto simp: ex_stored_rule_def)
  ultimately show ?thesis by (simp only: Let_def)
qed

text \<open>Whatever a heartbeat reports as counters, the panel keeps at most 500 of them, each for
  a positive rule id and within 0 and the largest safe integer.\<close>

theorem sanitizeIngressCounters_bounds:
  "finite (dom (sanitizeIngressCounters v)) \<and> card (dom (sanitizeIngressCounters v)) \<le> MAX_RULES_PER_AGENT
   \<and> (\<forall>i n. sanitizeIngressCounters v i = Some n \<longrightarrow> 1 \<le> i \<and> 0 \<le> n \<and> n \<le> MAX_SAFE_INTEGER)"
proof (cases v)
  case (JObj ps)
  have fin: "finite (dom m) \<Longrightarrow> finite (dom (fold counter_entry kvs m))" for kvs and m :: "int \<rightharpoonup> int"
    using counter_entry_dom by (induction kvs arbitrary: m) auto
  have "card (dom (fold counter_entry (take MAX_RULES_PER_AGENT ps) Map.empty)) \<le> MAX_RULES_PER_AGENT"
    using counter_fold_dom [of Map.empty "take MAX_RULES_PER_AGENT ps"] by simp
  moreover have "finite (dom (fold counter_entry (take MAX_RULES_PER_AGENT ps) Map.empty))"
    by (rule fin) simp
  ultimately show ?thesis
    using counter_fold_bounds [where m = Map.empty and kvs = "take MAX_RULES_PER_AGENT ps"] JObj
    by (auto simp: sanitizeIngressCounters_def)
qed (simp_all add: sanitizeIngressCounters_def)

theorem sanitizeIngressCounters_bounds_witness:
  "sanitizeIngressCounters (JObj [(''7'', JNum (Fin 12)), (''0'', JNum (Fin 3)), (''x'', JNum (Fin 1))]) 7 = Some 12
   \<and> card (dom (sanitizeIngressCounters (JObj [(''7'', JNum (Fin 12))]))) \<le> 500"
proof -
  have "sanitizeIngressCounters (JObj [(''7'', JNum (Fin 12)), (''0'', JNum (Fin 3)), (''x'', JNum (Fin 1))]) 7 = Some 12"
    by code_simp
  then show ?thesis
    using sanitizeIngressCounters_bounds [of "JObj [(''7'', JNum (Fin 12))]"] by (simp add: MAX_RULES_PER_AGENT_def)
qed

text \<open>Hit bookkeeping follows the sample: the stored counter is the sample, the hit time is
  advanced exactly when packets arrived since the last sample, where a sample below the stored
  counter means the chain was rebuilt and counts from zero.\<close>

theorem nextHitState_correct:
  assumes "0 \<le> prev" "0 \<le> packets"
  shows "fst (nextHitState (prev, lst) packets now) = packets
   \<and> (snd (nextHitState (prev, lst) packets now) =
        (if packets > prev \<or> (packets < prev \<and> packets > 0) then Some now
         else if lst = Some 0 then None else lst))"
  using assms by (auto simp: nextHitState_def Let_def split: option.splits)

theorem nextHitState_correct_witness:
  "nextHitState (10, Some 5) 3 99 = (3, Some 99) \<and> nextHitState (10, Some 5) 10 99 = (10, Some 5)"
  using nextHitState_correct [of 10 3 "Some 5" 99] nextHitState_correct [of 10 10 "Some 5" 99]
  by (simp add: prod_eq_iff)

end
