(* ===== verification/Filter_Chain.thy ===== *)
theory Filter_Chain
  imports Js_Prelude
begin

text \<open>
  How a packet filter walks a chain, as iptables and nftables document it: the first line that
  matches and carries a verdict decides, a packet no line decides falls through to the caller.
  The generated chains of the ingress filter and of the site isolation are read with it.
\<close>

named_theorems chain_walk \<open>walking a chain\<close>

fun first_match :: "('l \<Rightarrow> 'p \<Rightarrow> bool) \<Rightarrow> ('l \<Rightarrow> 'v) \<Rightarrow> 'l list \<Rightarrow> 'p \<Rightarrow> 'v option" where
  "first_match hits act [] pk = None"
| "first_match hits act (l # ls) pk = (if hits l pk then Some (act l) else first_match hits act ls pk)"

lemma first_match_append [chain_walk]:
  "first_match hits act (xs @ ys) pk =
     (case first_match hits act xs pk of None \<Rightarrow> first_match hits act ys pk | Some v \<Rightarrow> Some v)"
  by (induction xs) auto

lemma first_match_None_iff [chain_walk]:
  "first_match hits act ls pk = None \<longleftrightarrow> (\<forall>l \<in> set ls. \<not> hits l pk)"
  by (induction ls) auto

lemma first_match_map [chain_walk]:
  "first_match hits act (map f xs) pk = first_match (\<lambda>x. hits (f x)) (\<lambda>x. act (f x)) xs pk"
  by (induction xs) auto

text \<open>Lines with one common verdict: their order does not matter.\<close>

lemma first_match_same:
  "(\<And>l. l \<in> set ls \<Longrightarrow> act l = v) \<Longrightarrow>
   first_match hits act ls pk = (if \<exists>l \<in> set ls. hits l pk then Some v else None)"
  by (induction ls) auto

lemma first_match_in:
  "first_match hits act ls pk = Some v \<Longrightarrow> \<exists>l \<in> set ls. hits l pk \<and> act l = v"
  by (induction ls) (auto split: if_splits)

end
