(* ===== verification/Ingress_Chain.thy ===== *)
theory Ingress_Chain
  imports Ingress_Rules Filter_Chain
begin

text \<open>
  \<open>buildIngressRestore\<close> of backend/internal/agent-ingress-rules.js: the iptables-restore
  payload of one agent. The nested loops emit the lines in the code's order and stop at the same
  errors; each line is first a value of \<open>fg_line\<close> and then rendered with the code's
  template. SHA-256 is a parameter. The second half reads a generated chain the way a filter
  chain is walked (first matching line decides, the end of the chain returns to the caller) and
  relates its verdict to \<open>ruleCovers\<close>.
\<close>

subsection \<open>Lines\<close>

datatype fg_target = ACCEPT | RETURN | DROP

fun target_text :: "fg_target \<Rightarrow> string" where
  "target_text ACCEPT = ''ACCEPT''"
| "target_text RETURN = ''RETURN''"
| "target_text DROP = ''DROP''"

record match_line =
  m_src :: string
  m_dst :: "string option"
  m_iface :: string
  m_port :: "port_spec option"
  m_rule :: int
  m_target :: fg_target

datatype fg_line = Established fg_target | Match match_line | FinalDrop string

record direct_alias =
  al_iface :: string
  al_hub :: string
  al_direct :: string

record agent_cfg =
  ingress_mode :: string
  iface :: string
  directIfaces :: "string list"
  directAliases :: "direct_alias list"

definition INGRESS_CHAIN :: string where "INGRESS_CHAIN = ''FG_IN''"

definition render_match :: "match_line \<Rightarrow> string" where
  "render_match l =
     ''-A '' @ INGRESS_CHAIN @ '' -s '' @ m_src l
     @ (case m_dst l of None \<Rightarrow> [] | Some d \<Rightarrow> '' -d '' @ d)
     @ '' -i '' @ m_iface l
     @ (case m_port l of None \<Rightarrow> []
        | Some p \<Rightarrow> '' -p '' @ proto p @ '' -m '' @ proto p @ '' --dport '' @ port p)
     @ '' -m comment --comment '' @ [CHR 0x22] @ ''fg:'' @ str_of_int (m_rule l) @ [CHR 0x22]
     @ '' -j '' @ target_text (m_target l)"

fun render_line :: "fg_line \<Rightarrow> string" where
  "render_line (Established t) =
     ''-A '' @ INGRESS_CHAIN @ '' -m conntrack --ctstate RELATED,ESTABLISHED -j '' @ target_text t"
| "render_line (Match l) = render_match l"
| "render_line (FinalDrop i) = ''-A '' @ INGRESS_CHAIN @ '' -i '' @ i @ '' -j DROP''"

subsection \<open>The generator\<close>

text \<open>\<open>lines.push(l); ruleCount++; if (ruleCount > MAX_LINES_TOTAL) throw\<close>.\<close>

type_synonym emit_state = "match_line list \<times> nat"

definition emit :: "match_line \<Rightarrow> emit_state \<Rightarrow> ingress_error + emit_state" where
  "emit l st = (if Suc (snd st) > MAX_LINES_TOTAL then Inl TooManyLines
                else Inr (fst st @ [l], Suc (snd st)))"

text \<open>\<open>/^\d{1,5}(:\d{1,5})?$/\<close>.\<close>

definition port_text_ok :: "string \<Rightarrow> bool" where
  "port_text_ok s = (case split_on CHR '':'' s of
       [a] \<Rightarrow> digits_upto 5 a | [a, b] \<Rightarrow> digits_upto 5 a \<and> digits_upto 5 b | _ \<Rightarrow> False)"

definition port_ok :: "port_spec \<Rightarrow> bool" where
  "port_ok p \<longleftrightarrow> proto p \<in> set INGRESS_PROTOS \<and> port_text_ok (port p)"

definition mk_line ::
  "fg_target \<Rightarrow> int \<Rightarrow> string \<Rightarrow> string option \<Rightarrow> port_spec option \<Rightarrow> string \<Rightarrow> match_line" where
  "mk_line t r src dst p i =
     \<lparr>m_src = src, m_dst = dst, m_iface = i, m_port = p, m_rule = r, m_target = t\<rparr>"

definition iface_line ::
  "fg_target \<Rightarrow> int \<Rightarrow> string \<Rightarrow> string option \<Rightarrow> port_spec option \<Rightarrow> string
     \<Rightarrow> emit_state \<Rightarrow> ingress_error + emit_state" where
  "iface_line t r src dst p i st =
     (if (case p of None \<Rightarrow> False | Some q \<Rightarrow> \<not> port_ok q) then Inl (BadPort r)
      else emit (mk_line t r src dst p i) st)"

text \<open>The partner's transfer-net address, admitted on its own interface only.\<close>

definition alias_applies :: "string list \<Rightarrow> string \<Rightarrow> direct_alias \<Rightarrow> bool" where
  "alias_applies direct src al \<longleftrightarrow> al_iface al \<in> set direct
     \<and> cidrContains src (al_hub al @ ''/32'') \<and> \<not> cidrContains src (al_direct al @ ''/32'')"

definition alias_line ::
  "fg_target \<Rightarrow> int \<Rightarrow> string list \<Rightarrow> string \<Rightarrow> string option \<Rightarrow> port_spec option \<Rightarrow> direct_alias
     \<Rightarrow> emit_state \<Rightarrow> ingress_error + emit_state" where
  "alias_line t r direct src dst p al st =
     (if \<not> alias_applies direct src al then Inr st
      else emit (mk_line t r (al_direct al @ ''/32'') dst p (al_iface al)) st)"

definition combo_lines ::
  "fg_target \<Rightarrow> agent_cfg \<Rightarrow> int \<Rightarrow> string \<Rightarrow> string option \<Rightarrow> port_spec option
     \<Rightarrow> emit_state \<Rightarrow> ingress_error + emit_state" where
  "combo_lines t ag r src dst p st =
     bind_res (fold_res (iface_line t r src dst p) (iface ag # directIfaces ag) st)
       (fold_res (alias_line t r (directIfaces ag) src dst p) (directAliases ag))"

definition or_any :: "'a list \<Rightarrow> 'a option list" where
  "or_any xs = (if xs = [] then [None] else map Some xs)"

definition rule_lines ::
  "fg_target \<Rightarrow> agent_cfg \<Rightarrow> ingress_rule \<Rightarrow> emit_state \<Rightarrow> ingress_error + emit_state" where
  "rule_lines t ag rule st =
     (if rule_id rule < 1 then Inl RuleWithoutId
      else (let srcs = map canonicalCidr (sources rule);
                destList = map canonicalCidr (destinations rule)
            in if srcs = [] \<or> None \<in> set srcs \<or> None \<in> set destList then Inl (BadCidr (rule_id rule))
               else fold_res (\<lambda>src. fold_res (\<lambda>dst. fold_res (\<lambda>p.
                      combo_lines t ag (rule_id rule) src dst p)
                      (or_any (ports rule))) (or_any (map the destList))) (map the srcs) st))"

record restore_payload =
  payload_text :: string
  payload_hash :: string
  payload_rules :: nat

definition chain_lines :: "bool \<Rightarrow> agent_cfg \<Rightarrow> match_line list \<Rightarrow> fg_line list" where
  "chain_lines restricted ag ls =
     Established (if restricted then ACCEPT else RETURN) # map Match ls
     @ (if restricted then map FinalDrop (iface ag # directIfaces ag) else [])"

definition payload_lines :: "fg_line list \<Rightarrow> string list" where
  "payload_lines chain =
     [''*filter'', '':'' @ INGRESS_CHAIN @ '' - [0:0]''] @ map render_line chain @ [''COMMIT'']"

definition effective_mode :: "agent_cfg \<Rightarrow> string" where
  "effective_mode ag = (if ingress_mode ag \<in> set INGRESS_MODES then ingress_mode ag else ''open'')"

definition active_rules :: "ingress_rule list \<Rightarrow> ingress_rule list" where
  "active_rules rules = sort_key rule_id (filter enabled rules)"

text \<open>The chain of the payload: \<open>None\<close> where the agent needs no filter at all.\<close>

definition buildIngressChain ::
  "agent_cfg \<Rightarrow> ingress_rule list \<Rightarrow> ingress_error + (fg_line list \<times> nat) option" where
  "buildIngressChain ag rules =
     (let mode = effective_mode ag; active = active_rules rules
      in if mode = ''open'' \<and> active = [] then Inr None
         else if \<not> isWgIface (iface ag) then Inl (InvalidWgInterface (iface ag))
         else (case find (\<lambda>d. \<not> isDirectIface d) (directIfaces ag) of
             Some d \<Rightarrow> Inl (InvalidDirectInterface d)
           | None \<Rightarrow>
               if length active > MAX_RULES_PER_AGENT then Inl TooManyRules
               else (let restricted = (mode = ''restricted'');
                         target = (if restricted then ACCEPT else RETURN)
                     in bind_res (fold_res (rule_lines target ag) active ([], 0))
                          (\<lambda>(ls, n). Inr (Some (chain_lines restricted ag ls, n))))))"

definition buildIngressRestore ::
  "(string \<Rightarrow> string) \<Rightarrow> agent_cfg \<Rightarrow> ingress_rule list \<Rightarrow> ingress_error + restore_payload option" where
  "buildIngressRestore sha256 ag rules =
     bind_res (buildIngressChain ag rules) (\<lambda>res. Inr (map_option (\<lambda>(chain, n).
       (let text' = join [CHR 0x0A] (payload_lines chain) @ [CHR 0x0A]
        in \<lparr>payload_text = text', payload_hash = sha256 text', payload_rules = n\<rparr>)) res))"

subsection \<open>What the loops emit\<close>

lemma fold_emit:
  "fold_res emit ls st =
     (if ls = [] \<or> snd st + length ls \<le> MAX_LINES_TOTAL then Inr (fst st @ ls, snd st + length ls)
      else Inl TooManyLines)"
  by (induction ls arbitrary: st) (auto simp: emit_def)

definition combo_list ::
  "fg_target \<Rightarrow> agent_cfg \<Rightarrow> int \<Rightarrow> string \<Rightarrow> string option \<Rightarrow> port_spec option \<Rightarrow> match_line list" where
  "combo_list t ag r src dst p =
     map (mk_line t r src dst p) (iface ag # directIfaces ag)
     @ map (\<lambda>al. mk_line t r (al_direct al @ ''/32'') dst p (al_iface al))
         (filter (alias_applies (directIfaces ag) src) (directAliases ag))"

definition rule_list :: "fg_target \<Rightarrow> agent_cfg \<Rightarrow> ingress_rule \<Rightarrow> match_line list" where
  "rule_list t ag rule =
     concat (map (\<lambda>src. concat (map (\<lambda>dst. concat (map (combo_list t ag (rule_id rule) src dst)
       (or_any (ports rule)))) (or_any (map (the \<circ> canonicalCidr) (destinations rule)))))
       (map (the \<circ> canonicalCidr) (sources rule)))"

definition rule_ok :: "ingress_rule \<Rightarrow> bool" where
  "rule_ok rule \<longleftrightarrow> 1 \<le> rule_id rule \<and> sources rule \<noteq> []
     \<and> (\<forall>s \<in> set (sources rule) \<union> set (destinations rule). canonicalCidr s \<noteq> None)
     \<and> (\<forall>p \<in> set (ports rule). port_ok p)"

text \<open>A successful loop appends exactly these lines and counts them, within the limit.\<close>

definition emits :: "(emit_state \<Rightarrow> ingress_error + emit_state) \<Rightarrow> match_line list \<Rightarrow> bool" where
  "emits f ls \<longleftrightarrow> (\<forall>st st'. f st = Inr st' \<longrightarrow> st' = (fst st @ ls, snd st + length ls)
     \<and> (snd st \<le> MAX_LINES_TOTAL \<longrightarrow> snd st' \<le> MAX_LINES_TOTAL))"

lemma emits_Inr: "emits Inr []"
  by (simp add: emits_def)

lemma emits_emit: "emits (emit l) [l]"
  by (auto simp: emits_def emit_def not_less split: if_splits)

lemma emitsD:
  "emits f ls \<Longrightarrow> f st = Inr st' \<Longrightarrow> st' = (fst st @ ls, snd st + length ls)
     \<and> (snd st \<le> MAX_LINES_TOTAL \<longrightarrow> snd st' \<le> MAX_LINES_TOTAL)"
  unfolding emits_def by blast

lemma emits_bind:
  assumes "emits f ls" "emits g ms"
  shows "emits (\<lambda>st. bind_res (f st) g) (ls @ ms)"
  unfolding emits_def
proof (intro allI impI)
  fix st st'
  assume "bind_res (f st) g = Inr st'"
  then obtain s1 where "f st = Inr s1" "g s1 = Inr st'" by (auto simp: bind_res_Inr_iff)
  from emitsD [OF assms(1) this(1)] emitsD [OF assms(2) this(2)]
  show "st' = (fst st @ ls @ ms, snd st + length (ls @ ms))
      \<and> (snd st \<le> MAX_LINES_TOTAL \<longrightarrow> snd st' \<le> MAX_LINES_TOTAL)" by auto
qed

lemma emits_fold:
  "(\<And>x. x \<in> set xs \<Longrightarrow> emits (f x) (g x)) \<Longrightarrow> emits (fold_res f xs) (concat (map g xs))"
proof (induction xs)
  case Nil
  show ?case by (simp add: emits_def)
next
  case (Cons x xs)
  have "emits (\<lambda>st. bind_res (f x st) (fold_res f xs)) (g x @ concat (map g xs))"
    using Cons by (intro emits_bind) auto
  then show ?case by (simp add: emits_def)
qed

lemma emits_error: "emits (\<lambda>st. Inl e) ls"
  by (simp add: emits_def)

lemma concat_singletons: "concat (map (\<lambda>x. [f x]) xs) = map f xs"
  by (induction xs) auto

lemma concat_filter: "concat (map (\<lambda>x. if P x then [f x] else []) xs) = map f (filter P xs)"
  by (induction xs) auto

lemma emits_combo: "emits (combo_lines t ag r src dst p) (combo_list t ag r src dst p)"
proof -
  have "emits (iface_line t r src dst p i) [mk_line t r src dst p i]" for i
    unfolding iface_line_def using emits_emit emits_error by (cases "case p of None \<Rightarrow> False | Some q \<Rightarrow> \<not> port_ok q") simp_all
  then have 1: "emits (fold_res (iface_line t r src dst p) (iface ag # directIfaces ag))
      (map (mk_line t r src dst p) (iface ag # directIfaces ag))"
    using emits_fold [of "iface ag # directIfaces ag" "iface_line t r src dst p" "\<lambda>i. [mk_line t r src dst p i]"]
    by (simp add: concat_singletons)
  let ?l = "\<lambda>al. mk_line t r (al_direct al @ ''/32'') dst p (al_iface al)"
  have "emits (alias_line t r (directIfaces ag) src dst p al)
      (if alias_applies (directIfaces ag) src al then [?l al] else [])" for al
    unfolding alias_line_def using emits_emit emits_Inr by simp
  then have 2: "emits (fold_res (alias_line t r (directIfaces ag) src dst p) (directAliases ag))
      (map ?l (filter (alias_applies (directIfaces ag) src) (directAliases ag)))"
    using emits_fold [of "directAliases ag" "alias_line t r (directIfaces ag) src dst p"]
    by (metis (lifting) concat_filter)
  show ?thesis
    unfolding combo_lines_def combo_list_def using emits_bind [OF 1 2] by simp
qed

lemma emits_rule: "emits (rule_lines t ag rule) (rule_list t ag rule)"
proof -
  have *: "emits (fold_res (\<lambda>src. fold_res (\<lambda>dst. fold_res (\<lambda>p. combo_lines t ag (rule_id rule) src dst p)
      (or_any (ports rule))) ds) ss)
    (concat (map (\<lambda>src. concat (map (\<lambda>dst. concat (map (combo_list t ag (rule_id rule) src dst)
       (or_any (ports rule)))) ds)) ss))" for ds ss
    by (intro emits_fold emits_combo)
  from * [of "or_any (map the (map canonicalCidr (destinations rule)))" "map the (map canonicalCidr (sources rule))"]
  show ?thesis
    unfolding emits_def rule_lines_def rule_list_def Let_def
    by (simp add: comp_def split: if_splits)
qed

lemma emits_rules: "emits (fold_res (rule_lines t ag) rules) (concat (map (rule_list t ag) rules))"
  by (intro emits_fold emits_rule)

subsection \<open>When the loops succeed\<close>

text \<open>On rules that pass the code's checks the only error left is the line limit.\<close>

definition emits_exactly :: "(emit_state \<Rightarrow> ingress_error + emit_state) \<Rightarrow> match_line list \<Rightarrow> bool" where
  "emits_exactly f ls \<longleftrightarrow> (\<forall>st. snd st \<le> MAX_LINES_TOTAL \<longrightarrow>
     f st = (if snd st + length ls \<le> MAX_LINES_TOTAL then Inr (fst st @ ls, snd st + length ls)
             else Inl TooManyLines))"

lemma exactly_bind:
  assumes "emits_exactly f ls" "emits_exactly g ms"
  shows "emits_exactly (\<lambda>st. bind_res (f st) g) (ls @ ms)"
  using assms unfolding emits_exactly_def by (auto simp: add.assoc)

lemma exactly_fold:
  "(\<And>x. x \<in> set xs \<Longrightarrow> emits_exactly (f x) (g x)) \<Longrightarrow>
   emits_exactly (fold_res f xs) (concat (map g xs))"
proof (induction xs)
  case Nil
  show ?case by (simp add: emits_exactly_def)
next
  case (Cons x xs)
  have "emits_exactly (\<lambda>st. bind_res (f x st) (fold_res f xs)) (g x @ concat (map g xs))"
    using Cons by (intro exactly_bind) auto
  then show ?case by (simp add: emits_exactly_def)
qed

lemma exactly_emit: "emits_exactly (emit l) [l]"
  by (auto simp: emits_exactly_def emit_def)

lemma exactly_Inr: "emits_exactly Inr []"
  by (simp add: emits_exactly_def)

lemma exactly_combo:
  assumes "\<And>q. p = Some q \<Longrightarrow> port_ok q"
  shows "emits_exactly (combo_lines t ag r src dst p) (combo_list t ag r src dst p)"
proof -
  have "emits_exactly (iface_line t r src dst p i) [mk_line t r src dst p i]" for i
    unfolding iface_line_def using exactly_emit assms by (cases p) simp_all
  then have 1: "emits_exactly (fold_res (iface_line t r src dst p) (iface ag # directIfaces ag))
      (map (mk_line t r src dst p) (iface ag # directIfaces ag))"
    using exactly_fold [of "iface ag # directIfaces ag" "iface_line t r src dst p" "\<lambda>i. [mk_line t r src dst p i]"]
    by (simp add: concat_singletons)
  let ?l = "\<lambda>al. mk_line t r (al_direct al @ ''/32'') dst p (al_iface al)"
  have "emits_exactly (alias_line t r (directIfaces ag) src dst p al)
      (if alias_applies (directIfaces ag) src al then [?l al] else [])" for al
    unfolding alias_line_def using exactly_emit exactly_Inr by simp
  then have 2: "emits_exactly (fold_res (alias_line t r (directIfaces ag) src dst p) (directAliases ag))
      (map ?l (filter (alias_applies (directIfaces ag) src) (directAliases ag)))"
    using exactly_fold [of "directAliases ag" "alias_line t r (directIfaces ag) src dst p"]
    by (metis (lifting) concat_filter)
  show ?thesis
    unfolding combo_lines_def combo_list_def using exactly_bind [OF 1 2] by simp
qed

lemma or_any_Some: "Some q \<in> set (or_any xs) \<Longrightarrow> q \<in> set xs"
  by (auto simp: or_any_def split: if_splits)

lemma exactly_rule:
  assumes "rule_ok rule"
  shows "emits_exactly (rule_lines t ag rule) (rule_list t ag rule)"
proof -
  have *: "emits_exactly (fold_res (\<lambda>src. fold_res (\<lambda>dst. fold_res (\<lambda>p. combo_lines t ag (rule_id rule) src dst p)
      (or_any (ports rule))) ds) ss)
    (concat (map (\<lambda>src. concat (map (\<lambda>dst. concat (map (combo_list t ag (rule_id rule) src dst)
       (or_any (ports rule)))) ds)) ss))" for ds ss
    using assms by (intro exactly_fold exactly_combo) (auto simp: rule_ok_def dest: or_any_Some)
  have ok: "\<not> rule_id rule < 1"
    "\<not> (map canonicalCidr (sources rule) = [] \<or> None \<in> set (map canonicalCidr (sources rule))
        \<or> None \<in> set (map canonicalCidr (destinations rule)))"
    using assms by (auto simp: rule_ok_def) (metis UnI1 UnI2 option.distinct(1))+
  from * [of "or_any (map the (map canonicalCidr (destinations rule)))" "map the (map canonicalCidr (sources rule))"]
  show ?thesis
    unfolding emits_exactly_def rule_lines_def rule_list_def Let_def if_not_P [OF ok(1)] if_not_P [OF ok(2)]
    by (simp add: comp_def)
qed

lemma exactly_rules:
  "list_all rule_ok rules \<Longrightarrow>
   emits_exactly (fold_res (rule_lines t ag) rules) (concat (map (rule_list t ag) rules))"
  by (rule exactly_fold) (auto simp: list_all_iff intro: exactly_rule)

lemma length_or_any: "length (or_any xs) = max 1 (length xs)"
  by (auto simp: or_any_def max_def Suc_le_eq)

definition combo_size :: "agent_cfg \<Rightarrow> string \<Rightarrow> nat" where
  "combo_size ag src = Suc (length (directIfaces ag))
     + length (filter (alias_applies (directIfaces ag) src) (directAliases ag))"

lemma length_combo: "length (combo_list t ag r src dst p) = combo_size ag src"
  by (simp add: combo_list_def combo_size_def)

lemma sum_list_const: "sum_list (map (\<lambda>x. k) xs) = length xs * k" for k :: nat
  by (induction xs) auto

lemma length_rule_list:
  "length (rule_list t ag rule) =
     sum_list (map (combo_size ag \<circ> (the \<circ> canonicalCidr)) (sources rule))
     * (max 1 (length (destinations rule)) * max 1 (length (ports rule)))"
proof -
  have "length (concat (map (\<lambda>dst. concat (map (combo_list t ag r src dst) qs)) ds))
      = combo_size ag src * (length ds * length qs)" for r src ds qs
    by (simp add: length_concat comp_def length_combo sum_list_const)
  then show ?thesis
    by (simp add: rule_list_def length_concat comp_def length_or_any sum_list_mult_const)
qed

subsection \<open>The result of the generator\<close>

lemma find_None_all: "find P xs = None \<longleftrightarrow> (\<forall>x \<in> set xs. \<not> P x)"
  by (auto simp: find_None_iff)

definition agent_ok :: "agent_cfg \<Rightarrow> bool" where
  "agent_ok ag \<longleftrightarrow> isWgIface (iface ag) \<and> list_all isDirectIface (directIfaces ag)"

abbreviation needs_filter :: "agent_cfg \<Rightarrow> ingress_rule list \<Rightarrow> bool" where
  "needs_filter ag rules \<equiv> effective_mode ag \<noteq> ''open'' \<or> active_rules rules \<noteq> []"

definition all_lines :: "agent_cfg \<Rightarrow> ingress_rule list \<Rightarrow> match_line list" where
  "all_lines ag rules = concat (map
     (rule_list (if effective_mode ag = ''restricted'' then ACCEPT else RETURN) ag) (active_rules rules))"

lemma effective_mode_cases: "effective_mode ag = ''open'' \<or> effective_mode ag = ''restricted''"
  by (auto simp: effective_mode_def INGRESS_MODES_def)

lemma build_None_iff:
  "buildIngressChain ag rules = Inr None \<longleftrightarrow> effective_mode ag = ''open'' \<and> active_rules rules = []"
  by (auto simp: buildIngressChain_def Let_def bind_res_iff split: option.splits if_splits)

lemma build_Some_cases:
  assumes "buildIngressChain ag rules = Inr (Some (chain, n))"
  shows "agent_ok ag" "length (active_rules rules) \<le> MAX_RULES_PER_AGENT"
    "chain = chain_lines (effective_mode ag = ''restricted'') ag (all_lines ag rules)"
    "n = length (all_lines ag rules)" "n \<le> MAX_LINES_TOTAL"
proof -
  let ?t = "if effective_mode ag = ''restricted'' then ACCEPT else RETURN"
  have guards: "isWgIface (iface ag)" "find (\<lambda>d. \<not> isDirectIface d) (directIfaces ag) = None"
    "length (active_rules rules) \<le> MAX_RULES_PER_AGENT"
    and fold: "\<exists>ls m. fold_res (rule_lines ?t ag) (active_rules rules) ([], 0) = Inr (ls, m)
      \<and> chain = chain_lines (effective_mode ag = ''restricted'') ag ls \<and> n = m"
    using assms unfolding buildIngressChain_def Let_def
    by (auto simp: bind_res_iff split: if_split_asm option.splits)
  then obtain ls m where r: "fold_res (rule_lines ?t ag) (active_rules rules) ([], 0) = Inr (ls, m)"
    "chain = chain_lines (effective_mode ag = ''restricted'') ag ls" "n = m" by blast
  from emitsD [OF emits_rules r(1)]
  have "ls = all_lines ag rules" "m = length (all_lines ag rules)" "m \<le> MAX_LINES_TOTAL"
    by (simp_all add: all_lines_def)
  with r guards show "agent_ok ag" "length (active_rules rules) \<le> MAX_RULES_PER_AGENT"
    "chain = chain_lines (effective_mode ag = ''restricted'') ag (all_lines ag rules)"
    "n = length (all_lines ag rules)" "n \<le> MAX_LINES_TOTAL"
    by (auto simp: agent_ok_def find_None_all list_all_iff)
qed

lemma build_exact:
  assumes "agent_ok ag" "needs_filter ag rules" "length (active_rules rules) \<le> MAX_RULES_PER_AGENT"
    and "list_all rule_ok (active_rules rules)"
  shows "buildIngressChain ag rules =
    (if length (all_lines ag rules) \<le> MAX_LINES_TOTAL
     then Inr (Some (chain_lines (effective_mode ag = ''restricted'') ag (all_lines ag rules),
                     length (all_lines ag rules)))
     else Inl TooManyLines)"
proof -
  have "find (\<lambda>d. \<not> isDirectIface d) (directIfaces ag) = None"
    using assms(1) by (simp add: agent_ok_def find_None_all list_all_iff)
  then show ?thesis
    using assms exactly_rules [OF assms(4), of "if effective_mode ag = ''restricted'' then ACCEPT else RETURN" ag]
    by (auto simp: buildIngressChain_def Let_def all_lines_def agent_ok_def emits_exactly_def)
qed

subsection \<open>Reading a chain\<close>

record packet =
  pk_src :: addr
  pk_dst :: addr
  pk_iface :: string
  pk_proto :: string
  pk_dport :: "int option"
  pk_established :: bool

definition port_hits :: "packet \<Rightarrow> port_spec option \<Rightarrow> bool" where
  "port_hits pk p = (case p of None \<Rightarrow> True
     | Some q \<Rightarrow> proto q = pk_proto pk
         \<and> (case pk_dport pk of None \<Rightarrow> False | Some n \<Rightarrow> port_in_range n (port q)))"

definition match_hits :: "match_line \<Rightarrow> packet \<Rightarrow> bool" where
  "match_hits l pk \<longleftrightarrow> in_cidr (pk_src pk) (m_src l)
     \<and> (case m_dst l of None \<Rightarrow> True | Some d \<Rightarrow> in_cidr (pk_dst pk) d)
     \<and> pk_iface pk = m_iface l \<and> port_hits pk (m_port l)"

fun line_hits :: "fg_line \<Rightarrow> packet \<Rightarrow> bool" where
  "line_hits (Established t) pk = pk_established pk"
| "line_hits (Match l) pk = match_hits l pk"
| "line_hits (FinalDrop i) pk = (pk_iface pk = i)"

fun line_target :: "fg_line \<Rightarrow> fg_target" where
  "line_target (Established t) = t"
| "line_target (Match l) = m_target l"
| "line_target (FinalDrop i) = DROP"

text \<open>The end of a user-defined chain returns to the calling chain.\<close>

definition chain_verdict :: "fg_line list \<Rightarrow> packet \<Rightarrow> fg_target" where
  "chain_verdict chain pk =
     (case first_match line_hits line_target chain pk of None \<Rightarrow> RETURN | Some v \<Rightarrow> v)"

text \<open>The flow of a packet, as the coverage checks of the panel describe it.\<close>

definition packet_flow :: "packet \<Rightarrow> flow" where
  "packet_flow pk = \<lparr>f_src = cidr_text (pk_src pk) 32, f_dst = cidr_text (pk_dst pk) 32,
                     f_port = pk_dport pk, f_proto = pk_proto pk\<rparr>"

definition tunnel_ifaces :: "agent_cfg \<Rightarrow> string set" where
  "tunnel_ifaces ag = set (iface ag # directIfaces ag)"

text \<open>The packet comes from the transfer-net address of a partner gateway, on the direct link.\<close>

definition from_partner :: "agent_cfg \<Rightarrow> direct_alias \<Rightarrow> packet \<Rightarrow> bool" where
  "from_partner ag al pk \<longleftrightarrow> al \<in> set (directAliases ag) \<and> al_iface al \<in> set (directIfaces ag)
     \<and> pk_iface pk = al_iface al \<and> in_cidr (pk_src pk) (al_direct al @ ''/32'')"

text \<open>What the rules grant: a rule covers the flow of the packet, or it covers the flow the
  partner gateway would have through the hub.\<close>

definition granted :: "agent_cfg \<Rightarrow> ingress_rule list \<Rightarrow> packet \<Rightarrow> bool" where
  "granted ag rules pk \<longleftrightarrow> pk_iface pk \<in> tunnel_ifaces ag \<and>
     (\<exists>r \<in> set rules. ruleCovers r (packet_flow pk)
        \<or> (\<exists>al. from_partner ag al pk \<and> ruleCovers r ((packet_flow pk)\<lparr>f_src := al_hub al @ ''/32''\<rparr>)))"

lemma granted_code [code]:
  "granted ag rules pk \<longleftrightarrow> pk_iface pk \<in> set (iface ag # directIfaces ag) \<and>
     list_ex (\<lambda>r. ruleCovers r (packet_flow pk)
        \<or> list_ex (\<lambda>al. from_partner ag al pk
             \<and> ruleCovers r ((packet_flow pk)\<lparr>f_src := al_hub al @ ''/32''\<rparr>)) (directAliases ag)) rules"
  unfolding granted_def tunnel_ifaces_def list_ex_iff from_partner_def by blast

lemma in_cidr_canonical: "canonicalCidr s = Some c \<Longrightarrow> in_cidr x c = in_cidr x s"
  by (simp add: in_cidr_iff cidr_set_canonical)

lemma in_cidr_the: "in_cidr x (the (canonicalCidr s)) \<longleftrightarrow> in_cidr x s" if "canonicalCidr s \<noteq> None"
  using that in_cidr_canonical by auto

text \<open>The destination and port part of \<open>ruleCovers\<close>.\<close>

definition dst_port_hit :: "ingress_rule \<Rightarrow> packet \<Rightarrow> bool" where
  "dst_port_hit r pk \<longleftrightarrow>
     (\<exists>d \<in> set (or_any (destinations r)). case d of None \<Rightarrow> True | Some d \<Rightarrow> in_cidr (pk_dst pk) d)
     \<and> (\<exists>p \<in> set (or_any (ports r)). port_hits pk p)"

lemma ruleCovers_packet:
  "f_dst f = cidr_text (pk_dst pk) 32 \<Longrightarrow> f_port f = pk_dport pk \<Longrightarrow> f_proto f = pk_proto pk \<Longrightarrow>
   ruleCovers r f \<longleftrightarrow> enabled r \<and> (\<exists>s \<in> set (sources r). cidrContains s (f_src f)) \<and> dst_port_hit r pk"
  unfolding ruleCovers_def dst_port_hit_def or_any_def
  by (auto simp: list_ex_iff in_cidr_contains port_hits_def split: option.splits)

lemma match_hits_mk:
  "match_hits (mk_line t r src dst p i) pk \<longleftrightarrow> in_cidr (pk_src pk) src
     \<and> (case dst of None \<Rightarrow> True | Some d \<Rightarrow> in_cidr (pk_dst pk) d) \<and> pk_iface pk = i \<and> port_hits pk p"
  by (simp add: match_hits_def mk_line_def)

lemma combo_hit:
  "(\<exists>l \<in> set (combo_list t ag r src dst p). match_hits l pk) \<longleftrightarrow>
     (case dst of None \<Rightarrow> True | Some d \<Rightarrow> in_cidr (pk_dst pk) d) \<and> port_hits pk p
     \<and> (in_cidr (pk_src pk) src \<and> pk_iface pk \<in> tunnel_ifaces ag
        \<or> (\<exists>al. from_partner ag al pk \<and> alias_applies (directIfaces ag) src al))"
  unfolding combo_list_def tunnel_ifaces_def from_partner_def
  by (simp add: bex_Un match_hits_mk alias_applies_def) blast

text \<open>A partner packet: the rule grants it through the hub address or covers it directly.\<close>

lemma partner_sources:
  assumes "from_partner ag al pk" "canonicalCidr (al_direct al @ ''/32'') = Some (cidr_text (pk_src pk) 32)"
  shows "(\<exists>s \<in> S. in_cidr (pk_src pk) s \<or> alias_applies (directIfaces ag) s al) \<longleftrightarrow>
         (\<exists>s \<in> S. in_cidr (pk_src pk) s \<or> cidrContains s (al_hub al @ ''/32''))"
proof -
  have "cidrContains s (al_direct al @ ''/32'') = in_cidr (pk_src pk) s" for s
    using cidrContains_canonical [OF assms(2)] by (simp add: in_cidr_contains)
  then show ?thesis
    using assms(1) by (auto simp: alias_applies_def from_partner_def)
qed

text \<open>An address with the prefix 32 holds exactly the address itself.\<close>

lemma trim_append_32: "\<exists>b. trim (a @ ''/32'') = b @ ''/32''"
proof -
  have "\<not> js_ws CHR ''2''" "\<not> js_ws CHR ''/''" by (simp_all add: js_ws_def)
  moreover have "\<exists>b. dropWhile js_ws (a @ ''/32'') = b @ ''/32''"
    using \<open>\<not> js_ws CHR ''/''\<close> by (induction a) auto
  ultimately show ?thesis by (auto simp: trim_def)
qed

lemma canonicalCidr_host_prefix:
  assumes "canonicalCidr (a @ ''/32'') = Some (cidr_text n q)"
  shows "q = 32"
proof -
  obtain b where b: "trim (a @ ''/32'') = b @ ''/32''" using trim_append_32 by blast
  have "split_on CHR ''/'' (b @ ''/32'') = split_on CHR ''/'' b @ [''32'']"
    using split_on_append [of "CHR ''/''" b "''32''"] by simp
  moreover have "split_on CHR ''/'' b \<noteq> []" by simp
  moreover have "nat_of_digits ''32'' = 32" by code_simp
  ultimately show ?thesis
    using assms unfolding canonicalCidr_def b
    by (cases "split_on CHR ''/'' b" rule: list.exhaust)
      (auto simp: Let_def append_eq_Cons_conv split: list.split_asm option.split_asm if_split_asm)
qed

lemma in_host_cidr:
  assumes "in_cidr x (a @ ''/32'')"
  shows "canonicalCidr (a @ ''/32'') = Some (cidr_text x 32)"
proof -
  obtain A n q where N: "net_of (a @ ''/32'') = Some (n, q)" and A: "cidr_set (a @ ''/32'') = Some A" "x \<in> A"
    using assms by (auto simp: in_cidr_iff cidr_set_def)
  from N have c: "canonicalCidr (a @ ''/32'') = Some (cidr_text n q)"
    by (rule net_of_cases) auto
  moreover from c have "q = 32" by (rule canonicalCidr_host_prefix)
  ultimately show ?thesis using A N by (auto simp: cidr_set_def net_set_def)
qed

lemma rule_list_hit:
  "(\<exists>l \<in> set (rule_list t ag r). match_hits l pk) \<longleftrightarrow>
     (\<exists>d \<in> set (or_any (map (the \<circ> canonicalCidr) (destinations r))).
        case d of None \<Rightarrow> True | Some d \<Rightarrow> in_cidr (pk_dst pk) d)
     \<and> (\<exists>p \<in> set (or_any (ports r)). port_hits pk p)
     \<and> (\<exists>s \<in> set (sources r). let c = the (canonicalCidr s) in
          in_cidr (pk_src pk) c \<and> pk_iface pk \<in> tunnel_ifaces ag
          \<or> (\<exists>al. from_partner ag al pk \<and> alias_applies (directIfaces ag) c al))"
  unfolding rule_list_def by (simp add: combo_hit Let_def)

lemma canonical_dests_hit:
  assumes "\<And>s. s \<in> set ds \<Longrightarrow> canonicalCidr s \<noteq> None"
  shows "(\<exists>d \<in> set (or_any (map (the \<circ> canonicalCidr) ds)). case d of None \<Rightarrow> True | Some d \<Rightarrow> in_cidr x d)
     \<longleftrightarrow> (\<exists>d \<in> set (or_any ds). case d of None \<Rightarrow> True | Some d \<Rightarrow> in_cidr x d)"
proof (cases "ds = []")
  case False
  have "in_cidr x (the (canonicalCidr s)) = in_cidr x s" if "s \<in> set ds" for s
    using assms [OF that] by (rule in_cidr_the)
  with False show ?thesis by (auto simp: or_any_def)
qed (simp add: or_any_def)

lemma partner_iface: "from_partner ag al pk \<Longrightarrow> pk_iface pk \<in> tunnel_ifaces ag"
  by (auto simp: from_partner_def tunnel_ifaces_def)

lemma rule_hit:
  assumes r: "rule_ok r" "enabled r"
  shows "(\<exists>l \<in> set (rule_list t ag r). match_hits l pk) \<longleftrightarrow> granted ag [r] pk"
proof -
  let ?src = "\<lambda>s. in_cidr (pk_src pk) s"
  have can: "canonicalCidr s \<noteq> None" if "s \<in> set (sources r) \<union> set (destinations r)" for s
    using r that by (auto simp: rule_ok_def)
  have src: "in_cidr x (the (canonicalCidr s)) = in_cidr x s"
    "alias_applies ds (the (canonicalCidr s)) al = alias_applies ds s al" if "s \<in> set (sources r)" for x s ds al
  proof -
    from that have "s \<in> set (sources r) \<union> set (destinations r)" by simp
    then obtain c where c: "canonicalCidr s = Some c" using can by blast
    show "in_cidr x (the (canonicalCidr s)) = in_cidr x s" using c in_cidr_canonical [OF c] by simp
    show "alias_applies ds (the (canonicalCidr s)) al = alias_applies ds s al"
      using c cidrContains_canonical [OF c] by (simp add: alias_applies_def)
  qed
  have partner: "(\<exists>s \<in> set (sources r). ?src s \<or> alias_applies (directIfaces ag) s al) \<longleftrightarrow>
      (\<exists>s \<in> set (sources r). ?src s \<or> cidrContains s (al_hub al @ ''/32''))"
    if "from_partner ag al pk" for al
    using that by (intro partner_sources) (auto simp: from_partner_def intro: in_host_cidr)
  have cov: "ruleCovers r (packet_flow pk) \<longleftrightarrow> (\<exists>s \<in> set (sources r). ?src s) \<and> dst_port_hit r pk"
    "ruleCovers r ((packet_flow pk)\<lparr>f_src := h\<rparr>) \<longleftrightarrow>
      (\<exists>s \<in> set (sources r). cidrContains s h) \<and> dst_port_hit r pk" for h
    using r(2) by (simp_all add: ruleCovers_packet packet_flow_def in_cidr_contains)
  have dst: "(\<exists>d \<in> set (or_any (map (the \<circ> canonicalCidr) (destinations r))).
        case d of None \<Rightarrow> True | Some d \<Rightarrow> in_cidr (pk_dst pk) d)
      \<and> (\<exists>p \<in> set (or_any (ports r)). port_hits pk p) \<longleftrightarrow> dst_port_hit r pk"
    unfolding dst_port_hit_def using canonical_dests_hit [of "destinations r"] can by simp
  have "(\<exists>l \<in> set (rule_list t ag r). match_hits l pk) \<longleftrightarrow> dst_port_hit r pk \<and>
     (\<exists>s \<in> set (sources r). ?src s \<and> pk_iface pk \<in> tunnel_ifaces ag
        \<or> (\<exists>al. from_partner ag al pk \<and> alias_applies (directIfaces ag) s al))"
    unfolding rule_list_hit dst [symmetric] Let_def using src by auto
  also have "\<dots> \<longleftrightarrow> pk_iface pk \<in> tunnel_ifaces ag \<and> ((\<exists>s \<in> set (sources r). ?src s) \<and> dst_port_hit r pk
        \<or> (\<exists>al. from_partner ag al pk \<and> (\<exists>s \<in> set (sources r). cidrContains s (al_hub al @ ''/32'')) \<and> dst_port_hit r pk))"
    (is "_ \<longleftrightarrow> ?R")
  proof (cases "\<exists>al. from_partner ag al pk")
    case False
    then show ?thesis by auto
  next
    case True
    then have "pk_iface pk \<in> tunnel_ifaces ag" using partner_iface by auto
    moreover have "\<forall>al. from_partner ag al pk \<longrightarrow>
        (\<exists>s \<in> set (sources r). ?src s \<or> alias_applies (directIfaces ag) s al) =
        (\<exists>s \<in> set (sources r). ?src s \<or> cidrContains s (al_hub al @ ''/32''))"
      using partner by blast
    ultimately show ?thesis using True by blast
  qed
  also have "?R \<longleftrightarrow> granted ag [r] pk"
    by (simp add: granted_def cov)
  finally show ?thesis .
qed

lemma active_enabled: "r \<in> set (active_rules rules) \<Longrightarrow> enabled r"
  by (simp add: active_rules_def)

lemma granted_active: "granted ag (active_rules rules) pk \<longleftrightarrow> granted ag rules pk"
proof -
  have "ruleCovers r f \<Longrightarrow> enabled r" for r f by (simp add: ruleCovers_def split: if_splits)
  then show ?thesis unfolding granted_def active_rules_def set_sort set_filter by blast
qed

lemma all_lines_hit:
  assumes "list_all rule_ok (active_rules rules)"
  shows "(\<exists>l \<in> set (all_lines ag rules). match_hits l pk) \<longleftrightarrow> granted ag rules pk"
proof -
  have "(\<exists>l \<in> set (rule_list t ag r). match_hits l pk) \<longleftrightarrow> granted ag [r] pk"
    if "r \<in> set (active_rules rules)" for r t
    using that assms by (intro rule_hit active_enabled) (simp_all add: list_all_iff)
  then have "(\<exists>l \<in> set (all_lines ag rules). match_hits l pk) \<longleftrightarrow> (\<exists>r \<in> set (active_rules rules). granted ag [r] pk)"
    by (auto simp add: all_lines_def)
  also have "\<dots> \<longleftrightarrow> granted ag rules pk"
    by (subst granted_active [symmetric]) (auto simp: granted_def)
  finally show ?thesis .
qed

subsection \<open>A successful build has checked every rule\<close>

lemma fold_res_step:
  "fold_res f xs s = Inr t \<Longrightarrow> x \<in> set xs \<Longrightarrow> \<exists>s1 s2. f x s1 = Inr s2"
  by (induction xs arbitrary: s) (auto simp: bind_res_Inr_iff)

lemma combo_lines_port_ok:
  assumes "combo_lines t ag r src dst (Some q) st = Inr st'"
  shows "port_ok q"
  using assms unfolding combo_lines_def
  by (auto simp: bind_res_Inr_iff iface_line_def split: if_split_asm)

lemma rule_lines_ok:
  assumes "rule_lines t ag rule st = Inr st'"
  shows "rule_ok rule"
proof -
  let ?srcs = "map the (map canonicalCidr (sources rule))"
  let ?dsts = "or_any (map the (map canonicalCidr (destinations rule)))"
  from assms have id: "1 \<le> rule_id rule" and ne: "sources rule \<noteq> []"
    and can: "None \<notin> canonicalCidr ` (set (sources rule) \<union> set (destinations rule))"
    and loop: "fold_res (\<lambda>src. fold_res (\<lambda>dst. fold_res (\<lambda>p. combo_lines t ag (rule_id rule) src dst p)
       (or_any (ports rule))) ?dsts) ?srcs st = Inr st'"
    by (auto simp: rule_lines_def Let_def split: if_split_asm)
  have "port_ok q" if "q \<in> set (ports rule)" for q
  proof -
    from ne obtain src where "src \<in> set ?srcs" by (cases "sources rule") auto
    from fold_res_step [OF loop this] obtain s1 s2 where
      "fold_res (\<lambda>dst. fold_res (\<lambda>p. combo_lines t ag (rule_id rule) src dst p)
         (or_any (ports rule))) ?dsts s1 = Inr s2" by blast
    moreover obtain dst where "dst \<in> set ?dsts" by (metis ex_in_conv set_empty or_any_def list.distinct(1) map_is_Nil_conv)
    ultimately obtain s3 s4 where
      "fold_res (\<lambda>p. combo_lines t ag (rule_id rule) src dst p) (or_any (ports rule)) s3 = Inr s4"
      by (blast dest: fold_res_step)
    moreover have "Some q \<in> set (or_any (ports rule))" using that by (auto simp: or_any_def)
    ultimately show ?thesis by (blast dest: fold_res_step intro: combo_lines_port_ok)
  qed
  with id ne can show ?thesis unfolding rule_ok_def by (metis image_eqI)
qed

lemma build_Some_rules_ok:
  assumes "buildIngressChain ag rules = Inr (Some (chain, n))"
  shows "list_all rule_ok (active_rules rules)"
proof -
  obtain t ls m where "fold_res (rule_lines t ag) (active_rules rules) ([], 0) = Inr (ls, m)"
    using assms unfolding buildIngressChain_def Let_def
    by (auto simp: bind_res_iff split: if_split_asm option.splits)
  from fold_res_step [OF this] rule_lines_ok show ?thesis unfolding list_all_iff by blast
qed

lemma all_lines_target:
  assumes "l \<in> set (all_lines ag rules)"
  shows "m_target l = (if effective_mode ag = ''restricted'' then ACCEPT else RETURN)"
  using assms unfolding all_lines_def rule_list_def combo_list_def mk_line_def by auto

lemma first_match_Match [chain_walk]:
  "first_match line_hits line_target (map Match ls) pk = first_match match_hits m_target ls pk"
  by (induction ls) auto

lemma first_match_FinalDrop [chain_walk]:
  "first_match line_hits line_target (map FinalDrop is) pk = (if pk_iface pk \<in> set is then Some DROP else None)"
  by (induction "is") auto

lemma first_match_rules:
  "list_all rule_ok (active_rules rules) \<Longrightarrow> first_match match_hits m_target (all_lines ag rules) pk =
     (if granted ag rules pk then Some (if effective_mode ag = ''restricted'' then ACCEPT else RETURN) else None)"
  using first_match_same [of "all_lines ag rules" m_target "if effective_mode ag = ''restricted'' then ACCEPT else RETURN" match_hits pk]
    all_lines_target all_lines_hit [of rules ag pk] by simp

subsection \<open>Verdicts\<close>

text \<open>C1: In restricted mode the generated chain accepts a new packet exactly when it arrives on
  a tunnel interface and an enabled rule covers its flow (a partner gateway's transfer-net
  address counts as its hub address on its own link); every other new packet of a tunnel
  interface is dropped and packets of other interfaces are returned to the caller.\<close>

theorem restricted_verdict:
  assumes "buildIngressChain ag rules = Inr (Some (chain, n))"
    and "effective_mode ag = ''restricted''" and "\<not> pk_established pk"
  shows "chain_verdict chain pk =
    (if granted ag rules pk then ACCEPT else if pk_iface pk \<in> tunnel_ifaces ag then DROP else RETURN)"
proof -
  have chain: "chain = Established ACCEPT # map Match (all_lines ag rules)
      @ map FinalDrop (iface ag # directIfaces ag)"
    using build_Some_cases(3) [OF assms(1)] assms(2) by (simp add: chain_lines_def)
  then have "first_match line_hits line_target chain pk =
    (case first_match match_hits m_target (all_lines ag rules) pk of
       None \<Rightarrow> if pk_iface pk \<in> tunnel_ifaces ag then Some DROP else None | Some v \<Rightarrow> Some v)"
    using assms(3) first_match_FinalDrop [of "iface ag # directIfaces ag" pk]
    by (simp add: first_match_append first_match_Match tunnel_ifaces_def del: list.map split: option.split)
  then show ?thesis
    using first_match_rules [OF build_Some_rules_ok [OF assms(1)], of ag pk] assms(2)
    by (simp add: chain_verdict_def)
qed

text \<open>In open mode the generated chain only observes: whatever the rules are, no packet is
  accepted or dropped by it, every packet returns to the calling chain.\<close>

theorem open_verdict:
  assumes "buildIngressChain ag rules = Inr (Some (chain, n))" and "effective_mode ag = ''open''"
  shows "chain_verdict chain pk = RETURN"
proof -
  have chain: "chain = Established RETURN # map Match (all_lines ag rules)"
    using build_Some_cases(3) [OF assms(1)] assms(2) by (simp add: chain_lines_def)
  then show ?thesis
    using first_match_rules [OF build_Some_rules_ok [OF assms(1)], of ag pk] assms(2)
    by (simp add: chain_verdict_def first_match_Match)
qed

text \<open>C5: For a well-formed agent with at most 500 active, well-formed rules that needs a filter,
  the generator produces its chain exactly when the lines fit into the limit of 4000, and
  reports the number of rule lines; otherwise it fails with the line-limit error.\<close>

theorem build_succeeds_iff:
  assumes "agent_ok ag" "needs_filter ag rules" "length (active_rules rules) \<le> MAX_RULES_PER_AGENT"
    and "list_all rule_ok (active_rules rules)"
  shows "(\<exists>chain. buildIngressChain ag rules = Inr (Some (chain, length (all_lines ag rules))))
       \<and> length (all_lines ag rules) \<le> MAX_LINES_TOTAL
    \<or> buildIngressChain ag rules = Inl TooManyLines \<and> length (all_lines ag rules) > MAX_LINES_TOTAL"
  using build_exact [OF assms] by (cases "length (all_lines ag rules) \<le> MAX_LINES_TOTAL") auto

subsection \<open>Concrete agents\<close>

definition ex_port :: "string \<Rightarrow> port_spec" where
  "ex_port s = \<lparr>proto = ''tcp'', port = s\<rparr>"

definition ex_rule :: "int \<Rightarrow> string list \<Rightarrow> string list \<Rightarrow> port_spec list \<Rightarrow> ingress_rule" where
  "ex_rule i src dst ps = \<lparr>rule_id = i, rule_name = ''web'', sources = src, destinations = dst,
     ports = ps, enabled = True, rule_note = None, hit_packets = 0, last_hit_at = None,
     created_on = JUndef, armed_on = None\<rparr>"

definition ex_rules :: "ingress_rule list" where
  "ex_rules = [ex_rule 7 [''10.10.0.1/32''] [''192.168.1.0/24''] [ex_port ''443'']]"

definition ex_agent :: "string \<Rightarrow> agent_cfg" where
  "ex_agent mode = \<lparr>ingress_mode = mode, iface = ''wg0'', directIfaces = [''fgd3''],
     directAliases = [\<lparr>al_iface = ''fgd3'', al_hub = ''10.10.0.1'', al_direct = ''10.255.0.1''\<rparr>]\<rparr>"

definition ex_packet :: "addr \<Rightarrow> string \<Rightarrow> int \<Rightarrow> packet" where
  "ex_packet src i dport = \<lparr>pk_src = src, pk_dst = 0xC0A80105, pk_iface = i, pk_proto = ''tcp'',
     pk_dport = Some dport, pk_established = False\<rparr>"

lemma ex_build:
  obtains chain where "buildIngressChain (ex_agent ''restricted'') ex_rules = Inr (Some (chain, 3))"
proof -
  have "case buildIngressChain (ex_agent ''restricted'') ex_rules of Inr (Some (c, n)) \<Rightarrow> n = 3 | _ \<Rightarrow> False"
    by code_simp
  then show ?thesis
    by (auto split: sum.split_asm option.split_asm prod.split_asm intro: that)
qed

text \<open>The partner gateway is admitted on its link, its neighbour port is not.\<close>

theorem restricted_verdict_witness:
  "\<exists>chain. buildIngressChain (ex_agent ''restricted'') ex_rules = Inr (Some (chain, 3))
     \<and> chain_verdict chain (ex_packet 0x0AFF0001 ''fgd3'' 443) = ACCEPT
     \<and> chain_verdict chain (ex_packet 0x0AFF0001 ''fgd3'' 22) = DROP"
proof -
  obtain chain where b: "buildIngressChain (ex_agent ''restricted'') ex_rules = Inr (Some (chain, 3))"
    by (rule ex_build)
  have m: "effective_mode (ex_agent ''restricted'') = ''restricted''"
    "\<not> pk_established (ex_packet s i p)" for s i p
    by (simp_all add: effective_mode_def ex_agent_def INGRESS_MODES_def ex_packet_def)
  have "granted (ex_agent ''restricted'') ex_rules (ex_packet 0x0AFF0001 ''fgd3'' 443)"
    "\<not> granted (ex_agent ''restricted'') ex_rules (ex_packet 0x0AFF0001 ''fgd3'' 22)"
    by code_simp+
  moreover have "pk_iface (ex_packet s ''fgd3'' p) \<in> tunnel_ifaces (ex_agent ''restricted'')" for s p
    by (simp add: ex_packet_def tunnel_ifaces_def ex_agent_def)
  ultimately show ?thesis
    using b by (simp add: restricted_verdict [OF b m])
qed

theorem open_verdict_witness:
  "\<exists>chain. buildIngressChain (ex_agent ''open'') ex_rules = Inr (Some (chain, 3))
     \<and> chain_verdict chain (ex_packet 1 ''wg0'' 22) = RETURN"
proof -
  have "case buildIngressChain (ex_agent ''open'') ex_rules of Inr (Some (c, n)) \<Rightarrow> n = 3 | _ \<Rightarrow> False"
    by code_simp
  then obtain chain where b: "buildIngressChain (ex_agent ''open'') ex_rules = Inr (Some (chain, 3))"
    by (auto split: sum.split_asm option.split_asm prod.split_asm)
  have "effective_mode (ex_agent ''open'') = ''open''" by (simp add: effective_mode_def ex_agent_def INGRESS_MODES_def)
  from open_verdict [OF b this] b show ?thesis by blast
qed

theorem build_succeeds_iff_witness:
  "length (all_lines (ex_agent ''restricted'') ex_rules) = 3
   \<and> ((\<exists>chain. buildIngressChain (ex_agent ''restricted'') ex_rules = Inr (Some (chain, 3)))
      \<or> buildIngressChain (ex_agent ''restricted'') ex_rules = Inl TooManyLines)"
proof -
  have h: "agent_ok (ex_agent ''restricted'')" "needs_filter (ex_agent ''restricted'') ex_rules"
    "length (active_rules ex_rules) \<le> MAX_RULES_PER_AGENT" "list_all rule_ok (active_rules ex_rules)"
    by code_simp+
  have n: "length (all_lines (ex_agent ''restricted'') ex_rules) = 3" by code_simp
  from build_succeeds_iff [OF h] show ?thesis unfolding n by blast
qed

subsection \<open>The limit check on save and the generator\<close>

text \<open>A ruleset of seven sanitized rules (256 lines each) for the address of one partner.\<close>

definition many_hosts :: "string list" where
  "many_hosts = map (\<lambda>i. cidr_text (of_nat i) 32) [0..<64]"

definition many_rules :: "ingress_rule list" where
  "many_rules = map (\<lambda>i. ex_rule (int i) [''10.10.0.1/32''] many_hosts
     [ex_port ''80'', ex_port ''443'', ex_port ''8080'', ex_port ''8443'']) [1..<8]"

lemma many_hosts_canonical: "list_all is_canonical many_hosts"
  by (auto simp: many_hosts_def list_all_iff is_canonical_def canonicalCidr_text)

text \<open>The line check on save does not count the extra lines for a partner gateway's
  transfer-net address: this ruleset passes the per-rule and the total check of the panel for
  its two interfaces, and the generator then refuses it, so the agent gets no ruleset at all.\<close>

theorem save_check_misses_alias_lines:
  "assertTotalLineCount many_rules (1 + length (directIfaces (ex_agent ''restricted''))) = Inr ()
   \<and> list_all (\<lambda>r. assertRuleLineCount (ruleLineCount r) = Inr ()) many_rules
   \<and> buildIngressChain (ex_agent ''restricted'') many_rules = Inl TooManyLines"
proof -
  have sort: "active_rules many_rules = many_rules"
    unfolding active_rules_def by (simp add: many_rules_def ex_rule_def upt_rec)
  have canon: "canonicalCidr ''10.10.0.1/32'' = Some ''10.10.0.1/32''" by code_simp
  have ports: "list_all port_ok [ex_port ''80'', ex_port ''443'', ex_port ''8080'', ex_port ''8443'']" by code_simp
  have size: "combo_size (ex_agent ''restricted'') ''10.10.0.1/32'' = 3" by code_simp
  have len: "length many_hosts = 64" by (simp add: many_hosts_def)
  have ok: "list_all rule_ok many_rules"
    using many_hosts_canonical ports canon
    by (auto simp: many_rules_def rule_ok_def ex_rule_def list_all_iff is_canonical_def)
  have "length (rule_list t (ex_agent ''restricted'') r) = 768" if "r \<in> set many_rules" for t r
    using that len canon size by (auto simp: length_rule_list many_rules_def ex_rule_def)
  then have "map (\<lambda>r. length (rule_list t (ex_agent ''restricted'') r)) many_rules = map (\<lambda>r. 768) many_rules" for t
    by simp
  then have total: "length (all_lines (ex_agent ''restricted'') many_rules) = 5376"
    unfolding all_lines_def sort length_concat map_map comp_def
    by (simp only: sum_list_const) (simp add: many_rules_def)
  have ag: "agent_ok (ex_agent ''restricted'')" "effective_mode (ex_agent ''restricted'') = ''restricted''"
    by code_simp+
  have "length many_rules \<le> MAX_RULES_PER_AGENT" by (simp add: many_rules_def MAX_RULES_PER_AGENT_def)
  then have "buildIngressChain (ex_agent ''restricted'') many_rules = Inl TooManyLines"
    using ag ok total by (subst build_exact) (simp_all add: sort MAX_LINES_TOTAL_def)
  moreover have "map ruleLineCount (filter enabled many_rules) = replicate 7 256"
    using len by (simp add: many_rules_def ex_rule_def ruleLineCount_def line_count_def upt_rec numeral_eq_Suc)
  then have "assertTotalLineCount many_rules (1 + length (directIfaces (ex_agent ''restricted''))) = Inr ()"
    by (simp add: assertTotalLineCount_def ex_agent_def MAX_LINES_TOTAL_def Let_def sum_list_replicate)
  moreover have "list_all (\<lambda>r. assertRuleLineCount (ruleLineCount r) = Inr ()) many_rules"
    using len by (simp add: many_rules_def ex_rule_def ruleLineCount_def line_count_def list_all_iff
        assertRuleLineCount_def MAX_LINES_PER_RULE_def)
  ultimately show ?thesis by blast
qed

text \<open>The three lists of a stored rule were each written from a payload the panel accepted, a
  complete one (create) or a patch (update).\<close>

definition saved_lists :: "ingress_rule \<Rightarrow> bool" where
  "saved_lists r \<longleftrightarrow>
     (\<exists>data partial p. sanitizeIngressRule data partial = Inr p \<and> p_sources p = Some (sources r))
   \<and> (\<exists>data partial p. sanitizeIngressRule data partial = Inr p \<and> p_destinations p = Some (destinations r))
   \<and> (\<exists>data partial p. sanitizeIngressRule data partial = Inr p \<and> p_ports p = Some (ports r))"

lemma sanitize_field_Some:
  "sanitize_field partial v f = Inr (Some x) \<Longrightarrow> f v = Inr x"
  by (auto simp: sanitize_field_def bind_res_iff split: if_split_asm)

lemma sanitizeIngressRule_lists:
  assumes "sanitizeIngressRule data partial = Inr p"
  shows "p_sources p = Some src \<Longrightarrow> \<exists>v. sanitizeCidrList v ''sources'' False = Inr src"
    "p_destinations p = Some dst \<Longrightarrow> \<exists>v. sanitizeCidrList v ''destinations'' True = Inr dst"
    "p_ports p = Some pts \<Longrightarrow> \<exists>v. sanitizePorts v = Inr pts"
proof -
  let ?d = "if js_truthy data then data else JObj []"
  from assms have
    "sanitize_field partial (getp ?d ''sources'') (\<lambda>v. sanitizeCidrList v ''sources'' False) = Inr (p_sources p)"
    "sanitize_field partial (getp ?d ''destinations'') (\<lambda>v. sanitizeCidrList v ''destinations'' True) = Inr (p_destinations p)"
    "sanitize_field partial (getp ?d ''ports'') sanitizePorts = Inr (p_ports p)"
    unfolding sanitizeIngressRule_def Let_def
    by (auto simp: bind_res_iff simp del: getp.simps split: if_split_asm)
  note f = this
  show "p_sources p = Some src \<Longrightarrow> \<exists>v. sanitizeCidrList v ''sources'' False = Inr src"
    using sanitize_field_Some [OF f(1) [THEN trans]] by auto
  show "p_destinations p = Some dst \<Longrightarrow> \<exists>v. sanitizeCidrList v ''destinations'' True = Inr dst"
    using sanitize_field_Some [OF f(2) [THEN trans]] by auto
  show "p_ports p = Some pts \<Longrightarrow> \<exists>v. sanitizePorts v = Inr pts"
    using sanitize_field_Some [OF f(3) [THEN trans]] by auto
qed

lemma wf_port_ok:
  assumes "wf_port p"
  shows "port_ok p"
proof -
  from assms obtain a b where ab: "port_span p a b" and pr: "proto p \<in> set INGRESS_PROTOS" by (auto simp: wf_port_def)
  have "digits_upto 5 (str_of_nat n)" if "n \<le> 65535" for n
    using digits_upto_str_of_nat [of n 4] that by simp
  with ab have "port_text_ok (port p)" unfolding port_text_ok_def split_port [OF ab] by (simp add: port_span_def)
  with pr show ?thesis by (simp add: port_ok_def)
qed

lemma saved_lists_canonical:
  assumes "saved_lists r"
  shows "sources r \<noteq> []" "list_all is_canonical (sources r)" "list_all is_canonical (destinations r)"
    "list_all wf_port (ports r)"
proof -
  from assms obtain v w q where "sanitizeCidrList v ''sources'' False = Inr (sources r)"
    "sanitizeCidrList w ''destinations'' True = Inr (destinations r)" "sanitizePorts q = Inr (ports r)"
    unfolding saved_lists_def using sanitizeIngressRule_lists by meson
  then show "sources r \<noteq> []" "list_all is_canonical (sources r)" "list_all is_canonical (destinations r)"
    "list_all wf_port (ports r)"
    using sanitizeCidrList_result sanitizePorts_result by blast+
qed

lemma saved_rule_ok:
  assumes "saved_lists r" "1 \<le> rule_id r"
  shows "rule_ok r"
  using saved_lists_canonical [OF assms(1)] assms(2) wf_port_ok
  by (auto simp: rule_ok_def list_all_iff is_canonical_def)

text \<open>Without alias lines the generator emits what the panel counted.\<close>

lemma combo_size_no_alias:
  assumes "\<forall>al \<in> set (directAliases ag). \<not> alias_applies (directIfaces ag) src al"
  shows "combo_size ag src = Suc (length (directIfaces ag))"
  using assms by (simp add: combo_size_def filter_empty_conv)

lemma length_rule_no_alias:
  assumes "saved_lists r"
    and "\<forall>s \<in> set (sources r). \<forall>al \<in> set (directAliases ag). \<not> alias_applies (directIfaces ag) s al"
  shows "length (rule_list t ag r) = ruleLineCount r * Suc (length (directIfaces ag))"
proof -
  have "(combo_size ag \<circ> (the \<circ> canonicalCidr)) s = Suc (length (directIfaces ag))" if "s \<in> set (sources r)" for s
  proof -
    have "canonicalCidr s = Some s"
      using saved_lists_canonical(2) [OF assms(1)] that by (simp add: list_all_iff is_canonical_def)
    then show ?thesis using assms(2) that by (simp add: combo_size_no_alias)
  qed
  then have "map (combo_size ag \<circ> (the \<circ> canonicalCidr)) (sources r)
      = map (\<lambda>s. Suc (length (directIfaces ag))) (sources r)"
    by (intro map_cong) simp_all
  then show ?thesis
    unfolding length_rule_list by (simp only: sum_list_const) (simp add: ruleLineCount_def line_count_def algebra_simps)
qed

lemma total_lines_no_alias:
  assumes "\<forall>r \<in> set (active_rules rules). saved_lists r
      \<and> (\<forall>s \<in> set (sources r). \<forall>al \<in> set (directAliases ag). \<not> alias_applies (directIfaces ag) s al)"
  shows "length (all_lines ag rules)
    = sum_list (map ruleLineCount (filter enabled rules)) * (1 + length (directIfaces ag))"
proof -
  let ?k = "Suc (length (directIfaces ag))"
  let ?t = "if effective_mode ag = ''restricted'' then ACCEPT else RETURN"
  have "map (length \<circ> rule_list ?t ag) (active_rules rules) = map (\<lambda>r. ruleLineCount r * ?k) (active_rules rules)"
    using assms length_rule_no_alias by (intro map_cong) simp_all
  then have "length (all_lines ag rules) = sum_list (map (\<lambda>r. ruleLineCount r * ?k) (active_rules rules))"
    unfolding all_lines_def length_concat map_map by (simp only:)
  also have "\<dots> = sum_list (map ruleLineCount (active_rules rules)) * ?k"
    by (rule sum_list_mult_const)
  also have "sum_list (map ruleLineCount (active_rules rules)) = sum_list (map ruleLineCount (filter enabled rules))"
  proof -
    have "mset (map ruleLineCount (active_rules rules)) = mset (map ruleLineCount (filter enabled rules))"
      by (simp add: active_rules_def)
    then show ?thesis by (metis sum_mset_sum_list)
  qed
  finally show ?thesis by simp
qed

text \<open>C4: The only thing the generator can refuse of what the panel accepts is the line total. Take
  an agent with well-formed interface names that needs a filter: when every active rule has an id and lists from accepted payloads, there are at most 500 of them
  and the panel's check of the total passed for the agent's interfaces, the chain is built. The
  one exception is the line limit, and only when some rule admits a partner whose transfer-net
  address needs extra lines, which that check does not count (lemma save_check_misses_alias_lines).\<close>

theorem saved_rules_build:
  assumes "agent_ok ag" "needs_filter ag rules" "length (active_rules rules) \<le> MAX_RULES_PER_AGENT"
    and "\<forall>r \<in> set (active_rules rules). 1 \<le> rule_id r \<and> saved_lists r"
    and "assertTotalLineCount rules (1 + length (directIfaces ag)) = Inr ()"
  shows "(\<exists>chain. buildIngressChain ag rules = Inr (Some (chain, length (all_lines ag rules))))
    \<or> buildIngressChain ag rules = Inl TooManyLines
      \<and> (\<exists>r \<in> set (active_rules rules). \<exists>s \<in> set (sources r). \<exists>al \<in> set (directAliases ag).
            alias_applies (directIfaces ag) s al)"
proof -
  have ok: "list_all rule_ok (active_rules rules)"
    using assms(4) saved_rule_ok by (simp add: list_all_iff)
  note build = build_exact [OF assms(1-3) ok]
  show ?thesis
  proof (cases "\<exists>r \<in> set (active_rules rules). \<exists>s \<in> set (sources r). \<exists>al \<in> set (directAliases ag).
      alias_applies (directIfaces ag) s al")
    case True
    then show ?thesis using build by (cases "length (all_lines ag rules) \<le> MAX_LINES_TOTAL") auto
  next
    case False
    then have "length (all_lines ag rules)
        = sum_list (map ruleLineCount (filter enabled rules)) * (1 + length (directIfaces ag))"
      using assms(4) by (intro total_lines_no_alias) blast
    moreover have "sum_list (map ruleLineCount (filter enabled rules)) * (1 + length (directIfaces ag)) \<le> MAX_LINES_TOTAL"
      using assms(5) by (simp add: assertTotalLineCount_def Let_def split: if_split_asm)
    ultimately show ?thesis using build by simp
  qed
qed

definition ex_rule_payload :: jsval where
  "ex_rule_payload = JObj [(''name'', JStr ''web''), (''sources'', JArr [JStr ''10.10.0.1'']),
     (''destinations'', JArr [JStr ''192.168.1.7/24'']), (''ports'', JArr [JObj [(''port'', JStr ''443'')]])]"

lemma ex_rules_saved: "\<forall>r \<in> set (active_rules ex_rules). 1 \<le> rule_id r \<and> saved_lists r"
proof -
  have "case sanitizeIngressRule ex_rule_payload False of
      Inr p \<Rightarrow> p_sources p = Some [''10.10.0.1/32''] \<and> p_destinations p = Some [''192.168.1.0/24'']
        \<and> p_ports p = Some [ex_port ''443''] | Inl e \<Rightarrow> False"
    by code_simp
  then obtain p where "sanitizeIngressRule ex_rule_payload False = Inr p" "p_sources p = Some [''10.10.0.1/32'']"
    "p_destinations p = Some [''192.168.1.0/24'']" "p_ports p = Some [ex_port ''443'']"
    by (auto split: sum.split_asm)
  then have "saved_lists (ex_rule 7 [''10.10.0.1/32''] [''192.168.1.0/24''] [ex_port ''443''])"
    unfolding saved_lists_def ex_rule_def by (metis ingress_rule.select_convs(3-5))
  then show ?thesis by (simp add: active_rules_def ex_rules_def ex_rule_def)
qed

text \<open>Without the direct link's alias the same rule is certain to build.\<close>

theorem saved_rules_build_witness:
  "\<exists>chain. buildIngressChain ((ex_agent ''restricted'')\<lparr>directAliases := []\<rparr>) ex_rules = Inr (Some (chain, 2))"
proof -
  let ?ag = "(ex_agent ''restricted'')\<lparr>directAliases := []\<rparr>"
  have h: "agent_ok ?ag" "needs_filter ?ag ex_rules" "length (active_rules ex_rules) \<le> MAX_RULES_PER_AGENT"
    "assertTotalLineCount ex_rules (1 + length (directIfaces ?ag)) = Inr ()"
    by code_simp+
  have n: "length (all_lines ?ag ex_rules) = 2" by code_simp
  from saved_rules_build [OF h(1-3) ex_rules_saved h(4)] show ?thesis unfolding n by simp
qed

end
