(* ===== verification/Ingress_Payload.thy ===== *)
theory Ingress_Payload
  imports Ingress_Chain
begin

text \<open>
  The text \<open>buildIngressRestore\<close> sends to an agent: every field of a line consists of
  letters, digits and the characters dot, slash, colon and minus, so the text holds exactly the
  lines of the chain and nothing a rule or an interface name contains can start a line of its own,
  nor an alias whose address consists of such characters.
\<close>

subsection \<open>The text of the payload\<close>

text \<open>Characters the fields of a line are made of; no line end, blank, quote or backslash.\<close>

definition field_char :: "char \<Rightarrow> bool" where
  "field_char c \<longleftrightarrow> is_alnum c \<or> c \<in> {CHR ''.'', CHR ''/'', CHR '':'', CHR ''-''}"

lemma digits_field: "list_all is_digit s \<Longrightarrow> list_all field_char s"
  by (auto simp: list_all_iff field_char_def is_alnum_def)

lemma digits_upto_field: "digits_upto k s \<Longrightarrow> list_all field_char s"
  by (auto simp: digits_upto_def intro: digits_field)

lemma cidr_text_field: "list_all field_char (cidr_text n p)"
proof -
  have "list_all field_char (intToIp n)"
    using set_intToIp [of _ n] by (auto simp: list_all_iff field_char_def is_alnum_def)
  then show ?thesis using digits_field [OF str_of_nat_digits [of p]]
    by (simp add: cidr_text_def field_char_def)
qed

lemma canonical_field: "canonicalCidr s = Some c \<Longrightarrow> list_all field_char c"
  by (erule canonicalCidr_cases) (simp add: cidr_text_field)

lemma join_colon_field: "list_all field_char a \<Longrightarrow> list_all field_char b \<Longrightarrow> list_all field_char (a @ CHR '':'' # b)"
  by (simp add: field_char_def)

lemma port_ok_field:
  assumes "port_ok q"
  shows "list_all field_char (port q)" "list_all field_char (proto q)"
proof -
  have t: "port_text_ok (port q)" and p: "proto q \<in> set INGRESS_PROTOS"
    using assms by (simp_all add: port_ok_def)
  from t consider a where "split_on CHR '':'' (port q) = [a]" "digits_upto 5 a"
    | a b where "split_on CHR '':'' (port q) = [a, b]" "digits_upto 5 a" "digits_upto 5 b"
    by (auto simp: port_text_ok_def split: list.split_asm)
  then show "list_all field_char (port q)"
    by cases (simp_all add: split_on_eq_iff digits_upto_field field_char_def)
  have "list_all field_char ''tcp''" "list_all field_char ''udp''" by code_simp+
  with p show "list_all field_char (proto q)" by (auto simp: INGRESS_PROTOS_def)
qed

lemma wg_iface_field: "isWgIface i \<Longrightarrow> list_all field_char i"
proof -
  assume "isWgIface i"
  then have "i = ''wg'' @ drop 2 i" "list_all field_char (drop 2 i)"
    by (auto simp: isWgIface_def dest: digits_upto_field) (metis append_take_drop_id append_Cons append_Nil)
  moreover have "list_all field_char ''wg''" by code_simp
  ultimately show ?thesis by (metis list_all_append)
qed

lemma direct_iface_field: "isDirectIface i \<Longrightarrow> list_all field_char i"
proof -
  assume "isDirectIface i"
  then have "i = ''fgd'' @ drop 3 i" "list_all field_char (drop 3 i)"
    by (auto simp: isDirectIface_def dest: digits_upto_field) (metis append_take_drop_id append_Cons append_Nil)
  moreover have "list_all field_char ''fgd''" by code_simp
  ultimately show ?thesis by (metis list_all_append)
qed

definition line_fields_ok :: "fg_line \<Rightarrow> bool" where
  "line_fields_ok l = (case l of Established t \<Rightarrow> True
     | FinalDrop i \<Rightarrow> list_all field_char i
     | Match m \<Rightarrow> list_all field_char (m_src m) \<and> list_all field_char (m_iface m)
         \<and> (\<forall>d. m_dst m = Some d \<longrightarrow> list_all field_char d)
         \<and> (\<forall>q. m_port m = Some q \<longrightarrow> list_all field_char (port q) \<and> list_all field_char (proto q)))"

lemma or_any_cases: "x \<in> set (or_any xs) \<Longrightarrow> x = None \<or> (\<exists>y \<in> set xs. x = Some y)"
  by (auto simp: or_any_def split: if_splits)

lemma combo_fields_ok:
  assumes "agent_ok ag" "\<forall>al \<in> set (directAliases ag). list_all field_char (al_direct al)"
    and "list_all field_char src" "\<And>d. dst = Some d \<Longrightarrow> list_all field_char d" "\<And>q. p = Some q \<Longrightarrow> port_ok q"
    and "l \<in> set (combo_list t ag r src dst p)"
  shows "line_fields_ok (Match l)"
proof -
  have i: "list_all field_char i" if "i \<in> tunnel_ifaces ag" for i
    using that assms(1) wg_iface_field direct_iface_field
    by (auto simp: agent_ok_def tunnel_ifaces_def list_all_iff)
  have ok: "line_fields_ok (Match (mk_line t r s dst p i))"
    if "i \<in> tunnel_ifaces ag" "list_all field_char s" for i s
    using that assms(4,5) i port_ok_field by (auto simp: line_fields_ok_def mk_line_def)
  have "list_all field_char ''/32''" by code_simp
  with assms(2) have al: "list_all field_char (al_direct al @ ''/32'')" if "al \<in> set (directAliases ag)" for al
    using that by simp
  from assms(6) consider i where "i \<in> tunnel_ifaces ag" "l = mk_line t r src dst p i"
    | al where "al \<in> set (directAliases ag)" "al_iface al \<in> tunnel_ifaces ag"
        "l = mk_line t r (al_direct al @ ''/32'') dst p (al_iface al)"
    by (auto simp: combo_list_def tunnel_ifaces_def alias_applies_def)
  then show ?thesis using ok al assms(3) by cases auto
qed

lemma all_lines_fields_ok:
  assumes "agent_ok ag" "\<forall>al \<in> set (directAliases ag). list_all field_char (al_direct al)"
    and "list_all rule_ok (active_rules rules)" "l \<in> set (all_lines ag rules)"
  shows "line_fields_ok (Match l)"
proof -
  from assms(4) obtain r s d p t where r: "r \<in> set (active_rules rules)" and s: "s \<in> set (sources r)"
    and d: "d \<in> set (or_any (map (the \<circ> canonicalCidr) (destinations r)))" and p: "p \<in> set (or_any (ports r))"
    and l: "l \<in> set (combo_list t ag (rule_id r) (the (canonicalCidr s)) d p)"
    unfolding all_lines_def rule_list_def by auto
  have ok: "rule_ok r" using r assms(3) by (simp add: list_all_iff)
  have field: "list_all field_char (the (canonicalCidr x))" if "x \<in> set (sources r) \<union> set (destinations r)" for x
  proof -
    from ok that obtain c where "canonicalCidr x = Some c" unfolding rule_ok_def by blast
    then show ?thesis using canonical_field by simp
  qed
  show ?thesis
  proof (rule combo_fields_ok [OF assms(1,2) _ _ _ l])
    show "list_all field_char (the (canonicalCidr s))" using field s by blast
    show "d = Some x \<Longrightarrow> list_all field_char x" for x
      using or_any_cases [OF d] field by auto
    show "p = Some q \<Longrightarrow> port_ok q" for q
      using or_any_cases [OF p] ok by (auto simp: rule_ok_def)
  qed
qed

lemma field_no_nl: "list_all field_char s \<Longrightarrow> CHR 0x0A \<notin> set s"
  by (auto simp: list_all_iff field_char_def is_alnum_def is_digit_def is_lower_az_def is_upper_az_def)

lemma str_of_int_no_nl: "CHR 0x0A \<notin> set (str_of_int i)"
  using field_no_nl digits_field [OF str_of_nat_digits] by (simp add: str_of_int_def)

lemma render_no_nl:
  assumes "line_fields_ok l"
  shows "CHR 0x0A \<notin> set (render_line l)"
proof (cases l)
  case (Match m)
  with assms show ?thesis
    by (cases "m_target m"; cases "m_dst m"; cases "m_port m")
      (simp_all add: line_fields_ok_def render_match_def INGRESS_CHAIN_def field_no_nl str_of_int_no_nl)
next
  case (Established t)
  then show ?thesis by (cases t) (simp_all add: INGRESS_CHAIN_def)
next
  case (FinalDrop i)
  with assms show ?thesis by (auto simp: line_fields_ok_def INGRESS_CHAIN_def dest: field_no_nl)
qed

lemma chain_no_nl:
  assumes "buildIngressChain ag rules = Inr (Some (chain, n))"
    and "\<forall>al \<in> set (directAliases ag). list_all field_char (al_direct al)"
  shows "\<forall>l \<in> set chain. CHR 0x0A \<notin> set (render_line l)"
proof
  fix l assume l: "l \<in> set chain"
  note b = build_Some_cases [OF assms(1)]
  from l consider t where "l = Established t" | m where "l = Match m" "m \<in> set (all_lines ag rules)"
    | i where "l = FinalDrop i" "i \<in> tunnel_ifaces ag"
    unfolding b(3) chain_lines_def by (auto simp: tunnel_ifaces_def split: if_split_asm)
  then have "line_fields_ok l"
  proof cases
    case 2
    then show ?thesis using all_lines_fields_ok [OF b(1) assms(2) build_Some_rules_ok [OF assms(1)]] by simp
  next
    case 3
    then show ?thesis using b(1) wg_iface_field direct_iface_field
      by (auto simp: agent_ok_def tunnel_ifaces_def list_all_iff line_fields_ok_def)
  qed (simp add: line_fields_ok_def)
  then show "CHR 0x0A \<notin> set (render_line l)" by (rule render_no_nl)
qed

text \<open>Where the alias addresses consist of field characters (Ingress_Direct shows that those of the
  panel do), the text splits into the lines of the chain.\<close>

lemma payload_splits:
  assumes "buildIngressRestore sha256 ag rules = Inr (Some p)"
    and "\<forall>al \<in> set (directAliases ag). list_all field_char (al_direct al)"
  shows "\<exists>chain. buildIngressChain ag rules = Inr (Some (chain, payload_rules p))
    \<and> split_on (CHR 0x0A) (payload_text p) = payload_lines chain @ [[]]
    \<and> payload_hash p = sha256 (payload_text p)
    \<and> payload_rules p = length (all_lines ag rules) \<and> payload_rules p \<le> MAX_LINES_TOTAL"
proof -
  from assms(1) obtain chain n where b: "buildIngressChain ag rules = Inr (Some (chain, n))"
    and p: "payload_text p = join [CHR 0x0A] (payload_lines chain) @ [CHR 0x0A]"
      "payload_hash p = sha256 (payload_text p)" "payload_rules p = n"
    by (auto simp: buildIngressRestore_def bind_res_iff Let_def)
  have "\<forall>x \<in> set (payload_lines chain). CHR 0x0A \<notin> set x"
    using chain_no_nl [OF b assms(2)] by (auto simp: payload_lines_def INGRESS_CHAIN_def)
  then have "split_on (CHR 0x0A) (join [CHR 0x0A] (payload_lines chain)) = payload_lines chain"
    by (intro split_on_join) (simp_all add: payload_lines_def)
  then have "split_on (CHR 0x0A) (payload_text p) = payload_lines chain @ [[]]"
    unfolding p(1) by (simp add: split_on_append)
  with b p build_Some_cases(4,5) [OF b] show ?thesis by blast
qed

end
