(* ===== verification/Direct_Link.thy ===== *)
theory Direct_Link
  imports Ingress_Rules Filter_Chain
begin

unbundle bit_operations_syntax

text \<open>
  backend/internal/agent-direct-link-rules.js: a direct WireGuard tunnel between two site
  agents. Validation of the admin's input, the cross-checks of a link against the mesh, the
  hooks and the wg-quick file of one side, the networks routed through the link, the payload of
  an agent, the heartbeat status, the connection check and the router settings. A link is the
  record \<open>direct_link\<close>; request and heartbeat values are \<open>jsval\<close>s; every \<open>throw\<close> is a
  constructor of \<open>direct_error\<close>. SHA-256 is a parameter.
\<close>

subsection \<open>Constants and records\<close>

definition DIRECT_TABLE_BASE :: int where "DIRECT_TABLE_BASE = 52000"
definition DIRECT_RULE_PREF :: int where "DIRECT_RULE_PREF = 31000"
definition MAX_DIRECT_LINK_ID :: int where "MAX_DIRECT_LINK_ID = 9999"
definition DIRECT_KEEPALIVE_S :: nat where "DIRECT_KEEPALIVE_S = 25"
definition DIRECT_FRESH_HANDSHAKE_S :: int where "DIRECT_FRESH_HANDSHAKE_S = 180"

record direct_link =
  dl_id :: int
  dl_name :: string
  agent_a :: int
  agent_b :: int
  listen_port :: int
  endpoint_host :: string
  tunnel_subnet :: string
  dl_mtu :: "int option"
  dl_enabled :: bool
  nat_a :: bool
  nat_b :: bool

text \<open>A sanitized payload: omitted fields are \<open>None\<close>, \<open>mtu\<close> may be set to null.\<close>

record link_patch =
  lp_name :: "string option"
  lp_agent_a :: "int option"
  lp_agent_b :: "int option"
  lp_listen_port :: "int option"
  lp_endpoint_host :: "string option"
  lp_tunnel_subnet :: "string option"
  lp_mtu :: "int option option"
  lp_enabled :: "bool option"
  lp_nat_a :: "bool option"
  lp_nat_b :: "bool option"

datatype direct_error =
    FieldRequired string
  | BadName
  | BadAgentId string
  | SameAgents
  | BadListenPort
  | BadEndpointHost
  | BadTunnelSubnet
  | BadMtu
  | AgentsMustExist
  | NotSiteAgents
  | SameSite
  | SitesSeparated
  | NatRestricted
  | NetConflict string string
  | EndpointInside string string
  | SubnetUsed string string
  | PairUsed string
  | PortUsed int string
  | BadDirectInterface string
  | BadHubInterface string
  | BadCidrText string
  | PublicHostNotString
  | BadPublicHost

datatype link_side = SideA | SideB

definition directIface :: "int \<Rightarrow> string" where
  "directIface i = ''fgd'' @ str_of_int i"

definition directGuardChain :: "string \<Rightarrow> string" where
  "directGuardChain i = ''FGD'' @ (if take 3 i = ''fgd'' then drop 3 i else i)"

definition directTable :: "int \<Rightarrow> int" where
  "directTable i = DIRECT_TABLE_BASE + i"

subsection \<open>Host names, addresses and keys\<close>

definition isIpv4Literal :: "string \<Rightarrow> bool" where
  "isIpv4Literal s = (case ipv4_groups s of None \<Rightarrow> False
     | Some (a, b, c, d) \<Rightarrow> a \<le> 255 \<and> b \<le> 255 \<and> c \<le> 255 \<and> d \<le> 255)"

text \<open>One label of \<open>HOSTNAME_RE\<close>: at most 63 letters, digits and inner hyphens.\<close>

definition host_label :: "string \<Rightarrow> bool" where
  "host_label l \<longleftrightarrow> l \<noteq> [] \<and> length l \<le> 63 \<and> is_alnum (hd l) \<and> is_alnum (last l)
     \<and> list_all (\<lambda>c. is_alnum c \<or> c = CHR ''-'') l"

definition is_hostname :: "string \<Rightarrow> bool" where
  "is_hostname s \<longleftrightarrow> 1 \<le> length s \<and> length s \<le> 253 \<and> list_all host_label (split_on CHR ''.'' s)"

definition looks_numeric :: "string \<Rightarrow> bool" where
  "looks_numeric s \<longleftrightarrow> s \<noteq> [] \<and> list_all (\<lambda>c. is_digit c \<or> c = CHR ''.'') s"

definition endpoint_ok :: "string \<Rightarrow> bool" where
  "endpoint_ok h \<longleftrightarrow> h \<noteq> [] \<and> (if looks_numeric h then isIpv4Literal h else is_hostname h)"

text \<open>\<open>/^[A-Za-z0-9+/]{42}[AEIMQUYcgkosw048]=$/\<close>.\<close>

definition isWgPublicKey :: "string \<Rightarrow> bool" where
  "isWgPublicKey s \<longleftrightarrow> length s = 44
     \<and> list_all (\<lambda>c. is_alnum c \<or> c = CHR ''+'' \<or> c = CHR ''/'') (take 42 s)
     \<and> s ! 42 \<in> set ''AEIMQUYcgkosw048'' \<and> s ! 43 = CHR ''=''"

definition isWgPublicKey_of :: "jsval \<Rightarrow> string option" where
  "isWgPublicKey_of v = (case v of JStr s \<Rightarrow> if isWgPublicKey s then Some s else None | _ \<Rightarrow> None)"

definition isPrivateIpv4Net :: "string \<Rightarrow> bool" where
  "isPrivateIpv4Net c \<longleftrightarrow>
     list_ex (\<lambda>p. cidrContains p c) [''10.0.0.0/8'', ''172.16.0.0/12'', ''192.168.0.0/16'']"

text \<open>The text before \<open>/30\<close>, when it has the shape of an address.\<close>

definition subnet30_addr :: "string \<Rightarrow> string option" where
  "subnet30_addr s = (if ends_with ''/30'' s \<and> ipv4_groups (take (length s - 3) s) \<noteq> None
     then Some (take (length s - 3) s) else None)"

definition canonicalTunnelSubnet :: "jsval \<Rightarrow> string option" where
  "canonicalTunnelSubnet v = (case subnet30_addr (trim (str_or_empty v)) of
       None \<Rightarrow> None
     | Some a \<Rightarrow>
         if \<not> isIpv4Literal a \<or> ip_reduce a mod 4 \<noteq> 0 then None
         else if isPrivateIpv4Net (a @ ''/30'') then Some (a @ ''/30'') else None)"

text \<open>The two tunnel addresses (a, b) of a /30.\<close>

definition tunnelAddrs :: "string \<Rightarrow> string \<times> string" where
  "tunnelAddrs subnet = (let n = ip_reduce (cidr_addr subnet) in (ip_of_nat (n + 1), ip_of_nat (n + 2)))"

definition own_addr :: "link_side \<Rightarrow> string \<Rightarrow> string" where
  "own_addr side subnet = (case side of SideA \<Rightarrow> fst (tunnelAddrs subnet) | SideB \<Rightarrow> snd (tunnelAddrs subnet))"

definition peer_addr :: "link_side \<Rightarrow> string \<Rightarrow> string" where
  "peer_addr side subnet = (case side of SideA \<Rightarrow> snd (tunnelAddrs subnet) | SideB \<Rightarrow> fst (tunnelAddrs subnet))"

subsection \<open>The admin's input\<close>

definition js_flag :: "jsval \<Rightarrow> bool" where
  "js_flag v \<longleftrightarrow> v = JBool True \<or> v = JNum (Fin 1) \<or> v = JStr ''1'' \<or> v = JStr ''true''"

text \<open>\<open>need(k)\<close>: a missing field is an error in a complete payload and skipped in a patch.\<close>

definition need_field ::
  "bool \<Rightarrow> jsval \<Rightarrow> string \<Rightarrow> (jsval \<Rightarrow> direct_error + 'a) \<Rightarrow> direct_error + 'a option" where
  "need_field partial b k f =
     (if getp b k = JUndef then (if partial then Inr None else Inl (FieldRequired k))
      else bind_res (f (getp b k)) (\<lambda>x. Inr (Some x)))"

definition clean_link_name :: "jsval \<Rightarrow> direct_error + string" where
  "clean_link_name v =
     (let s = (case v of JStr t \<Rightarrow> trim t | _ \<Rightarrow> [])
      in if s = [] \<or> length s > 64 \<or> list_ex is_control s then Inl BadName else Inr s)"

definition clean_agent_id :: "string \<Rightarrow> jsval \<Rightarrow> direct_error + int" where
  "clean_agent_id k v =
     (let n = js_number v in if \<not> is_integer n \<or> num_int n < 1 then Inl (BadAgentId k) else Inr (num_int n))"

definition clean_port :: "jsval \<Rightarrow> direct_error + int" where
  "clean_port v = (let n = js_number v in
     if \<not> is_integer n \<or> num_int n < 1024 \<or> num_int n > 65535 then Inl BadListenPort else Inr (num_int n))"

definition clean_endpoint :: "jsval \<Rightarrow> direct_error + string" where
  "clean_endpoint v = (let h = (case v of JStr t \<Rightarrow> to_lower (trim t) | _ \<Rightarrow> [])
     in if endpoint_ok h then Inr h else Inl BadEndpointHost)"

definition clean_subnet :: "jsval \<Rightarrow> direct_error + string" where
  "clean_subnet v = (case canonicalTunnelSubnet v of None \<Rightarrow> Inl BadTunnelSubnet | Some t \<Rightarrow> Inr t)"

definition clean_mtu :: "jsval \<Rightarrow> direct_error + int option" where
  "clean_mtu v = (if v = JNull \<or> v = JStr [] then Inr None
     else (let n = js_number v in
       if \<not> is_integer n \<or> num_int n < 1280 \<or> num_int n > 1500 then Inl BadMtu else Inr (Some (num_int n))))"

definition flag_field :: "bool \<Rightarrow> jsval \<Rightarrow> bool option" where
  "flag_field partial v =
     (if v \<noteq> JUndef then Some (js_flag v) else if partial then None else Some False)"

definition sanitizeDirectLinkInput :: "jsval \<Rightarrow> bool \<Rightarrow> direct_error + link_patch" where
  "sanitizeDirectLinkInput b partial =
     bind_res (need_field partial b ''name'' clean_link_name) (\<lambda>nm.
     bind_res (need_field partial b ''agent_a_id'' (clean_agent_id ''agent_a_id'')) (\<lambda>aa.
     bind_res (need_field partial b ''agent_b_id'' (clean_agent_id ''agent_b_id'')) (\<lambda>ab.
     if aa \<noteq> None \<and> aa = ab then Inl SameAgents
     else
     bind_res (need_field partial b ''listen_port'' clean_port) (\<lambda>lp.
     bind_res (need_field partial b ''endpoint_host'' clean_endpoint) (\<lambda>eh.
     bind_res (need_field partial b ''tunnel_subnet'' clean_subnet) (\<lambda>ts.
     bind_res (need_field True b ''mtu'' clean_mtu) (\<lambda>mt.
     Inr \<lparr>lp_name = nm, lp_agent_a = aa, lp_agent_b = ab, lp_listen_port = lp,
          lp_endpoint_host = eh, lp_tunnel_subnet = ts, lp_mtu = mt,
          lp_enabled = flag_field partial (getp b ''enabled''),
          lp_nat_a = flag_field partial (getp b ''nat_a''),
          lp_nat_b = flag_field partial (getp b ''nat_b'')\<rparr>)))))))"

definition sanitizePublicHost :: "jsval \<Rightarrow> direct_error + string option" where
  "sanitizePublicHost v =
     (if is_nullish v then Inr None
      else (case v of
          JStr t \<Rightarrow> (let h = to_lower (trim t)
                    in if h = [] then Inr None else if endpoint_ok h then Inr (Some h) else Inl BadPublicHost)
        | _ \<Rightarrow> Inl PublicHostNotString))"

text \<open>\<open>/^(\d{1,3}(?:\.\d{1,3}){3}):\d+$/\<close> of a \<open>wg show\<close> endpoint.\<close>

definition endpointIpv4 :: "string \<Rightarrow> string option" where
  "endpointIpv4 s = (case split_on CHR '':'' s of
       [a, p] \<Rightarrow> if ipv4_groups a \<noteq> None \<and> all_digits p \<and> isIpv4Literal a then Some a else None
     | _ \<Rightarrow> None)"

subsection \<open>Checks against the mesh\<close>

record mesh_agent =
  ma_id :: int
  ma_mode :: string

record mesh_ctx =
  ctx_agents :: "int \<Rightarrow> mesh_agent option"
  ctx_site :: "mesh_agent \<Rightarrow> string option"
  ctx_isolated :: "string \<Rightarrow> string \<Rightarrow> bool"
  ctx_site_nets :: "string list"
  ctx_tunnel_nets :: "string list"
  ctx_others :: "direct_link list"

definition clash_with :: "direct_link \<Rightarrow> direct_link \<Rightarrow> direct_error option" where
  "clash_with link other =
     (if dl_id other = dl_id link then None
      else if cidrContains (tunnel_subnet other) (tunnel_subnet link)
            \<or> cidrContains (tunnel_subnet link) (tunnel_subnet other)
        then Some (SubnetUsed (tunnel_subnet link) (dl_name other))
      else if (agent_a other = agent_a link \<and> agent_b other = agent_b link)
            \<or> (agent_a other = agent_b link \<and> agent_b other = agent_a link)
        then Some (PairUsed (dl_name other))
      else if agent_a other = agent_a link \<and> listen_port other = listen_port link
        then Some (PortUsed (listen_port link) (dl_name other))
      else None)"

fun assertNoLinkClash :: "direct_link \<Rightarrow> direct_link list \<Rightarrow> direct_error + unit" where
  "assertNoLinkClash link [] = Inr ()"
| "assertNoLinkClash link (other # others) =
     (case clash_with link other of Some e \<Rightarrow> Inl e | None \<Rightarrow> assertNoLinkClash link others)"

definition directNetConflict :: "direct_link \<Rightarrow> string list \<Rightarrow> direct_error option" where
  "directNetConflict link nets =
     (let t = tunnel_subnet link
      in (case find (\<lambda>n. cidrContains n t \<or> cidrContains t n) nets of
            Some n \<Rightarrow> Some (NetConflict t n)
          | None \<Rightarrow>
              if isIpv4Literal (endpoint_host link) then
                map_option (EndpointInside (endpoint_host link))
                  (find (\<lambda>n. cidrContains n (endpoint_host link @ ''/32'')) nets)
              else None))"

definition is_restricted :: "mesh_agent option \<Rightarrow> bool" where
  "is_restricted a = (case a of None \<Rightarrow> False | Some x \<Rightarrow> ma_mode x = ''restricted'')"

definition natRestrictedConflict :: "direct_link \<Rightarrow> mesh_agent option \<Rightarrow> mesh_agent option \<Rightarrow> bool" where
  "natRestrictedConflict link a b \<longleftrightarrow> (is_restricted a \<and> nat_b link) \<or> (is_restricted b \<and> nat_a link)"

definition assertDirectLinkFits :: "direct_link \<Rightarrow> mesh_ctx \<Rightarrow> direct_error + unit" where
  "assertDirectLinkFits link ctx =
     bind_res (assertNoLinkClash link (ctx_others ctx)) (\<lambda>_.
     if \<not> dl_enabled link then Inr ()
     else (case (ctx_agents ctx (agent_a link), ctx_agents ctx (agent_b link)) of
         (Some a, Some b) \<Rightarrow>
           (case (truthy_str (ctx_site ctx a), truthy_str (ctx_site ctx b)) of
              (Some la, Some lb) \<Rightarrow>
                if la = lb then Inl SameSite
                else if ctx_isolated ctx la lb then Inl SitesSeparated
                else if natRestrictedConflict link (Some a) (Some b) then Inl NatRestricted
                else (case directNetConflict link (ctx_site_nets ctx @ ctx_tunnel_nets ctx) of
                    Some e \<Rightarrow> Inl e | None \<Rightarrow> Inr ())
            | _ \<Rightarrow> Inl NotSiteAgents)
       | _ \<Rightarrow> Inl AgentsMustExist))"

subsection \<open>Hooks and configuration of one side\<close>

text \<open>\<open>/^\d{1,3}\.\d{1,3}\.\d{1,3}\.\d{1,3}\/\d{1,2}$/\<close>.\<close>

definition cidr_shape :: "string \<Rightarrow> bool" where
  "cidr_shape n = (case split_on CHR ''/'' n of
       [a, p] \<Rightarrow> ipv4_groups a \<noteq> None \<and> digits_upto 2 p | _ \<Rightarrow> False)"

definition assertCidr :: "string \<Rightarrow> direct_error + unit" where
  "assertCidr n = (if cidr_shape n then Inr () else Inl (BadCidrText n))"

text \<open>The relay guard: the chain of the link's own interface.\<close>

datatype guard_rule = ReturnTo string | DropRest

definition guard_chain :: "string list \<Rightarrow> guard_rule list" where
  "guard_chain ownNets = map ReturnTo ownNets @ [DropRest]"

fun render_guard :: "string \<Rightarrow> guard_rule \<Rightarrow> string" where
  "render_guard g (ReturnTo n) = ''iptables -A '' @ g @ '' -d '' @ n @ '' -j RETURN''"
| "render_guard g DropRest = ''iptables -A '' @ g @ '' -j DROP''"

definition guard_up :: "string \<Rightarrow> string list \<Rightarrow> string list" where
  "guard_up i ownNets =
     (let g = directGuardChain i
      in [''iptables -N '' @ g @ '' 2>/dev/null || iptables -F '' @ g]
         @ map (render_guard g) (guard_chain ownNets)
         @ [''iptables -C FORWARD -i '' @ i @ '' -j '' @ g
            @ '' 2>/dev/null || iptables -I FORWARD 1 -i '' @ i @ '' -j '' @ g])"

definition guard_down :: "string \<Rightarrow> string list" where
  "guard_down i =
     (let g = directGuardChain i
      in [''iptables -D FORWARD -i '' @ i @ '' -j '' @ g @ '' 2>/dev/null || true'',
          ''iptables -F '' @ g @ '' 2>/dev/null || true'',
          ''iptables -X '' @ g @ '' 2>/dev/null || true''])"

text \<open>The permanent rules: rule text and table option.\<close>

definition hook_rules :: "string \<Rightarrow> string \<Rightarrow> bool \<Rightarrow> (string \<times> string) list" where
  "hook_rules i subnet natted =
     [(''FORWARD -i '' @ i @ '' -j ACCEPT'', []), (''FORWARD -o '' @ i @ '' -j ACCEPT'', []),
      (''POSTROUTING ! -o '' @ i @ '' -s '' @ subnet @ '' -j MASQUERADE'', ''-t nat '')]
     @ (if natted then [(''POSTROUTING -o '' @ i @ '' -j MASQUERADE'', ''-t nat '')] else [])"

definition rule_up :: "string \<times> string \<Rightarrow> string" where
  "rule_up rt = ''iptables '' @ snd rt @ ''-C '' @ fst rt @ '' 2>/dev/null || iptables ''
     @ snd rt @ ''-A '' @ fst rt"

definition rule_down :: "string \<times> string \<Rightarrow> string" where
  "rule_down rt = ''iptables '' @ snd rt @ ''-D '' @ fst rt @ '' 2>/dev/null || true''"

definition hooks_up :: "string \<Rightarrow> string \<Rightarrow> string \<Rightarrow> bool \<Rightarrow> string list \<Rightarrow> string list" where
  "hooks_up i hub subnet natted ownNets =
     [''sysctl -w net.ipv4.ip_forward=1'', ''sysctl -w net.ipv4.conf.'' @ i @ ''.rp_filter=2'',
      ''[ ! -e /proc/sys/net/ipv4/conf/'' @ hub @ '' ] || sysctl -w net.ipv4.conf.'' @ hub @ ''.rp_filter=2'']
     @ guard_up i ownNets @ map rule_up (hook_rules i subnet natted)"

definition hooks_down :: "string \<Rightarrow> string \<Rightarrow> bool \<Rightarrow> string list" where
  "hooks_down i subnet natted = guard_down i @ map rule_down (hook_rules i subnet natted)"

definition buildDirectHooks ::
  "string \<Rightarrow> string \<Rightarrow> string \<Rightarrow> bool \<Rightarrow> string list \<Rightarrow> direct_error + string \<times> string" where
  "buildDirectHooks i hub subnet natted ownNets =
     (if \<not> isDirectIface i then Inl (BadDirectInterface i)
      else if \<not> isWgIface hub then Inl (BadHubInterface hub)
      else bind_res (assertCidr subnet) (\<lambda>_.
           bind_res (map_res assertCidr ownNets) (\<lambda>_.
           Inr (join ''; '' (hooks_up i hub subnet natted ownNets), join ''; '' (hooks_down i subnet natted)))))"

record side_cfg =
  sc_side :: link_side
  sc_hub_iface :: string
  sc_peer_key :: "string option"
  sc_peer_nets :: "string list"
  sc_own_nets :: "string list"

definition side_nat :: "direct_link \<Rightarrow> link_side \<Rightarrow> bool" where
  "side_nat link side = (case side of SideA \<Rightarrow> nat_a link | SideB \<Rightarrow> nat_b link)"

definition endpoint_text :: "direct_link \<Rightarrow> string" where
  "endpoint_text link = endpoint_host link @ '':'' @ str_of_int (listen_port link)"

definition config_lines :: "direct_link \<Rightarrow> side_cfg \<Rightarrow> int option \<Rightarrow> string \<Rightarrow> string \<times> string \<Rightarrow> string list" where
  "config_lines link sc mtu key hooks =
     [''[Interface]'', ''Address = '' @ own_addr (sc_side sc) (tunnel_subnet link) @ ''/30'']
     @ (if sc_side sc = SideA then [''ListenPort = '' @ str_of_int (listen_port link)] else [])
     @ (case mtu of None \<Rightarrow> [] | Some m \<Rightarrow> if m = 0 then [] else [''MTU = '' @ str_of_int m])
     @ [''Table = off'', ''PostUp = '' @ fst hooks, ''PostDown = '' @ snd hooks, [], ''[Peer]'',
        ''PublicKey = '' @ key,
        ''AllowedIPs = '' @ join '', '' (tunnel_subnet link # sc_peer_nets sc)]
     @ (if sc_side sc = SideB then [''Endpoint = '' @ endpoint_text link] else [])
     @ [''PersistentKeepalive = '' @ str_of_nat DIRECT_KEEPALIVE_S]"

definition buildDirectConfig ::
  "direct_link \<Rightarrow> side_cfg \<Rightarrow> int option \<Rightarrow> direct_error + string option" where
  "buildDirectConfig link sc mtu =
     (case sc_peer_key sc of
        None \<Rightarrow> Inr None
      | Some key \<Rightarrow>
          if \<not> isWgPublicKey key then Inr None
          else bind_res (buildDirectHooks (directIface (dl_id link)) (sc_hub_iface sc) (tunnel_subnet link)
                          (side_nat link (sc_side sc)) (sc_own_nets sc)) (\<lambda>hooks.
               bind_res (map_res assertCidr (sc_peer_nets sc)) (\<lambda>_.
               Inr (Some (join [CHR 0x0A] (config_lines link sc mtu key hooks) @ [CHR 0x0A])))))"

subsection \<open>Routed networks and the payload of an agent\<close>

definition net_clashes :: "string list \<Rightarrow> string \<Rightarrow> bool" where
  "net_clashes ownNets n \<longleftrightarrow> list_ex (\<lambda>k. cidrContains n k \<or> cidrContains k n) ownNets"

definition directPeerNets :: "string list \<Rightarrow> string list \<Rightarrow> string list \<Rightarrow> string list" where
  "directPeerNets otherSiteNets partnerNets ownNets =
     sort (uniq (filter (\<lambda>n. n \<in> set partnerNets \<and> \<not> net_clashes ownNets n) otherSiteNets))"

record payload_active =
  pa_peer_ip :: string
  pa_routes :: "string list"
  pa_endpoint :: "string option"
  pa_config :: "string option"
  pa_hash :: "string option"

record payload_entry =
  pe_id :: int
  pe_iface :: string
  pe_table :: int
  pe_active :: "payload_active option"

definition directPayloadEntry ::
  "(string \<Rightarrow> string) \<Rightarrow> direct_link \<Rightarrow> side_cfg \<Rightarrow> bool \<Rightarrow> direct_error + payload_entry" where
  "directPayloadEntry sha256 link sc active =
     (if \<not> active then
        Inr \<lparr>pe_id = dl_id link, pe_iface = directIface (dl_id link), pe_table = directTable (dl_id link),
             pe_active = None\<rparr>
      else bind_res (buildDirectConfig link sc (dl_mtu link)) (\<lambda>config.
        Inr \<lparr>pe_id = dl_id link, pe_iface = directIface (dl_id link), pe_table = directTable (dl_id link),
             pe_active = Some
               \<lparr>pa_peer_ip = peer_addr (sc_side sc) (tunnel_subnet link), pa_routes = sc_peer_nets sc,
                pa_endpoint = (if sc_side sc = SideB \<and> \<not> isIpv4Literal (endpoint_host link)
                               then Some (endpoint_text link) else None),
                pa_config = config,
                pa_hash = (case config of None \<Rightarrow> None | Some t \<Rightarrow> if t = [] then None else Some (sha256 t))\<rparr>\<rparr>))"

subsection \<open>The heartbeat status\<close>

record side_status =
  st_up :: bool
  st_direct :: bool
  st_age :: "int option"
  st_rtt :: "rat option"
  st_error :: "string option"

definition num_lt :: "jsnum \<Rightarrow> rat \<Rightarrow> bool" where
  "num_lt n b = (case n of Fin r \<Rightarrow> r < b | _ \<Rightarrow> False)"

definition num_nonneg :: "jsnum \<Rightarrow> bool" where
  "num_nonneg n = (case n of Fin r \<Rightarrow> 0 \<le> r | PosInf \<Rightarrow> True | _ \<Rightarrow> False)"

text \<open>\<open>Math.round(rtt * 10) / 10\<close>.\<close>

definition round_tenth :: "jsnum \<Rightarrow> rat" where
  "round_tenth n = (case n of Fin r \<Rightarrow> of_int \<lfloor>r * 10 + 1 / 2\<rfloor> / 10 | _ \<Rightarrow> 0)"

definition is_cc :: "char \<Rightarrow> bool" where
  "is_cc c \<longleftrightarrow> is_control c \<or> (128 \<le> (of_char c :: nat) \<and> (of_char c :: nat) < 160)"

definition status_error :: "jsval \<Rightarrow> string option" where
  "status_error v =
     truthy_str (Some (take 255 (trim (map (\<lambda>c. if is_cc c then CHR '' '' else c) (str_or_empty v)))))"

definition status_of :: "jsval \<Rightarrow> side_status" where
  "status_of v =
     (let age = js_number (getp v ''handshake_age''); rtt = js_number (getp v ''rtt_ms'')
      in \<lparr>st_up = (getp v ''up'' = JBool True), st_direct = (getp v ''path'' = JStr ''direct''),
          st_age = (if is_integer age \<and> num_nonneg age \<and> num_lt age (10 ^ 9) then Some (num_int age) else None),
          st_rtt = (if getp v ''rtt_ms'' \<noteq> JNull \<and> num_nonneg rtt \<and> num_lt rtt 100000
                    then Some (round_tenth rtt) else None),
          st_error = status_error (getp v ''error'')\<rparr>)"

fun is_object :: "jsval \<Rightarrow> bool" where
  "is_object (JArr _) = True"
| "is_object (JObj _) = True"
| "is_object _ = False"

definition status_entry ::
  "int list \<Rightarrow> string \<times> jsval \<Rightarrow> (int \<rightharpoonup> string option \<times> side_status)
     \<Rightarrow> (int \<rightharpoonup> string option \<times> side_status)" where
  "status_entry allowedIds kv out =
     (let n = str_number (fst kv); v = snd kv
      in if \<not> is_integer n \<or> num_int n \<notin> set allowedIds \<or> \<not> is_object v then out
         else out(num_int n \<mapsto> (isWgPublicKey_of (getp v ''public_key''), status_of v)))"

definition sanitizeDirectStatus :: "jsval \<Rightarrow> int list \<Rightarrow> (int \<rightharpoonup> string option \<times> side_status)" where
  "sanitizeDirectStatus raw allowedIds =
     (case raw of JObj ps \<Rightarrow> fold (status_entry allowedIds) ps Map.empty | _ \<Rightarrow> Map.empty)"

subsection \<open>The connection check\<close>

datatype check_state = ChkOk | ChkFail | ChkWarn | ChkSkip

datatype check_code =
    ChkEnabled | ChkBlocked | ChkAgents | ChkKeys | ChkEndpointDiffers | ChkDns | ChkPublicIp
  | ChkPortForward | ChkPath

text \<open>A side as the view shows it.\<close>

record view_side =
  vs_stale :: bool
  vs_key_known :: bool
  vs_status :: side_status

record link_view =
  lv_link :: direct_link
  lv_blocked :: "string option"
  lv_a :: view_side
  lv_b :: view_side

record check =
  ck_code :: check_code
  ck_state :: check_state
  ck_values :: "(string \<times> string) list"

definition mk_check :: "check_code \<Rightarrow> check_state \<Rightarrow> (string \<times> string) list \<Rightarrow> check" where
  "mk_check c s vs = \<lparr>ck_code = c, ck_state = s, ck_values = vs\<rparr>"

text \<open>The dash for "no value" is U+2013 in the code; it is outside Latin-1 and written as a minus.\<close>

definition or_dash :: "string \<Rightarrow> string" where
  "or_dash s = (if s = [] then ''-'' else s)"

definition fresh_side :: "view_side \<Rightarrow> bool" where
  "fresh_side s \<longleftrightarrow> st_up (vs_status s)
     \<and> (case st_age (vs_status s) of None \<Rightarrow> False | Some a \<Rightarrow> a \<le> DIRECT_FRESH_HANDSHAKE_S)"

definition stale_text :: "view_side \<Rightarrow> string" where
  "stale_text s = (if vs_stale s then ''stale'' else ''ok'')"

definition is_active :: "link_view \<Rightarrow> bool" where
  "is_active v \<longleftrightarrow> dl_enabled (lv_link v) \<and> truthy_str (lv_blocked v) = None"

definition dns_check :: "string \<Rightarrow> string list option \<Rightarrow> check" where
  "dns_check host resolved =
     (if isIpv4Literal host then mk_check ChkDns ChkSkip [(''host'', host), (''ips'', host)]
      else (case resolved of
          None \<Rightarrow> mk_check ChkDns ChkFail [(''host'', host)]
        | Some ips \<Rightarrow> if ips = [] then mk_check ChkDns ChkFail [(''host'', host)]
            else mk_check ChkDns ChkOk [(''host'', host), (''ips'', join '', '' ips)]))"

definition public_ip_check :: "string \<Rightarrow> string list option \<Rightarrow> string option \<Rightarrow> check" where
  "public_ip_check host resolved publicIp =
     (let ips = (if isIpv4Literal host then [host] else (case resolved of None \<Rightarrow> [] | Some r \<Rightarrow> r))
      in (case truthy_str publicIp of
            None \<Rightarrow> mk_check ChkPublicIp ChkSkip [(''ips'', or_dash (join '', '' ips))]
          | Some p \<Rightarrow>
              if p \<in> set ips then mk_check ChkPublicIp ChkOk [(''seen'', p)]
              else mk_check ChkPublicIp ChkFail
                     [(''seen'', p), (''ips'', or_dash (join '', '' ips)), (''host'', host)]))"

definition fresh_ages :: "link_view \<Rightarrow> int list" where
  "fresh_ages v = map (\<lambda>s. the (st_age (vs_status s))) (filter fresh_side [lv_a v, lv_b v])"

definition port_forward_check :: "link_view \<Rightarrow> check" where
  "port_forward_check v =
     (let port = [(''port'', str_of_int (listen_port (lv_link v))), (''host'', endpoint_host (lv_link v))]
      in if \<not> is_active v then mk_check ChkPortForward ChkSkip port
         else if fresh_ages v \<noteq> [] then
           mk_check ChkPortForward ChkOk (port @ [(''age'', str_of_int (Min (set (fresh_ages v))))])
         else mk_check ChkPortForward ChkFail port)"

definition rtt_text :: "link_view \<Rightarrow> string" where
  "rtt_text v = (case st_rtt (vs_status (lv_a v)) of Some r \<Rightarrow> num_str (Fin r)
     | None \<Rightarrow> (case st_rtt (vs_status (lv_b v)) of Some r \<Rightarrow> num_str (Fin r) | None \<Rightarrow> ''-''))"

definition path_check :: "link_view \<Rightarrow> check" where
  "path_check v =
     (let n = length (filter (\<lambda>s. st_direct (vs_status s)) [lv_a v, lv_b v])
      in if \<not> is_active v then mk_check ChkPath ChkSkip []
         else mk_check ChkPath (if n = 2 then ChkOk else if n = 1 then ChkWarn else ChkFail)
                [(''rtt'', rtt_text v)])"

definition worst_state :: "check list \<Rightarrow> check_state" where
  "worst_state cs = (if list_ex (\<lambda>c. ck_state c = ChkFail) cs then ChkFail
     else if list_ex (\<lambda>c. ck_state c = ChkWarn) cs then ChkWarn else ChkOk)"

definition direct_checks ::
  "link_view \<Rightarrow> string option \<Rightarrow> string list option \<Rightarrow> string option \<Rightarrow> check list" where
  "direct_checks v publicIpA resolved publicHostA =
     (let host = endpoint_host (lv_link v)
      in (if dl_enabled (lv_link v) then [] else [mk_check ChkEnabled ChkWarn []])
       @ (case truthy_str (lv_blocked v) of None \<Rightarrow> [] | Some r \<Rightarrow> [mk_check ChkBlocked ChkFail [(''reason'', r)]])
       @ [mk_check ChkAgents (if \<not> vs_stale (lv_a v) \<and> \<not> vs_stale (lv_b v) then ChkOk else ChkFail)
            [(''a'', stale_text (lv_a v)), (''b'', stale_text (lv_b v))],
          mk_check ChkKeys (if vs_key_known (lv_a v) \<and> vs_key_known (lv_b v) then ChkOk else ChkFail) []]
       @ (case truthy_str publicHostA of None \<Rightarrow> []
          | Some h \<Rightarrow> if h = host then []
              else [mk_check ChkEndpointDiffers ChkWarn [(''stored'', h), (''endpoint'', host)]])
       @ [dns_check host resolved, public_ip_check host resolved publicIpA, port_forward_check v, path_check v])"

definition evaluateDirectChecks ::
  "link_view \<Rightarrow> string option \<Rightarrow> string list option \<Rightarrow> string option \<Rightarrow> check_state \<times> check list" where
  "evaluateDirectChecks v publicIpA resolved publicHostA =
     (let cs = direct_checks v publicIpA resolved publicHostA in (worst_state cs, cs))"

subsection \<open>Router settings\<close>

record port_forward =
  pf_link :: int
  pf_name :: string
  pf_port :: int
  pf_enabled :: bool

record dial_out =
  do_link :: int
  do_name :: string
  do_endpoint :: string
  do_enabled :: bool

definition siteRouterSettings :: "int \<Rightarrow> direct_link list \<Rightarrow> port_forward list \<times> dial_out list" where
  "siteRouterSettings agentId links =
     (map (\<lambda>l. \<lparr>pf_link = dl_id l, pf_name = dl_name l, pf_port = listen_port l, pf_enabled = dl_enabled l\<rparr>)
        (filter (\<lambda>l. agent_a l = agentId) links),
      map (\<lambda>l. \<lparr>do_link = dl_id l, do_name = dl_name l, do_endpoint = endpoint_text l, do_enabled = dl_enabled l\<rparr>)
        (filter (\<lambda>l. agent_b l = agentId) links))"

subsection \<open>The transfer network\<close>

lemma isIpv4Literal_iff: "isIpv4Literal s \<longleftrightarrow> ipToInt s \<noteq> None"
  by (auto simp: isIpv4Literal_def ipToInt_def split: option.split)

lemma groups_no_slash: "ipv4_groups a \<noteq> None \<Longrightarrow> CHR ''/'' \<notin> set a"
  using groups_chars [of a "CHR ''/''"] by (auto simp: is_digit_def)

lemma trim_literal:
  assumes "ipv4_groups a \<noteq> None"
  shows "trim (a @ ''/30'') = a @ ''/30''"
proof (rule trim_no_ws, rule ballI)
  fix c assume "c \<in> set (a @ ''/30'')"
  then have "is_digit c \<or> c = CHR ''.'' \<or> c = CHR ''/''"
    using groups_chars [OF assms, of c] by (auto simp: is_digit_def)
  then show "\<not> js_ws c" by (auto simp: js_ws_def is_digit_def)
qed

text \<open>What an accepted transfer network is: four addresses with the last two bits free.\<close>

definition subnet_base :: "string \<Rightarrow> nat" where
  "subnet_base t = ip_reduce (cidr_addr t)"

lemma canonicalTunnelSubnet_cases:
  assumes "canonicalTunnelSubnet v = Some t"
  shows "net_of t = Some (of_nat (subnet_base t), 30)" "subnet_base t mod 4 = 0" "subnet_base t + 4 \<le> 2 ^ 32"
    "isPrivateIpv4Net t"
proof -
  obtain a where t: "t = a @ ''/30''" and a: "ipv4_groups a \<noteq> None" "isIpv4Literal a" "ip_reduce a mod 4 = 0"
    and pr: "isPrivateIpv4Net t"
    using assms
    by (auto simp: canonicalTunnelSubnet_def subnet30_addr_def split: option.split_asm if_split_asm)
  have sl: "split_on CHR ''/'' t = [a, ''30'']"
    unfolding t using split_on_append_sep [OF groups_no_slash [OF a(1)], of "''30''"] by simp
  then have base: "subnet_base t = ip_reduce a" by (simp add: subnet_base_def cidr_addr_def)
  obtain n where n: "ipToInt a = Some n" using a(2) by (auto simp: isIpv4Literal_iff)
  from ipToInt_reduce [OF n] have red: "n = of_nat (ip_reduce a)" "ip_reduce a < 2 ^ 32" by simp_all
  have "x mod 4 = 0 \<Longrightarrow> x < 4294967296 \<Longrightarrow> x + 4 \<le> 4294967296" for x :: nat by presburger
  then have bound: "ip_reduce a + 4 \<le> 2 ^ 32" using red(2) a(3) by simp
  have "unat (of_nat (ip_reduce a) :: addr) = ip_reduce a" using red(2) by (rule unat_of_nat_addr)
  then have mask: "n AND prefix_mask 30 = n" using a(3) red(1) by (intro and_mask_id) simp_all
  have "digits_upto 2 ''30''" "nat_of_digits ''30'' = 30" by code_simp+
  then have "net_parse (split_on CHR ''/'' t) = Some (n, 30)"
    using n mask by (simp add: sl net_parse_def net_masked_def)
  then have "net_of t = Some (n, 30)" using trim_literal [OF a(1)] by (simp add: net_of_code t)
  then show "net_of t = Some (of_nat (subnet_base t), 30)" using red(1) base by simp
  show "subnet_base t mod 4 = 0" "subnet_base t + 4 \<le> 2 ^ 32" "isPrivateIpv4Net t"
    using a(3) bound pr base by simp_all
qed

text \<open>An accepted transfer network is a private /30 with zero host bits, and the two ends of
  the tunnel get its two host addresses: both lie in the network, they differ, and neither is
  the network or the broadcast address. The decimal arithmetic of this module computes the same
  addresses as the bitwise one of the CIDR code.\<close>

theorem tunnel_addresses_correct:
  assumes "canonicalTunnelSubnet v = Some t"
  shows "\<exists>n. net_of t = Some (n, 30) \<and> isPrivateIpv4Net t
    \<and> tunnelAddrs t = (intToIp (n + 1), intToIp (n + 2))
    \<and> {n + 1, n + 2} \<subseteq> net_set (n, 30) \<and> n + 1 \<noteq> n + 2 \<and> n \<notin> {n + 1, n + 2} \<and> n + 3 \<notin> {n + 1, n + 2}"
proof -
  let ?m = "subnet_base t" and ?n = "of_nat (subnet_base t) :: addr"
  note c = canonicalTunnelSubnet_cases [OF assms]
  have addr: "ip_of_nat (?m + k) = intToIp (?n + of_nat k)" if "k < 4" for k
    using c(3) that ip_of_nat_of_nat [of "?m + k"] by simp
  have mem: "of_nat (?m + k) \<in> net_set (?n, 30)" if "k < 4" for k
    using c(2,3) that net_set_block [of 30 ?m "?m + k"] by simp
  have "{?n + 1, ?n + 2} \<subseteq> net_set (?n, 30)" using mem [of 1] mem [of 2] by (simp add: add.commute)
  moreover have "tunnelAddrs t = (intToIp (?n + 1), intToIp (?n + 2))"
    using addr [of 1] addr [of 2] by (simp add: tunnelAddrs_def Let_def subnet_base_def)
  ultimately show ?thesis using c(1,4) by auto
qed

theorem tunnel_addresses_correct_witness:
  "canonicalTunnelSubnet (JStr ''10.10.9.0/30'') = Some ''10.10.9.0/30''
   \<and> tunnelAddrs ''10.10.9.0/30'' = (''10.10.9.1'', ''10.10.9.2'')
   \<and> (\<exists>n. net_of ''10.10.9.0/30'' = Some (n, 30) \<and> {n + 1, n + 2} \<subseteq> net_set (n, 30))"
proof -
  have t: "canonicalTunnelSubnet (JStr ''10.10.9.0/30'') = Some ''10.10.9.0/30''"
    "tunnelAddrs ''10.10.9.0/30'' = (''10.10.9.1'', ''10.10.9.2'')" by code_simp+
  from tunnel_addresses_correct [OF t(1)] t show ?thesis by blast
qed

text \<open>The transfer network is stored as typed: an octet with a leading zero is accepted and
  kept, so the stored text is not the canonical text of the network and reaches the WireGuard
  and iptables lines unchanged.\<close>

theorem tunnel_subnet_keeps_leading_zero:
  "canonicalTunnelSubnet (JStr ''010.10.9.0/30'') = Some ''010.10.9.0/30''
   \<and> canonicalCidr ''010.10.9.0/30'' = Some ''10.10.9.0/30'' \<and> cidr_shape ''010.10.9.0/30''"
  by (intro conjI; code_simp)

subsection \<open>Cross-checks\<close>

lemma assertNoLinkClash_iff:
  "assertNoLinkClash link others = Inr () \<longleftrightarrow> (\<forall>x \<in> set others. clash_with link x = None)"
  by (induction others) (auto split: option.split)

text \<open>Two networks of texts do not meet.\<close>

definition nets_apart :: "string \<Rightarrow> string \<Rightarrow> bool" where
  "nets_apart x y \<longleftrightarrow> (\<forall>A B. cidr_set x = Some A \<longrightarrow> cidr_set y = Some B \<longrightarrow> A \<inter> B = {})"

lemma nets_apart_iff: "nets_apart x y \<longleftrightarrow> \<not> (cidrContains x y \<or> cidrContains y x)"
  unfolding nets_apart_def cidr.overlap_iff by blast

lemma directNetConflict_None:
  "directNetConflict link nets = None \<longleftrightarrow> (\<forall>n \<in> set nets. nets_apart n (tunnel_subnet link)
     \<and> (isIpv4Literal (endpoint_host link) \<longrightarrow> \<not> cidrContains n (endpoint_host link @ ''/32'')))"
proof (cases "find (\<lambda>n. cidrContains n (tunnel_subnet link) \<or> cidrContains (tunnel_subnet link) n) nets")
  case None
  then have "\<forall>n \<in> set nets. nets_apart n (tunnel_subnet link)"
    by (auto simp: find_None_iff nets_apart_iff)
  moreover have "directNetConflict link nets = (if isIpv4Literal (endpoint_host link) then
      map_option (EndpointInside (endpoint_host link))
        (find (\<lambda>n. cidrContains n (endpoint_host link @ ''/32'')) nets) else None)"
    using None by (simp add: directNetConflict_def Let_def)
  ultimately show ?thesis by (auto simp: find_None_iff)
next
  case (Some n)
  then have "n \<in> set nets" "\<not> nets_apart n (tunnel_subnet link)"
    by (auto simp: find_Some_iff nets_apart_iff)
  with Some show ?thesis by (auto simp: directNetConflict_def Let_def)
qed

definition link_fits :: "direct_link \<Rightarrow> mesh_ctx \<Rightarrow> bool" where
  "link_fits link ctx \<longleftrightarrow> (\<exists>a b la lb. ctx_agents ctx (agent_a link) = Some a \<and> ctx_agents ctx (agent_b link) = Some b
     \<and> ctx_site ctx a = Some la \<and> ctx_site ctx b = Some lb \<and> la \<noteq> [] \<and> lb \<noteq> [] \<and> la \<noteq> lb
     \<and> \<not> ctx_isolated ctx la lb
     \<and> \<not> (ma_mode a = ''restricted'' \<and> nat_b link) \<and> \<not> (ma_mode b = ''restricted'' \<and> nat_a link)
     \<and> (\<forall>n \<in> set (ctx_site_nets ctx) \<union> set (ctx_tunnel_nets ctx). nets_apart n (tunnel_subnet link)
         \<and> (isIpv4Literal (endpoint_host link) \<longrightarrow> \<not> cidrContains n (endpoint_host link @ ''/32''))))"

lemma enabled_checks_iff:
  "(case (ctx_agents ctx (agent_a link), ctx_agents ctx (agent_b link)) of
         (Some a, Some b) \<Rightarrow>
           (case (truthy_str (ctx_site ctx a), truthy_str (ctx_site ctx b)) of
              (Some la, Some lb) \<Rightarrow>
                if la = lb then Inl SameSite
                else if ctx_isolated ctx la lb then Inl SitesSeparated
                else if natRestrictedConflict link (Some a) (Some b) then Inl NatRestricted
                else (case directNetConflict link (ctx_site_nets ctx @ ctx_tunnel_nets ctx) of
                    Some e \<Rightarrow> Inl e | None \<Rightarrow> Inr ())
            | _ \<Rightarrow> Inl NotSiteAgents)
       | _ \<Rightarrow> Inl AgentsMustExist) = Inr () \<longleftrightarrow> link_fits link ctx" (is "?l = _ \<longleftrightarrow> _")
proof -
  have none: "(case r of Some e \<Rightarrow> Inl e | None \<Rightarrow> Inr ()) = Inr () \<longleftrightarrow> r = None" for r :: "direct_error option"
    by (cases r) auto
  have site: "truthy_str s = Some l \<longleftrightarrow> s = Some l \<and> l \<noteq> []" for s l
    by (auto simp: truthy_str_def split: option.split)
  have nat: "natRestrictedConflict link (Some a) (Some b) \<longleftrightarrow>
      (ma_mode a = ''restricted'' \<and> nat_b link) \<or> (ma_mode b = ''restricted'' \<and> nat_a link)" for a b
    by (simp add: natRestrictedConflict_def is_restricted_def)
  have "?l = Inr () \<longleftrightarrow> (\<exists>a b la lb. ctx_agents ctx (agent_a link) = Some a \<and> ctx_agents ctx (agent_b link) = Some b
     \<and> truthy_str (ctx_site ctx a) = Some la \<and> truthy_str (ctx_site ctx b) = Some lb \<and> la \<noteq> lb
     \<and> \<not> ctx_isolated ctx la lb \<and> \<not> natRestrictedConflict link (Some a) (Some b)
     \<and> directNetConflict link (ctx_site_nets ctx @ ctx_tunnel_nets ctx) = None)"
    by (simp add: none split: option.split)
  then show ?thesis unfolding link_fits_def site nat directNetConflict_None set_append by blast
qed

text \<open>C23: A link passes the cross-checks exactly when it clashes with no other link (no shared
  transfer network, agent pair or listening port) and, if it is enabled, its two agents exist,
  are bound to different sites the hub does not separate, no restricted side meets a
  masquerading partner, its transfer network meets no network of the mesh, and neither does its
  endpoint where that is an IPv4 address (a host name is not looked up). A disabled link is only
  compared with the other links.\<close>

theorem assertDirectLinkFits_iff:
  "assertDirectLinkFits link ctx = Inr () \<longleftrightarrow>
     (\<forall>other \<in> set (ctx_others ctx). dl_id other \<noteq> dl_id link \<longrightarrow>
        nets_apart (tunnel_subnet other) (tunnel_subnet link)
      \<and> {agent_a other, agent_b other} \<noteq> {agent_a link, agent_b link}
      \<and> \<not> (agent_a other = agent_a link \<and> listen_port other = listen_port link))
     \<and> (dl_enabled link \<longrightarrow> link_fits link ctx)"
proof -
  have clash: "clash_with link other = None \<longleftrightarrow> (dl_id other \<noteq> dl_id link \<longrightarrow>
        nets_apart (tunnel_subnet other) (tunnel_subnet link)
      \<and> {agent_a other, agent_b other} \<noteq> {agent_a link, agent_b link}
      \<and> \<not> (agent_a other = agent_a link \<and> listen_port other = listen_port link))" for other
    unfolding clash_with_def nets_apart_iff doubleton_eq_iff by auto
  show ?thesis
    unfolding assertDirectLinkFits_def bind_res_Inr_iff
    using assertNoLinkClash_iff [of link "ctx_others ctx"] enabled_checks_iff [of ctx link] by (auto simp: clash)
qed

definition ex_mesh_link :: direct_link where
  "ex_mesh_link = \<lparr>dl_id = 1, dl_name = ''office'', agent_a = 3, agent_b = 4, listen_port = 51900,
     endpoint_host = ''203.0.113.7'', tunnel_subnet = ''10.10.9.0/30'', dl_mtu = None,
     dl_enabled = True, nat_a = False, nat_b = False\<rparr>"

definition ex_mesh :: mesh_ctx where
  "ex_mesh = \<lparr>ctx_agents = (\<lambda>i. if i = 3 \<or> i = 4 then Some \<lparr>ma_id = i, ma_mode = ''restricted''\<rparr> else None),
     ctx_site = (\<lambda>a. Some (if ma_id a = 3 then ''north'' else ''south'')), ctx_isolated = (\<lambda>a b. False),
     ctx_site_nets = [''192.168.1.0/24'', ''192.168.2.0/24''], ctx_tunnel_nets = [''10.10.0.0/24''],
     ctx_others = [ex_mesh_link\<lparr>dl_id := 2, agent_b := 5, listen_port := 51901, tunnel_subnet := ''10.10.9.4/30''\<rparr>]\<rparr>"

theorem assertDirectLinkFits_iff_witness:
  "link_fits ex_mesh_link ex_mesh \<and> nets_apart ''10.10.9.4/30'' ''10.10.9.0/30''"
proof -
  have "assertDirectLinkFits ex_mesh_link ex_mesh = Inr ()" by code_simp
  from this [unfolded assertDirectLinkFits_iff] show ?thesis
    by (simp add: ex_mesh_def) (simp add: ex_mesh_link_def)
qed

subsection \<open>Routed networks\<close>

text \<open>The networks routed through a direct link are sorted and distinct; they are exactly
  the networks of the agent's reach that the partner exports and that share no address with a
  network of its own site or its hub tunnel, so the per-link table never pulls the own site in.\<close>

theorem directPeerNets_correct:
  "sorted (directPeerNets os ps own) \<and> distinct (directPeerNets os ps own)
   \<and> (\<forall>n. n \<in> set (directPeerNets os ps own) \<longleftrightarrow> n \<in> set os \<and> n \<in> set ps \<and> (\<forall>k \<in> set own. nets_apart n k))"
  by (auto simp: directPeerNets_def net_clashes_def list_ex_iff nets_apart_iff)

theorem directPeerNets_correct_witness:
  "''192.168.2.0/24'' \<in> set (directPeerNets [''192.168.2.0/24'', ''192.168.1.0/25''] [''192.168.2.0/24'', ''192.168.1.0/25''] [''192.168.1.0/24''])
   \<and> ''192.168.1.0/25'' \<notin> set (directPeerNets [''192.168.2.0/24'', ''192.168.1.0/25''] [''192.168.2.0/24'', ''192.168.1.0/25''] [''192.168.1.0/24''])"
proof -
  have a: "nets_apart ''192.168.2.0/24'' ''192.168.1.0/24''" "\<not> nets_apart ''192.168.1.0/25'' ''192.168.1.0/24''"
    unfolding nets_apart_iff by code_simp+
  show ?thesis
    using a directPeerNets_correct [of "[''192.168.2.0/24'', ''192.168.1.0/25'']"
        "[''192.168.2.0/24'', ''192.168.1.0/25'']" "[''192.168.1.0/24'']"] by simp
qed

subsection \<open>The relay guard\<close>

fun guard_hits :: "guard_rule \<Rightarrow> addr \<Rightarrow> bool" where
  "guard_hits (ReturnTo n) d = in_cidr d n"
| "guard_hits DropRest d = True"

text \<open>What arrives through a direct link may only go on to the site's own networks: the
  guard chain lets a packet continue exactly when its destination lies in one of them and drops
  every other packet, so the partner cannot relay through this gateway.\<close>

theorem relay_guard_correct:
  "first_match guard_hits (\<lambda>r. r \<noteq> DropRest) (guard_chain own) d =
     Some (\<exists>n \<in> set own. in_cidr d n)"
proof -
  have "first_match guard_hits (\<lambda>r. r \<noteq> DropRest) (map ReturnTo own) d =
      (if \<exists>n \<in> set own. in_cidr d n then Some True else None)"
    by (subst first_match_same [where v = True]) auto
  then show ?thesis by (simp add: guard_chain_def first_match_append)
qed

subsection \<open>Status and checks\<close>

definition status_ok :: "side_status \<Rightarrow> bool" where
  "status_ok s \<longleftrightarrow> (\<forall>a. st_age s = Some a \<longrightarrow> 0 \<le> a \<and> a < 10 ^ 9)
     \<and> (\<forall>r. st_rtt s = Some r \<longrightarrow> 0 \<le> r \<and> r \<le> 100000)
     \<and> (\<forall>e. st_error s = Some e \<longrightarrow> e \<noteq> [] \<and> length e \<le> 255 \<and> \<not> list_ex is_cc e)"

lemma status_error_ok: "status_error v = Some e \<Longrightarrow> e \<noteq> [] \<and> length e \<le> 255 \<and> \<not> list_ex is_cc e"
proof -
  assume e: "status_error v = Some e"
  let ?s = "map (\<lambda>c. if is_cc c then CHR '' '' else c) (str_or_empty v)"
  from e have e: "e = take 255 (trim ?s)" "e \<noteq> []"
    by (auto simp: status_error_def truthy_str_def split: if_split_asm)
  have "\<not> is_cc CHR '' ''" by (simp add: is_cc_def is_control_def)
  then have "\<forall>c \<in> set ?s. \<not> is_cc c" by auto
  moreover have "set e \<subseteq> set ?s" unfolding e using set_take_subset set_trim by fast
  ultimately have "\<not> list_ex is_cc e" unfolding list_ex_iff by blast
  moreover have "length e \<le> 255" unfolding e(1) by simp
  ultimately show ?thesis using e(2) by blast
qed

lemma round_tenth_bounds: "num_nonneg n \<Longrightarrow> num_lt n 100000 \<Longrightarrow> 0 \<le> round_tenth n \<and> round_tenth n \<le> 100000"
proof (cases n)
  case (Fin r)
  assume "num_nonneg n" "num_lt n 100000"
  with Fin have r: "0 \<le> r" "r < 100000" by (simp_all add: num_nonneg_def num_lt_def)
  then have "r * 10 + 1 / 2 < 1000001" by simp
  then have "\<lfloor>r * 10 + 1 / 2\<rfloor> < 1000001" by (simp add: floor_less_iff)
  moreover have "0 \<le> \<lfloor>r * 10 + 1 / 2\<rfloor>" using r by simp
  ultimately have "0 \<le> \<lfloor>r * 10 + 1 / 2\<rfloor>" "\<lfloor>r * 10 + 1 / 2\<rfloor> \<le> 1000000" by simp_all
  then have "(0 :: rat) \<le> of_int \<lfloor>r * 10 + 1 / 2\<rfloor>" "(of_int \<lfloor>r * 10 + 1 / 2\<rfloor> :: rat) \<le> 1000000"
    by (simp_all only: of_int_0_le_iff of_int_le_numeral_iff)
  then show ?thesis using Fin by (simp add: round_tenth_def)
qed (simp_all add: num_nonneg_def num_lt_def)

lemma num_int_bounds:
  "is_integer n \<Longrightarrow> num_nonneg n \<Longrightarrow> num_lt n (10 ^ 9) \<Longrightarrow> 0 \<le> num_int n \<and> num_int n < 10 ^ 9"
  by (cases n) (auto simp: is_integer_def num_nonneg_def num_lt_def num_int_def floor_less_iff)

lemma status_of_ok: "status_ok (status_of v)"
  using num_int_bounds status_error_ok round_tenth_bounds
  by (simp add: status_ok_def status_of_def Let_def)

lemma status_fold_ok:
  assumes "\<And>i k s. m i = Some (k, s) \<Longrightarrow> i \<in> set ids \<and> status_ok s \<and> (\<forall>key. k = Some key \<longrightarrow> isWgPublicKey key)"
    and "fold (status_entry ids) kvs m i = Some (k, s)"
  shows "i \<in> set ids \<and> status_ok s \<and> (\<forall>key. k = Some key \<longrightarrow> isWgPublicKey key)"
  using assms
proof (induction kvs arbitrary: m)
  case (Cons kv kvs)
  have key: "isWgPublicKey_of w = Some key \<Longrightarrow> isWgPublicKey key" for w key
    by (auto simp: isWgPublicKey_of_def split: jsval.split_asm if_split_asm)
  show ?case
  proof (rule Cons.IH)
    show "fold (status_entry ids) kvs (status_entry ids kv m) i = Some (k, s)" using Cons.prems(2) by simp
    show "j \<in> set ids \<and> status_ok s' \<and> (\<forall>key. k' = Some key \<longrightarrow> isWgPublicKey key)"
      if "status_entry ids kv m j = Some (k', s')" for j k' s'
      using that Cons.prems(1) status_of_ok key
      by (auto simp: status_entry_def Let_def split: if_split_asm)
  qed
qed simp

text \<open>Whatever an agent reports about its direct links, only links of that agent are kept,
  public keys are well-formed WireGuard keys, ages and round-trip times are inside their
  bounds, and an error text has no control characters and at most 255 characters.\<close>

theorem sanitizeDirectStatus_bounds:
  assumes "sanitizeDirectStatus raw ids i = Some (k, s)"
  shows "i \<in> set ids \<and> status_ok s \<and> (\<forall>key. k = Some key \<longrightarrow> isWgPublicKey key)"
  using assms status_fold_ok [of Map.empty ids]
  by (auto simp: sanitizeDirectStatus_def split: jsval.split_asm)

definition ex_status :: jsval where
  "ex_status = JObj [(''3'', JObj [(''up'', JBool True), (''handshake_age'', JNull), (''path'', JStr ''direct'')]),
                     (''4'', JObj [])]"

theorem sanitizeDirectStatus_bounds_witness:
  "\<exists>s. sanitizeDirectStatus ex_status [3] 3 = Some (None, s) \<and> status_ok s \<and> sanitizeDirectStatus ex_status [3] 4 = None"
proof -
  have "case sanitizeDirectStatus ex_status [3] 3 of Some (None, s) \<Rightarrow> True | _ \<Rightarrow> False"
    "sanitizeDirectStatus ex_status [3] 4 = None" by code_simp+
  then obtain s where s: "sanitizeDirectStatus ex_status [3] 3 = Some (None, s)"
    by (auto split: option.split_asm)
  from sanitizeDirectStatus_bounds [OF s] s \<open>sanitizeDirectStatus ex_status [3] 4 = None\<close> show ?thesis by blast
qed

text \<open>A reported handshake age of null is stored as the age 0 (Number(null) is 0, while the
  round-trip time has an explicit null test), so a side that reports no handshake counts as
  fresh and the port-forward check reports success.\<close>

theorem null_handshake_counts_as_fresh:
  "st_age (status_of (JObj [(''up'', JBool True), (''handshake_age'', JNull)])) = Some 0
   \<and> st_rtt (status_of (JObj [(''rtt_ms'', JNull)])) = None
   \<and> fresh_side \<lparr>vs_stale = False, vs_key_known = True,
        vs_status = status_of (JObj [(''up'', JBool True), (''handshake_age'', JNull)])\<rparr>"
  by (intro conjI; code_simp)

text \<open>The connection check of an enabled link reports "ok" exactly when nothing blocks it, both
  agents are online with known keys, the stored public address is the endpoint, the endpoint
  resolves (unless it is an address) and is where the hub sees side A (if it sees it), some
  side has a fresh handshake and both sides use the direct path.\<close>

theorem evaluateDirectChecks_ok_iff:
  "fst (evaluateDirectChecks v pub res stored) = ChkOk \<longleftrightarrow>
     dl_enabled (lv_link v) \<and> truthy_str (lv_blocked v) = None
   \<and> \<not> vs_stale (lv_a v) \<and> \<not> vs_stale (lv_b v) \<and> vs_key_known (lv_a v) \<and> vs_key_known (lv_b v)
   \<and> (\<forall>h. truthy_str stored = Some h \<longrightarrow> h = endpoint_host (lv_link v))
   \<and> (isIpv4Literal (endpoint_host (lv_link v)) \<or> (\<exists>ips. res = Some ips \<and> ips \<noteq> []))
   \<and> (\<forall>p. truthy_str pub = Some p \<longrightarrow>
        (if isIpv4Literal (endpoint_host (lv_link v)) then p = endpoint_host (lv_link v)
         else p \<in> set (the res)))
   \<and> (fresh_side (lv_a v) \<or> fresh_side (lv_b v))
   \<and> st_direct (vs_status (lv_a v)) \<and> st_direct (vs_status (lv_b v))"
proof (cases "is_active v")
  case False
  then show ?thesis
    by (auto simp: evaluateDirectChecks_def direct_checks_def worst_state_def mk_check_def is_active_def
        Let_def split: option.split if_split_asm)
next
  case True
  have fa: "fresh_ages v \<noteq> [] \<longleftrightarrow> fresh_side (lv_a v) \<or> fresh_side (lv_b v)" by (simp add: fresh_ages_def)
  from True have en: "dl_enabled (lv_link v)" "truthy_str (lv_blocked v) = None" by (simp_all add: is_active_def)
  let ?host = "endpoint_host (lv_link v)"
  have dns: "ck_state (dns_check ?host res) \<noteq> ChkFail \<longleftrightarrow> isIpv4Literal ?host \<or> (\<exists>ips. res = Some ips \<and> ips \<noteq> [])"
    "ck_state (dns_check ?host res) \<noteq> ChkWarn"
    by (auto simp: dns_check_def mk_check_def split: option.split)
  have pub: "ck_state (public_ip_check ?host res pub) \<noteq> ChkFail \<longleftrightarrow> (\<forall>p. truthy_str pub = Some p \<longrightarrow>
      p \<in> set (if isIpv4Literal ?host then [?host] else (case res of None \<Rightarrow> [] | Some r \<Rightarrow> r)))"
    "ck_state (public_ip_check ?host res pub) \<noteq> ChkWarn"
    by (auto simp: public_ip_check_def mk_check_def Let_def split: option.split)
  have port: "ck_state (port_forward_check v) \<noteq> ChkFail \<longleftrightarrow> fresh_side (lv_a v) \<or> fresh_side (lv_b v)"
    "ck_state (port_forward_check v) \<noteq> ChkWarn"
    using True fa by (auto simp: port_forward_check_def mk_check_def Let_def)
  have path: "ck_state (path_check v) \<noteq> ChkFail \<and> ck_state (path_check v) \<noteq> ChkWarn
      \<longleftrightarrow> st_direct (vs_status (lv_a v)) \<and> st_direct (vs_status (lv_b v))"
    using True by (auto simp: path_check_def mk_check_def Let_def)
  have ok: "worst_state cs = ChkOk \<longleftrightarrow> list_all (\<lambda>c. ck_state c \<noteq> ChkFail \<and> ck_state c \<noteq> ChkWarn) cs" for cs
    by (auto simp: worst_state_def list_ex_iff list_all_iff)
  show ?thesis
    unfolding evaluateDirectChecks_def direct_checks_def Let_def fst_conv ok list_all_append list.pred_inject
    using en dns pub port path by (auto simp: mk_check_def split: option.splits)
qed

end
