(* ===== verification/Ingress_Direct.thy ===== *)
theory Ingress_Direct
  imports Ingress_Payload Direct_Link
begin

text \<open>
  The filter payload of an agent as the panel sends it: \<open>payloadFor\<close> and \<open>ifaceOf\<close> of
  backend/internal/agent-ingress.js with the direct interfaces and the transfer-net aliases
  that \<open>ifacesFor\<close> and \<open>ingressAliasesFor\<close> of backend/internal/agent-direct-link.js read from
  the stored links and the partners' configurations. The database is an argument: the rows of
  the links, and the rows of the agents by their id.
\<close>

subsection \<open>Rows and the address of a partner\<close>

record ingress_agent =
  ia_id :: int
  ia_mode :: "string option"
  ia_interface :: "string option"
  ia_config :: "string option"

definition ifaceOf :: "ingress_agent \<Rightarrow> string" where
  "ifaceOf agent = (case ia_interface agent of
       Some i \<Rightarrow> if isWgIface i then i else ''wg0'' | None \<Rightarrow> ''wg0'')"

text \<open>\<open>/^\s*Address\s*=\s*(\d{1,3}(?:\.\d{1,3}){3})\//im\<close> at one line start, and its first match.\<close>

definition partner_at :: "string \<Rightarrow> string option" where
  "partner_at s = (case address_value s of
       None \<Rightarrow> None
     | Some v \<Rightarrow>
         (let a = takeWhile (\<lambda>c. c \<noteq> CHR ''/'') v
          in if length a < length v \<and> ipv4_groups a \<noteq> None then Some a else None))"

function partner_address :: "string \<Rightarrow> string option" where
  "partner_address s =
     (if s = [] then None
      else (case partner_at s of Some a \<Rightarrow> Some a | None \<Rightarrow> partner_address (next_line s)))"
  by pat_completeness auto
termination
  by (relation "measure length") (auto simp: next_line_less)

declare partner_address.simps [simp del]

subsection \<open>Direct interfaces and aliases of an agent\<close>

text \<open>The enabled links the agent is a side of, in the order of their ids.\<close>

definition links_of :: "direct_link list \<Rightarrow> int \<Rightarrow> direct_link list" where
  "links_of links agentId = sort_key dl_id
     (filter (\<lambda>l. dl_enabled l \<and> (agent_a l = agentId \<or> agent_b l = agentId)) links)"

definition ifacesFor :: "direct_link list \<Rightarrow> int \<Rightarrow> string list" where
  "ifacesFor links agentId = map (\<lambda>l. directIface (dl_id l)) (links_of links agentId)"

definition alias_of ::
  "(int \<Rightarrow> ingress_agent option) \<Rightarrow> int \<Rightarrow> direct_link \<Rightarrow> direct_alias option" where
  "alias_of byId agentId row =
     (let side = (if agent_a row = agentId then SideA else SideB);
          partner = byId (case side of SideA \<Rightarrow> agent_b row | SideB \<Rightarrow> agent_a row);
          config = (case partner of None \<Rightarrow> [] | Some p \<Rightarrow> (case ia_config p of None \<Rightarrow> [] | Some t \<Rightarrow> t))
      in map_option (\<lambda>hub. \<lparr>al_iface = directIface (dl_id row), al_hub = hub,
                            al_direct = peer_addr side (tunnel_subnet row)\<rparr>)
           (partner_address config))"

definition ingressAliasesFor ::
  "direct_link list \<Rightarrow> (int \<Rightarrow> ingress_agent option) \<Rightarrow> int \<Rightarrow> direct_alias list" where
  "ingressAliasesFor links byId agentId =
     concat (map (\<lambda>row. case alias_of byId agentId row of None \<Rightarrow> [] | Some al \<Rightarrow> [al])
       (links_of links agentId))"

definition filter_agent ::
  "direct_link list \<Rightarrow> (int \<Rightarrow> ingress_agent option) \<Rightarrow> ingress_agent \<Rightarrow> agent_cfg" where
  "filter_agent links byId agent =
     \<lparr>ingress_mode = (case ia_mode agent of Some m \<Rightarrow> if m = [] then ''open'' else m | None \<Rightarrow> ''open''),
      iface = ifaceOf agent,
      directIfaces = ifacesFor links (ia_id agent),
      directAliases = ingressAliasesFor links byId (ia_id agent)\<rparr>"

text \<open>The hash and the text the agent receives; \<open>None\<close> is no filter at all.\<close>

definition payloadFor ::
  "(string \<Rightarrow> string) \<Rightarrow> direct_link list \<Rightarrow> (int \<Rightarrow> ingress_agent option) \<Rightarrow> ingress_agent
     \<Rightarrow> ingress_rule list \<Rightarrow> ingress_error + (string \<times> string) option" where
  "payloadFor sha256 links byId agent rules =
     bind_res (buildIngressRestore sha256 (filter_agent links byId agent) rules)
       (\<lambda>built. Inr (map_option (\<lambda>b. (payload_hash b, payload_text b)) built))"

subsection \<open>What an alias can contain\<close>

lemma ip_of_nat_field: "list_all field_char (ip_of_nat n)"
proof -
  have d: "list_all field_char (str_of_nat k)" for k by (rule digits_field [OF str_of_nat_digits])
  have "field_char CHR ''.''" by (simp add: field_char_def)
  then show ?thesis by (simp add: ip_of_nat_def d)
qed

lemma peer_addr_field: "list_all field_char (peer_addr side s)"
  by (cases side) (simp_all add: peer_addr_def tunnelAddrs_def Let_def ip_of_nat_field)

lemma alias_of_Some:
  assumes "alias_of byId agentId row = Some al"
  shows "al_iface al = directIface (dl_id row)" "\<exists>side. al_direct al = peer_addr side (tunnel_subnet row)"
  using assms unfolding alias_of_def Let_def map_option_eq_Some by auto

lemma alias_direct:
  assumes "al \<in> set (ingressAliasesFor links byId agentId)"
  shows "\<exists>row \<in> set (links_of links agentId). al_iface al = directIface (dl_id row)
    \<and> (\<exists>side. al_direct al = peer_addr side (tunnel_subnet row))"
proof -
  from assms obtain row where r: "row \<in> set (links_of links agentId)"
    and al: "al \<in> set (case alias_of byId agentId row of None \<Rightarrow> [] | Some al \<Rightarrow> [al])"
    unfolding ingressAliasesFor_def by auto
  then have "alias_of byId agentId row = Some al" by (cases "alias_of byId agentId row") simp_all
  with r alias_of_Some show ?thesis by blast
qed

lemma aliases_field: "\<forall>al \<in> set (directAliases (filter_agent links byId agent)). list_all field_char (al_direct al)"
proof
  fix al assume "al \<in> set (directAliases (filter_agent links byId agent))"
  then have "al \<in> set (ingressAliasesFor links byId (ia_id agent))" by (simp add: filter_agent_def)
  from alias_direct [OF this] obtain row :: direct_link and side where
    "al_direct al = peer_addr side (tunnel_subnet row)" by blast
  then show "list_all field_char (al_direct al)" by (simp add: peer_addr_field)
qed

text \<open>C3: Whatever the stored rules, the links and the configurations of the partners contain, the
  text sent to an agent splits at its line ends into exactly the header, the rendered lines of
  the chain and the COMMIT line: no rule content, interface or alias can smuggle in a line. The
  hash sent with it is the hash of that text, and the chain has at most 4000 rule lines.\<close>

theorem payload_is_chain:
  assumes "payloadFor sha256 links byId agent rules = Inr (Some (h, t))"
  shows "\<exists>chain n. buildIngressChain (filter_agent links byId agent) rules = Inr (Some (chain, n))
    \<and> split_on (CHR 0x0A) t = payload_lines chain @ [[]] \<and> h = sha256 t
    \<and> n = length (all_lines (filter_agent links byId agent) rules) \<and> n \<le> MAX_LINES_TOTAL"
proof -
  from assms obtain b where b: "buildIngressRestore sha256 (filter_agent links byId agent) rules = Inr (Some b)"
    "h = payload_hash b" "t = payload_text b"
    by (auto simp: payloadFor_def bind_res_iff)
  from payload_splits [OF b(1) aliases_field] b(2,3) show ?thesis by auto
qed

text \<open>A link to an agent whose file has a second interface address of another form first.\<close>

definition ex_direct_link :: direct_link where
  "ex_direct_link = \<lparr>dl_id = 3, dl_name = ''a'', agent_a = 1, agent_b = 2, listen_port = 51900,
     endpoint_host = ''a.example'', tunnel_subnet = ''10.255.0.0/30'', dl_mtu = None, dl_enabled = True,
     nat_a = False, nat_b = False\<rparr>"

definition ex_partner :: ingress_agent where
  "ex_partner = \<lparr>ia_id = 2, ia_mode = None, ia_interface = None,
     ia_config = Some (join [CHR 0x0A] [''[Interface]'', ''Address = fd00::2/64'', ''address=10.10.0.1/24''])\<rparr>"

definition ex_site :: ingress_agent where
  "ex_site = \<lparr>ia_id = 1, ia_mode = Some ''restricted'', ia_interface = Some ''wg0; reboot'', ia_config = None\<rparr>"

definition ex_partners :: "int \<Rightarrow> ingress_agent option" where
  "ex_partners i = (if i = 1 then Some ex_site else if i = 2 then Some ex_partner else None)"

theorem payload_is_chain_witness:
  "\<exists>h t chain. payloadFor (\<lambda>s. take 4 s) [ex_direct_link] ex_partners ex_site ex_rules = Inr (Some (h, t))
     \<and> h = ''*fil'' \<and> split_on (CHR 0x0A) t = payload_lines chain @ [[]]
     \<and> length (all_lines (filter_agent [ex_direct_link] ex_partners ex_site) ex_rules) = 3"
proof -
  have ag: "filter_agent [ex_direct_link] ex_partners ex_site = \<lparr>ingress_mode = ''restricted'', iface = ''wg0'',
      directIfaces = [''fgd3''],
      directAliases = [\<lparr>al_iface = ''fgd3'', al_hub = ''10.10.0.1'', al_direct = ''10.255.0.2''\<rparr>]\<rparr>" (is "_ = ?ag")
    by code_simp
  have "case payloadFor (\<lambda>s. take 4 s) [ex_direct_link] ex_partners ex_site ex_rules of
      Inr (Some (h, t)) \<Rightarrow> h = ''*fil'' | _ \<Rightarrow> False"
    unfolding payloadFor_def ag by code_simp
  then obtain h t where p: "payloadFor (\<lambda>s. take 4 s) [ex_direct_link] ex_partners ex_site ex_rules = Inr (Some (h, t))"
    "h = ''*fil''" by (auto split: sum.split_asm option.split_asm prod.split_asm)
  have "length (all_lines (filter_agent [ex_direct_link] ex_partners ex_site) ex_rules) = 3" unfolding ag by code_simp
  with payload_is_chain [OF p(1)] p show ?thesis by blast
qed

end
