(* ===== verification/Site_Isolation.thy ===== *)
theory Site_Isolation
  imports Ingress_Rules Filter_Chain "HOL-Library.Product_Lexorder"
begin

text \<open>
  The first half of backend/internal/site-isolation-rules.js: the networks of a site, the
  validation of the pair list, the plan (which pairs are enforced, which warnings are shown),
  the nft script of the dedicated table, the verdict the panel shows for a flow and the
  warnings for agents that route to an isolated site. The script is first built as sets and
  rules and then rendered with the code's templates. SHA-256 is a parameter. The message texts
  of warnings are functions of the fields modelled here and are left out.
\<close>

subsection \<open>Links and small helpers\<close>

record wg_link =
  link_id :: string
  link_name :: string
  link_type :: string
  importedNetworks :: "string list"
  tunnelAddresses :: "string list"

definition SITE_TABLE :: string where "SITE_TABLE = ''floppyguard_sites''"
definition SITE_CHAIN :: string where "SITE_CHAIN = ''forward''"
definition SITE_LINK_TYPES :: "string list" where "SITE_LINK_TYPES = [''site-to-site'', ''hub-link'']"
definition MAX_PAIRS :: nat where "MAX_PAIRS = 200"
definition SITE_NAME_MAX :: nat where "SITE_NAME_MAX = 48"

definition isSiteLink :: "wg_link \<Rightarrow> bool" where
  "isSiteLink l \<longleftrightarrow> link_type l \<in> set SITE_LINK_TYPES"

text \<open>\<open>/^wg\d{1,3}:[A-Za-z0-9+/=]{1,64}$/\<close>.\<close>

definition key_char :: "char \<Rightarrow> bool" where
  "key_char c \<longleftrightarrow> is_alnum c \<or> c = CHR ''+'' \<or> c = CHR ''/'' \<or> c = CHR ''=''"

definition is_link_id :: "string \<Rightarrow> bool" where
  "is_link_id s = (case splitLinkId s of None \<Rightarrow> False
     | Some (i, k) \<Rightarrow> isWgIface i \<and> 1 \<le> length k \<and> length k \<le> 64 \<and> list_all key_char k)"

definition ipInt :: "string \<Rightarrow> nat" where
  "ipInt cidr = ip_reduce (cidr_addr cidr)"

definition prefixOf :: "string \<Rightarrow> nat" where
  "prefixOf cidr = cidr_prefix cidr"

text \<open>Replacement of the German letters before the Unicode decomposition.\<close>

definition translit_char :: "char \<Rightarrow> string" where
  "translit_char c =
     (if c = CHR 0xE4 then ''ae'' else if c = CHR 0xF6 then ''oe'' else if c = CHR 0xFC then ''ue''
      else if c = CHR 0xC4 then ''Ae'' else if c = CHR 0xD6 then ''Oe'' else if c = CHR 0xDC then ''Ue''
      else if c = CHR 0xDF then ''ss'' else [c])"

text \<open>NFKD on the Latin-1 range: the base character, then the code units outside ASCII, each
  written as the control character 128 (all of them are replaced by a blank right after).\<close>

definition nfkd_char :: "char \<Rightarrow> string" where
  "nfkd_char c =
     (let n = of_char c :: nat; base = (\<lambda>b. [b, CHR 0x80])
      in if n < 160 then [c]
         else if n = 160 then '' ''
         else if n \<in> {168, 175, 180, 184} then base CHR '' ''
         else if n = 170 then ''a'' else if n = 186 then ''o''
         else if n = 178 then ''2'' else if n = 179 then ''3'' else if n = 185 then ''1''
         else if n = 188 then [CHR ''1'', CHR 0x80, CHR ''4'']
         else if n = 189 then [CHR ''1'', CHR 0x80, CHR ''2'']
         else if n = 190 then [CHR ''3'', CHR 0x80, CHR ''4'']
         else if n < 192 then [CHR 0x80]
         else if n < 198 then base CHR ''A'' else if n = 199 then base CHR ''C''
         else if 200 \<le> n \<and> n < 204 then base CHR ''E'' else if 204 \<le> n \<and> n < 208 then base CHR ''I''
         else if n = 209 then base CHR ''N'' else if 210 \<le> n \<and> n < 215 then base CHR ''O''
         else if 217 \<le> n \<and> n < 221 then base CHR ''U'' else if n = 221 then base CHR ''Y''
         else if 224 \<le> n \<and> n < 230 then base CHR ''a'' else if n = 231 then base CHR ''c''
         else if 232 \<le> n \<and> n < 236 then base CHR ''e'' else if 236 \<le> n \<and> n < 240 then base CHR ''i''
         else if n = 241 then base CHR ''n'' else if 242 \<le> n \<and> n < 247 then base CHR ''o''
         else if 249 \<le> n \<and> n < 253 then base CHR ''u'' else if n = 253 \<or> n = 255 then base CHR ''y''
         else [CHR 0x80])"

definition comment_char :: "char \<Rightarrow> bool" where
  "comment_char c \<longleftrightarrow> is_alnum c \<or> c \<in> set '' ._()+:<>-''"

text \<open>\<open>.replace(/\s+/g, " ")\<close> where only blanks are left as white space.\<close>

fun collapse_blanks :: "string \<Rightarrow> string" where
  "collapse_blanks [] = []"
| "collapse_blanks [c] = [c]"
| "collapse_blanks (c # d # cs) =
     (if c = CHR '' '' \<and> d = CHR '' '' then collapse_blanks (d # cs) else c # collapse_blanks (d # cs))"

definition sanitizeCommentText :: "string \<Rightarrow> nat \<Rightarrow> string" where
  "sanitizeCommentText value m =
     (let s = concat (map nfkd_char (concat (map translit_char value)));
          s = map (\<lambda>c. if comment_char c then c else CHR '' '') s;
          s = trim (collapse_blanks s);
          t = trim (take m s)
      in if t = [] then ''site'' else t)"

text \<open>\<open>siteSetName\<close>; \<open>sha\<close> yields the hexadecimal SHA-256 digest.\<close>

definition siteSetName :: "(string \<Rightarrow> string) \<Rightarrow> string \<Rightarrow> string" where
  "siteSetName sha linkId = ''site_'' @ take 10 (sha linkId)"

definition normalizePair :: "string \<Rightarrow> string \<Rightarrow> string \<times> string" where
  "normalizePair a b = (if a < b then (a, b) else (b, a))"

subsection \<open>The networks of a site\<close>

datatype skip_reason = Ipv6Unsupported | InvalidNet | DefaultRoute

type_synonym skipped = "echo \<times> skip_reason"

definition imported_entry ::
  "string \<Rightarrow> string list \<times> skipped list \<Rightarrow> string list \<times> skipped list" where
  "imported_entry v acc =
     (let (raw, skipped) = acc
      in if CHR '':'' \<in> set v then (raw, skipped @ [(echoValue (JStr v), Ipv6Unsupported)])
         else (case canonicalCidr v of
             None \<Rightarrow> (raw, skipped @ [(echoValue (JStr v), InvalidNet)])
           | Some c \<Rightarrow> if prefixOf c = 0 then (raw, skipped @ [((c, False), DefaultRoute)])
                       else (raw @ [c], skipped)))"

definition tunnel_canonical :: "string \<Rightarrow> string option" where
  "tunnel_canonical s = canonicalCidr (if CHR ''/'' \<in> set s then s else s @ ''/32'')"

definition tunnel_entry ::
  "string \<Rightarrow> string list \<times> skipped list \<Rightarrow> string list \<times> skipped list" where
  "tunnel_entry s acc =
     (let (raw, skipped) = acc
      in (case tunnel_canonical s of
            Some c \<Rightarrow> if ends_with ''/32'' c then (raw @ [c], skipped)
                      else if s \<noteq> [] then (raw, skipped @ [(echoValue (JStr s), InvalidNet)]) else acc
          | None \<Rightarrow> if s \<noteq> [] then (raw, skipped @ [(echoValue (JStr s), InvalidNet)]) else acc))"

definition site_raw :: "wg_link \<Rightarrow> string list \<times> skipped list" where
  "site_raw l = fold tunnel_entry (tunnelAddresses l) (fold imported_entry (importedNetworks l) ([], []))"

definition drop_contained :: "string list \<Rightarrow> string list" where
  "drop_contained ns = filter (\<lambda>n. \<not> list_ex (\<lambda>k. k \<noteq> n \<and> cidrContains k n) ns) ns"

definition siteNetworks :: "wg_link \<Rightarrow> string list \<times> skipped list" where
  "siteNetworks l =
     (let (raw, skipped) = site_raw l
      in (sort_key (\<lambda>c. (ipInt c, prefixOf c)) (drop_contained (uniq raw)), skipped))"

subsection \<open>The pair list\<close>

datatype pair_error =
    PairsNotArray
  | TooManyPairs
  | BadLinkId nat string echo
  | UnknownLink nat string echo
  | NotASite nat string echo
  | SelfPair nat

text \<open>\<open>new Map(links.map((l) => [l.id, l]))\<close>: the last link of an id wins.\<close>

definition link_by_id :: "wg_link list \<Rightarrow> string \<Rightarrow> wg_link option" where
  "link_by_id links i = find (\<lambda>l. link_id l = i) (rev links)"

definition pair_field :: "jsval \<Rightarrow> string" where
  "pair_field v = (case v of JStr s \<Rightarrow> trim s | _ \<Rightarrow> [])"

definition check_pair_field ::
  "wg_link list \<Rightarrow> nat \<Rightarrow> string \<Rightarrow> string \<Rightarrow> pair_error + unit" where
  "check_pair_field links i field v =
     (if \<not> is_link_id v then Inl (BadLinkId i field (echoValue (JStr v)))
      else (case link_by_id links v of
          None \<Rightarrow> Inl (UnknownLink i field (echoValue (JStr v)))
        | Some l \<Rightarrow>
            if \<not> isSiteLink l then
              Inl (NotASite i field (echoValue (JStr (if link_name l = [] then v else link_name l))))
            else Inr ()))"

definition check_pair ::
  "wg_link list \<Rightarrow> nat \<times> jsval \<Rightarrow> (string \<times> string) list \<Rightarrow> pair_error + (string \<times> string) list" where
  "check_pair links ip seen =
     (let i = fst ip; a = pair_field (getp (snd ip) ''link_a''); b = pair_field (getp (snd ip) ''link_b'')
      in bind_res (check_pair_field links i ''link_a'' a) (\<lambda>_.
         bind_res (check_pair_field links i ''link_b'' b) (\<lambda>_.
         if a = b then Inl (SelfPair i) else Inr (push_new (normalizePair a b) seen))))"

definition sanitizePairs :: "jsval \<Rightarrow> wg_link list \<Rightarrow> pair_error + (string \<times> string) list" where
  "sanitizePairs input links =
     (case input of
        JArr ps \<Rightarrow>
          if length ps > MAX_PAIRS then Inl TooManyPairs
          else bind_res (fold_res (check_pair links) (enumerate 0 ps) []) (\<lambda>seen. Inr (sort seen))
      | _ \<Rightarrow> Inl PairsNotArray)"

subsection \<open>The plan\<close>

record site =
  site_id :: string
  site_name :: string
  site_set :: string
  site_nets :: "string list"

datatype isolation_warning =
    NetworkSkipped string string skipped
  | LinkMissing string "string \<times> string"
  | LinkNotSite string "string \<times> string"
  | NoNetworks string "string \<times> string"
  | Overlap "string \<times> string" "string list"

record plan =
  plan_sites :: "site list"
  plan_pairs :: "(string \<times> string) list"
  plan_warnings :: "isolation_warning list"

definition name_or_id :: "wg_link \<Rightarrow> string \<Rightarrow> string" where
  "name_or_id l i = (if link_name l = [] then i else link_name l)"

definition site_of :: "site list \<Rightarrow> string \<Rightarrow> site option" where
  "site_of ss i = find (\<lambda>s. site_id s = i) ss"

definition mk_site :: "(string \<Rightarrow> string) \<Rightarrow> wg_link \<Rightarrow> string \<Rightarrow> site" where
  "mk_site sha l i = \<lparr>site_id = i, site_name = name_or_id l i, site_set = siteSetName sha i,
                      site_nets = fst (siteNetworks l)\<rparr>"

definition siteFor :: "(string \<Rightarrow> string) \<Rightarrow> wg_link \<Rightarrow> string \<Rightarrow> plan \<Rightarrow> plan" where
  "siteFor sha l i p =
     (case site_of (plan_sites p) i of
        Some s \<Rightarrow> p
      | None \<Rightarrow> p\<lparr>plan_sites := plan_sites p @ [mk_site sha l i],
                   plan_warnings := plan_warnings p
                     @ map (NetworkSkipped i (name_or_id l i)) (snd (siteNetworks l))\<rparr>)"

definition overlap_nets :: "string list \<Rightarrow> string list \<Rightarrow> string list" where
  "overlap_nets xs ys = filter (\<lambda>x. list_ex (\<lambda>y. cidrOverlaps x y) ys) xs"

text \<open>One pair of the list: skipped with a warning, or enforced.\<close>

definition warn :: "isolation_warning list \<Rightarrow> plan \<Rightarrow> plan" where
  "warn ws p = p\<lparr>plan_warnings := plan_warnings p @ ws\<rparr>"

definition plan_pair ::
  "(string \<Rightarrow> string) \<Rightarrow> wg_link list \<Rightarrow> string \<times> string \<Rightarrow> plan \<Rightarrow> plan" where
  "plan_pair sha links pr p =
     (let ids = [fst pr, snd pr];
          missing = filter (\<lambda>i. link_by_id links i = None) ids
      in if missing \<noteq> [] then warn (map (\<lambda>i. LinkMissing i pr) missing) p
         else (let notSite = filter (\<lambda>i. \<not> isSiteLink (the (link_by_id links i))) ids
               in if notSite \<noteq> [] then warn (map (\<lambda>i. LinkNotSite i pr) notSite) p
                  else (let la = the (link_by_id links (fst pr)); lb = the (link_by_id links (snd pr));
                            p = siteFor sha lb (snd pr) (siteFor sha la (fst pr) p);
                            A = the (site_of (plan_sites p) (fst pr));
                            B = the (site_of (plan_sites p) (snd pr));
                            empty = filter (\<lambda>s. site_nets s = []) [A, B]
                        in if empty \<noteq> [] then warn (map (\<lambda>s. NoNetworks (site_id s) pr) empty) p
                           else (let overlap = overlap_nets (site_nets A) (site_nets B);
                                     p = (if overlap = [] then p else warn [Overlap pr overlap] p)
                                 in p\<lparr>plan_pairs := plan_pairs p @ [pr]\<rparr>))))"

definition used_ids :: "(string \<times> string) list \<Rightarrow> string list" where
  "used_ids ps = concat (map (\<lambda>(a, b). [a, b]) ps)"

definition planSiteIsolation ::
  "(string \<Rightarrow> string) \<Rightarrow> (string \<times> string) list \<Rightarrow> wg_link list \<Rightarrow> plan" where
  "planSiteIsolation sha pairs links =
     (let p = fold (plan_pair sha links) pairs \<lparr>plan_sites = [], plan_pairs = [], plan_warnings = []\<rparr>
      in p\<lparr>plan_sites := filter (\<lambda>s. site_id s \<in> set (used_ids (plan_pairs p))) (plan_sites p)\<rparr>)"

definition plan_site :: "plan \<Rightarrow> string \<Rightarrow> site" where
  "plan_site p i = the (site_of (plan_sites p) i)"

subsection \<open>The nft script\<close>

record nft_set =
  nft_name :: string
  nft_comment :: string
  nft_elems :: "string list"

record nft_rule =
  nft_saddr :: string
  nft_daddr :: string
  nft_rule_comment :: string

record nft_table =
  nft_sets :: "nft_set list"
  nft_rules :: "nft_rule list"

definition pair_rule :: "site \<Rightarrow> site \<Rightarrow> nft_rule" where
  "pair_rule x y = \<lparr>nft_saddr = site_set x, nft_daddr = site_set y,
     nft_rule_comment = sanitizeCommentText (''Standort-Trennung '' @ sanitizeCommentText (site_name x) 40
        @ '' -> '' @ sanitizeCommentText (site_name y) 40) 100\<rparr>"

text \<open>The table: \<open>None\<close> where the code refuses a network that is not canonical.\<close>

definition buildSiteTable ::
  "(string \<Rightarrow> string) \<Rightarrow> (string \<times> string) list \<Rightarrow> wg_link list \<Rightarrow> nft_table option" where
  "buildSiteTable sha pairs links =
     (let p = planSiteIsolation sha pairs links;
          ordered = sort_key site_set (plan_sites p)
      in if \<not> list_all (\<lambda>s. list_all is_canonical (site_nets s)) ordered then None
         else Some \<lparr>
           nft_sets = map (\<lambda>s. \<lparr>nft_name = site_set s, nft_comment = sanitizeCommentText (site_name s) SITE_NAME_MAX,
                                nft_elems = site_nets s\<rparr>) ordered,
           nft_rules = concat (map (\<lambda>pr.
             let A = plan_site p (fst pr); B = plan_site p (snd pr) in [pair_rule A B, pair_rule B A]) (plan_pairs p))\<rparr>)"

definition NL :: char where "NL = CHR 0x0A"
definition TAB :: char where "TAB = CHR 0x09"
definition QUOTE :: char where "QUOTE = CHR 0x22"

definition quoted :: "string \<Rightarrow> string" where
  "quoted s = [QUOTE] @ s @ [QUOTE]"

definition render_set :: "nft_set \<Rightarrow> string list" where
  "render_set s = [TAB # ''set '' @ nft_name s @ '' {'', [TAB, TAB] @ ''type ipv4_addr'',
     [TAB, TAB] @ ''flags interval'', [TAB, TAB] @ ''comment '' @ quoted (nft_comment s),
     [TAB, TAB] @ ''elements = { '' @ join '', '' (nft_elems s) @ '' }'', TAB # ''}'']"

definition render_rule :: "nft_rule \<Rightarrow> string" where
  "render_rule r = [TAB, TAB] @ ''ip saddr @'' @ nft_saddr r @ '' ip daddr @'' @ nft_daddr r
     @ '' counter drop comment '' @ quoted (nft_rule_comment r)"

definition render_table :: "nft_table \<Rightarrow> string list" where
  "render_table t =
     [''#!/usr/sbin/nft -f'',
      ''# Managed by FloppyGuard - Standorte untereinander (site isolation). Do not edit:'',
      ''# the backend replaces this table atomically on every change.'',
      ''table inet '' @ SITE_TABLE @ '' {}'', ''delete table inet '' @ SITE_TABLE,
      ''table inet '' @ SITE_TABLE @ '' {'']
     @ concat (map render_set (nft_sets t))
     @ [TAB # ''chain '' @ SITE_CHAIN @ '' {'',
        [TAB, TAB] @ ''type filter hook forward priority filter - 10; policy accept;'']
     @ map render_rule (nft_rules t) @ [TAB # ''}'', ''}'', []]"

definition buildSiteIsolationNft ::
  "(string \<Rightarrow> string) \<Rightarrow> (string \<times> string) list \<Rightarrow> wg_link list \<Rightarrow> string option" where
  "buildSiteIsolationNft sha pairs links =
     map_option (\<lambda>t. join [NL] (render_table t)) (buildSiteTable sha pairs links)"

definition scriptHash :: "(string \<Rightarrow> string) \<Rightarrow> string \<Rightarrow> string" where
  "scriptHash sha script = sha script"

subsection \<open>The verdict for a flow\<close>

record pair_ref =
  ref_pair :: "string \<times> string"
  ref_name_a :: string
  ref_name_b :: string
  ref_a_to_b :: bool

datatype isolation_verdict = NotBlocked | Blocked pair_ref | Partial pair_ref

definition in_nets :: "string list \<Rightarrow> string \<Rightarrow> bool" where
  "in_nets ns c \<longleftrightarrow> list_ex (\<lambda>n. cidrContains n c) ns"

definition touches :: "string list \<Rightarrow> string \<Rightarrow> bool" where
  "touches ns c \<longleftrightarrow> list_ex (\<lambda>n. cidrOverlaps n c) ns"

definition verdict_ref :: "plan \<Rightarrow> string \<times> string \<Rightarrow> bool \<Rightarrow> pair_ref" where
  "verdict_ref p pr dir = \<lparr>ref_pair = pr, ref_name_a = site_name (plan_site p (fst pr)),
     ref_name_b = site_name (plan_site p (snd pr)), ref_a_to_b = dir\<rparr>"

fun verdict_loop ::
  "plan \<Rightarrow> string \<Rightarrow> string \<Rightarrow> (string \<times> string) list \<Rightarrow> pair_ref option \<Rightarrow> isolation_verdict" where
  "verdict_loop p s d [] partial = (case partial of None \<Rightarrow> NotBlocked | Some r \<Rightarrow> Partial r)"
| "verdict_loop p s d (pr # prs) partial =
     (let A = site_nets (plan_site p (fst pr)); B = site_nets (plan_site p (snd pr))
      in if in_nets A s \<and> in_nets B d then Blocked (verdict_ref p pr True)
         else if in_nets B s \<and> in_nets A d then Blocked (verdict_ref p pr False)
         else (let partial = (if partial = None \<and> touches A s \<and> touches B d
                              then Some (verdict_ref p pr True) else partial);
                   partial = (if partial = None \<and> touches B s \<and> touches A d
                              then Some (verdict_ref p pr False) else partial)
               in verdict_loop p s d prs partial))"

definition siteIsolationVerdict ::
  "(string \<Rightarrow> string) \<Rightarrow> (string \<times> string) list \<Rightarrow> wg_link list \<Rightarrow> string \<Rightarrow> string \<Rightarrow> isolation_verdict" where
  "siteIsolationVerdict sha pairs links src dst =
     (case (canonicalCidr src, canonicalCidr dst) of
        (Some s, Some d) \<Rightarrow>
          (let p = planSiteIsolation sha pairs links in verdict_loop p s d (plan_pairs p) None)
      | _ \<Rightarrow> NotBlocked)"

subsection \<open>Routes to an isolated site\<close>

record route_agent =
  ra_id :: int
  ra_name :: string
  ra_link_name :: string
  ra_allowed_networks :: "string list option"
  ra_allowed_sites :: "string list option"

datatype route_via = ViaNetworks | ViaSites | ViaMesh

record route_warning =
  rw_agent :: int
  rw_agent_name :: string
  rw_link :: string
  rw_other :: string
  rw_other_name :: string
  rw_networks :: "string list"
  rw_via :: route_via

definition valid_cidrs :: "string list \<Rightarrow> string list" where
  "valid_cidrs xs = map the (filter (\<lambda>c. c \<noteq> None) (map canonicalCidr xs))"

definition non_empty :: "string list option \<Rightarrow> bool" where
  "non_empty xs = (case xs of None \<Rightarrow> False | Some ys \<Rightarrow> ys \<noteq> [])"

definition routed_nets :: "route_agent \<Rightarrow> wg_link \<Rightarrow> route_via \<times> string list" where
  "routed_nets ag other =
     (let otherNets = valid_cidrs (importedNetworks other)
      in if non_empty (ra_allowed_networks ag) then
           (ViaNetworks, overlap_nets (valid_cidrs (the (ra_allowed_networks ag))) otherNets)
         else if non_empty (ra_allowed_sites ag) then
           (ViaSites, if link_name other \<in> set (the (ra_allowed_sites ag)) then otherNets else [])
         else (ViaMesh, otherNets))"

definition other_end :: "string \<Rightarrow> string \<times> string \<Rightarrow> string option" where
  "other_end own pr =
     (let other = (if fst pr = own then snd pr else if snd pr = own then fst pr else [])
      in if other = [] then None else Some other)"

definition pair_warnings :: "wg_link list \<Rightarrow> route_agent \<Rightarrow> wg_link \<Rightarrow> string \<times> string \<Rightarrow> route_warning list" where
  "pair_warnings links ag own pr =
     (case Option.bind (other_end (link_id own) pr) (link_by_id links) of
        None \<Rightarrow> []
      | Some other \<Rightarrow>
          if \<not> isSiteLink other then []
          else (let (via, ns) = routed_nets ag other; nets = uniq ns
                in if nets = [] then []
                   else [\<lparr>rw_agent = ra_id ag, rw_agent_name = ra_name ag, rw_link = link_id own,
                          rw_other = link_id other, rw_other_name = link_name other, rw_networks = nets, rw_via = via\<rparr>]))"

definition agent_warnings :: "(string \<times> string) list \<Rightarrow> wg_link list \<Rightarrow> route_agent \<Rightarrow> route_warning list" where
  "agent_warnings pairs links ag =
     (if ra_link_name ag = [] \<or> length (filter (\<lambda>l. link_name l = ra_link_name ag) links) \<noteq> 1 then []
      else (case find (\<lambda>l. link_name l = ra_link_name ag) links of
          None \<Rightarrow> []
        | Some own \<Rightarrow> if \<not> isSiteLink own then [] else concat (map (pair_warnings links ag own) pairs)))"

definition routeWarnings ::
  "(string \<times> string) list \<Rightarrow> wg_link list \<Rightarrow> route_agent list \<Rightarrow> route_warning list" where
  "routeWarnings pairs links agents = concat (map (agent_warnings pairs links) agents)"

subsection \<open>Site networks\<close>

definition site_entry_ok :: "string \<Rightarrow> bool" where
  "site_entry_ok c \<longleftrightarrow> is_canonical c \<and> prefixOf c \<noteq> 0"

lemma suffix_32_prefix:
  assumes "canonicalCidr s = Some c" "ends_with ''/32'' c"
  shows "prefixOf c = 32"
proof -
  obtain n p where c: "c = cidr_text n p" using assms(1) by (rule canonicalCidr_cases)
  have "take (length c - 3) c @ ''/32'' = c"
    using assms(2) unfolding ends_with_def starts_with_def
    by (metis append_take_drop_id length_rev rev_rev_ident rev_take length_Cons list.size(3) numeral_3_eq_3)
  then obtain a where "c = a @ ''/32''" by metis
  then have "split_on CHR ''/'' c = split_on CHR ''/'' a @ [''32'']"
    using split_on_append [of "CHR ''/''" a "''32''"] by simp
  then show ?thesis using str_32 unfolding prefixOf_def c
    by (simp add: append_eq_Cons_conv) (metis nat_of_digits_str_of_nat)
qed

lemma imported_entry_ok:
  "list_all site_entry_ok (fst acc) \<Longrightarrow> list_all site_entry_ok (fst (imported_entry v acc))"
  by (auto simp: imported_entry_def site_entry_ok_def Let_def canonical_is_canonical
      split: prod.splits option.splits)

lemma tunnel_entry_ok:
  "list_all site_entry_ok (fst acc) \<Longrightarrow> list_all site_entry_ok (fst (tunnel_entry v acc))"
  by (auto simp: tunnel_entry_def tunnel_canonical_def site_entry_ok_def canonical_is_canonical
      suffix_32_prefix split: prod.splits option.splits)

lemma fold_invariant': "(\<And>x s. P s \<Longrightarrow> P (f x s)) \<Longrightarrow> P s \<Longrightarrow> P (fold f xs s)"
  by (induction xs arbitrary: s) auto

lemma site_raw_ok: "list_all site_entry_ok (fst (site_raw l))"
  unfolding site_raw_def
  by (intro fold_invariant' [where P = "\<lambda>acc. list_all site_entry_ok (fst acc)"] imported_entry_ok tunnel_entry_ok) simp_all

definition nets_set :: "string list \<Rightarrow> addr set" where
  "nets_set ns = (\<Union>n \<in> set ns. the (cidr_set n))"

lemma set_siteNetworks: "set (fst (siteNetworks l)) = set (drop_contained (uniq (fst (site_raw l))))"
  by (simp add: siteNetworks_def split: prod.split)

lemma drop_contained_eq:
  "drop_contained ns = filter (\<lambda>n. \<not> (\<exists>k \<in> set ns. k \<noteq> n \<and> cidrContains k n)) ns"
  by (simp add: drop_contained_def list_ex_iff)

lemma siteNetworks_ok: "list_all site_entry_ok (fst (siteNetworks l))"
  using site_raw_ok [of l] unfolding list_all_iff set_siteNetworks by (auto simp: drop_contained_eq)

lemma site_entry_set: "site_entry_ok c \<Longrightarrow> cidr_set c \<noteq> None"
  by (simp add: site_entry_ok_def cidr_set_None_iff is_canonical_def)

lemma siteNetworks_covers: "nets_set (fst (siteNetworks l)) = nets_set (fst (site_raw l))"
proof -
  let ?u = "uniq (fst (site_raw l))"
  have ok: "\<forall>c \<in> set ?u. site_entry_ok c" using site_raw_ok [of l] by (simp add: list_all_iff)
  then have "inj_on cidr_set (set ?u)" by (intro inj_on_cidr_set) (simp add: site_entry_ok_def)
  moreover have "\<forall>n \<in> set ?u. cidr_set n \<noteq> None" using ok site_entry_set by blast
  ultimately have "nets_set (drop_contained ?u) = nets_set ?u"
    unfolding nets_set_def drop_contained_eq by (rule cidr.drop_contained_covers)
  then show ?thesis by (simp add: nets_set_def set_siteNetworks)
qed

text \<open>C21: The elements of a site's nft set are canonical, none is the default route, no two of
  them share an address (an interval set would refuse that), they are listed in address order,
  and together they cover exactly the addresses of the accepted networks of the site.\<close>

theorem siteNetworks_correct:
  "let ns = fst (siteNetworks l) in
     list_all is_canonical ns \<and> list_all (\<lambda>c. prefixOf c \<noteq> 0) ns \<and> distinct ns
   \<and> sorted (map (\<lambda>c. (ipInt c, prefixOf c)) ns)
   \<and> pairwise (\<lambda>x y. the (cidr_set x) \<inter> the (cidr_set y) = {}) (set ns)
   \<and> nets_set ns = nets_set (fst (site_raw l))"
proof -
  let ?ns = "fst (siteNetworks l)" and ?u = "uniq (fst (site_raw l))"
  have ok: "list_all site_entry_ok ?ns" by (rule siteNetworks_ok)
  have "distinct ?ns" "sorted (map (\<lambda>c. (ipInt c, prefixOf c)) ?ns)"
    by (simp_all add: siteNetworks_def drop_contained_eq split: prod.split)
  moreover have "the (cidr_set x) \<inter> the (cidr_set y) = {}" if "x \<in> set ?ns" "y \<in> set ?ns" "x \<noteq> y" for x y
  proof -
    have "site_entry_ok x" "site_entry_ok y" using ok that(1,2) unfolding list_all_iff by blast+
    then obtain A B where "cidr_set x = Some A" "cidr_set y = Some B" using site_entry_set by blast
    moreover have "x \<in> set (drop_contained ?u)" "y \<in> set (drop_contained ?u)"
      using that(1,2) unfolding set_siteNetworks .
    ultimately show ?thesis
      using cidr.drop_contained_disjoint [of x ?u y A B] that(3) unfolding drop_contained_eq
      by (metis option.sel)
  qed
  ultimately show ?thesis
    using ok siteNetworks_covers unfolding list_all_iff site_entry_ok_def pairwise_def Let_def by blast
qed

subsection \<open>What a plan contains\<close>

definition good_site :: "(string \<Rightarrow> string) \<Rightarrow> wg_link list \<Rightarrow> site \<Rightarrow> bool" where
  "good_site sha links s \<longleftrightarrow> (\<exists>l. link_by_id links (site_id s) = Some l \<and> isSiteLink l
     \<and> s = mk_site sha l (site_id s))"

definition enforced_pair :: "plan \<Rightarrow> string \<times> string \<Rightarrow> bool" where
  "enforced_pair p pr \<longleftrightarrow> (\<forall>i \<in> {fst pr, snd pr}. \<exists>s. site_of (plan_sites p) i = Some s \<and> site_nets s \<noteq> [])"

definition plan_inv :: "(string \<Rightarrow> string) \<Rightarrow> wg_link list \<Rightarrow> plan \<Rightarrow> bool" where
  "plan_inv sha links p \<longleftrightarrow> (\<forall>s \<in> set (plan_sites p). good_site sha links s)
     \<and> distinct (map site_id (plan_sites p)) \<and> (\<forall>pr \<in> set (plan_pairs p). enforced_pair p pr)"

lemma site_of_Some: "site_of ss i = Some s \<Longrightarrow> s \<in> set ss \<and> site_id s = i"
  unfolding site_of_def by (metis (mono_tags, lifting) find_Some_iff nth_mem)

lemma site_of_None: "site_of ss i = None \<longleftrightarrow> i \<notin> site_id ` set ss"
  by (auto simp: site_of_def find_None_iff)

lemma site_of_append: "site_of (ss @ ts) i = (case site_of ss i of None \<Rightarrow> site_of ts i | Some s \<Rightarrow> Some s)"
  unfolding site_of_def by (induction ss) auto

lemma mk_site_id [simp]: "site_id (mk_site sha l i) = i"
  by (simp add: mk_site_def)

lemma siteFor_site: "\<exists>s. site_of (plan_sites (siteFor sha l i p)) i = Some s"
  by (auto simp: siteFor_def site_of_append split: option.split) (simp add: site_of_def)

lemma siteFor_mono:
  "site_of (plan_sites p) j = Some s \<Longrightarrow> site_of (plan_sites (siteFor sha l i p)) j = Some s"
  by (simp add: siteFor_def site_of_append split: option.split)

lemma siteFor_pairs [simp]: "plan_pairs (siteFor sha l i p) = plan_pairs p"
  by (simp add: siteFor_def split: option.split)

lemma enforced_mono:
  "(\<And>j s. site_of (plan_sites p) j = Some s \<Longrightarrow> site_of (plan_sites q) j = Some s) \<Longrightarrow>
   enforced_pair p pr \<Longrightarrow> enforced_pair q pr"
  unfolding enforced_pair_def by blast

lemma siteFor_inv:
  assumes "plan_inv sha links p" "link_by_id links i = Some l" "isSiteLink l"
  shows "plan_inv sha links (siteFor sha l i p)"
proof -
  have "enforced_pair (siteFor sha l i p) pr" if "pr \<in> set (plan_pairs p)" for pr
    using assms(1) that siteFor_mono by (metis enforced_mono plan_inv_def)
  moreover have "good_site sha links (mk_site sha l i)"
    using assms(2,3) by (auto simp: good_site_def)
  ultimately show ?thesis
    using assms(1) site_of_None [of "plan_sites p" i]
    by (auto simp: plan_inv_def siteFor_def split: option.split)
qed

lemma warn_fields [simp]: "plan_sites (warn ws p) = plan_sites p" "plan_pairs (warn ws p) = plan_pairs p"
  by (simp_all add: warn_def)

lemma plan_inv_warn [simp]: "plan_inv sha links (warn ws p) = plan_inv sha links p"
  by (simp add: plan_inv_def enforced_pair_def)

lemma plan_pair_inv:
  assumes "plan_inv sha links p"
  shows "plan_inv sha links (plan_pair sha links pr p)"
proof -
  let ?l = "\<lambda>i. the (link_by_id links i)"
  let ?q = "siteFor sha (?l (snd pr)) (snd pr) (siteFor sha (?l (fst pr)) (fst pr) p)"
  let ?A = "the (site_of (plan_sites ?q) (fst pr))" and ?B = "the (site_of (plan_sites ?q) (snd pr))"
  consider (missing) "link_by_id links (fst pr) = None \<or> link_by_id links (snd pr) = None"
    | (site) la lb where "link_by_id links (fst pr) = Some la" "link_by_id links (snd pr) = Some lb" by (metis not_None_eq)
  then show ?thesis
  proof cases
    case missing
    then show ?thesis using assms by (auto simp: plan_pair_def Let_def)
  next
    case site
    show ?thesis
    proof (cases "isSiteLink la \<and> isSiteLink lb")
      case False
      with site show ?thesis using assms by (auto simp: plan_pair_def Let_def)
    next
      case True
      have inv: "plan_inv sha links ?q" using site True assms by (simp add: siteFor_inv)
      obtain A B where AB: "site_of (plan_sites ?q) (fst pr) = Some A" "site_of (plan_sites ?q) (snd pr) = Some B"
        using siteFor_site siteFor_mono by meson
      show ?thesis
      proof (cases "site_nets A = [] \<or> site_nets B = []")
        case True
        with site \<open>isSiteLink la \<and> isSiteLink lb\<close> AB inv show ?thesis
          by (auto simp: plan_pair_def Let_def)
      next
        case False
        have "plan_inv sha links (q\<lparr>plan_pairs := plan_pairs ?q @ [pr]\<rparr>)" if "plan_sites q = plan_sites ?q" for q
          using inv False AB that unfolding plan_inv_def enforced_pair_def by auto
        with False site \<open>isSiteLink la \<and> isSiteLink lb\<close> AB show ?thesis
          by (simp add: plan_pair_def Let_def)
      qed
    qed
  qed
qed

lemma find_filter_site:
  "P i \<Longrightarrow> site_of (filter (\<lambda>s. P (site_id s)) ss) i = site_of ss i"
  by (induction ss) (auto simp: site_of_def)

lemma set_used_ids: "set (used_ids ps) = fst ` set ps \<union> snd ` set ps"
  by (induction ps) (auto simp: used_ids_def)

lemma planSiteIsolation_inv:
  "plan_inv sha links (planSiteIsolation sha pairs links)"
proof -
  let ?p = "fold (plan_pair sha links) pairs \<lparr>plan_sites = [], plan_pairs = [], plan_warnings = []\<rparr>"
  have inv: "plan_inv sha links ?p"
    by (rule fold_invariant' [where P = "plan_inv sha links"], rule plan_pair_inv) (simp_all add: plan_inv_def)
  let ?q = "planSiteIsolation sha pairs links"
  have sites: "plan_sites ?q = filter (\<lambda>s. site_id s \<in> set (used_ids (plan_pairs ?p))) (plan_sites ?p)"
    "plan_pairs ?q = plan_pairs ?p" by (simp_all add: planSiteIsolation_def Let_def)
  have "enforced_pair ?q pr" if pr: "pr \<in> set (plan_pairs ?p)" for pr
  proof -
    have "fst pr \<in> set (used_ids (plan_pairs ?p))" "snd pr \<in> set (used_ids (plan_pairs ?p))"
      using pr by (simp_all add: set_used_ids)
    then show ?thesis
      using inv pr find_filter_site [of "\<lambda>i. i \<in> set (used_ids (plan_pairs ?p))"]
      unfolding plan_inv_def enforced_pair_def sites(1) by (metis insertE singletonD)
  qed
  moreover have "distinct (map site_id (plan_sites ?q))"
    using inv by (simp add: plan_inv_def sites distinct_map_filter)
  ultimately show ?thesis using inv by (simp add: plan_inv_def sites)
qed

subsection \<open>Reading the table\<close>

definition set_elems :: "nft_table \<Rightarrow> string \<Rightarrow> string list" where
  "set_elems t nm = (case find (\<lambda>x. nft_name x = nm) (nft_sets t) of
     Some x \<Rightarrow> nft_elems x | None \<Rightarrow> [])"

definition in_elems :: "addr \<Rightarrow> string list \<Rightarrow> bool" where
  "in_elems x ns \<longleftrightarrow> list_ex (in_cidr x) ns"

definition nft_rule_hits :: "nft_table \<Rightarrow> nft_rule \<Rightarrow> addr \<times> addr \<Rightarrow> bool" where
  "nft_rule_hits t r pk \<longleftrightarrow> in_elems (fst pk) (set_elems t (nft_saddr r)) \<and> in_elems (snd pk) (set_elems t (nft_daddr r))"

text \<open>Every rule of the chain drops, the policy accepts.\<close>

definition table_drops :: "nft_table \<Rightarrow> addr \<times> addr \<Rightarrow> bool" where
  "table_drops t pk \<longleftrightarrow> first_match (nft_rule_hits t) (\<lambda>r. True) (nft_rules t) pk = Some True"

definition pair_separates :: "plan \<Rightarrow> addr \<times> addr \<Rightarrow> string \<times> string \<Rightarrow> bool" where
  "pair_separates p pk pr \<longleftrightarrow>
     (let A = nets_set (site_nets (plan_site p (fst pr))); B = nets_set (site_nets (plan_site p (snd pr)))
      in fst pk \<in> A \<and> snd pk \<in> B \<or> fst pk \<in> B \<and> snd pk \<in> A)"

definition separated :: "plan \<Rightarrow> addr \<times> addr \<Rightarrow> bool" where
  "separated p pk \<longleftrightarrow> (\<exists>pr \<in> set (plan_pairs p). pair_separates p pk pr)"

lemma in_elems_nets: "list_all site_entry_ok ns \<Longrightarrow> in_elems x ns \<longleftrightarrow> x \<in> nets_set ns"
proof -
  assume ok: "list_all site_entry_ok ns"
  have "in_cidr x n \<longleftrightarrow> x \<in> the (cidr_set n)" if n: "n \<in> set ns" for n
  proof -
    have "cidr_set n \<noteq> None" using ok n by (simp add: list_all_iff site_entry_set)
    then show ?thesis by (auto simp: in_cidr_iff)
  qed
  then show ?thesis by (simp add: in_elems_def nets_set_def list_ex_iff)
qed

lemma plan_site_in:
  assumes "plan_inv sha links p" "pr \<in> set (plan_pairs p)" "i \<in> {fst pr, snd pr}"
  shows "plan_site p i \<in> set (plan_sites p)" "site_id (plan_site p i) = i" "site_nets (plan_site p i) \<noteq> []"
    "good_site sha links (plan_site p i)"
proof -
  obtain s where s: "site_of (plan_sites p) i = Some s" "site_nets s \<noteq> []"
    using assms unfolding plan_inv_def enforced_pair_def by blast
  then have "plan_site p i = s" by (simp add: plan_site_def)
  with s site_of_Some [OF s(1)] assms(1) show "plan_site p i \<in> set (plan_sites p)" "site_id (plan_site p i) = i"
    "site_nets (plan_site p i) \<noteq> []" "good_site sha links (plan_site p i)"
    by (auto simp: plan_inv_def)
qed

lemma good_site_nets: "good_site sha links s \<Longrightarrow> list_all site_entry_ok (site_nets s)"
  unfolding good_site_def mk_site_def using siteNetworks_ok by (metis site.select_convs(4))

lemma good_site_set: "good_site sha links s \<Longrightarrow> site_set s = siteSetName sha (site_id s)"
  unfolding good_site_def mk_site_def by (metis site.select_convs(3))

lemma buildSiteTable_Some:
  "\<exists>t. buildSiteTable sha pairs links = Some t"
proof -
  have "list_all (\<lambda>s. list_all is_canonical (site_nets s)) (sort_key site_set (plan_sites (planSiteIsolation sha pairs links)))"
    using planSiteIsolation_inv [of sha links pairs] good_site_nets
    by (auto simp: list_all_iff plan_inv_def site_entry_ok_def)
  then show ?thesis by (simp add: buildSiteTable_def Let_def)
qed

definition set_names_distinct :: "(string \<Rightarrow> string) \<Rightarrow> plan \<Rightarrow> bool" where
  "set_names_distinct sha p \<longleftrightarrow> inj_on (siteSetName sha) (site_id ` set (plan_sites p))"

lemma set_elems_site:
  assumes t: "buildSiteTable sha pairs links = Some t"
    and p: "p = planSiteIsolation sha pairs links" and "set_names_distinct sha p" and s: "s \<in> set (plan_sites p)"
  shows "set_elems t (site_set s) = site_nets s"
proof -
  let ?f = "\<lambda>s. \<lparr>nft_name = site_set s, nft_comment = sanitizeCommentText (site_name s) SITE_NAME_MAX,
                 nft_elems = site_nets s\<rparr>"
  have inv: "plan_inv sha links p" unfolding p by (rule planSiteIsolation_inv)
  have sets: "nft_sets t = map ?f (sort_key site_set (plan_sites p))"
    using t unfolding p by (auto simp: buildSiteTable_def Let_def split: if_split_asm)
  have inj: "s' = s" if "s' \<in> set (plan_sites p)" "site_set s' = site_set s" for s'
  proof -
    have "site_id s' = site_id s"
      using that s inv assms(3) good_site_set unfolding plan_inv_def set_names_distinct_def inj_on_def by (metis imageI)
    with that s inv show ?thesis unfolding plan_inv_def by (metis distinct_map inj_onD)
  qed
  have "find (\<lambda>x. nft_name x = site_set s) (map ?f ss) = Some (?f s)"
    if "s \<in> set ss" "set ss \<subseteq> set (plan_sites p)" for ss
    using that inj by (induction ss) auto
  from this [of "sort_key site_set (plan_sites p)"] s show ?thesis
    unfolding set_elems_def sets by simp
qed

lemma table_rules:
  assumes "buildSiteTable sha pairs links = Some t" "p = planSiteIsolation sha pairs links"
  shows "set (nft_rules t) = (\<Union>pr \<in> set (plan_pairs p). {pair_rule (plan_site p (fst pr)) (plan_site p (snd pr)),
     pair_rule (plan_site p (snd pr)) (plan_site p (fst pr))})"
proof -
  have "nft_rules t = concat (map (\<lambda>pr. [pair_rule (plan_site p (fst pr)) (plan_site p (snd pr)),
      pair_rule (plan_site p (snd pr)) (plan_site p (fst pr))]) (plan_pairs p))"
    using assms by (auto simp: buildSiteTable_def Let_def split: if_split_asm)
  then show ?thesis by simp
qed

lemma table_drops_iff:
  assumes t: "buildSiteTable sha pairs links = Some t" and p: "p = planSiteIsolation sha pairs links"
    and "set_names_distinct sha p"
  shows "table_drops t pk \<longleftrightarrow> separated p pk"
proof -
  have inv: "plan_inv sha links p" unfolding p by (rule planSiteIsolation_inv)
  have elems: "in_elems x (set_elems t (site_set (plan_site p i))) \<longleftrightarrow> x \<in> nets_set (site_nets (plan_site p i))"
    if "pr \<in> set (plan_pairs p)" "i \<in> {fst pr, snd pr}" for x pr i
    using plan_site_in [OF inv that] set_elems_site [OF t p assms(3)] good_site_nets in_elems_nets by metis
  have "table_drops t pk \<longleftrightarrow> (\<exists>r \<in> set (nft_rules t). nft_rule_hits t r pk)"
    unfolding table_drops_def by (subst first_match_same [where v = True]) auto
  also have "\<dots> \<longleftrightarrow> (\<exists>pr \<in> set (plan_pairs p).
      nft_rule_hits t (pair_rule (plan_site p (fst pr)) (plan_site p (snd pr))) pk
      \<or> nft_rule_hits t (pair_rule (plan_site p (snd pr)) (plan_site p (fst pr))) pk)"
    unfolding table_rules [OF t p] by blast
  also have "\<dots> \<longleftrightarrow> separated p pk"
    unfolding separated_def pair_separates_def Let_def nft_rule_hits_def pair_rule_def
    by (rule bex_cong [OF refl]) (simp add: elems)
  finally show ?thesis .
qed

subsection \<open>The verdict and the table agree\<close>

lemma in_nets_subset: "in_nets ns c \<Longrightarrow> cidr_set c = Some C \<Longrightarrow> C \<subseteq> nets_set ns"
  unfolding in_nets_def list_ex_iff cidr.contains_iff nets_set_def by fastforce

lemma touches_iff:
  assumes "list_all site_entry_ok ns" "cidr_set c = Some C"
  shows "touches ns c \<longleftrightarrow> C \<inter> nets_set ns \<noteq> {}"
proof -
  have "cidrOverlaps n c \<longleftrightarrow> C \<inter> the (cidr_set n) \<noteq> {}" if n: "n \<in> set ns" for n
  proof -
    obtain A where "cidr_set n = Some A"
      using site_entry_set [of n] assms(1) n unfolding list_all_iff by blast
    then show ?thesis using assms(2) unfolding cidrOverlaps_def cidr.overlap_iff by auto
  qed
  then show ?thesis unfolding touches_def list_ex_iff nets_set_def by blast
qed

definition pair_touch :: "plan \<Rightarrow> string \<Rightarrow> string \<Rightarrow> string \<times> string \<Rightarrow> bool" where
  "pair_touch p s d pr \<longleftrightarrow>
     (let A = site_nets (plan_site p (fst pr)); B = site_nets (plan_site p (snd pr))
      in touches A s \<and> touches B d \<or> touches B s \<and> touches A d)"

definition pair_block :: "plan \<Rightarrow> string \<Rightarrow> string \<Rightarrow> string \<times> string \<Rightarrow> bool" where
  "pair_block p s d pr \<longleftrightarrow>
     (let A = site_nets (plan_site p (fst pr)); B = site_nets (plan_site p (snd pr))
      in in_nets A s \<and> in_nets B d \<or> in_nets B s \<and> in_nets A d)"

definition loop_result ::
  "plan \<Rightarrow> string \<Rightarrow> string \<Rightarrow> (string \<times> string) list \<Rightarrow> pair_ref option \<Rightarrow> isolation_verdict \<Rightarrow> bool" where
  "loop_result p s d prs partial v \<longleftrightarrow> (case v of
     NotBlocked \<Rightarrow> partial = None \<and> (\<forall>pr \<in> set prs. \<not> pair_touch p s d pr)
   | Blocked r \<Rightarrow> ref_pair r \<in> set prs \<and> pair_block p s d (ref_pair r)
   | Partial r \<Rightarrow> partial = Some r \<or> ref_pair r \<in> set prs \<and> pair_touch p s d (ref_pair r))"

lemma loop_result_step:
  assumes "loop_result p s d prs q v"
    and "pair_touch p s d pr \<or> q = partial" "q = None \<longrightarrow> partial = None \<and> \<not> pair_touch p s d pr"
    and "q = partial \<or> (\<exists>dir. q = Some (verdict_ref p pr dir))"
  shows "loop_result p s d (pr # prs) partial v"
  using assms by (cases v) (auto simp: loop_result_def verdict_ref_def)

lemma verdict_loop_cases: "loop_result p s d prs partial (verdict_loop p s d prs partial)"
proof (induction prs arbitrary: partial)
  case (Cons pr prs)
  let ?A = "site_nets (plan_site p (fst pr))" and ?B = "site_nets (plan_site p (snd pr))"
  let ?q = "if partial = None \<and> touches ?A s \<and> touches ?B d then Some (verdict_ref p pr True) else partial"
  let ?r = "if ?q = None \<and> touches ?B s \<and> touches ?A d then Some (verdict_ref p pr False) else ?q"
  show ?case
  proof (cases "pair_block p s d pr")
    case True
    then have "\<exists>dir. verdict_loop p s d (pr # prs) partial = Blocked (verdict_ref p pr dir)"
      by (auto simp: pair_block_def Let_def)
    with True show ?thesis by (auto simp: loop_result_def verdict_ref_def)
  next
    case False
    then have "verdict_loop p s d (pr # prs) partial = verdict_loop p s d prs ?r"
      unfolding verdict_loop.simps pair_block_def Let_def by (simp only: de_Morgan_disj if_False simp_thms)
    moreover have "loop_result p s d (pr # prs) partial (verdict_loop p s d prs ?r)"
      by (rule loop_result_step [OF Cons.IH [of ?r]]) (auto simp: pair_touch_def Let_def)
    ultimately show ?thesis by simp
  qed
qed (simp add: loop_result_def split: option.split)

text \<open>C2: What the panel says about a flow is what the generated nft table does, provided the
  shortened set names of the enforced sites do not collide: "blocked" means the table drops
  every packet between the two ranges, "partial" that it drops some, and a negative answer that
  it drops none, in either direction of the pair.\<close>

theorem siteIsolationVerdict_correct:
  assumes "set_names_distinct sha (planSiteIsolation sha pairs links)"
    and "cidr_set src = Some S" "cidr_set dst = Some D"
    and "buildSiteTable sha pairs links = Some t"
  shows "case siteIsolationVerdict sha pairs links src dst of
      NotBlocked \<Rightarrow> \<forall>s \<in> S. \<forall>d \<in> D. \<not> table_drops t (s, d)
    | Blocked r \<Rightarrow> \<forall>s \<in> S. \<forall>d \<in> D. table_drops t (s, d)
    | Partial r \<Rightarrow> \<exists>s \<in> S. \<exists>d \<in> D. table_drops t (s, d)"
proof -
  let ?p = "planSiteIsolation sha pairs links"
  obtain s d where c: "canonicalCidr src = Some s" "canonicalCidr dst = Some d"
    using assms(2,3) cidr_set_None_iff by (metis option.distinct(1) option.exhaust_sel)
  then have sets: "cidr_set s = Some S" "cidr_set d = Some D"
    using assms(2,3) by (simp_all add: cidr_set_canonical)
  have inv: "plan_inv sha links ?p" by (rule planSiteIsolation_inv)
  have nets: "list_all site_entry_ok (site_nets (plan_site ?p i))"
    if "pr \<in> set (plan_pairs ?p)" "i \<in> {fst pr, snd pr}" for pr i
    using plan_site_in [OF inv that] good_site_nets by blast
  have block: "pair_separates ?p (x, y) pr" if "pair_block ?p s d pr" "x \<in> S" "y \<in> D" for pr x y
    using that in_nets_subset [OF _ sets(1)] in_nets_subset [OF _ sets(2)]
    unfolding pair_separates_def pair_block_def Let_def by auto
  have touch: "pair_touch ?p s d pr \<longleftrightarrow> (\<exists>x \<in> S. \<exists>y \<in> D. pair_separates ?p (x, y) pr)"
    if "pr \<in> set (plan_pairs ?p)" for pr
    using touches_iff [OF nets [OF that] sets(1)] touches_iff [OF nets [OF that] sets(2)]
    unfolding pair_touch_def pair_separates_def Let_def by auto
  have v: "siteIsolationVerdict sha pairs links src dst = verdict_loop ?p s d (plan_pairs ?p) None"
    using c by (simp add: siteIsolationVerdict_def Let_def)
  show ?thesis
    unfolding table_drops_iff [OF assms(4) refl assms(1)] v
    using verdict_loop_cases [of ?p s d "plan_pairs ?p" None] block touch
    unfolding loop_result_def separated_def
    by (cases "verdict_loop ?p s d (plan_pairs ?p) None") (simp_all, blast+)
qed

subsection \<open>A concrete hub\<close>

definition ex_links :: "wg_link list" where
  "ex_links = [\<lparr>link_id = ''wg0:A'', link_name = ''Berlin'', link_type = ''site-to-site'',
      importedNetworks = [''10.1.0.0/16''], tunnelAddresses = []\<rparr>,
    \<lparr>link_id = ''wg0:B'', link_name = ''Hamburg'', link_type = ''site-to-site'',
      importedNetworks = [''10.2.0.0/16''], tunnelAddresses = []\<rparr>]"

definition ex_pairs :: "(string \<times> string) list" where
  "ex_pairs = [(''wg0:A'', ''wg0:B'')]"

definition ex_plan :: plan where
  "ex_plan = \<lparr>plan_sites = [\<lparr>site_id = ''wg0:A'', site_name = ''Berlin'', site_set = ''site_wg0:A'', site_nets = [''10.1.0.0/16'']\<rparr>,
      \<lparr>site_id = ''wg0:B'', site_name = ''Hamburg'', site_set = ''site_wg0:B'', site_nets = [''10.2.0.0/16'']\<rparr>],
     plan_pairs = ex_pairs, plan_warnings = []\<rparr>"

lemma ex_plan: "planSiteIsolation id ex_pairs ex_links = ex_plan"
  by code_simp

lemma ex_ranges:
  "canonicalCidr ''10.2.7.0/24'' = Some ''10.2.7.0/24''" "canonicalCidr ''10.1.5.0/24'' = Some ''10.1.5.0/24''"
  by code_simp+

theorem siteIsolationVerdict_correct_witness:
  "\<exists>t. buildSiteTable id ex_pairs ex_links = Some t
     \<and> (\<forall>s \<in> the (cidr_set ''10.2.7.0/24''). \<forall>d \<in> the (cidr_set ''10.1.5.0/24''). table_drops t (s, d))"
proof -
  obtain t where t: "buildSiteTable id ex_pairs ex_links = Some t" using buildSiteTable_Some by blast
  have d: "set_names_distinct id (planSiteIsolation id ex_pairs ex_links)"
    unfolding set_names_distinct_def ex_plan by (simp add: siteSetName_def ex_plan_def)
  obtain S D where SD: "cidr_set ''10.2.7.0/24'' = Some S" "cidr_set ''10.1.5.0/24'' = Some D"
    using ex_ranges cidr_set_None_iff by (metis option.distinct(1) option.exhaust_sel)
  have "case verdict_loop ex_plan ''10.2.7.0/24'' ''10.1.5.0/24'' ex_pairs None of Blocked r \<Rightarrow> True | _ \<Rightarrow> False"
    by code_simp
  then have "case siteIsolationVerdict id ex_pairs ex_links ''10.2.7.0/24'' ''10.1.5.0/24'' of Blocked r \<Rightarrow> True | _ \<Rightarrow> False"
    unfolding siteIsolationVerdict_def ex_ranges ex_plan by (simp add: ex_plan_def)
  then obtain r where r: "siteIsolationVerdict id ex_pairs ex_links ''10.2.7.0/24'' ''10.1.5.0/24'' = Blocked r"
    by (auto split: isolation_verdict.split_asm)
  from siteIsolationVerdict_correct [OF d SD t] t SD show ?thesis
    unfolding r by auto
qed

subsection \<open>The pair list\<close>

definition pair_ok :: "wg_link list \<Rightarrow> string \<times> string \<Rightarrow> bool" where
  "pair_ok links pr \<longleftrightarrow> fst pr < snd pr \<and> (\<forall>i \<in> {fst pr, snd pr}. is_link_id i
     \<and> (\<exists>l. link_by_id links i = Some l \<and> isSiteLink l))"

lemma check_pair_field_Inr:
  "check_pair_field links i f v = Inr u \<longleftrightarrow> is_link_id v \<and> (\<exists>l. link_by_id links v = Some l \<and> isSiteLink l)"
  by (auto simp: check_pair_field_def split: option.split)

lemma check_pair_ok:
  assumes "check_pair links ip seen = Inr out" "list_all (pair_ok links) seen" "distinct seen"
  shows "list_all (pair_ok links) out \<and> distinct out \<and> length out \<le> Suc (length seen)"
proof -
  obtain a b where ab: "a \<noteq> b" "out = push_new (normalizePair a b) seen"
    "\<forall>v \<in> {a, b}. is_link_id v \<and> (\<exists>l. link_by_id links v = Some l \<and> isSiteLink l)"
    using assms(1) by (auto simp: check_pair_def Let_def bind_res_iff check_pair_field_Inr split: if_split_asm)
  then have "pair_ok links (normalizePair a b)" by (auto simp: pair_ok_def normalizePair_def)
  with assms(2,3) show ?thesis by (auto simp: ab(2) list_all_iff distinct_push_new push_new_def)
qed

lemma check_pairs_ok:
  assumes "fold_res (check_pair links) xs seen = Inr out" "list_all (pair_ok links) seen" "distinct seen"
  shows "list_all (pair_ok links) out \<and> distinct out \<and> length out \<le> length xs + length seen"
  using assms
proof (induction xs arbitrary: seen)
  case (Cons x xs)
  then obtain s1 where "check_pair links x seen = Inr s1" "fold_res (check_pair links) xs s1 = Inr out"
    by (auto simp: bind_res_iff)
  from Cons.IH [OF this(2)] check_pair_ok [OF this(1) Cons.prems(2,3)] show ?case by auto
qed simp

text \<open>A pair list the panel accepts is sorted, free of duplicates and of reversed
  duplicates, has at most 200 entries, never pairs a site with itself and names only existing
  links of a site type.\<close>

theorem sanitizePairs_correct:
  assumes "sanitizePairs input links = Inr ps"
  shows "sorted ps \<and> distinct ps \<and> length ps \<le> MAX_PAIRS \<and> list_all (pair_ok links) ps
    \<and> (\<forall>(a, b) \<in> set ps. (b, a) \<notin> set ps)"
proof -
  obtain vs where vs: "length vs \<le> MAX_PAIRS" and r: "bind_res (fold_res (check_pair links) (enumerate 0 vs) [])
      (\<lambda>seen. Inr (sort seen)) = Inr ps"
    using assms by (cases input) (auto simp: sanitizePairs_def not_less intro: that split: if_split_asm)
  then obtain seen where s: "fold_res (check_pair links) (enumerate 0 vs) [] = Inr seen" "ps = sort seen"
    by (auto simp: bind_res_iff)
  from check_pairs_ok [OF s(1)] s(2) vs
  have "distinct ps" "length ps \<le> MAX_PAIRS" and ok: "list_all (pair_ok links) ps" "sorted ps"
    by (auto simp: list_all_iff)
  moreover have "(b, a) \<notin> set ps" if "(a, b) \<in> set ps" for a b
  proof
    assume "(b, a) \<in> set ps"
    with that ok(1) have "a < b" "b < a" by (auto simp: list_all_iff pair_ok_def)
    then show False by (rule less_asym)
  qed
  ultimately show ?thesis by blast
qed

theorem sanitizePairs_correct_witness:
  "\<exists>ps. sanitizePairs (JArr [JObj [(''link_a'', JStr ''wg0:B''), (''link_b'', JStr '' wg0:A'')],
      JObj [(''link_a'', JStr ''wg0:A''), (''link_b'', JStr ''wg0:B'')]]) ex_links = Inr ps \<and> ps = ex_pairs
    \<and> list_all (pair_ok ex_links) ps"
proof -
  have s: "sanitizePairs (JArr [JObj [(''link_a'', JStr ''wg0:B''), (''link_b'', JStr '' wg0:A'')],
      JObj [(''link_a'', JStr ''wg0:A''), (''link_b'', JStr ''wg0:B'')]]) ex_links = Inr ex_pairs"
    by code_simp
  from sanitizePairs_correct [OF s] s show ?thesis by blast
qed

subsection \<open>The text of the script\<close>

lemma set_collapse: "set (collapse_blanks s) \<subseteq> set s"
  by (induction s rule: collapse_blanks.induct) auto

lemma length_trim: "length (trim s) \<le> length s"
  using length_dropWhile_le [of js_ws s] length_dropWhile_le [of js_ws "rev (dropWhile js_ws s)"]
  by (simp add: trim_def)

lemma comment_text_ok:
  assumes "4 \<le> m"
  shows "list_all comment_char (sanitizeCommentText v m) \<and> sanitizeCommentText v m \<noteq> []
    \<and> length (sanitizeCommentText v m) \<le> m"
proof -
  let ?s = "map (\<lambda>c. if comment_char c then c else CHR '' '') (concat (map nfkd_char (concat (map translit_char v))))"
  let ?t = "trim (take m (trim (collapse_blanks ?s)))"
  have "comment_char CHR '' ''" by (simp add: comment_char_def)
  then have "\<forall>c \<in> set ?s. comment_char c" by auto
  moreover have "set ?t \<subseteq> set ?s"
    using set_trim [of "take m (trim (collapse_blanks ?s))"] set_take_subset [of m "trim (collapse_blanks ?s)"]
      set_trim [of "collapse_blanks ?s"] set_collapse [of ?s] by blast
  moreover have "length ?t \<le> m"
    using length_trim [of "take m (trim (collapse_blanks ?s))"] by simp
  moreover have "list_all comment_char ''site''" by code_simp
  ultimately have ok: "list_all comment_char ?t" "length ?t \<le> m" "list_all comment_char ''site''"
    unfolding list_all_iff by blast+
  have eq: "sanitizeCommentText v m = (if ?t = [] then ''site'' else ?t)"
    by (simp only: sanitizeCommentText_def Let_def)
  show ?thesis
  proof (cases "?t = []")
    case True
    with ok(3) assms show ?thesis unfolding eq by simp
  next
    case False
    with ok(1,2) show ?thesis unfolding eq if_not_P [OF False] by blast
  qed
qed

definition no_break :: "string \<Rightarrow> bool" where
  "no_break s \<longleftrightarrow> NL \<notin> set s \<and> QUOTE \<notin> set s"

lemma comment_no_break: "list_all comment_char s \<Longrightarrow> no_break s"
  by (auto simp: no_break_def NL_def QUOTE_def list_all_iff comment_char_def is_alnum_def is_digit_def
      is_lower_az_def is_upper_az_def)

lemma hex_no_break: "list_all is_hex s \<Longrightarrow> no_break s"
  by (auto simp: no_break_def NL_def QUOTE_def list_all_iff is_hex_def is_digit_def)

lemma canonical_no_break: "is_canonical s \<Longrightarrow> no_break s"
proof -
  assume "is_canonical s"
  then obtain n p where s: "s = cidr_text n p" unfolding is_canonical_def by (rule canonicalCidr_cases)
  have "is_digit c \<or> c = CHR ''.'' \<or> c = CHR ''/''" if "c \<in> set s" for c
    using that set_intToIp [of c n] str_of_nat_digits [of p] unfolding s cidr_text_def list_all_iff
    by (auto simp del: str_of_nat_digits)
  from this [of NL] this [of QUOTE] show ?thesis by (auto simp: no_break_def NL_def QUOTE_def is_digit_def)
qed

lemma no_break_join: "no_break sep \<Longrightarrow> \<forall>x \<in> set xs. no_break x \<Longrightarrow> no_break (join sep xs)"
  by (induction sep xs rule: join.induct) (auto simp: no_break_def)

definition nft_text_ok :: "nft_table \<Rightarrow> bool" where
  "nft_text_ok t \<longleftrightarrow> (\<forall>s \<in> set (nft_sets t). no_break (nft_name s) \<and> no_break (nft_comment s)
       \<and> (\<forall>e \<in> set (nft_elems s). no_break e))
     \<and> (\<forall>r \<in> set (nft_rules t). no_break (nft_saddr r) \<and> no_break (nft_daddr r) \<and> no_break (nft_rule_comment r))"

lemma set_name_no_break: "(\<And>s. list_all is_hex (sha s)) \<Longrightarrow> no_break (siteSetName sha i)"
proof -
  assume "\<And>s. list_all is_hex (sha s)"
  then have "list_all is_hex (take 10 (sha i))" by (metis append_take_drop_id list_all_append)
  then have "no_break (take 10 (sha i))" by (rule hex_no_break)
  moreover have "no_break ''site_''" by (simp add: no_break_def NL_def QUOTE_def)
  ultimately show ?thesis by (simp add: siteSetName_def no_break_def)
qed

lemma buildSiteTable_text_ok:
  assumes t: "buildSiteTable sha pairs links = Some t" and sha: "\<And>s. list_all is_hex (sha s)"
  shows "nft_text_ok t"
proof -
  let ?p = "planSiteIsolation sha pairs links"
  have inv: "plan_inv sha links ?p" by (rule planSiteIsolation_inv)
  have site: "no_break (site_set s) \<and> (\<forall>e \<in> set (site_nets s). no_break e)" if "s \<in> set (plan_sites ?p)" for s
  proof -
    have g: "good_site sha links s" using inv that by (simp add: plan_inv_def)
    have "no_break e" if "e \<in> set (site_nets s)" for e
      using good_site_nets [OF g] that by (simp add: list_all_iff site_entry_ok_def canonical_no_break)
    then show ?thesis using good_site_set [OF g] set_name_no_break [of sha, OF sha] by simp
  qed
  have com: "no_break (sanitizeCommentText v m)" if "4 \<le> m" for v m
    using comment_text_ok [OF that] comment_no_break by blast
  have "no_break (nft_name x) \<and> no_break (nft_comment x) \<and> (\<forall>e \<in> set (nft_elems x). no_break e)"
    if "x \<in> set (nft_sets t)" for x
    using that t site com [of SITE_NAME_MAX]
    by (auto simp: buildSiteTable_def Let_def SITE_NAME_MAX_def split: if_split_asm)
  moreover have "no_break (nft_saddr r) \<and> no_break (nft_daddr r) \<and> no_break (nft_rule_comment r)"
    if "r \<in> set (nft_rules t)" for r
  proof -
    from that obtain pr i j where pr: "pr \<in> set (plan_pairs ?p)" "i \<in> {fst pr, snd pr}" "j \<in> {fst pr, snd pr}"
      and r: "r = pair_rule (plan_site ?p i) (plan_site ?p j)" unfolding table_rules [OF t refl] by blast
    show ?thesis
      using site [OF plan_site_in(1) [OF inv pr(1,2)]] site [OF plan_site_in(1) [OF inv pr(1,3)]] com [of 100]
      by (simp add: r pair_rule_def)
  qed
  ultimately show ?thesis unfolding nft_text_ok_def by blast
qed

lemma no_break_lits:
  "no_break SITE_TABLE" "no_break SITE_CHAIN" "no_break '', ''"
  by (simp_all add: no_break_def NL_def QUOTE_def SITE_TABLE_def SITE_CHAIN_def)

lemma render_table_lines:
  assumes "nft_text_ok t"
  shows "\<forall>l \<in> set (render_table t). NL \<notin> set l"
proof -
  have "NL \<notin> set l" if "s \<in> set (nft_sets t)" "l \<in> set (render_set s)" for s l
    using that assms no_break_join [OF no_break_lits(3), of "nft_elems s"]
    by (auto simp: nft_text_ok_def render_set_def no_break_def NL_def QUOTE_def TAB_def quoted_def)
  moreover have "NL \<notin> set (render_rule r)" if "r \<in> set (nft_rules t)" for r
    using that assms
    by (auto simp: nft_text_ok_def render_rule_def no_break_def NL_def QUOTE_def TAB_def quoted_def)
  ultimately show ?thesis
    unfolding render_table_def by (auto simp: NL_def TAB_def SITE_TABLE_def SITE_CHAIN_def)
qed

text \<open>C22: The generator always yields a script (the non-canonical check never refuses), and the
  script splits at its line ends into exactly the rendered lines: no site name can break out of
  its quoted comment or add a line. Every comment is non-empty and consists of the allowed
  characters; those of the sets are clipped to 48 and those of the rules to 100 characters.
  The hash that names the sets is assumed to be hexadecimal.\<close>

theorem site_script_correct:
  assumes "\<And>s. list_all is_hex (sha s)"
  shows "\<exists>t script. buildSiteTable sha pairs links = Some t \<and> buildSiteIsolationNft sha pairs links = Some script
    \<and> split_on NL script = render_table t
    \<and> (\<forall>s \<in> set (nft_sets t). list_all comment_char (nft_comment s) \<and> nft_comment s \<noteq> [] \<and> length (nft_comment s) \<le> 48)
    \<and> (\<forall>r \<in> set (nft_rules t). list_all comment_char (nft_rule_comment r) \<and> nft_rule_comment r \<noteq> []
          \<and> length (nft_rule_comment r) \<le> 100)"
proof -
  obtain t where t: "buildSiteTable sha pairs links = Some t" using buildSiteTable_Some by blast
  have "split_on NL (join [NL] (render_table t)) = render_table t"
    using render_table_lines [OF buildSiteTable_text_ok [OF t assms]]
    by (intro split_on_join) (simp_all add: render_table_def)
  moreover have "\<forall>s \<in> set (nft_sets t). list_all comment_char (nft_comment s) \<and> nft_comment s \<noteq> [] \<and> length (nft_comment s) \<le> 48"
    using t comment_text_ok [of SITE_NAME_MAX]
    by (auto simp: buildSiteTable_def Let_def SITE_NAME_MAX_def split: if_split_asm)
  moreover have "list_all comment_char (nft_rule_comment (pair_rule x y)) \<and> nft_rule_comment (pair_rule x y) \<noteq> []
      \<and> length (nft_rule_comment (pair_rule x y)) \<le> 100" for x y
    using comment_text_ok [of 100] by (simp add: pair_rule_def)
  then have "\<forall>r \<in> set (nft_rules t). list_all comment_char (nft_rule_comment r) \<and> nft_rule_comment r \<noteq> []
      \<and> length (nft_rule_comment r) \<le> 100"
    unfolding table_rules [OF t refl] by blast
  ultimately show ?thesis using t by (auto simp: buildSiteIsolationNft_def)
qed

theorem site_script_correct_witness:
  "\<exists>t script. buildSiteIsolationNft (\<lambda>s. ''0123456789abcdef'') ex_pairs ex_links = Some script
     \<and> split_on NL script = render_table t \<and> (\<forall>r \<in> set (nft_rules t). length (nft_rule_comment r) \<le> 100)"
proof -
  have "list_all is_hex ''0123456789abcdef''" by code_simp
  then show ?thesis using site_script_correct [of "\<lambda>s. ''0123456789abcdef''" ex_pairs ex_links] by blast
qed

end
