(* ===== verification/Foreign_Drops.thy ===== *)
theory Foreign_Drops
  imports Site_Isolation "HOL-Library.AList"
begin

text \<open>
  The second half of backend/internal/site-isolation-rules.js: the counters of the own nft chain,
  the drop rules somebody added by hand to other forward chains, the verdict they give for a
  flow and the test whether the boot configuration loads the persisted table. JSON.parse is a
  parameter (its result or nothing, where it throws); a property access of the code that would
  raise a TypeError is the error \<open>TypeErr\<close>. A JavaScript Map that is only read by key is an
  association list updated with \<open>AList.update\<close>, which like \<open>Map.set\<close> keeps the position
  of an existing key.
\<close>

subsection \<open>Counters of the own chain\<close>

datatype js_exn = TypeErr

text \<open>\<open>for (const x of v || [])\<close>: arrays and strings iterate, other truthy values throw.\<close>

fun iter_items :: "jsval \<Rightarrow> js_exn + jsval list" where
  "iter_items (JArr vs) = Inr vs"
| "iter_items (JStr s) = Inr (map (\<lambda>c. JStr [c]) s)"
| "iter_items v = (if js_truthy v then Inl TypeErr else Inr [])"

definition set_ref :: "jsval \<Rightarrow> string option" where
  "set_ref v = (case v of JStr (c # s) \<Rightarrow> if c = CHR ''@'' then Some s else None | _ \<Rightarrow> None)"

definition match_field :: "jsval \<Rightarrow> jsval" where
  "match_field m = getp (getp (getp m ''left'') ''payload'') ''field''"

record counter_scan =
  cs_saddr :: "string option"
  cs_daddr :: "string option"
  cs_counter :: "jsval option"

definition scan_expr :: "jsval \<Rightarrow> counter_scan \<Rightarrow> counter_scan" where
  "scan_expr e sc =
     (let m = getp e ''match''; field = match_field m;
          sc = (case set_ref (getp m ''right'') of
                  None \<Rightarrow> sc
                | Some nm \<Rightarrow> sc\<lparr>cs_saddr := (if field = JStr ''saddr'' then Some nm else cs_saddr sc),
                                cs_daddr := (if field = JStr ''daddr'' then Some nm else cs_daddr sc)\<rparr>)
      in if js_truthy (getp e ''counter'') then sc\<lparr>cs_counter := Some (getp e ''counter'')\<rparr> else sc)"

definition num_or_0 :: "jsnum \<Rightarrow> jsnum" where
  "num_or_0 n = (case n of NaN \<Rightarrow> Fin 0 | _ \<Rightarrow> n)"

type_synonym pair_counter = "jsnum \<times> jsnum"

definition counter_item ::
  "jsval \<Rightarrow> (string \<times> pair_counter) list \<Rightarrow> (string \<times> pair_counter) list" where
  "counter_item item out =
     (case getp (getp item ''rule'') ''expr'' of
        JArr es \<Rightarrow>
          (let sc = fold scan_expr es \<lparr>cs_saddr = None, cs_daddr = None, cs_counter = None\<rparr>
           in (case (truthy_str (cs_saddr sc), truthy_str (cs_daddr sc), cs_counter sc) of
                 (Some s, Some d, Some c) \<Rightarrow>
                   AList.update (s @ ''>'' @ d)
                     (num_or_0 (js_number (getp c ''packets'')), num_or_0 (js_number (getp c ''bytes''))) out
               | _ \<Rightarrow> out))
      | _ \<Rightarrow> out)"

definition parseChainCounters ::
  "(string \<Rightarrow> jsval option) \<Rightarrow> string \<Rightarrow> js_exn + (string \<times> pair_counter) list" where
  "parseChainCounters json jsonText =
     (case json jsonText of
        None \<Rightarrow> Inr []
      | Some doc \<Rightarrow> bind_res (iter_items (getp doc ''nftables'')) (\<lambda>items. Inr (fold counter_item items [])))"

subsection \<open>Addresses of a foreign rule\<close>

lemma getp_smaller: "getp v k \<noteq> JUndef \<Longrightarrow> size (getp v k) < size v"
proof (cases v)
  case (JObj ps)
  assume "getp v k \<noteq> JUndef"
  with JObj obtain w where w: "map_of ps k = Some w" "getp v k = w" by (auto split: option.split_asm)
  then have "(k, w) \<in> set ps" by (auto dest: map_of_SomeD)
  then have "size w < Suc (size_list (size_prod (\<lambda>_. 0) size) ps)"
    by (induction ps) auto
  with w JObj show ?thesis by (simp add: size_list_conv_sum_list)
qed simp_all

definition as_arr :: "jsval \<Rightarrow> jsval list option" where
  "as_arr v = (case v of JArr es \<Rightarrow> Some es | _ \<Rightarrow> None)"

definition as_str :: "jsval \<Rightarrow> string option" where
  "as_str v = (case v of JStr s \<Rightarrow> Some s | _ \<Rightarrow> None)"

text \<open>\<open>value.elem.val ?? value.elem\<close>.\<close>

definition elem_val :: "jsval \<Rightarrow> jsval" where
  "elem_val v = (let e = getp v ''elem'' in if is_nullish (getp e ''val'') then e else getp e ''val'')"

lemma not_nullish: "\<not> is_nullish v \<Longrightarrow> v \<noteq> JUndef"
  by auto

lemma elem_val_smaller:
  assumes "getp v ''elem'' \<noteq> JUndef"
  shows "size (elem_val v) < size v"
proof (cases "is_nullish (getp (getp v ''elem'') ''val'')")
  case True
  with getp_smaller [OF assms] show ?thesis by (simp add: elem_val_def Let_def del: getp.simps)
next
  case False
  from getp_smaller [OF assms] getp_smaller [OF not_nullish [OF False]] False
  show ?thesis by (simp add: elem_val_def Let_def del: getp.simps)
qed

lemma as_arr_smaller: "as_arr (getp v k) = Some es \<Longrightarrow> size_list size es < size v"
  using getp_smaller [of v k] by (cases "getp v k") (auto simp: as_arr_def simp del: getp.simps)

definition prefix_text :: "jsval \<Rightarrow> string" where
  "prefix_text p = js_string (getp p ''addr'') @ ''/'' @ js_string (getp p ''len'')"

text \<open>\<open>null\<close> is \<open>Inr None\<close>: the expression is not understood.\<close>

function nft_addr :: "(string \<Rightarrow> string list option) \<Rightarrow> jsval \<Rightarrow> js_exn + string list option"
  and nft_addrs :: "(string \<Rightarrow> string list option) \<Rightarrow> jsval list \<Rightarrow> string list \<Rightarrow> js_exn + string list option" where
  "nft_addr sets v =
     (case as_str v of
        Some s \<Rightarrow>
          Inr (case set_ref v of
                 Some nm \<Rightarrow> sets nm
               | None \<Rightarrow> map_option (\<lambda>c. [c]) (tunnel_canonical s))
      | None \<Rightarrow>
         if js_truthy (getp v ''prefix'') then
           Inr (map_option (\<lambda>c. [c]) (canonicalCidr (prefix_text (getp v ''prefix''))))
         else (case as_arr (getp v ''set'') of
             Some es \<Rightarrow> nft_addrs sets es []
           | None \<Rightarrow>
              if getp v ''elem'' = JUndef then Inr None
              else if getp v ''elem'' = JNull then Inl TypeErr
              else nft_addr sets (elem_val v)))"
| "nft_addrs sets [] out = Inr (Some out)"
| "nft_addrs sets (e # es) out =
     bind_res (nft_addr sets e) (\<lambda>r. case r of None \<Rightarrow> Inr None | Some cs \<Rightarrow> nft_addrs sets es (out @ cs))"
  by pat_completeness auto
termination
  by (relation "measure (case_sum (\<lambda>(s, v). size v) (\<lambda>(s, es, out). size_list size es))")
    (auto simp: elem_val_smaller as_arr_smaller simp del: getp.simps)

declare nft_addr.simps [simp del]

subsection \<open>Foreign drop rules\<close>

text \<open>A reported rule: names are kept as the JSON values they are.\<close>

record foreign_drop =
  fd_family :: jsval
  fd_table :: jsval
  fd_chain :: jsval
  fd_handle :: jsval
  fd_comment :: "string option"
  fd_src_set :: "string option"
  fd_dst_set :: "string option"
  fd_src :: "string list option"
  fd_dst :: "string list option"
  fd_extra :: bool

definition chain_key :: "jsval \<Rightarrow> jsval \<Rightarrow> string" where
  "chain_key o' name =
     js_string (getp o' ''family'') @ ''|'' @ js_string (getp o' ''table'') @ ''|'' @ js_string name"

definition is_own_table :: "jsval \<Rightarrow> bool" where
  "is_own_table c \<longleftrightarrow> getp c ''family'' = JStr ''inet'' \<and> getp c ''table'' = JStr SITE_TABLE"

definition forward_chains :: "jsval list \<Rightarrow> string list" where
  "forward_chains items =
     map (\<lambda>it. chain_key (getp it ''chain'') (getp (getp it ''chain'') ''name''))
       (filter (\<lambda>it. getp (getp it ''chain'') ''hook'' = JStr ''forward''
                  \<and> \<not> is_own_table (getp it ''chain'')) items)"

type_synonym nft_sets_map = "(string \<times> string list option) list"

definition set_elem :: "jsval \<Rightarrow> bool \<times> string list \<Rightarrow> js_exn + bool \<times> string list" where
  "set_elem e acc = bind_res (nft_addr (\<lambda>_. None) e) (\<lambda>r.
     case r of None \<Rightarrow> Inr (False, snd acc) | Some cs \<Rightarrow> Inr (fst acc, snd acc @ cs))"

definition set_item :: "jsval \<Rightarrow> nft_sets_map \<Rightarrow> js_exn + nft_sets_map" where
  "set_item it sets =
     (let s = getp it ''set''
      in if js_truthy (getp s ''name'') \<and> getp s ''type'' = JStr ''ipv4_addr'' then
           bind_res (fold_res set_elem (case as_arr (getp s ''elem'') of Some es \<Rightarrow> es | None \<Rightarrow> []) (True, []))
             (\<lambda>(ok, cidrs). Inr (AList.update (chain_key s (getp s ''name'')) (if ok then Some cidrs else None) sets))
         else Inr sets)"

text \<open>\<open>k in e\<close>: a TypeError on a primitive value.\<close>

fun js_in :: "string \<Rightarrow> jsval \<Rightarrow> js_exn + bool" where
  "js_in k (JObj ps) = Inr (has_own (JObj ps) k)"
| "js_in k (JArr vs) = Inr False"
| "js_in k _ = Inl TypeErr"

fun js_in_any :: "string list \<Rightarrow> jsval \<Rightarrow> js_exn + bool" where
  "js_in_any [] e = Inr False"
| "js_in_any (k # ks) e = bind_res (js_in k e) (\<lambda>b. if b then Inr True else js_in_any ks e)"

fun any_drop :: "jsval list \<Rightarrow> js_exn + bool" where
  "any_drop [] = Inr False"
| "any_drop (e # es) =
     (if js_truthy e then
        bind_res (js_in_any [''drop'', ''reject''] e) (\<lambda>b. if b then Inr True else any_drop es)
      else any_drop es)"

text \<open>The sets of the rule's own table, read by name: the last matching entry wins.\<close>

definition table_set :: "nft_sets_map \<Rightarrow> jsval \<Rightarrow> string \<Rightarrow> string list option" where
  "table_set sets r nm =
     (let pre = js_string (getp r ''family'') @ ''|'' @ js_string (getp r ''table'') @ ''|''
      in (case find (\<lambda>kv. starts_with pre (fst kv) \<and> split_on CHR ''|'' (fst kv) ! 2 = nm) (rev sets) of
            Some (k, v) \<Rightarrow> v | None \<Rightarrow> None))"

text \<open>The scan of one rule; the outer option is \<open>undefined\<close> for addresses not seen.\<close>

record rule_scan =
  rs_src :: "string list option option"
  rs_dst :: "string list option option"
  rs_src_set :: "string option"
  rs_dst_set :: "string option"
  rs_extra :: bool

definition is_addr_match :: "jsval \<Rightarrow> bool" where
  "is_addr_match m \<longleftrightarrow> getp (getp (getp m ''left'') ''payload'') ''protocol'' = JStr ''ip''
     \<and> match_field m \<in> {JStr ''saddr'', JStr ''daddr''} \<and> getp m ''op'' \<in> {JStr ''=='', JStr ''in''}"

text \<open>\<open>typeof e === "object"\<close> of a value that is not null.\<close>

fun is_js_object :: "jsval \<Rightarrow> bool" where
  "is_js_object (JArr vs) = True"
| "is_js_object (JObj ps) = True"
| "is_js_object _ = False"

definition scan_rule_expr :: "(string \<Rightarrow> string list option) \<Rightarrow> jsval \<Rightarrow> rule_scan \<Rightarrow> js_exn + rule_scan" where
  "scan_rule_expr sets e sc =
     (if \<not> is_js_object e then Inr sc
      else if js_truthy (getp e ''match'') then
        (let m = getp e ''match''
         in if is_addr_match m then
              bind_res (nft_addr sets (getp m ''right'')) (\<lambda>cidrs.
                Inr (if match_field m = JStr ''saddr''
                     then sc\<lparr>rs_src := Some cidrs, rs_src_set := set_ref (getp m ''right'')\<rparr>
                     else sc\<lparr>rs_dst := Some cidrs, rs_dst_set := set_ref (getp m ''right'')\<rparr>))
            else Inr (sc\<lparr>rs_extra := True\<rparr>))
      else bind_res (js_in_any [''counter'', ''drop'', ''reject'', ''log'', ''limit''] e) (\<lambda>b.
        Inr (if b then sc else sc\<lparr>rs_extra := True\<rparr>)))"

definition or_null :: "jsval \<Rightarrow> jsval" where
  "or_null v = (if is_nullish v then JNull else v)"

definition rule_item :: "string list \<Rightarrow> nft_sets_map \<Rightarrow> jsval \<Rightarrow> foreign_drop list \<Rightarrow> js_exn + foreign_drop list" where
  "rule_item fwd sets it out =
     (let r = getp it ''rule''
      in (case (js_truthy r \<and> chain_key r (getp r ''chain'') \<in> set fwd, as_arr (getp r ''expr'')) of
            (True, Some es) \<Rightarrow>
              bind_res (any_drop es) (\<lambda>isDrop.
                if \<not> isDrop then Inr out
                else bind_res (fold_res (scan_rule_expr (table_set sets r)) es
                       \<lparr>rs_src = None, rs_dst = None, rs_src_set = None, rs_dst_set = None, rs_extra = False\<rparr>)
                  (\<lambda>sc. case (rs_src sc, rs_dst sc) of
                     (Some src, Some dst) \<Rightarrow>
                       Inr (out @ [\<lparr>fd_family = getp r ''family'', fd_table = getp r ''table'',
                          fd_chain = getp r ''chain'', fd_handle = or_null (getp r ''handle''),
                          fd_comment = map_option (take 120) (as_str (getp r ''comment'')),
                          fd_src_set = rs_src_set sc, fd_dst_set = rs_dst_set sc,
                          fd_src = src, fd_dst = dst, fd_extra = rs_extra sc\<rparr>])
                   | _ \<Rightarrow> Inr out))
          | _ \<Rightarrow> Inr out))"

definition parseForeignForwardDrops ::
  "(string \<Rightarrow> jsval option) \<Rightarrow> jsval \<Rightarrow> js_exn + foreign_drop list" where
  "parseForeignForwardDrops json input =
     (case (case as_str input of Some t \<Rightarrow> json t | None \<Rightarrow> Some input) of
        None \<Rightarrow> Inr []
      | Some doc \<Rightarrow>
          (let items = (case as_arr (getp doc ''nftables'') of Some vs \<Rightarrow> vs | None \<Rightarrow> [])
           in bind_res (fold_res set_item items []) (\<lambda>sets.
              fold_res (rule_item (forward_chains items) sets) items [])))"

subsection \<open>Pairs and flows a foreign drop separates\<close>

definition anyOverlap :: "string list \<Rightarrow> string list \<Rightarrow> bool" where
  "anyOverlap xs ys \<longleftrightarrow> list_ex (\<lambda>x. list_ex (\<lambda>y. cidrOverlaps x y) ys) xs"

record site_view =
  sv_link :: string
  sv_name :: string
  sv_networks :: "string list"
  sv_tunnel :: "string list"

definition drop_ref :: "foreign_drop \<Rightarrow> jsval \<times> jsval \<times> jsval \<times> string option" where
  "drop_ref d = (fd_family d, fd_table d, fd_chain d, fd_comment d)"

type_synonym manual_pair = "(string \<times> string) \<times> (jsval \<times> jsval \<times> jsval \<times> string option) list"

definition site_view_nets :: "site_view \<Rightarrow> string list" where
  "site_view_nets s = sv_networks s @ sv_tunnel s"

definition drop_separates :: "string list \<Rightarrow> string list \<Rightarrow> foreign_drop \<Rightarrow> bool" where
  "drop_separates A B d = (case (fd_src d, fd_dst d) of
       (Some s, Some t) \<Rightarrow> (anyOverlap s A \<and> anyOverlap t B) \<or> (anyOverlap s B \<and> anyOverlap t A)
     | _ \<Rightarrow> False)"

definition manual_pair_step ::
  "foreign_drop list \<Rightarrow> site_view \<times> site_view \<Rightarrow> (string \<times> manual_pair) list \<Rightarrow> (string \<times> manual_pair) list" where
  "manual_pair_step drops st out =
     (let x = fst st; y = snd st;
          hits = filter (drop_separates (site_view_nets x) (site_view_nets y)) drops
      in if hits = [] then out
         else (let n = normalizePair (sv_link x) (sv_link y)
               in AList.update (fst n @ ''|'' @ snd n) (n, map drop_ref hits) out))"

fun site_combos :: "'a list \<Rightarrow> ('a \<times> 'a) list" where
  "site_combos [] = []"
| "site_combos (x # xs) = map (\<lambda>y. (x, y)) xs @ site_combos xs"

definition manualSitePairs :: "foreign_drop list \<Rightarrow> site_view list \<Rightarrow> manual_pair list" where
  "manualSitePairs drops sites = map snd (fold (manual_pair_step drops) (site_combos sites) [])"

datatype manual_verdict = MvNone | MvBlocked foreign_drop | MvPartial foreign_drop

fun manual_loop :: "string \<Rightarrow> string \<Rightarrow> foreign_drop list \<Rightarrow> foreign_drop option \<Rightarrow> manual_verdict" where
  "manual_loop s d [] partial = (case partial of None \<Rightarrow> MvNone | Some r \<Rightarrow> MvPartial r)"
| "manual_loop s d (r # rs) partial =
     (case (fd_src r, fd_dst r) of
        (Some src, Some dst) \<Rightarrow>
          if in_nets src s \<and> in_nets dst d \<and> \<not> fd_extra r then MvBlocked r
          else manual_loop s d rs
            (if partial = None \<and> anyOverlap src [s] \<and> anyOverlap dst [d] then Some r else partial)
      | _ \<Rightarrow> manual_loop s d rs partial)"

definition manualDropVerdict :: "foreign_drop list \<Rightarrow> string \<Rightarrow> string \<Rightarrow> manual_verdict" where
  "manualDropVerdict drops src dst =
     (case (canonicalCidr src, canonicalCidr dst) of
        (Some s, Some d) \<Rightarrow> manual_loop s d drops None | _ \<Rightarrow> MvNone)"

subsection \<open>The boot configuration\<close>

text \<open>\<open>/#.*/\<close> removed: the comment ends at a line terminator.\<close>

definition strip_comment :: "string \<Rightarrow> string" where
  "strip_comment s = takeWhile (\<lambda>c. c \<noteq> CHR ''#'') s
     @ dropWhile (\<lambda>c. \<not> line_end c) (dropWhile (\<lambda>c. c \<noteq> CHR ''#'') s)"

text \<open>\<open>/^include\s+"([^"]+)"/\<close>: the quoted text.\<close>

definition include_target :: "string \<Rightarrow> string option" where
  "include_target line =
     (if \<not> starts_with ''include'' line then None
      else (let r = drop 7 line; q = dropWhile js_ws r
            in if q = r \<or> q = [] \<or> hd q \<noteq> QUOTE then None
               else (let body = takeWhile (\<lambda>c. c \<noteq> QUOTE) (tl q)
                     in if body = [] \<or> length body = length (tl q) then None else Some body)))"

text \<open>The pattern \<open>^...$\<close> of an include glob: a star stands for characters other than the
  slash, everything else for itself.\<close>

fun glob_match :: "string \<Rightarrow> string \<Rightarrow> bool" where
  "glob_match [] s = (s = [])"
| "glob_match (p # ps) [] = (p = CHR ''*'' \<and> glob_match ps [])"
| "glob_match (p # ps) (c # cs) =
     (if p = CHR ''*'' then glob_match ps (c # cs) \<or> (c \<noteq> CHR ''/'' \<and> glob_match (p # ps) cs)
      else p = c \<and> glob_match ps cs)"

definition dir_of :: "string \<Rightarrow> string" where
  "dir_of file = rev (dropWhile (\<lambda>c. c \<noteq> CHR ''/'') (rev file))"

definition line_includes :: "string \<Rightarrow> string \<Rightarrow> bool" where
  "line_includes file raw =
     (case include_target (trim (strip_comment raw)) of
        None \<Rightarrow> False
      | Some inc \<Rightarrow>
          (let dir = dir_of file; base = drop (length dir) file; rest = drop (length dir) inc
           in inc = file \<or> (starts_with dir inc \<and> CHR ''*'' \<in> set rest \<and> glob_match rest base)))"

definition bootIncludesFile :: "string \<Rightarrow> string \<Rightarrow> bool" where
  "bootIncludesFile confText file = list_ex (line_includes file) (split_on NL confText)"


subsection \<open>The verdict on a flow\<close>

text \<open>The packets a resolved foreign rule may drop: its two address matches hold.\<close>

definition drop_matches :: "foreign_drop \<Rightarrow> addr \<times> addr \<Rightarrow> bool" where
  "drop_matches r pk \<longleftrightarrow> (case (fd_src r, fd_dst r) of
       (Some src, Some dst) \<Rightarrow> in_elems (fst pk) src \<and> in_elems (snd pk) dst | _ \<Rightarrow> False)"

lemma in_nets_elems: "in_nets ns c \<Longrightarrow> cidr_set c = Some C \<Longrightarrow> x \<in> C \<Longrightarrow> in_elems x ns"
  unfolding in_nets_def in_elems_def list_ex_iff cidr.contains_iff in_cidr_iff by fastforce

lemma anyOverlap_elems:
  assumes "cidr_set c = Some C"
  shows "anyOverlap ns [c] \<longleftrightarrow> (\<exists>x \<in> C. in_elems x ns)"
  using assms unfolding anyOverlap_def in_elems_def list_ex_iff cidrOverlaps_def cidr.overlap_iff in_cidr_iff
  by auto

definition drop_full :: "string \<Rightarrow> string \<Rightarrow> foreign_drop \<Rightarrow> bool" where
  "drop_full s d r \<longleftrightarrow> (\<exists>src dst. fd_src r = Some src \<and> fd_dst r = Some dst \<and> in_nets src s
     \<and> in_nets dst d) \<and> \<not> fd_extra r"

definition drop_touch :: "string \<Rightarrow> string \<Rightarrow> foreign_drop \<Rightarrow> bool" where
  "drop_touch s d r \<longleftrightarrow> (\<exists>src dst. fd_src r = Some src \<and> fd_dst r = Some dst \<and> anyOverlap src [s]
     \<and> anyOverlap dst [d])"

lemma manual_loop_find:
  "manual_loop s d rs q = (case find (drop_full s d) rs of
     Some r \<Rightarrow> MvBlocked r
   | None \<Rightarrow> (case q of Some r \<Rightarrow> MvPartial r
              | None \<Rightarrow> (case find (drop_touch s d) rs of Some r \<Rightarrow> MvPartial r | None \<Rightarrow> MvNone)))"
proof (induction rs arbitrary: q)
  case Nil
  then show ?case by (simp split: option.split)
next
  case (Cons r rs)
  show ?case
  proof (cases "fd_src r = None \<or> fd_dst r = None")
    case True
    then have skip: "manual_loop s d (r # rs) q = manual_loop s d rs q" by (auto split: option.split)
    from True have "\<not> drop_full s d r" "\<not> drop_touch s d r"
      by (auto simp: drop_full_def drop_touch_def)
    then show ?thesis by (simp only: skip Cons.IH find.simps if_False)
  next
    case False
    then obtain src dst where r: "fd_src r = Some src" "fd_dst r = Some dst" by auto
    have loop: "manual_loop s d (r # rs) q = (if drop_full s d r then MvBlocked r
        else manual_loop s d rs (if q = None \<and> drop_touch s d r then Some r else q))"
      using r by (simp add: drop_full_def drop_touch_def)
    show ?thesis
      unfolding loop Cons.IH
      by (cases "drop_full s d r"; cases "drop_touch s d r"; cases q) (simp_all cong: option.case_cong)
  qed
qed

text \<open>On address sets: one source network of the rule holds the whole source range, one destination
  network the whole destination range, and the rule has no further condition.\<close>

definition blocks_all :: "foreign_drop \<Rightarrow> addr set \<Rightarrow> addr set \<Rightarrow> bool" where
  "blocks_all r S D \<longleftrightarrow> \<not> fd_extra r \<and>
     (\<exists>ns nd A B. fd_src r = Some ns \<and> fd_dst r = Some nd
        \<and> Some A \<in> cidr_set ` set ns \<and> S \<subseteq> A \<and> Some B \<in> cidr_set ` set nd \<and> D \<subseteq> B)"

lemma in_nets_sets:
  assumes "cidr_set c = Some C"
  shows "in_nets ns c \<longleftrightarrow> (\<exists>A. Some A \<in> cidr_set ` set ns \<and> C \<subseteq> A)"
proof -
  have "in_nets ns c \<longleftrightarrow> (\<exists>n \<in> set ns. \<exists>A. cidr_set n = Some A \<and> C \<subseteq> A)"
    unfolding in_nets_def list_ex_iff cidr.contains_iff assms option.inject by blast
  also have "\<dots> \<longleftrightarrow> (\<exists>A. (\<exists>n \<in> set ns. Some A = cidr_set n) \<and> C \<subseteq> A)"
    unfolding eq_commute [of "Some _"] by blast
  also have "\<dots> \<longleftrightarrow> (\<exists>A. Some A \<in> cidr_set ` set ns \<and> C \<subseteq> A)" unfolding image_iff ..
  finally show ?thesis .
qed

lemma drop_full_sets:
  assumes "cidr_set s = Some S" "cidr_set d = Some D"
  shows "drop_full s d r \<longleftrightarrow> blocks_all r S D"
  unfolding drop_full_def blocks_all_def in_nets_sets [OF assms(1)] in_nets_sets [OF assms(2)] by blast

text \<open>C24: The answer on a flow for rules somebody else added is right for the rules as they were
  read. "Blocked" is answered exactly when some rule of the list without further conditions has
  both ranges inside one of its networks each, and names such a rule, whose address matches hold
  for every packet between the two ranges; "partial" names a rule that matches some packet, and
  a negative answer means that no rule whose addresses could be resolved matches any packet of
  the flow.\<close>

theorem manualDropVerdict_correct:
  assumes "cidr_set src = Some S" and "cidr_set dst = Some D"
  shows "((\<exists>r. manualDropVerdict drops src dst = MvBlocked r) \<longleftrightarrow> (\<exists>r \<in> set drops. blocks_all r S D))
   \<and> (case manualDropVerdict drops src dst of
      MvBlocked r \<Rightarrow> r \<in> set drops \<and> blocks_all r S D \<and> (\<forall>s \<in> S. \<forall>d \<in> D. drop_matches r (s, d))
    | MvPartial r \<Rightarrow> r \<in> set drops \<and> (\<exists>s \<in> S. \<exists>d \<in> D. drop_matches r (s, d))
    | MvNone \<Rightarrow> \<forall>r \<in> set drops. \<forall>s \<in> S. \<forall>d \<in> D. \<not> drop_matches r (s, d))"
proof -
  obtain s d where c: "canonicalCidr src = Some s" "canonicalCidr dst = Some d"
    using assms cidr_set_None_iff by (metis option.distinct(1) option.exhaust_sel)
  then have sets: "cidr_set s = Some S" "cidr_set d = Some D"
    using assms by (simp_all add: cidr_set_canonical)
  have full: "drop_matches r (x, y)" if "drop_full s d r" "x \<in> S" "y \<in> D" for r x y
    using that in_nets_elems [OF _ sets(1)] in_nets_elems [OF _ sets(2)]
    by (auto simp: drop_full_def drop_matches_def)
  have touch: "drop_touch s d r \<longleftrightarrow> (\<exists>x \<in> S. \<exists>y \<in> D. drop_matches r (x, y))" for r
    unfolding drop_touch_def drop_matches_def anyOverlap_elems [OF sets(1)] anyOverlap_elems [OF sets(2)]
    by (cases "fd_src r"; cases "fd_dst r") auto
  have v: "manualDropVerdict drops src dst = (case find (drop_full s d) drops of
     Some r \<Rightarrow> MvBlocked r
   | None \<Rightarrow> (case find (drop_touch s d) drops of Some r \<Rightarrow> MvPartial r | None \<Rightarrow> MvNone))"
    using c by (simp add: manualDropVerdict_def manual_loop_find cong: option.case_cong)
  have full_in: "r \<in> set drops \<and> blocks_all r S D \<and> (\<forall>x \<in> S. \<forall>y \<in> D. drop_matches r (x, y))"
    if "find (drop_full s d) drops = Some r" for r
  proof -
    from that have "r \<in> set drops" "drop_full s d r" by (auto simp: find_Some_iff)
    then show ?thesis using drop_full_sets [OF sets] full by blast
  qed
  have touch_in: "r \<in> set drops \<and> (\<exists>x \<in> S. \<exists>y \<in> D. drop_matches r (x, y))"
    if "find (drop_touch s d) drops = Some r" for r
  proof -
    from that have "r \<in> set drops" "drop_touch s d r" by (auto simp: find_Some_iff)
    then show ?thesis using touch by blast
  qed
  show ?thesis
  proof (cases "find (drop_full s d) drops")
    case (Some r)
    with full_in [OF this] show ?thesis unfolding v by auto
  next
    case None
    then have "\<not> (\<exists>r \<in> set drops. blocks_all r S D)"
      using drop_full_sets [OF sets] by (simp add: find_None_iff)
    moreover have "\<forall>r \<in> set drops. \<forall>x \<in> S. \<forall>y \<in> D. \<not> drop_matches r (x, y)" if "find (drop_touch s d) drops = None"
      using that touch by (simp add: find_None_iff)
    ultimately show ?thesis
      using None touch_in unfolding v by (cases "find (drop_touch s d) drops") simp_all
  qed
qed

subsection \<open>Error behaviour of the two readers\<close>

text \<open>parseChainCounters is documented as tolerant of bad input, but it is only tolerant of
  text that is not JSON: it raises a TypeError exactly when the nftables member of the parsed
  document is a truthy value that is neither an array nor a string.\<close>

theorem parseChainCounters_throws_iff:
  "parseChainCounters json t = Inl e \<longleftrightarrow> e = TypeErr \<and>
     (\<exists>doc. json t = Some doc \<and> js_truthy (getp doc ''nftables'')
        \<and> (\<forall>vs. getp doc ''nftables'' \<noteq> JArr vs) \<and> (\<forall>s. getp doc ''nftables'' \<noteq> JStr s))"
proof -
  have "iter_items v = Inl e \<longleftrightarrow> e = TypeErr \<and> js_truthy v \<and> (\<forall>vs. v \<noteq> JArr vs) \<and> (\<forall>s. v \<noteq> JStr s)" for v
    by (cases v) (auto split: if_splits)
  then show ?thesis
    by (cases e) (auto simp: parseChainCounters_def bind_res_iff split: option.split)
qed


subsection \<open>Include globs\<close>

text \<open>The language of an include pattern: a star stands for any text without a slash.\<close>

inductive glob_lang :: "string \<Rightarrow> string \<Rightarrow> bool" where
  glob_nil: "glob_lang [] []"
| glob_char: "c \<noteq> CHR ''*'' \<Longrightarrow> glob_lang ps cs \<Longrightarrow> glob_lang (c # ps) (c # cs)"
| glob_star: "CHR ''/'' \<notin> set w \<Longrightarrow> glob_lang ps cs \<Longrightarrow> glob_lang (CHR ''*'' # ps) (w @ cs)"

inductive_simps glob_nil_iff: "glob_lang [] s"
inductive_simps glob_cons_iff: "glob_lang (p # ps) s"

lemma glob_star_step:
  assumes "glob_lang (CHR ''*'' # ps) cs" "c \<noteq> CHR ''/''"
  shows "glob_lang (CHR ''*'' # ps) (c # cs)"
proof -
  from assms(1) obtain w t where w: "CHR ''/'' \<notin> set w" "cs = w @ t" "glob_lang ps t"
    by (auto simp: glob_cons_iff)
  with assms(2) glob_star [of "c # w" ps t] show ?thesis by auto
qed

lemma glob_match_sound: "glob_match p s \<Longrightarrow> glob_lang p s"
proof (induction p s rule: glob_match.induct)
  case (2 p ps)
  then show ?case using glob_star [of "[]" ps "[]"] by simp
next
  case (3 p ps c cs)
  show ?case
  proof (cases "p = CHR ''*''")
    case True
    with "3" have "glob_lang ps (c # cs) \<or> c \<noteq> CHR ''/'' \<and> glob_lang (CHR ''*'' # ps) cs" by auto
    then show ?thesis using True glob_star [of "[]" ps "c # cs"] glob_star_step [of ps cs c] by auto
  next
    case False
    with "3" show ?thesis by (auto intro: glob_char)
  qed
qed (simp add: glob_nil)

lemma glob_match_star: "CHR ''/'' \<notin> set w \<Longrightarrow> glob_match ps cs \<Longrightarrow> glob_match (CHR ''*'' # ps) (w @ cs)"
proof (induction w)
  case Nil
  then show ?case by (cases cs) simp_all
qed auto

lemma glob_match_complete: "glob_lang p s \<Longrightarrow> glob_match p s"
  by (induction rule: glob_lang.induct) (simp_all add: glob_match_star)

lemma dir_base: "file = dir_of file @ drop (length (dir_of file)) file"
proof -
  have "rev file = takeWhile (\<lambda>c. c \<noteq> CHR ''/'') (rev file) @ dropWhile (\<lambda>c. c \<noteq> CHR ''/'') (rev file)"
    by simp
  then have "file = dir_of file @ rev (takeWhile (\<lambda>c. c \<noteq> CHR ''/'') (rev file))"
    unfolding dir_of_def by (metis rev_append rev_rev_ident)
  then show ?thesis by (metis append_eq_conv_conj)
qed

text \<open>The test whether the boot configuration loads the persisted table says yes exactly when an
  uncommented include line names the file itself, or names the directory of the file followed by a
  pattern with a star whose language (stars stand for slash-free text) contains the file's base
  name.\<close>

theorem bootIncludesFile_iff:
  assumes "file = dir @ base" and "CHR ''/'' \<notin> set base" and "dir = [] \<or> last dir = CHR ''/''"
  shows "bootIncludesFile conf file \<longleftrightarrow>
    (\<exists>line \<in> set (split_on NL conf). \<exists>inc. include_target (trim (strip_comment line)) = Some inc
       \<and> (inc = file \<or> (\<exists>pat. inc = dir @ pat \<and> CHR ''*'' \<in> set pat \<and> glob_lang pat base)))"
proof -
  have "dropWhile (\<lambda>c. c \<noteq> CHR ''/'') (rev file) = rev dir"
    using assms by (cases dir rule: rev_cases) (auto simp: dropWhile_append)
  then have dir: "dir_of file = dir" by (simp add: dir_of_def)
  have glob: "glob_match ps cs \<longleftrightarrow> glob_lang ps cs" for ps cs
    using glob_match_sound glob_match_complete by blast
  have pre: "starts_with dir inc \<longleftrightarrow> (\<exists>pat. inc = dir @ pat)" for inc
    unfolding starts_with_def by (metis append_eq_conv_conj append_take_drop_id)
  have "line_includes file line \<longleftrightarrow> (\<exists>inc. include_target (trim (strip_comment line)) = Some inc
       \<and> (inc = file \<or> (\<exists>pat. inc = dir @ pat \<and> CHR ''*'' \<in> set pat \<and> glob_lang pat base)))" for line
    unfolding line_includes_def Let_def dir glob pre
    using assms(1) by (auto split: option.split)
  then show ?thesis by (simp add: bootIncludesFile_def list_ex_iff)
qed

theorem bootIncludesFile_iff_witness:
  "bootIncludesFile ''# x'' ''/etc/n/a.nft'' = False
   \<and> bootIncludesFile (''include '' @ [QUOTE] @ ''/etc/n/*.nft'' @ [QUOTE]) ''/etc/n/a.nft''"
proof -
  have f: "''/etc/n/a.nft'' = ''/etc/n/'' @ ''a.nft''" "CHR ''/'' \<notin> set ''a.nft''"
    "''/etc/n/'' = [] \<or> last ''/etc/n/'' = CHR ''/''" by simp_all
  have g: "glob_lang ''*.nft'' ''a.nft''" by (rule glob_match_sound) simp
  have i: "split_on NL ''# x'' = [''# x'']" "include_target (trim (strip_comment ''# x'')) = None"
    by code_simp+
  let ?l = "''include '' @ [QUOTE] @ ''/etc/n/*.nft'' @ [QUOTE]"
  have j: "split_on NL ?l = [?l]" "include_target (trim (strip_comment ?l)) = Some (''/etc/n/'' @ ''*.nft'')"
    by code_simp+
  show ?thesis
    unfolding bootIncludesFile_iff [OF f] i(1) j(1) using i(2) j(2) g by auto
qed


theorem manualDropVerdict_correct_witness:
  "\<exists>r. manualDropVerdict [r] ''10.1.2.0/24'' ''10.2.0.5/32'' = MvBlocked r
     \<and> drop_matches r (of_nat 167838209, of_nat 167903237)"
proof -
  let ?r = "\<lparr>fd_family = JStr ''inet'', fd_table = JStr ''filter'', fd_chain = JStr ''forward'',
     fd_handle = JNull, fd_comment = None, fd_src_set = None, fd_dst_set = None,
     fd_src = Some [''10.1.0.0/16''], fd_dst = Some [''10.2.0.0/16''], fd_extra = False\<rparr>"
  have v: "manualDropVerdict [?r] ''10.1.2.0/24'' ''10.2.0.5/32'' = MvBlocked ?r" by code_simp
  have "net_of ''10.1.2.0/24'' \<noteq> None" "net_of ''10.2.0.5/32'' \<noteq> None" by code_simp+
  then obtain S D where s: "cidr_set ''10.1.2.0/24'' = Some S" and d: "cidr_set ''10.2.0.5/32'' = Some D"
    by (auto simp: cidr_set_def)
  have "in_cidr (of_nat 167838209) ''10.1.2.0/24''" "in_cidr (of_nat 167903237) ''10.2.0.5/32''"
    by code_simp+
  then have "of_nat 167838209 \<in> S" "of_nat 167903237 \<in> D" using s d by (auto simp: in_cidr_iff)
  with v manualDropVerdict_correct [OF s d, of "[?r]"] show ?thesis by (intro exI [of _ ?r]) auto
qed

subsection \<open>Reported addresses are canonical\<close>

definition canonical_list :: "string list option \<Rightarrow> bool" where
  "canonical_list r \<longleftrightarrow> (case r of None \<Rightarrow> True | Some cs \<Rightarrow> list_all is_canonical cs)"

lemma canonical_list_simps [simp]:
  "canonical_list None" "canonical_list (Some cs) \<longleftrightarrow> list_all is_canonical cs"
  by (simp_all add: canonical_list_def)

lemma canonical_single: "canonical_list (map_option (\<lambda>c. [c]) (canonicalCidr s))"
  by (cases "canonicalCidr s") (simp_all add: canonical_is_canonical)

lemma tunnel_single: "canonical_list (map_option (\<lambda>c. [c]) (tunnel_canonical s))"
  unfolding tunnel_canonical_def by (rule canonical_single)

lemma nft_addr_canonical:
  "(\<And>nm. canonical_list (sets nm)) \<Longrightarrow> nft_addr sets v = Inr r \<Longrightarrow> canonical_list r"
  "(\<And>nm. canonical_list (sets nm)) \<Longrightarrow> nft_addrs sets vs out = Inr r \<Longrightarrow> list_all is_canonical out
     \<Longrightarrow> canonical_list r"
proof (induction sets v and sets vs out arbitrary: r and r rule: nft_addr_nft_addrs.induct)
  case (1 sets v)
  show ?case
  proof (cases "as_str v")
    case (Some s)
    with "1.prems" tunnel_single [of s] show ?thesis
      by (auto simp: nft_addr.simps [of sets v] split: option.splits)
  next
    case str: None
    show ?thesis
    proof (cases "js_truthy (getp v ''prefix'')")
      case True
      with str "1.prems" canonical_single show ?thesis by (auto simp: nft_addr.simps [of sets v])
    next
      case np: False
      show ?thesis
      proof (cases "as_arr (getp v ''set'')")
        case (Some es)
        have "nft_addrs sets es [] = Inr r" using str np Some "1.prems"(2)
          by (simp add: nft_addr.simps [of sets v] del: getp.simps)
        with "1.IH"(2) [OF str np Some] "1.prems"(1) show ?thesis by simp
      next
        case None
        with "1.IH"(1) [OF str np None] "1.prems" str np show ?thesis
          by (simp add: nft_addr.simps [of sets v] split: if_splits del: getp.simps)
      qed
    qed
  qed
next
  case (3 sets e es out)
  obtain q where q: "nft_addr sets e = Inr q" using "3.prems"(2) by (auto simp: bind_res_iff)
  show ?case
  proof (cases q)
    case None
    with q "3.prems"(2) show ?thesis by simp
  next
    case (Some cs)
    have "canonical_list (Some cs)" using "3.IH"(1) "3.prems"(1) q Some by blast
    moreover have "nft_addrs sets es (out @ cs) = Inr r" using q Some "3.prems"(2) by simp
    ultimately show ?thesis using "3.IH"(2) [OF q Some] "3.prems"(1,3) by simp
  qed
qed auto

definition sets_canonical :: "nft_sets_map \<Rightarrow> bool" where
  "sets_canonical m \<longleftrightarrow> (\<forall>kv \<in> set m. canonical_list (snd kv))"

lemma set_update_subset: "set (AList.update k v m) \<subseteq> insert (k, v) (set m)"
  by (induction m) auto

lemma set_elem_canonical:
  "list_all is_canonical (snd acc) \<Longrightarrow> set_elem e acc = Inr acc' \<Longrightarrow> list_all is_canonical (snd acc')"
  using nft_addr_canonical(1) [of "\<lambda>_. None" e]
  by (auto simp: set_elem_def bind_res_iff split: option.splits)

lemma set_item_canonical:
  assumes "sets_canonical m" "set_item it m = Inr m'"
  shows "sets_canonical m'"
proof (cases "js_truthy (getp (getp it ''set'') ''name'') \<and> getp (getp it ''set'') ''type'' = JStr ''ipv4_addr''")
  case False
  with assms show ?thesis by (auto simp: set_item_def Let_def simp del: getp.simps)
next
  case True
  let ?es = "case as_arr (getp (getp it ''set'') ''elem'') of Some es \<Rightarrow> es | None \<Rightarrow> []"
  obtain ok cs where f: "fold_res set_elem ?es (True, []) = Inr (ok, cs)"
    and m': "m' = AList.update (chain_key (getp it ''set'') (getp (getp it ''set'') ''name''))
               (if ok then Some cs else None) m"
    using True assms(2) by (auto simp: set_item_def Let_def bind_res_iff simp del: getp.simps)
  have "list_all is_canonical (snd (ok, cs))"
    using fold_res_invariant [OF f, of "\<lambda>acc. list_all is_canonical (snd acc)"] set_elem_canonical by simp
  then have "canonical_list (if ok then Some cs else None)" by simp
  with assms(1) set_update_subset show ?thesis
    unfolding m' sets_canonical_def by fastforce
qed

lemma table_set_canonical: "sets_canonical m \<Longrightarrow> canonical_list (table_set m r nm)"
proof -
  assume m: "sets_canonical m"
  have "canonical_list v" if "find P (rev m) = Some (k, v)" for P k v
  proof -
    have "(k, v) \<in> set m" using that by (auto simp: find_Some_iff) (metis nth_mem length_rev set_rev)
    with m show ?thesis by (auto simp: sets_canonical_def)
  qed
  then show ?thesis by (auto simp: table_set_def Let_def split: option.split)
qed

definition scan_canonical :: "rule_scan \<Rightarrow> bool" where
  "scan_canonical sc \<longleftrightarrow> (\<forall>r. rs_src sc = Some r \<longrightarrow> canonical_list r)
     \<and> (\<forall>r. rs_dst sc = Some r \<longrightarrow> canonical_list r)"

lemma scan_canonical_updates:
  "scan_canonical sc \<Longrightarrow> canonical_list r \<Longrightarrow> scan_canonical (sc\<lparr>rs_src := Some r, rs_src_set := n\<rparr>)"
  "scan_canonical sc \<Longrightarrow> canonical_list r \<Longrightarrow> scan_canonical (sc\<lparr>rs_dst := Some r, rs_dst_set := n\<rparr>)"
  "scan_canonical (sc\<lparr>rs_extra := b\<rparr>) = scan_canonical sc"
  by (auto simp: scan_canonical_def)

lemma scan_rule_expr_canonical:
  assumes "\<And>nm. canonical_list (sets nm)" "scan_canonical sc" "scan_rule_expr sets e sc = Inr sc'"
  shows "scan_canonical sc'"
proof (cases "is_js_object e \<and> js_truthy (getp e ''match'') \<and> is_addr_match (getp e ''match'')")
  case True
  let ?m = "getp e ''match''"
  obtain r where r: "nft_addr sets (getp ?m ''right'') = Inr r"
    and sc': "sc' = (if match_field ?m = JStr ''saddr''
                     then sc\<lparr>rs_src := Some r, rs_src_set := set_ref (getp ?m ''right'')\<rparr>
                     else sc\<lparr>rs_dst := Some r, rs_dst_set := set_ref (getp ?m ''right'')\<rparr>)"
    using assms(3) True unfolding scan_rule_expr_def Let_def by (auto simp: bind_res_iff simp del: getp.simps)
  have "canonical_list r" by (rule nft_addr_canonical(1) [OF assms(1) r])
  then show ?thesis unfolding sc' using assms(2) by (simp add: scan_canonical_updates del: getp.simps)
next
  case False
  then have "sc' \<in> {sc, sc\<lparr>rs_extra := True\<rparr>}"
    using assms(3) unfolding scan_rule_expr_def Let_def
    by (cases "js_truthy (getp e ''match'')") (auto simp: bind_res_iff simp del: getp.simps js_in_any.simps split: if_splits)
  then show ?thesis using assms(2) by (auto simp: scan_canonical_updates)
qed

definition drop_canonical :: "foreign_drop \<Rightarrow> bool" where
  "drop_canonical d \<longleftrightarrow> canonical_list (fd_src d) \<and> canonical_list (fd_dst d)"

lemma rule_item_canonical:
  assumes "sets_canonical sets" "list_all drop_canonical out" "rule_item fwd sets it out = Inr out'"
  shows "list_all drop_canonical out'"
proof -
  let ?r = "getp it ''rule''"
  let ?init = "\<lparr>rs_src = None, rs_dst = None, rs_src_set = None, rs_dst_set = None, rs_extra = False\<rparr>"
  have scan: "scan_canonical sc" if "fold_res (scan_rule_expr (table_set sets ?r)) es ?init = Inr sc" for es sc
    using fold_res_invariant [OF that, of scan_canonical]
      scan_rule_expr_canonical [OF table_set_canonical [OF assms(1)]]
    by (auto simp: scan_canonical_def [of ?init])
  show ?thesis
  proof (cases "js_truthy ?r \<and> chain_key ?r (getp ?r ''chain'') \<in> set fwd")
    case False
    with assms show ?thesis by (auto simp: rule_item_def Let_def split: option.splits simp del: getp.simps)
  next
    case True
    show ?thesis
    proof (cases "as_arr (getp ?r ''expr'')")
      case None
      with assms show ?thesis by (auto simp: rule_item_def Let_def split: bool.splits simp del: getp.simps)
    next
      case (Some es)
      from assms(3) True Some obtain b where b: "any_drop es = Inr b"
        by (auto simp: rule_item_def Let_def bind_res_iff simp del: getp.simps any_drop.simps)
      show ?thesis
      proof (cases b)
        case False
        with b Some True assms show ?thesis by (simp add: rule_item_def Let_def del: getp.simps)
      next
        case bt: True
        from assms(3) True Some b bt obtain sc where
          sc: "fold_res (scan_rule_expr (table_set sets ?r)) es ?init = Inr sc"
          by (auto simp: rule_item_def Let_def bind_res_iff simp del: getp.simps fold_res.simps)
        show ?thesis
          using scan [OF sc] assms(2,3) True Some b bt sc
          by (auto simp: rule_item_def Let_def scan_canonical_def drop_canonical_def
              simp del: getp.simps fold_res.simps split: option.splits)
      qed
    qed
  qed
qed

text \<open>Every address list a reported foreign rule carries consists of canonical IPv4 networks,
  whatever document the nft command printed: set references are resolved through the sets of the
  document, and an expression that cannot be expressed as networks leaves the list null. So the
  comparisons made with these lists never meet a text they would silently treat as no network.\<close>

theorem parseForeignForwardDrops_canonical:
  assumes "parseForeignForwardDrops json input = Inr drops"
  shows "list_all drop_canonical drops"
proof (cases "case as_str input of Some t \<Rightarrow> json t | None \<Rightarrow> Some input")
  case None
  with assms show ?thesis by (simp add: parseForeignForwardDrops_def)
next
  case (Some doc)
  let ?items = "case as_arr (getp doc ''nftables'') of Some vs \<Rightarrow> vs | None \<Rightarrow> []"
  obtain sets where sets: "fold_res set_item ?items [] = Inr sets"
    and drops: "fold_res (rule_item (forward_chains ?items) sets) ?items [] = Inr drops"
    using assms Some by (auto simp: parseForeignForwardDrops_def Let_def bind_res_iff simp del: getp.simps)
  have "sets_canonical sets"
    using fold_res_invariant [OF sets, of sets_canonical] set_item_canonical
    by (simp add: sets_canonical_def [of "[]"])
  then show ?thesis
    using fold_res_invariant [OF drops, of "list_all drop_canonical"] rule_item_canonical by simp
qed

definition ex_ruleset :: jsval where
  "ex_ruleset = JObj [(''nftables'', JArr [
     JObj [(''chain'', JObj [(''family'', JStr ''inet''), (''table'', JStr ''filter''),
        (''name'', JStr ''forward''), (''hook'', JStr ''forward'')])],
     JObj [(''set'', JObj [(''family'', JStr ''inet''), (''table'', JStr ''filter''), (''name'', JStr ''site_x''),
        (''type'', JStr ''ipv4_addr''),
        (''elem'', JArr [JObj [(''prefix'', JObj [(''addr'', JStr ''10.1.0.0''), (''len'', JNum (Fin 16))])]])])],
     JObj [(''rule'', JObj [(''family'', JStr ''inet''), (''table'', JStr ''filter''), (''chain'', JStr ''forward''),
        (''expr'', JArr [
          JObj [(''match'', JObj [(''op'', JStr ''==''), (''left'', JObj [(''payload'',
             JObj [(''protocol'', JStr ''ip''), (''field'', JStr ''saddr'')])]), (''right'', JStr ''@site_x'')])],
          JObj [(''match'', JObj [(''op'', JStr ''==''), (''left'', JObj [(''payload'',
             JObj [(''protocol'', JStr ''ip''), (''field'', JStr ''daddr'')])]), (''right'', JStr ''10.2.0.7'')])],
          JObj [(''drop'', JNull)]])])]])]"

theorem parseForeignForwardDrops_canonical_witness:
  "\<exists>d. parseForeignForwardDrops (\<lambda>_. None) ex_ruleset = Inr [d]
     \<and> fd_src d = Some [''10.1.0.0/16''] \<and> fd_dst d = Some [''10.2.0.7/32'']
     \<and> drop_canonical d \<and> \<not> fd_extra d"
proof -
  let ?d = "\<lparr>fd_family = JStr ''inet'', fd_table = JStr ''filter'', fd_chain = JStr ''forward'',
     fd_handle = JNull, fd_comment = None, fd_src_set = Some ''site_x'', fd_dst_set = None,
     fd_src = Some [''10.1.0.0/16''], fd_dst = Some [''10.2.0.7/32''], fd_extra = False\<rparr>"
  have "parseForeignForwardDrops (\<lambda>_. None) ex_ruleset = Inr [?d]" by code_simp
  with parseForeignForwardDrops_canonical [OF this] show ?thesis by (intro exI [of _ ?d]) simp
qed

end
