(* ===== verification/Geo_Ranges.thy ===== *)
theory Geo_Ranges
  imports Js_Prelude "HOL-Library.AList"
begin

text \<open>
  The address arithmetic of backend/internal/geo-filter.js: IPv4 and IPv6 texts as BigInt values
  (here \<^typ>\<open>int\<close>), the split of an address range into networks, the reader of the DB-IP table
  and the strict test for a network text. \<open>net.isIPv4\<close> and \<open>net.isIPv6\<close> of the Node library are
  modelled on the texts the code passes to them. A shift is a multiplication or a division by a
  power of two, a bitwise and with a mask of ones the remainder; both are exact for negative
  BigInt values too.
\<close>

datatype geo_error =
    NotABigInt string
  | BadIpv6 string
  | BadArrayLength
  | MixedFamilies string string
  | ReversedRange string string
  | BadNet string

subsection \<open>Addresses as integers\<close>

text \<open>\<open>BigInt(s)\<close>.\<close>

definition radix_int :: "nat \<Rightarrow> string \<Rightarrow> int option" where
  "radix_int b s = (if s = [] then None else map_option int (radix_val b 0 s))"

definition decimal_int :: "string \<Rightarrow> int option" where
  "decimal_int s = (if all_digits s then Some (int (nat_of_digits s)) else None)"

definition js_bigint :: "string \<Rightarrow> int option" where
  "js_bigint s0 =
     (let s = trim s0
      in if s = [] then Some 0
         else if take 2 s = ''0x'' \<or> take 2 s = ''0X'' then radix_int 16 (drop 2 s)
         else if take 2 s = ''0o'' \<or> take 2 s = ''0O'' then radix_int 8 (drop 2 s)
         else if take 2 s = ''0b'' \<or> take 2 s = ''0B'' then radix_int 2 (drop 2 s)
         else if hd s = CHR ''-'' then map_option uminus (decimal_int (tl s))
         else decimal_int (if hd s = CHR ''+'' then tl s else s))"

definition bigint :: "string \<Rightarrow> geo_error + int" where
  "bigint s = (case js_bigint s of None \<Rightarrow> Inl (NotABigInt s) | Some i \<Rightarrow> Inr i)"

definition v4ToBig :: "string \<Rightarrow> geo_error + int" where
  "v4ToBig a = fold_res (\<lambda>g n. bind_res (bigint g) (\<lambda>i. Inr (n * 2 ^ 8 + i))) (split_on CHR ''.'' a) 0"

text \<open>The first occurrence of the double colon: what is before it and what is after it.\<close>

fun split_dc :: "string \<Rightarrow> (string \<times> string) option" where
  "split_dc (a # b # s) =
     (if a = CHR '':'' \<and> b = CHR '':'' then Some ([], s)
      else map_option (\<lambda>(h, t). (a # h, t)) (split_dc (b # s)))"
| "split_dc _ = None"

text \<open>\<open>s ? s.split(":") : []\<close>.\<close>

definition colon_groups :: "string \<Rightarrow> string list" where
  "colon_groups s = (if s = [] then [] else split_on CHR '':'' s)"

text \<open>A second double colon and what follows it is dropped by the destructuring of the split.\<close>

definition v6_groups :: "string \<Rightarrow> geo_error + string list" where
  "v6_groups a =
     (case split_dc a of
        None \<Rightarrow> Inr (colon_groups a)
      | Some (head, rest) \<Rightarrow>
          (let tail = (case split_dc rest of None \<Rightarrow> rest | Some (t, _) \<Rightarrow> t);
               h = colon_groups head; t = colon_groups tail
           in if 8 < length h + length t then Inl BadArrayLength
              else Inr (h @ replicate (8 - length h - length t) ''0'' @ t)))"

definition v6_step :: "string \<Rightarrow> int \<Rightarrow> geo_error + int" where
  "v6_step g n =
     bind_res (bigint (''0x'' @ (if g = [] then ''0'' else g))) (\<lambda>i. Inr (n * 2 ^ 16 + i))"

definition v6ToBig :: "string \<Rightarrow> geo_error + int" where
  "v6ToBig a = bind_res (v6_groups a) (\<lambda>groups.
     if length groups \<noteq> 8 then Inl (BadIpv6 a) else fold_res v6_step groups 0)"

definition bigToV4 :: "int \<Rightarrow> string" where
  "bigToV4 n = join ''.'' (map (\<lambda>s. str_of_int (n div 2 ^ s mod 256)) [24, 16, 8, 0])"

text \<open>\<open>n.toString(16)\<close>.\<close>

definition hex_digit :: "nat \<Rightarrow> char" where
  "hex_digit d = char_of (if d < 10 then 48 + d else 87 + d)"

fun hex_of_nat :: "nat \<Rightarrow> string" where
  "hex_of_nat n = (if n < 16 then [hex_digit n] else hex_of_nat (n div 16) @ [hex_digit (n mod 16)])"

declare hex_of_nat.simps [simp del]

definition v6_hex_groups :: "int \<Rightarrow> string list" where
  "v6_hex_groups n = map (\<lambda>s. hex_of_nat (nat (n div 2 ^ s mod 65536))) [112, 96, 80, 64, 48, 32, 16, 0]"

text \<open>The longest run of at least two zero groups, the first one of several.\<close>

definition zero_run :: "string list \<Rightarrow> nat \<Rightarrow> nat" where
  "zero_run gs i = length (takeWhile (\<lambda>g. g = ''0'') (drop i gs))"

lemma zero_run_pos: "i < length gs \<Longrightarrow> gs ! i = ''0'' \<Longrightarrow> 0 < zero_run gs i"
  by (simp add: zero_run_def flip: Cons_nth_drop_Suc)

function best_run :: "string list \<Rightarrow> nat \<Rightarrow> (nat \<times> nat) option \<Rightarrow> (nat \<times> nat) option" where
  "best_run gs i best =
     (if length gs \<le> i then best
      else if gs ! i \<noteq> ''0'' then best_run gs (Suc i) best
      else (let l = zero_run gs i
            in best_run gs (i + l)
                 (if 1 < l \<and> (case best of None \<Rightarrow> True | Some (_, m) \<Rightarrow> m < l) then Some (i, l) else best)))"
  by pat_completeness auto
termination
  by (relation "measure (\<lambda>(gs, i, best). length gs - i)") (auto simp: not_le diff_less_mono2 zero_run_pos)

declare best_run.simps [simp del]

definition bigToV6 :: "int \<Rightarrow> string" where
  "bigToV6 n =
     (let groups = v6_hex_groups n
      in case best_run groups 0 None of
           None \<Rightarrow> join '':'' groups
         | Some (b, l) \<Rightarrow> join '':'' (take b groups) @ ''::'' @ join '':'' (drop (b + l) groups))"

subsection \<open>A range as networks\<close>

definition addr_bits :: "bool \<Rightarrow> nat" where
  "addr_bits v6 = (if v6 then 128 else 32)"

function block_size :: "nat \<Rightarrow> int \<Rightarrow> int \<Rightarrow> nat \<Rightarrow> nat" where
  "block_size bits lo hi sz =
     (if sz < bits \<and> lo mod 2 ^ Suc sz = 0 \<and> lo + 2 ^ Suc sz - 1 \<le> hi
      then block_size bits lo hi (Suc sz) else sz)"
  by pat_completeness auto
termination
  by (relation "measure (\<lambda>(bits, lo, hi, sz). bits - sz)") auto

declare block_size.simps [simp del]

text \<open>The loop over the range: the first address and the logarithm of the sz of each block.\<close>

function range_blocks :: "nat \<Rightarrow> int \<Rightarrow> int \<Rightarrow> (int \<times> nat) list" where
  "range_blocks bits lo hi =
     (if lo \<le> hi then
        (let sz = block_size bits lo hi 0 in (lo, sz) # range_blocks bits (lo + 2 ^ sz) hi)
      else [])"
  by pat_completeness auto
termination
  by (relation "measure (\<lambda>(bits, lo, hi). nat (hi - lo + 1))") auto

declare range_blocks.simps [simp del]

definition to_big :: "bool \<Rightarrow> string \<Rightarrow> geo_error + int" where
  "to_big v6 a = (if v6 then v6ToBig a else v4ToBig a)"

definition of_big :: "bool \<Rightarrow> int \<Rightarrow> string" where
  "of_big v6 n = (if v6 then bigToV6 n else bigToV4 n)"

definition block_text :: "bool \<Rightarrow> int \<times> nat \<Rightarrow> string" where
  "block_text v6 b = of_big v6 (fst b) @ ''/'' @ str_of_nat (addr_bits v6 - snd b)"

definition bigRangeToCidrs :: "int \<Rightarrow> int \<Rightarrow> bool \<Rightarrow> string list" where
  "bigRangeToCidrs start hi v6 = map (block_text v6) (range_blocks (addr_bits v6) start hi)"

definition is_v6_text :: "string \<Rightarrow> bool" where
  "is_v6_text s \<longleftrightarrow> CHR '':'' \<in> set s"

definition rangeToCidrs :: "string \<Rightarrow> string \<Rightarrow> geo_error + string list" where
  "rangeToCidrs start end' =
     (let v6 = is_v6_text start
      in if v6 \<noteq> is_v6_text end' then Inl (MixedFamilies start end')
         else bind_res (to_big v6 start) (\<lambda>lo. bind_res (to_big v6 end') (\<lambda>hi.
           Inr (bigRangeToCidrs lo hi v6))))"

subsection \<open>The strict test for a network text\<close>

text \<open>\<open>net.isIPv4\<close>: four decimal numbers up to 255 without leading zeros.\<close>

definition is_octet_text :: "string \<Rightarrow> bool" where
  "is_octet_text s \<longleftrightarrow> digits_upto 3 s \<and> nat_of_digits s \<le> 255 \<and> (length s = 1 \<or> hd s \<noteq> CHR ''0'')"

definition net_isIPv4 :: "string \<Rightarrow> bool" where
  "net_isIPv4 a \<longleftrightarrow> length (split_on CHR ''.'' a) = 4 \<and> list_all is_octet_text (split_on CHR ''.'' a)"

text \<open>\<open>net.isIPv6\<close> of a text of hexadecimal digits and colons.\<close>

definition is_h16 :: "string \<Rightarrow> bool" where
  "is_h16 g \<longleftrightarrow> g \<noteq> [] \<and> length g \<le> 4 \<and> list_all is_hex g"

definition net_isIPv6 :: "string \<Rightarrow> bool" where
  "net_isIPv6 a =
     (case split_dc a of
        None \<Rightarrow> length (split_on CHR '':'' a) = 8 \<and> list_all is_h16 (split_on CHR '':'' a)
      | Some (h, t) \<Rightarrow> length (colon_groups h) + length (colon_groups t) \<le> 7
          \<and> list_all is_h16 (colon_groups h) \<and> list_all is_h16 (colon_groups t))"

definition isCidr :: "string \<Rightarrow> bool" where
  "isCidr value =
     (let addr = takeWhile (\<lambda>c. c \<noteq> CHR ''/'') value; prefix = drop (Suc (length addr)) value
      in if addr = [] \<or> length addr = length value then False
         else if \<not> digits_upto 3 prefix then False
         else if net_isIPv4 addr then nat_of_digits prefix \<le> 32 \<and> list_all (\<lambda>c. is_digit c \<or> c = CHR ''.'') addr
         else list_all (\<lambda>c. is_hex c \<or> c = CHR '':'') addr \<and> net_isIPv6 addr \<and> nat_of_digits prefix \<le> 128)"

text \<open>\<open>isCidr\<close> of a value that need not be a string.\<close>

definition isCidr_of :: "jsval \<Rightarrow> bool" where
  "isCidr_of v = (case v of JStr s \<Rightarrow> isCidr s | _ \<Rightarrow> False)"

definition parseZone :: "jsval \<Rightarrow> string list" where
  "parseZone text =
     filter isCidr (filter (\<lambda>l. l \<noteq> [] \<and> hd l \<noteq> CHR ''#'')
       (map trim (split_on (CHR 0x0A) (if js_truthy text then js_string text else []))))"

subsection \<open>The country table\<close>

type_synonym span = "int \<times> int"

record dbip_acc =
  da_v4 :: "span list"
  da_v6 :: "span list"
  da_rows :: nat
  da_per_country :: "(string \<times> nat) list"

definition add_span :: "bool \<Rightarrow> span \<Rightarrow> dbip_acc \<Rightarrow> dbip_acc" where
  "add_span v6 sp a = (if v6 then a\<lparr>da_v6 := da_v6 a @ [sp]\<rparr> else a\<lparr>da_v4 := da_v4 a @ [sp]\<rparr>)"

definition count_country :: "string \<Rightarrow> (string \<times> nat) list \<Rightarrow> (string \<times> nat) list" where
  "count_country cc m = AList.update cc (Suc (the (map_of m cc))) m"

definition row_span :: "string \<Rightarrow> string \<Rightarrow> geo_error + bool \<times> span" where
  "row_span start end' =
     (let v6 = is_v6_text start
      in if v6 \<noteq> is_v6_text end' then Inl (MixedFamilies start end')
         else bind_res (to_big v6 start) (\<lambda>lo. bind_res (to_big v6 end') (\<lambda>hi.
           if hi < lo then Inl (ReversedRange start end') else Inr (v6, (lo, hi)))))"

text \<open>The fields of a row of a wanted country; a row without a country is never wanted.\<close>

definition wanted_row :: "string list \<Rightarrow> string \<Rightarrow> (string \<times> string \<times> string) option" where
  "wanted_row countries line =
     (case split_on CHR '','' (trim line) of
        start # end' # cc # rest \<Rightarrow> if cc \<in> set countries then Some (start, end', cc) else None
      | _ \<Rightarrow> None)"

definition dbip_line :: "string list \<Rightarrow> string \<Rightarrow> dbip_acc \<Rightarrow> geo_error + dbip_acc" where
  "dbip_line countries line a =
     (if line = [] then Inr a
      else (let a = a\<lparr>da_rows := Suc (da_rows a)\<rparr>
            in case wanted_row countries line of
                 None \<Rightarrow> Inr a
               | Some (start, end', cc) \<Rightarrow> bind_res (row_span start end') (\<lambda>(v6, sp).
                   Inr ((add_span v6 sp a)\<lparr>da_per_country := count_country cc (da_per_country a)\<rparr>))))"

text \<open>Spans in the order of their first address are joined when they touch.\<close>

fun join_spans :: "span option \<Rightarrow> span list \<Rightarrow> span list" where
  "join_spans cur [] = (case cur of None \<Rightarrow> [] | Some c \<Rightarrow> [c])"
| "join_spans None (sp # sps) = join_spans (Some sp) sps"
| "join_spans (Some (clo, chi)) ((lo, hi) # sps) =
     (if lo \<le> chi + 1 then join_spans (Some (clo, if chi < hi then hi else chi)) sps
      else (clo, chi) # join_spans (Some (lo, hi)) sps)"

definition family_ranges :: "bool \<Rightarrow> span list \<Rightarrow> string list" where
  "family_ranges v6 spans =
     concat (map (\<lambda>(lo, hi). bigRangeToCidrs lo hi v6) (join_spans None (sort_key fst spans)))"

record dbip_result =
  dr_ranges :: "string list"
  dr_rows :: nat
  dr_per_country :: "(string \<times> nat) list"

definition parseDbip :: "string \<Rightarrow> string list \<Rightarrow> geo_error + dbip_result" where
  "parseDbip csvText countries =
     bind_res (fold_res (dbip_line countries) (split_on (CHR 0x0A) csvText)
         \<lparr>da_v4 = [], da_v6 = [], da_rows = 0, da_per_country = map (\<lambda>c. (c, 0)) (uniq countries)\<rparr>)
       (\<lambda>a. let ranges = family_ranges False (da_v4 a) @ family_ranges True (da_v6 a)
            in case find (\<lambda>c. \<not> isCidr c) ranges of
                 Some c \<Rightarrow> Inl (BadNet c)
               | None \<Rightarrow> Inr \<lparr>dr_ranges = ranges, dr_rows = da_rows a, dr_per_country = da_per_country a\<rparr>)"


subsection \<open>The blocks of a range\<close>

definition block_set :: "int \<times> nat \<Rightarrow> int set" where
  "block_set b = {fst b..<fst b + 2 ^ snd b}"

definition aligned :: "int \<times> nat \<Rightarrow> bool" where
  "aligned b \<longleftrightarrow> fst b mod 2 ^ snd b = 0"

lemma block_size_props:
  "lo mod 2 ^ sz = 0 \<Longrightarrow> lo + 2 ^ sz - 1 \<le> hi \<Longrightarrow> sz \<le> bits \<Longrightarrow>
   sz \<le> block_size bits lo hi sz \<and> block_size bits lo hi sz \<le> bits
   \<and> lo mod 2 ^ block_size bits lo hi sz = 0 \<and> lo + 2 ^ block_size bits lo hi sz - 1 \<le> hi"
proof (induction bits lo hi sz rule: block_size.induct)
  case (1 bits lo hi sz)
  show ?case
  proof (cases "sz < bits \<and> lo mod 2 ^ Suc sz = 0 \<and> lo + 2 ^ Suc sz - 1 \<le> hi")
    case True
    with "1.IH" show ?thesis by (subst (1 2 3 4) block_size.simps) (simp del: power_Suc)
  next
    case False
    with "1.prems" show ?thesis by (subst (1 2 3 4) block_size.simps) (auto simp del: power_Suc)
  qed
qed

lemma mod_power_mono: "(x :: int) mod 2 ^ n = 0 \<Longrightarrow> m \<le> n \<Longrightarrow> x mod 2 ^ m = 0"
  by (meson dvd_eq_mod_eq_0 dvd_trans le_imp_power_dvd)

lemma block_size_maximal:
  "sz \<le> k \<Longrightarrow> k \<le> bits \<Longrightarrow> lo mod 2 ^ k = 0 \<Longrightarrow> lo + 2 ^ k - 1 \<le> hi \<Longrightarrow> k \<le> block_size bits lo hi sz"
proof (induction bits lo hi sz rule: block_size.induct)
  case (1 bits lo hi sz)
  show ?case
  proof (cases "sz = k")
    case True
    then show ?thesis
      using "1.prems" by (subst block_size.simps)
        (use block_size_props [of lo "Suc k" hi bits] in \<open>auto simp del: power_Suc\<close>)
  next
    case False
    with "1.prems" have s: "Suc sz \<le> k" by simp
    have "(2 :: int) ^ Suc sz \<le> 2 ^ k" using s by (rule power_increasing) simp
    then have "sz < bits \<and> lo mod 2 ^ Suc sz = 0 \<and> lo + 2 ^ Suc sz - 1 \<le> hi"
      using "1.prems" s mod_power_mono [OF "1.prems"(3) s] by linarith
    with "1.IH" [OF this] "1.prems" s show ?thesis by (subst block_size.simps) (simp del: power_Suc)
  qed
qed

lemma block_size_0:
  assumes "lo \<le> hi"
  shows "block_size bits lo hi 0 \<le> bits" "aligned (lo, block_size bits lo hi 0)"
    "lo + 2 ^ block_size bits lo hi 0 - 1 \<le> hi"
  using block_size_props [of lo 0 hi bits] assms by (simp_all add: aligned_def)

lemma range_blocks_Cons:
  "lo \<le> hi \<Longrightarrow> range_blocks bits lo hi =
     (lo, block_size bits lo hi 0) # range_blocks bits (lo + 2 ^ block_size bits lo hi 0) hi"
  by (subst range_blocks.simps) (simp add: Let_def)

lemma range_blocks_Nil: "hi < lo \<Longrightarrow> range_blocks bits lo hi = []"
  by (subst range_blocks.simps) simp

lemma split_interval:
  "0 < m \<Longrightarrow> lo + m - 1 \<le> hi \<Longrightarrow> {lo..<lo + m} \<union> {lo + m..hi} = {lo..hi}"
  "0 < m \<Longrightarrow> lo + m - 1 \<le> hi \<Longrightarrow> {lo..<lo + m} \<subseteq> {lo..hi}"
  for m :: int
  by auto

lemma block_ends: "fst b \<in> block_set b" "fst b + 2 ^ snd b - 1 \<in> block_set b"
  by (simp_all add: block_set_def)

lemma range_blocks_props:
  "(\<Union>b \<in> set (range_blocks bits lo hi). block_set b) = {lo..hi}
   \<and> (\<forall>b \<in> set (range_blocks bits lo hi). aligned b \<and> snd b \<le> bits \<and> block_set b \<subseteq> {lo..hi})
   \<and> sorted_wrt (\<lambda>b c. fst b + 2 ^ snd b \<le> fst c) (range_blocks bits lo hi)"
proof (induction bits lo hi rule: range_blocks.induct)
  case (1 bits lo hi)
  show ?case
  proof (cases "lo \<le> hi")
    case True
    let ?n = "block_size bits lo hi 0" and ?bs = "range_blocks bits (lo + 2 ^ block_size bits lo hi 0) hi"
    note b0 = block_size_0 [OF True, of bits]
    have IH: "(\<Union>b \<in> set ?bs. block_set b) = {lo + 2 ^ ?n..hi}"
      "\<forall>b \<in> set ?bs. aligned b \<and> snd b \<le> bits \<and> block_set b \<subseteq> {lo + 2 ^ ?n..hi}"
      "sorted_wrt (\<lambda>b c. fst b + 2 ^ snd b \<le> fst c) ?bs"
      using "1.IH" [OF True refl] by blast+
    have first: "block_set (lo, ?n) \<union> {lo + 2 ^ ?n..hi} = {lo..hi}" "block_set (lo, ?n) \<subseteq> {lo..hi}"
      using split_interval [OF _ b0(3)] by (simp_all add: block_set_def)
    have "fst b \<in> block_set b" for b by (simp add: block_set_def)
    with IH(2) have later: "\<forall>b \<in> set ?bs. lo + 2 ^ ?n \<le> fst b" by fastforce
    have widen: "{lo + 2 ^ ?n..hi} \<subseteq> {lo..hi}" by simp
    show ?thesis
      unfolding range_blocks_Cons [OF True]
      using IH first later widen b0 by (simp, blast)
  next
    case False
    then show ?thesis by (simp add: range_blocks_Nil)
  qed
qed

lemma aligned_laminar:
  assumes "aligned b" "aligned c" "block_set b \<inter> block_set c \<noteq> {}" "snd b \<le> snd c"
  shows "block_set b \<subseteq> block_set c"
proof -
  obtain u where u: "fst b = 2 ^ snd b * u" using assms(1) by (auto simp: aligned_def)
  obtain v where v: "fst c = 2 ^ snd c * v" using assms(2) by (auto simp: aligned_def)
  obtain k where k: "snd c = snd b + k" using assms(4) le_Suc_ex by blast
  let ?m = "2 ^ snd b :: int" and ?w = "2 ^ k * v"
  have c: "fst c = ?m * ?w" "fst c + 2 ^ snd c = ?m * (?w + 2 ^ k)"
    by (simp_all add: v k power_add algebra_simps)
  have "?m * u < ?m * (?w + 2 ^ k)" "?m * ?w < ?m * (u + 1)"
    using assms(3) c u by (auto simp: block_set_def algebra_simps)
  then have "u + 1 \<le> ?w + 2 ^ k" "?w \<le> u" by (simp_all add: mult_less_cancel_left)
  then have "?m * (u + 1) \<le> ?m * (?w + 2 ^ k)" "?m * ?w \<le> ?m * u" by simp_all
  then show ?thesis using c u by (auto simp: block_set_def algebra_simps)
qed

text \<open>Every list of aligned blocks that covers exactly the range has at least as many members.\<close>

lemma range_blocks_minimal:
  "\<forall>b \<in> set bs. aligned b \<and> snd b \<le> bits \<Longrightarrow> (\<Union>b \<in> set bs. block_set b) = {lo..hi}
   \<Longrightarrow> length (range_blocks bits lo hi) \<le> length bs"
proof (induction bits lo hi arbitrary: bs rule: range_blocks.induct)
  case (1 bits lo hi)
  show ?case
  proof (cases "lo \<le> hi")
    case False
    then show ?thesis by (simp add: range_blocks_Nil)
  next
    case True
    let ?n = "block_size bits lo hi 0"
    let ?g = "(lo, ?n)"
    let ?rest = "filter (\<lambda>b. \<not> block_set b \<subseteq> block_set ?g) bs"
    note b0 = block_size_0 [OF True, of bits]
    have sub: "block_set b \<subseteq> {lo..hi}" if "b \<in> set bs" for b using "1.prems"(2) that by blast
    have inside: "block_set b \<subseteq> block_set ?g" if b: "b \<in> set bs" "block_set b \<inter> block_set ?g \<noteq> {}" for b
    proof (rule ccontr)
      assume out: "\<not> block_set b \<subseteq> block_set ?g"
      have ab: "aligned b" "snd b \<le> bits" using "1.prems"(1) b(1) by auto
      have "\<not> snd b \<le> ?n" using aligned_laminar [OF ab(1) b0(2) b(2)] out by auto
      then have "block_set ?g \<subseteq> block_set b"
        using aligned_laminar [OF b0(2) ab(1)] b(2) by (simp add: Int_commute)
      moreover have "lo \<in> block_set ?g" by (simp add: block_set_def)
      ultimately have "lo \<in> block_set b" by blast
      moreover have "fst b \<in> {lo..hi}" "fst b + 2 ^ snd b - 1 \<in> {lo..hi}"
        using sub [OF b(1)] block_ends by blast+
      ultimately have "fst b = lo" "lo + 2 ^ snd b - 1 \<le> hi" by (auto simp: block_set_def)
      then have "snd b \<le> ?n" using ab by (intro block_size_maximal) (auto simp: aligned_def)
      with \<open>\<not> snd b \<le> ?n\<close> show False by simp
    qed
    have "lo \<in> (\<Union>b \<in> set bs. block_set b)" using "1.prems"(2) True by simp
    then obtain b where b: "b \<in> set bs" "lo \<in> block_set b" by blast
    then have "block_set b \<subseteq> block_set ?g" by (intro inside) (auto simp: block_set_def)
    then have fewer: "length ?rest < length bs" using b(1) by (intro length_filter_less) auto
    have "(\<Union>b \<in> set ?rest. block_set b) = {lo..hi} - block_set ?g"
    proof
      show "(\<Union>b \<in> set ?rest. block_set b) \<subseteq> {lo..hi} - block_set ?g"
        using sub inside by fastforce
      show "{lo..hi} - block_set ?g \<subseteq> (\<Union>b \<in> set ?rest. block_set b)"
        unfolding "1.prems"(2) [symmetric] by fastforce
    qed
    also have "\<dots> = {lo + 2 ^ ?n..hi}" by (auto simp: block_set_def)
    finally have "length (range_blocks bits (lo + 2 ^ ?n) hi) \<le> length ?rest"
      using "1.IH" [OF True refl, of ?rest] "1.prems"(1) by simp
    with fewer show ?thesis by (simp add: range_blocks_Cons [OF True])
  qed
qed

text \<open>C25: The split of an address range into networks is exact and the smallest possible: the
  blocks are aligned networks of the family's width, they cover exactly the addresses from the
  first to the last one without overlapping, they come in address order, and no list of aligned
  networks that covers exactly this range is shorter.\<close>

theorem range_blocks_exact_minimal:
  "(\<Union>b \<in> set (range_blocks bits lo hi). block_set b) = {lo..hi}
   \<and> sorted_wrt (\<lambda>b c. fst b + 2 ^ snd b \<le> fst c) (range_blocks bits lo hi)
   \<and> list_all (\<lambda>b. aligned b \<and> snd b \<le> bits) (range_blocks bits lo hi)
   \<and> (\<forall>bs. list_all (\<lambda>b. aligned b \<and> snd b \<le> bits) bs \<and> (\<Union>b \<in> set bs. block_set b) = {lo..hi}
        \<longrightarrow> length (range_blocks bits lo hi) \<le> length bs)"
  using range_blocks_props [of bits lo hi] range_blocks_minimal [of _ bits lo hi]
  by (simp add: list_all_iff)

theorem range_blocks_exact_minimal_witness:
  "range_blocks 32 5 12 = [(5, 0), (6, 1), (8, 2), (12, 0)]
   \<and> 4 \<le> length [(5, 0), (6, 1), (8, 2), (12, 0 :: nat)]
   \<and> length (range_blocks 32 5 12) \<le> length [(5 :: int, 0), (6, 1), (8, 1), (10, 1), (12, 0 :: nat)]"
proof -
  have r: "range_blocks 32 5 12 = [(5, 0), (6, 1), (8, 2), (12, 0)]" by code_simp
  let ?bs = "[(5 :: int, 0), (6, 1), (8, 1), (10, 1), (12, 0 :: nat)]"
  have "list_all (\<lambda>b. aligned b \<and> snd b \<le> 32) ?bs \<and> (\<Union>b \<in> set ?bs. block_set b) = {5..12}"
    by (auto simp: aligned_def block_set_def)
  with range_blocks_exact_minimal [of 32 5 12] have "length (range_blocks 32 5 12) \<le> length ?bs"
    by blast
  with r show ?thesis by simp
qed


subsection \<open>Hexadecimal groups\<close>

lemma hex_digit_val: "d < 16 \<Longrightarrow> is_hex (hex_digit d) \<and> hex_val (hex_digit d) = d"
  by (auto simp: hex_digit_def is_hex_def hex_val_def is_digit_def of_char_of Let_def)

lemma radix_val_append:
  "radix_val b acc (xs @ ys) = Option.bind (radix_val b acc xs) (\<lambda>v. radix_val b v ys)"
  by (induction xs arbitrary: acc) auto

lemma radix_hex [simp]: "radix_val 16 0 (hex_of_nat n) = Some n"
proof (induction n rule: hex_of_nat.induct)
  case (1 n)
  then show ?case
    by (cases "n < 16") (auto simp: hex_of_nat.simps [of n] hex_digit_val radix_val_append)
qed

lemma hex_not_Nil [simp]: "hex_of_nat n \<noteq> []"
  by (subst hex_of_nat.simps) simp

lemma hex_all_hex [simp]: "list_all is_hex (hex_of_nat n)"
proof (induction n rule: hex_of_nat.induct)
  case (1 n)
  then show ?case by (subst hex_of_nat.simps) (simp add: hex_digit_val)
qed

lemma length_hex: "n < 16 ^ Suc k \<Longrightarrow> length (hex_of_nat n) \<le> Suc k"
proof (induction k arbitrary: n)
  case 0
  then show ?case by (simp add: hex_of_nat.simps [of n])
next
  case (Suc k)
  then have "n div 16 < 16 ^ Suc k" by simp
  from Suc.IH [OF this] show ?case by (simp add: hex_of_nat.simps [of n])
qed

lemma is_h16_hex: "n < 65536 \<Longrightarrow> is_h16 (hex_of_nat n)"
  using length_hex [of n 3] by (simp add: is_h16_def)

lemma hex_not_ws: "is_hex c \<Longrightarrow> \<not> js_ws c"
  by (auto simp: is_hex_def js_ws_def is_digit_def)

lemma hex_not_sep: "is_hex c \<Longrightarrow> c \<noteq> CHR '':'' \<and> c \<noteq> CHR ''/'' \<and> c \<noteq> CHR ''.''"
  by (auto simp: is_hex_def is_digit_def)

lemma js_bigint_hex: "js_bigint (''0x'' @ hex_of_nat n) = Some (int n)"
proof -
  have "\<forall>c \<in> set (''0x'' @ hex_of_nat n). \<not> js_ws c"
    using hex_all_hex [of n] by (auto simp: list_all_iff hex_not_ws) (simp_all add: js_ws_def)
  then have "trim (''0x'' @ hex_of_nat n) = ''0x'' @ hex_of_nat n" by (rule trim_no_ws)
  then show ?thesis by (simp add: js_bigint_def radix_int_def)
qed

lemma decimal_int_nat: "decimal_int (str_of_nat n) = Some (int n)"
  by (simp add: decimal_int_def)

lemma js_bigint_nat: "js_bigint (str_of_nat n) = Some (int n)"
proof -
  obtain c cs where s: "str_of_nat n = c # cs" by (cases "str_of_nat n") auto
  have d: "is_digit c" "list_all is_digit cs" using str_of_nat_digits [of n] s by simp_all
  have "take 2 (str_of_nat n) \<noteq> [a, b]" if "\<not> is_digit b" for a b
    using that d s by (cases cs) auto
  then have "take 2 (str_of_nat n) \<notin> {''0x'', ''0X'', ''0o'', ''0O'', ''0b'', ''0B''}"
    by (auto simp: is_digit_def)
  moreover have "c \<noteq> CHR ''-''" "c \<noteq> CHR ''+''" using d by (auto simp: is_digit_def)
  moreover have "trim (str_of_nat n) = str_of_nat n" by (simp add: trim_digits)
  ultimately show ?thesis
    using decimal_int_nat [of n] s unfolding js_bigint_def Let_def by auto
qed

subsection \<open>The group texts of an address\<close>

lemma fold_digits:
  "fold (\<lambda>k m. m * 2 ^ w + k) (map (\<lambda>i. n div 2 ^ (w * i) mod 2 ^ w) (rev [0..<j])) acc
     = acc * 2 ^ (w * j) + n mod 2 ^ (w * j)" for n acc :: int
proof (induction j arbitrary: acc)
  case (Suc j)
  let ?d = "n div 2 ^ (w * j) mod 2 ^ w"
  have "fold (\<lambda>k m. m * 2 ^ w + k) (map (\<lambda>i. n div 2 ^ (w * i) mod 2 ^ w) (rev [0..<Suc j])) acc
      = (acc * 2 ^ w + ?d) * 2 ^ (w * j) + n mod 2 ^ (w * j)"
    by (simp add: Suc.IH)
  also have "\<dots> = acc * 2 ^ (w * Suc j) + (2 ^ (w * j) * ?d + n mod 2 ^ (w * j))"
    by (simp add: power_add algebra_simps)
  also have "2 ^ (w * j) * ?d + n mod 2 ^ (w * j) = n mod 2 ^ (w * Suc j)"
    using zmod_zmult2_eq [of "2 ^ w" n "2 ^ (w * j)"] by (simp add: power_add mult.commute)
  finally show ?case .
qed simp

lemma digits_nonneg: "\<forall>k \<in> set (map (\<lambda>i. n div 2 ^ (w * i) mod 2 ^ w) js). 0 \<le> k" for n :: int
  by simp

lemma fold_v6_step:
  "\<forall>k \<in> set ks. 0 \<le> k \<Longrightarrow>
   fold_res v6_step (map (\<lambda>k. hex_of_nat (nat k)) ks) acc = Inr (fold (\<lambda>k n. n * 2 ^ 16 + k) ks acc)"
  by (induction ks arbitrary: acc) (simp_all add: v6_step_def bigint_def js_bigint_hex [simplified])

lemma shifts_8: "rev [0..<8] = [7, 6, 5, 4, 3, 2, 1, 0]"
  by (simp add: upt_rec)

lemma shifts_4: "rev [0..<4] = [3, 2, 1, 0]"
  by (simp add: upt_rec)

lemma v6_hex_groups_alt:
  "v6_hex_groups n = map (\<lambda>k. hex_of_nat (nat k)) (map (\<lambda>i. n div 2 ^ (16 * i) mod 2 ^ 16) (rev [0..<8]))"
  by (simp add: v6_hex_groups_def shifts_8)

lemma v6_hex_fold:
  assumes "0 \<le> n" "n < 2 ^ 128"
  shows "fold_res v6_step (v6_hex_groups n) 0 = Inr n"
proof -
  have "fold_res v6_step (v6_hex_groups n) 0 = Inr (n mod 2 ^ (16 * 8))"
    using fold_digits [of 16 n 8 0] unfolding v6_hex_groups_alt fold_v6_step [OF digits_nonneg]
    by (simp only: mult_zero_left add_0)
  then show ?thesis using assms by simp
qed

lemma no_sep_nat: "c \<in> set (str_of_nat n) \<Longrightarrow> c \<noteq> CHR ''.'' \<and> c \<noteq> CHR ''/'' \<and> c \<noteq> CHR '':''"
  using str_of_nat_digits [of n] by (auto simp: list_all_iff is_digit_def)

definition v4_octets :: "int \<Rightarrow> int list" where
  "v4_octets n = map (\<lambda>i. n div 2 ^ (8 * i) mod 2 ^ 8) (rev [0..<4])"

lemma bigToV4_alt: "bigToV4 n = join ''.'' (map (\<lambda>k. str_of_nat (nat k)) (v4_octets n))"
proof -
  have "str_of_int (k mod 256) = str_of_nat (nat (k mod 256))" for k
    by (simp add: str_of_int_def)
  moreover have "v4_octets n = map (\<lambda>s. n div 2 ^ s mod 256) [24, 16, 8, 0]"
    by (simp add: v4_octets_def shifts_4)
  ultimately show ?thesis unfolding bigToV4_def by (simp only: list.map)
qed

lemma fold_v4_step:
  "\<forall>k \<in> set ks. 0 \<le> k \<Longrightarrow>
   fold_res (\<lambda>g n. bind_res (bigint g) (\<lambda>i. Inr (n * 2 ^ 8 + i))) (map (\<lambda>k. str_of_nat (nat k)) ks) acc
     = Inr (fold (\<lambda>k n. n * 2 ^ 8 + k) ks acc)"
  by (induction ks arbitrary: acc) (simp_all add: bigint_def js_bigint_nat)

lemma split_bigToV4: "split_on CHR ''.'' (bigToV4 n) = map (\<lambda>k. str_of_nat (nat k)) (v4_octets n)"
  unfolding bigToV4_alt using no_sep_nat by (intro split_on_join) (auto simp: v4_octets_def)

lemma v4_roundtrip:
  assumes "0 \<le> n" "n < 2 ^ 32"
  shows "v4ToBig (bigToV4 n) = Inr n"
proof -
  have "v4ToBig (bigToV4 n) = Inr (n mod 2 ^ (8 * 4))"
    using fold_digits [of 8 n 4 0] unfolding v4ToBig_def split_bigToV4 v4_octets_def
      fold_v4_step [OF digits_nonneg] by (simp only: mult_zero_left add_0)
  then show ?thesis using assms by simp
qed


subsection \<open>The compressed text of an IPv6 address\<close>

definition group_ok :: "string \<Rightarrow> bool" where
  "group_ok g \<longleftrightarrow> g \<noteq> [] \<and> CHR '':'' \<notin> set g"

lemma group_ok_hex: "group_ok (hex_of_nat k)"
proof -
  have "CHR '':'' \<notin> set (hex_of_nat k)"
    using hex_all_hex [of k] hex_not_sep by (auto simp: list_all_iff)
  then show ?thesis by (simp add: group_ok_def)
qed

lemma split_dc_group: "CHR '':'' \<notin> set g \<Longrightarrow> split_dc g = None"
  by (induction g rule: split_dc.induct) auto

lemma split_dc_cons:
  assumes "group_ok g" "s \<noteq> []" "hd s \<noteq> CHR '':''" "split_dc s = None"
  shows "split_dc (g @ CHR '':'' # s) = None"
  using assms(1)
proof (induction g)
  case (Cons c cs)
  obtain d ds where s: "s = d # ds" "d \<noteq> CHR '':''" using assms(2,3) by (cases s) auto
  show ?case
  proof (cases cs)
    case Nil
    with Cons.prems s assms(4) show ?thesis by (simp add: group_ok_def)
  next
    case (Cons e es)
    with Cons.prems Cons.IH show ?thesis by (auto simp: group_ok_def)
  qed
qed (simp add: group_ok_def)

lemma group_ends: "group_ok g \<Longrightarrow> g \<noteq> [] \<and> hd g \<noteq> CHR '':'' \<and> last g \<noteq> CHR '':''"
  unfolding group_ok_def by (metis hd_in_set last_in_set)

lemma join_groups:
  "gs \<noteq> [] \<Longrightarrow> \<forall>g \<in> set gs. group_ok g \<Longrightarrow>
   join '':'' gs \<noteq> [] \<and> hd (join '':'' gs) \<noteq> CHR '':'' \<and> last (join '':'' gs) \<noteq> CHR '':''
   \<and> split_dc (join '':'' gs) = None"
proof (induction gs rule: induct_list012)
  case (2 x)
  then have "group_ok x" by simp
  then show ?case using group_ends [of x] split_dc_group [of x] by (simp add: group_ok_def)
next
  case (3 x y zs)
  let ?s = "join '':'' (y # zs)"
  have x: "group_ok x" using "3.prems" by simp
  have IH: "?s \<noteq> []" "hd ?s \<noteq> CHR '':''" "last ?s \<noteq> CHR '':''" "split_dc ?s = None"
    using "3.IH"(2) "3.prems" by (simp_all del: join.simps)
  have j: "join '':'' (x # y # zs) = x @ CHR '':'' # ?s" by simp
  show ?case
    unfolding j using group_ends [OF x] IH split_dc_cons [OF x IH(1,2,4)]
    by (simp del: join.simps)
qed simp

lemma colon_groups_join: "\<forall>g \<in> set gs. group_ok g \<Longrightarrow> colon_groups (join '':'' gs) = gs"
proof (cases "gs = []")
  case False
  assume ok: "\<forall>g \<in> set gs. group_ok g"
  then have "split_on CHR '':'' (join '':'' gs) = gs"
    using False by (intro split_on_join) (auto simp: group_ok_def)
  then show ?thesis using join_groups [OF False ok] by (simp add: colon_groups_def)
qed (simp add: colon_groups_def)

lemma split_dc_append:
  "split_dc s = None \<Longrightarrow> s = [] \<or> last s \<noteq> CHR '':'' \<Longrightarrow> split_dc (s @ CHR '':'' # CHR '':'' # t) = Some (s, t)"
  by (induction s rule: split_dc.induct) (auto split: if_splits)

lemma join_dc: "\<forall>g \<in> set gs. group_ok g \<Longrightarrow> split_dc (join '':'' gs) = None
    \<and> (join '':'' gs = [] \<or> last (join '':'' gs) \<noteq> CHR '':'')"
  using join_groups [of gs] by (cases "gs = []") auto

definition run_in :: "string list \<Rightarrow> (nat \<times> nat) option \<Rightarrow> bool" where
  "run_in gs r \<longleftrightarrow> (case r of None \<Rightarrow> True
     | Some (b, l) \<Rightarrow> 1 < l \<and> b + l \<le> length gs \<and> take l (drop b gs) = replicate l ''0'')"

lemma zero_run_in: "zero_run gs i \<le> length gs - i" "take (zero_run gs i) (drop i gs) = replicate (zero_run gs i) ''0''"
proof -
  let ?t = "takeWhile (\<lambda>g. g = ''0'') (drop i gs)"
  show "zero_run gs i \<le> length gs - i"
    using length_takeWhile_le [of "\<lambda>g. g = ''0''" "drop i gs"] by (simp add: zero_run_def)
  have "take (zero_run gs i) (drop i gs) = ?t" by (simp add: zero_run_def takeWhile_eq_take [symmetric])
  also have "\<dots> = replicate (length ?t) ''0''"
    by (intro replicate_eqI) (auto dest: set_takeWhileD)
  finally show "take (zero_run gs i) (drop i gs) = replicate (zero_run gs i) ''0''"
    by (simp add: zero_run_def)
qed

lemma best_run_in: "run_in gs best \<Longrightarrow> i \<le> length gs \<Longrightarrow> run_in gs (best_run gs i best)"
proof (induction gs i best rule: best_run.induct)
  case (1 gs i best)
  show ?case
  proof (cases "length gs \<le> i \<or> gs ! i \<noteq> ''0''")
    case True
    with "1.IH"(1) "1.prems" show ?thesis by (subst best_run.simps) auto
  next
    case False
    let ?l = "zero_run gs i"
    let ?b = "if 1 < ?l \<and> (case best of None \<Rightarrow> True | Some (_, m) \<Rightarrow> m < ?l) then Some (i, ?l) else best"
    have "i + ?l \<le> length gs" using zero_run_in(1) [of gs i] False by linarith
    moreover have "run_in gs ?b"
      using "1.prems" zero_run_in [of gs i] calculation by (simp add: run_in_def)
    ultimately have "run_in gs (best_run gs (i + ?l) ?b)" using "1.IH"(2) False by simp
    with False show ?thesis by (subst best_run.simps) (simp add: Let_def)
  qed
qed

lemma v6_groups_text:
  assumes "length gs = 8" "\<forall>g \<in> set gs. group_ok g" "run_in gs r"
  shows "v6_groups (case r of None \<Rightarrow> join '':'' gs
         | Some (b, l) \<Rightarrow> join '':'' (take b gs) @ ''::'' @ join '':'' (drop (b + l) gs)) = Inr gs"
proof (cases r)
  case None
  then show ?thesis using join_dc [OF assms(2)] colon_groups_join [OF assms(2)] by (simp add: v6_groups_def)
next
  case (Some bl)
  obtain b l where bl: "bl = (b, l)" by (cases bl)
  with Some assms have l: "b + l \<le> 8" "take l (drop b gs) = replicate l ''0''"
    by (simp_all add: run_in_def)
  have h: "\<forall>g \<in> set (take b gs). group_ok g" and t: "\<forall>g \<in> set (drop (b + l) gs). group_ok g"
    using assms(2) by (auto dest: in_set_takeD in_set_dropD)
  have "gs = take b gs @ take l (drop b gs) @ drop l (drop b gs)" by (metis append_take_drop_id)
  then have "gs = take b gs @ replicate l ''0'' @ drop (b + l) gs" using l(2) by (simp add: add.commute)
  then show ?thesis
    using Some bl l(1) assms(1) join_dc [OF h] join_dc [OF t] colon_groups_join [OF h] colon_groups_join [OF t]
      split_dc_append [of "join '':'' (take b gs)" "join '':'' (drop (b + l) gs)"]
    by (simp add: v6_groups_def Let_def)
qed

lemma v6_text_groups: "v6_groups (bigToV6 n) = Inr (v6_hex_groups n)"
proof -
  have "\<forall>g \<in> set (v6_hex_groups n). group_ok g" by (auto simp: v6_hex_groups_def group_ok_hex)
  moreover have "run_in (v6_hex_groups n) (best_run (v6_hex_groups n) 0 None)"
    by (rule best_run_in) (simp_all add: run_in_def)
  ultimately show ?thesis
    unfolding bigToV6_def Let_def by (intro v6_groups_text) (simp_all add: v6_hex_groups_def)
qed

lemma v6_roundtrip: "0 \<le> n \<Longrightarrow> n < 2 ^ 128 \<Longrightarrow> v6ToBig (bigToV6 n) = Inr n"
  by (simp add: v6ToBig_def v6_text_groups v6_hex_fold) (simp add: v6_hex_groups_def)

text \<open>C26: Printing an address and reading it back gives the address, for both families: the IPv6
  text with its longest run of zero groups compressed to a double colon is read as the same
  128-bit value, and an IPv4 text as the same 32-bit value.\<close>

theorem address_text_roundtrip:
  assumes "0 \<le> n" and "n < 2 ^ addr_bits v6"
  shows "to_big v6 (of_big v6 n) = Inr n"
  using assms v4_roundtrip v6_roundtrip by (simp add: to_big_def of_big_def addr_bits_def split: if_splits)

theorem address_text_roundtrip_witness:
  "of_big True (2 ^ 125 + 5) = ''2000::5'' \<and> to_big True (of_big True (2 ^ 125 + 5)) = Inr (2 ^ 125 + 5)"
proof
  show "of_big True (2 ^ 125 + 5) = ''2000::5''" by code_simp
  show "to_big True (of_big True (2 ^ 125 + 5)) = Inr (2 ^ 125 + 5)"
    by (rule address_text_roundtrip) (simp_all add: addr_bits_def)
qed


subsection \<open>The laws of an address family\<close>

text \<open>
  What the table reader relies on: printing an address of the family and reading it back gives
  the address, and the text has no slash.
\<close>

definition text_block :: "(string \<Rightarrow> geo_error + int) \<Rightarrow> nat \<Rightarrow> string \<Rightarrow> int set option" where
  "text_block dec bits c = (case split_on CHR ''/'' c of
       [a, p] \<Rightarrow> (case dec a of Inr n \<Rightarrow> Some (block_set (n, bits - nat_of_digits p)) | Inl e \<Rightarrow> None)
     | _ \<Rightarrow> None)"

locale address_family =
  fixes bits :: nat
    and enc :: "int \<Rightarrow> string"
    and dec :: "string \<Rightarrow> geo_error + int"
  assumes dec_enc: "0 \<le> n \<Longrightarrow> n < 2 ^ bits \<Longrightarrow> dec (enc n) = Inr n"
    and enc_no_slash: "CHR ''/'' \<notin> set (enc n)"
begin

lemma block_of_text:
  assumes "0 \<le> n" "n < 2 ^ bits" "k \<le> bits"
  shows "text_block dec bits (enc n @ ''/'' @ str_of_nat (bits - k)) = Some (block_set (n, k))"
proof -
  have "split_on CHR ''/'' (enc n @ CHR ''/'' # str_of_nat (bits - k)) = [enc n, str_of_nat (bits - k)]"
    using no_sep_nat by (subst split_on_append_sep [OF enc_no_slash]) (auto intro: split_on_no_sep)
  then show ?thesis using assms dec_enc by (simp add: text_block_def)
qed

lemma range_texts:
  assumes "0 \<le> lo" "hi < 2 ^ bits"
  shows "(\<exists>b \<in> set (range_blocks bits lo hi).
       \<exists>R. text_block dec bits (enc (fst b) @ ''/'' @ str_of_nat (bits - snd b)) = Some R \<and> x \<in> R)
     \<longleftrightarrow> lo \<le> x \<and> x \<le> hi"
proof -
  let ?bs = "range_blocks bits lo hi"
  have texts: "text_block dec bits (enc (fst b) @ ''/'' @ str_of_nat (bits - snd b)) = Some (block_set b)"
    if "b \<in> set ?bs" for b
  proof -
    have k: "snd b \<le> bits" and "block_set b \<subseteq> {lo..hi}"
      using range_blocks_props [of bits lo hi] that by blast+
    then have "fst b \<in> {lo..hi}" using block_ends(1) [of b] by blast
    with assms have n: "0 \<le> fst b" "fst b < 2 ^ bits" by simp_all
    show ?thesis using block_of_text [OF n k] by (simp only: prod.collapse)
  qed
  have "(\<exists>b \<in> set ?bs.
       \<exists>R. text_block dec bits (enc (fst b) @ ''/'' @ str_of_nat (bits - snd b)) = Some R \<and> x \<in> R)
     \<longleftrightarrow> (\<exists>b \<in> set ?bs. x \<in> block_set b)"
    by (intro bex_cong refl) (simp only: texts option.inject simp_thms)
  also have "\<dots> \<longleftrightarrow> x \<in> (\<Union>b \<in> set ?bs. block_set b)" by blast
  also have "(\<Union>b \<in> set ?bs. block_set b) = {lo..hi}"
    using range_blocks_props [of bits lo hi] by blast
  finally show ?thesis by (simp only: atLeastAtMost_iff)
qed

end

lemma set_join: "c \<in> set (join sep gs) \<Longrightarrow> c \<in> set sep \<or> (\<exists>g \<in> set gs. c \<in> set g)"
  by (induction sep gs rule: join.induct) auto

lemma v4_chars: "c \<in> set (bigToV4 n) \<Longrightarrow> is_digit c \<or> c = CHR ''.''"
  using str_of_nat_digits by (auto simp: bigToV4_alt list_all_iff dest!: set_join)

lemma v6_chars: "c \<in> set (bigToV6 n) \<Longrightarrow> is_hex c \<or> c = CHR '':''"
proof -
  have hex: "is_hex d" if "d \<in> set g" "g \<in> set (v6_hex_groups n)" for d g
    using that hex_all_hex by (auto simp: v6_hex_groups_def list_all_iff)
  assume c: "c \<in> set (bigToV6 n)"
  show ?thesis
  proof (cases "best_run (v6_hex_groups n) 0 None")
    case None
    with c hex show ?thesis unfolding bigToV6_def Let_def by (auto dest!: set_join)
  next
    case (Some r)
    obtain b l where "r = (b, l)" by (cases r)
    with Some c have "c \<in> set (join '':'' (take b (v6_hex_groups n))) \<or> c = CHR '':''
        \<or> c \<in> set (join '':'' (drop (b + l) (v6_hex_groups n)))"
      unfolding bigToV6_def Let_def by auto
    with hex show ?thesis by (auto dest!: set_join in_set_takeD in_set_dropD)
  qed
qed

lemma no_slash_texts: "CHR ''/'' \<notin> set (bigToV4 n)" "CHR ''/'' \<notin> set (bigToV6 n)"
  using v4_chars [of "CHR ''/''" n] v6_chars [of "CHR ''/''" n] hex_not_sep [of "CHR ''/''"]
  by (auto simp: is_digit_def)

interpretation v4: address_family 32 bigToV4 v4ToBig
  by unfold_locales (simp_all add: v4_roundtrip no_slash_texts)

interpretation v6: address_family 128 bigToV6 v6ToBig
  by unfold_locales (simp_all add: v6_roundtrip no_slash_texts)


subsection \<open>The table reader\<close>

definition span_set :: "span \<Rightarrow> int set" where
  "span_set sp = {fst sp..snd sp}"

definition opt_list :: "'a option \<Rightarrow> 'a list" where
  "opt_list x = (case x of None \<Rightarrow> [] | Some y \<Rightarrow> [y])"

lemma join_spans_cover:
  "sorted (map fst (opt_list cur @ sps)) \<Longrightarrow> \<forall>sp \<in> set (opt_list cur @ sps). fst sp \<le> snd sp \<Longrightarrow>
   (\<Union>sp \<in> set (join_spans cur sps). span_set sp) = (\<Union>sp \<in> set (opt_list cur @ sps). span_set sp)"
proof (induction cur sps rule: join_spans.induct)
  case (3 clo chi lo hi sps)
  let ?m = "(clo, if chi < hi then hi else chi)"
  show ?case
  proof (cases "lo \<le> chi + 1")
    case True
    have "span_set ?m = span_set (clo, chi) \<union> span_set (lo, hi)"
      using True "3.prems" by (auto simp: span_set_def opt_list_def)
    moreover have "(\<Union>sp \<in> set (join_spans (Some ?m) sps). span_set sp)
        = (\<Union>sp \<in> set (opt_list (Some ?m) @ sps). span_set sp)"
      using "3.prems" by (intro "3.IH"(1) [OF True]) (auto simp: opt_list_def)
    ultimately show ?thesis using True by (auto simp: opt_list_def)
  next
    case False
    have "(\<Union>sp \<in> set (join_spans (Some (lo, hi)) sps). span_set sp)
        = (\<Union>sp \<in> set (opt_list (Some (lo, hi)) @ sps). span_set sp)"
      using "3.prems" by (intro "3.IH"(2) [OF False]) (auto simp: opt_list_def)
    with False show ?thesis by (auto simp: opt_list_def)
  qed
qed (auto simp: opt_list_def split: option.splits)

text \<open>Joined spans stay inside the width of the family.\<close>

lemma join_spans_bounds:
  "\<forall>sp \<in> set (opt_list cur @ sps). a \<le> fst sp \<and> snd sp \<le> b \<Longrightarrow>
   sp \<in> set (join_spans cur sps) \<Longrightarrow> a \<le> fst sp \<and> snd sp \<le> b"
proof (induction cur sps rule: join_spans.induct)
  case (3 clo chi lo hi sps)
  then show ?case by (cases "lo \<le> chi + 1") (auto simp: opt_list_def)
qed (auto simp: opt_list_def split: option.splits)

text \<open>No two joined spans touch: there is a gap between any two of them.\<close>

lemma join_spans_first: "sp \<in> set (join_spans (Some (clo, chi)) sps) \<Longrightarrow> sorted (map fst ((clo, chi) # sps)) \<Longrightarrow> clo \<le> fst sp"
proof (induction sps arbitrary: clo chi)
  case (Cons q sps)
  obtain lo hi where q: "q = (lo, hi)" by (cases q)
  show ?case
  proof (cases "lo \<le> chi + 1")
    case True
    with Cons q show ?thesis by (auto split: if_splits)
  next
    case False
    then have "sp = (clo, chi) \<or> sp \<in> set (join_spans (Some (lo, hi)) sps)" using Cons.prems(1) q by simp
    moreover have "lo \<le> fst sp" if "sp \<in> set (join_spans (Some (lo, hi)) sps)"
      using that Cons.prems(2) q by (intro Cons.IH) auto
    moreover have "clo \<le> lo" using Cons.prems(2) q by simp
    ultimately show ?thesis by fastforce
  qed
qed simp

lemma join_spans_gaps:
  "sorted (map fst (opt_list cur @ sps)) \<Longrightarrow>
   sorted_wrt (\<lambda>p q. snd p + 1 < fst q) (join_spans cur sps)"
proof (induction cur sps rule: join_spans.induct)
  case (3 clo chi lo hi sps)
  show ?case
  proof (cases "lo \<le> chi + 1")
    case True
    with "3.IH"(1) "3.prems" show ?thesis by (simp add: opt_list_def)
  next
    case False
    have "lo \<le> fst q" if "q \<in> set (join_spans (Some (lo, hi)) sps)" for q
      using that "3.prems" by (intro join_spans_first) (auto simp: opt_list_def)
    then have "chi + 1 < fst q" if "q \<in> set (join_spans (Some (lo, hi)) sps)" for q
      using that False by fastforce
    with False "3.IH"(2) "3.prems" show ?thesis by (simp add: opt_list_def del: split_paired_All)
  qed
qed (auto simp: opt_list_def split: option.splits)

text \<open>The spans of one family in the wanted rows of a table.\<close>

definition line_spans :: "string list \<Rightarrow> bool \<Rightarrow> string \<Rightarrow> span list" where
  "line_spans countries v6 line =
     (if line = [] then []
      else case wanted_row countries line of None \<Rightarrow> []
        | Some (s, e, cc) \<Rightarrow> (case row_span s e of Inr (f, sp) \<Rightarrow> if f = v6 then [sp] else [] | Inl _ \<Rightarrow> []))"

definition wanted_spans :: "string list \<Rightarrow> bool \<Rightarrow> string \<Rightarrow> span list" where
  "wanted_spans countries v6 csv = concat (map (line_spans countries v6) (split_on (CHR 0x0A) csv))"

definition acc_spans :: "bool \<Rightarrow> dbip_acc \<Rightarrow> span list" where
  "acc_spans v6 a = (if v6 then da_v6 a else da_v4 a)"

lemma acc_spans_add:
  "acc_spans v6 ((add_span f sp a)\<lparr>da_per_country := m\<rparr>) = acc_spans v6 a @ (if f = v6 then [sp] else [])"
  "acc_spans v6 (a\<lparr>da_rows := n\<rparr>) = acc_spans v6 a"
  by (simp_all add: acc_spans_def add_span_def)

lemma dbip_line_spans:
  "dbip_line cs line a = Inr a' \<Longrightarrow> acc_spans v6 a' = acc_spans v6 a @ line_spans cs v6 line"
  by (auto simp: dbip_line_def line_spans_def acc_spans_add bind_res_iff Let_def
      split: if_splits option.splits prod.splits)

lemma dbip_lines_spans:
  "fold_res (dbip_line cs) ls a = Inr a' \<Longrightarrow> acc_spans v6 a' = acc_spans v6 a @ concat (map (line_spans cs v6) ls)"
proof (induction ls arbitrary: a)
  case (Cons l ls)
  then obtain b where "dbip_line cs l a = Inr b" "fold_res (dbip_line cs) ls b = Inr a'"
    by (auto simp: bind_res_iff)
  with Cons.IH dbip_line_spans [of cs l a b v6] show ?case by simp
qed simp

lemma row_span_ordered: "row_span s e = Inr (f, sp) \<Longrightarrow> fst sp \<le> snd sp"
  by (auto simp: row_span_def bind_res_iff Let_def split: if_splits)

lemma line_spans_ordered: "sp \<in> set (line_spans cs v6 line) \<Longrightarrow> fst sp \<le> snd sp"
  by (auto simp: line_spans_def split: if_splits option.splits prod.splits sum.splits
      dest!: row_span_ordered [OF sym])

lemma wanted_spans_ordered: "sp \<in> set (wanted_spans cs v6 csv) \<Longrightarrow> fst sp \<le> snd sp"
  using line_spans_ordered by (auto simp: wanted_spans_def)

definition text_range :: "string \<Rightarrow> (bool \<times> int set) option" where
  "text_range c = map_option (Pair (is_v6_text c)) (text_block (to_big (is_v6_text c)) (addr_bits (is_v6_text c)) c)"

lemma block_text_family: "is_v6_text (block_text v6 b) = v6"
proof -
  have "CHR '':'' \<in> set (bigToV6 n)" for n
  proof (cases "best_run (v6_hex_groups n) 0 None")
    case None
    then show ?thesis by (simp add: bigToV6_def v6_hex_groups_def)
  next
    case (Some r)
    then show ?thesis unfolding bigToV6_def Let_def by (cases r) simp
  qed
  moreover have "CHR '':'' \<notin> set (bigToV4 n)" for n using v4_chars [of "CHR '':''" n] by (auto simp: is_digit_def)
  moreover have "CHR '':'' \<notin> set (str_of_nat n)" for n using no_sep_nat by blast
  ultimately show ?thesis by (cases v6) (simp_all add: is_v6_text_def block_text_def of_big_def)
qed

lemma range_texts_of:
  assumes "0 \<le> lo" "hi < 2 ^ addr_bits v6"
  shows "(\<exists>c \<in> set (bigRangeToCidrs lo hi v6). \<exists>R. text_range c = Some (f, R) \<and> x \<in> R)
     \<longleftrightarrow> f = v6 \<and> lo \<le> x \<and> x \<le> hi"
proof -
  have "(\<exists>c \<in> set (bigRangeToCidrs lo hi v6). \<exists>R. text_range c = Some (f, R) \<and> x \<in> R) \<longleftrightarrow>
     f = v6 \<and> (\<exists>b \<in> set (range_blocks (addr_bits v6) lo hi). \<exists>R.
       text_block (to_big v6) (addr_bits v6) (block_text v6 b) = Some R \<and> x \<in> R)"
    unfolding bigRangeToCidrs_def text_range_def
    by (auto simp: block_text_family simp del: split_paired_Ex)
  also have "(\<exists>b \<in> set (range_blocks (addr_bits v6) lo hi). \<exists>R.
       text_block (to_big v6) (addr_bits v6) (block_text v6 b) = Some R \<and> x \<in> R) \<longleftrightarrow> lo \<le> x \<and> x \<le> hi"
  proof (cases v6)
    case True
    moreover have "to_big True = v6ToBig" by (rule ext) (simp add: to_big_def)
    ultimately show ?thesis
      using assms v6.range_texts [of lo hi x] by (simp add: addr_bits_def block_text_def of_big_def)
  next
    case False
    moreover have "to_big False = v4ToBig" by (rule ext) (simp add: to_big_def)
    ultimately show ?thesis
      using assms v4.range_texts [of lo hi x] by (simp add: addr_bits_def block_text_def of_big_def)
  qed
  finally show ?thesis .
qed


lemma family_ranges_exact:
  assumes "\<forall>sp \<in> set spans. 0 \<le> fst sp \<and> snd sp < 2 ^ addr_bits v6"
    and "\<forall>sp \<in> set spans. fst sp \<le> snd sp"
  shows "(\<exists>c \<in> set (family_ranges v6 spans). \<exists>R. text_range c = Some (f, R) \<and> x \<in> R)
     \<longleftrightarrow> f = v6 \<and> (\<exists>sp \<in> set spans. fst sp \<le> x \<and> x \<le> snd sp)"
proof -
  let ?js = "join_spans None (sort_key fst spans)"
  have inside: "0 \<le> fst sp \<and> snd sp \<le> 2 ^ addr_bits v6 - 1" if "sp \<in> set ?js" for sp
    using join_spans_bounds [of None "sort_key fst spans" 0 "2 ^ addr_bits v6 - 1" sp] that assms(1)
    by (simp add: opt_list_def)
  have cover: "(\<Union>sp \<in> set ?js. span_set sp) = (\<Union>sp \<in> set spans. span_set sp)"
    using join_spans_cover [of None "sort_key fst spans"] assms(2) by (simp add: opt_list_def)
  have "(\<exists>c \<in> set (family_ranges v6 spans). \<exists>R. text_range c = Some (f, R) \<and> x \<in> R)
     \<longleftrightarrow> (\<exists>sp \<in> set ?js. \<exists>c \<in> set (bigRangeToCidrs (fst sp) (snd sp) v6).
           \<exists>R. text_range c = Some (f, R) \<and> x \<in> R)"
    unfolding family_ranges_def by (simp add: case_prod_unfold)
  also have "\<dots> \<longleftrightarrow> (\<exists>sp \<in> set ?js. f = v6 \<and> x \<in> span_set sp)"
  proof (rule bex_cong [OF refl])
    fix sp assume "sp \<in> set ?js"
    from inside [OF this] show "(\<exists>c \<in> set (bigRangeToCidrs (fst sp) (snd sp) v6).
           \<exists>R. text_range c = Some (f, R) \<and> x \<in> R) \<longleftrightarrow> f = v6 \<and> x \<in> span_set sp"
      by (subst range_texts_of) (auto simp: span_set_def)
  qed
  also have "\<dots> \<longleftrightarrow> f = v6 \<and> x \<in> (\<Union>sp \<in> set ?js. span_set sp)" by blast
  finally show ?thesis unfolding cover by (simp add: span_set_def)
qed

text \<open>C27: The networks the reader makes of the country table are exact for both families: an
  address lies in one of the produced networks if and only if some row of a wanted country has it
  between its first and its last address, although the rows are sorted, joined across countries and
  split into networks on the way; and every produced network passes the strict test before it
  may enter the web server configuration. The rows must hold addresses of the family's width.\<close>

theorem parseDbip_exact:
  assumes "parseDbip csv countries = Inr r"
    and "\<And>v6 sp. sp \<in> set (wanted_spans countries v6 csv) \<Longrightarrow> 0 \<le> fst sp \<and> snd sp < 2 ^ addr_bits v6"
  shows "((\<exists>c \<in> set (dr_ranges r). \<exists>R. text_range c = Some (v6, R) \<and> x \<in> R)
      \<longleftrightarrow> (\<exists>sp \<in> set (wanted_spans countries v6 csv). fst sp \<le> x \<and> x \<le> snd sp))
    \<and> list_all isCidr (dr_ranges r)"
proof -
  let ?init = "\<lparr>da_v4 = [], da_v6 = [], da_rows = 0, da_per_country = map (\<lambda>c. (c, 0)) (uniq countries)\<rparr>"
  obtain a where a: "fold_res (dbip_line countries) (split_on (CHR 0x0A) csv) ?init = Inr a"
    and r: "dr_ranges r = family_ranges False (da_v4 a) @ family_ranges True (da_v6 a)"
    and ok: "find (\<lambda>c. \<not> isCidr c) (dr_ranges r) = None"
    using assms(1) by (auto simp: parseDbip_def bind_res_iff Let_def split: option.splits)
  have spans: "da_v4 a = wanted_spans countries False csv" "da_v6 a = wanted_spans countries True csv"
    using dbip_lines_spans [OF a, of False] dbip_lines_spans [OF a, of True]
    by (simp_all add: acc_spans_def wanted_spans_def)
  have fam: "(\<exists>c \<in> set (family_ranges f (wanted_spans countries f csv)).
       \<exists>R. text_range c = Some (v6, R) \<and> x \<in> R)
     \<longleftrightarrow> v6 = f \<and> (\<exists>sp \<in> set (wanted_spans countries f csv). fst sp \<le> x \<and> x \<le> snd sp)" for f
    using assms(2) wanted_spans_ordered by (intro family_ranges_exact) blast+
  have "list_all isCidr (dr_ranges r)" using ok by (simp add: find_None_iff list_all_iff)
  moreover have "(\<exists>c \<in> set (dr_ranges r). \<exists>R. text_range c = Some (v6, R) \<and> x \<in> R)
      \<longleftrightarrow> (\<exists>sp \<in> set (wanted_spans countries v6 csv). fst sp \<le> x \<and> x \<le> snd sp)"
    unfolding r spans set_append bex_Un fam by (cases v6) simp_all
  ultimately show ?thesis by blast
qed

definition ex_csv :: string where
  "ex_csv = ''10.0.0.0,10.0.0.255,AT'' @ [CHR 0x0A] @ ''10.0.1.0,10.0.1.127,CH'' @ [CHR 0x0A]
     @ ''10.0.1.128,10.0.1.255,US'' @ [CHR 0x0A] @ ''2000::,2000::3,CH''"

theorem parseDbip_exact_witness:
  "\<exists>r. parseDbip ex_csv [''AT'', ''CH''] = Inr r
     \<and> dr_ranges r = [''10.0.0.0/24'', ''10.0.1.0/25'', ''2000::/126'']
     \<and> \<not> (\<exists>c \<in> set (dr_ranges r). \<exists>R. text_range c = Some (False, R) \<and> 167772544 \<in> R)"
proof -
  let ?r = "\<lparr>dr_ranges = [''10.0.0.0/24'', ''10.0.1.0/25'', ''2000::/126''], dr_rows = 4,
      dr_per_country = [(''AT'', 1), (''CH'', 2)]\<rparr>"
  have r: "parseDbip ex_csv [''AT'', ''CH''] = Inr ?r" by code_simp
  have s4: "wanted_spans [''AT'', ''CH''] False ex_csv = [(167772160, 167772415), (167772416, 167772543)]"
    and s6: "wanted_spans [''AT'', ''CH''] True ex_csv = [(2 ^ 125, 2 ^ 125 + 3)]" by code_simp+
  have w: "0 \<le> fst sp \<and> snd sp < 2 ^ addr_bits v6"
    if "sp \<in> set (wanted_spans [''AT'', ''CH''] v6 ex_csv)" for v6 sp
    using that s4 s6 by (cases v6) (auto simp: addr_bits_def)
  show ?thesis
    using r parseDbip_exact [OF r w, of False 167772544] s4 by (intro exI [of _ ?r]) simp
qed

end
