(* ===== verification/Geo_Filter.thy ===== *)
theory Geo_Filter
  imports Geo_Ranges
begin

text \<open>
  The country filter of backend/internal/geo-filter.js around the address arithmetic: the
  selection of countries, the option of a host, the generated nginx file and what is read back
  from its head, and the refresh of the list as a state machine. The state holds the two files
  the module owns, the age of the nginx file, the running refresh and the error it shows.
  JSON.parse, gzip and the download are parameters; writing the files succeeds. The dash and the
  arrow in two comment lines of the nginx file lie outside the Latin-1 range and are the constants
  \<open>EN_DASH\<close> and \<open>ARROW\<close>.
\<close>

definition NLc :: char where "NLc = CHR 0x0A"
definition EN_DASH :: char where "EN_DASH = CHR 0x96"
definition ARROW :: char where "ARROW = CHR 0x97"

subsection \<open>Countries\<close>

definition ISO_CODES :: "string list" where
  "ISO_CODES = split_on (CHR '' '')
    (''AD AE AF AG AI AL AM AO AQ AR AS AT AU AW AX AZ BA BB BD BE BF BG BH BI BJ BL BM BN BO BQ BR BS BT BV BW BY ''
     @ ''BZ CA CC CD CF CG CH CI CK CL CM CN CO CR CU CV CW CX CY CZ DE DJ DK DM DO DZ EC EE EG EH ER ES ET FI FJ FK ''
     @ ''FM FO FR GA GB GD GE GF GG GH GI GL GM GN GP GQ GR GS GT GU GW GY HK HM HN HR HT HU ID IE IL IM IN IO IQ IR ''
     @ ''IS IT JE JM JO JP KE KG KH KI KM KN KP KR KW KY KZ LA LB LC LI LK LR LS LT LU LV LY MA MC MD ME MF MG MH MK ''
     @ ''ML MM MN MO MP MQ MR MS MT MU MV MW MX MY MZ NA NC NE NF NG NI NL NO NP NR NU NZ OM PA PE PF PG PH PK PL PM ''
     @ ''PN PR PS PT PW PY QA RE RO RS RU RW SA SB SC SD SE SG SH SI SJ SK SL SM SN SO SR SS ST SV SX SY SZ TC TD TF ''
     @ ''TG TH TJ TK TL TM TN TO TR TT TV TW TZ UA UG UM US UY UZ VA VC VE VG VI VN VU WF WS YE YT ZA ZM ZW'')"

definition EU_COUNTRIES :: "string list" where
  "EU_COUNTRIES =
    [''AT'', ''BE'', ''BG'', ''HR'', ''CY'', ''CZ'', ''DK'', ''EE'', ''FI'', ''FR'', ''DE'', ''GR'', ''HU'', ''IE'',
     ''IT'', ''LV'', ''LT'', ''LU'', ''MT'', ''NL'', ''PL'', ''PT'', ''RO'', ''SK'', ''SI'', ''ES'', ''SE'']"

definition DEFAULT_COUNTRIES :: "string list" where
  "DEFAULT_COUNTRIES = EU_COUNTRIES @ [''CH'']"

definition PRIVATE_RANGES :: "string list" where
  "PRIVATE_RANGES =
    [''127.0.0.0/8'', ''10.0.0.0/8'', ''172.16.0.0/12'', ''192.168.0.0/16'', ''100.64.0.0/10'',
     ''::1/128'', ''fc00::/7'', ''fe80::/10'']"

definition MAX_COUNTRIES :: nat where "MAX_COUNTRIES = 250"
definition MIN_ROWS :: nat where "MIN_ROWS = 200000"
definition MAX_AGE_MS :: int where "MAX_AGE_MS = 7 * 24 * 60 * 60 * 1000"
definition CONF_FORMAT :: nat where "CONF_FORMAT = 2"

text \<open>\<open>toUpperCase\<close> on the Latin-1 range: the sharp s becomes two letters; the two letters whose
  upper case lies outside the range stay.\<close>

definition upper_of :: "char \<Rightarrow> string" where
  "upper_of c = (let n = of_char c :: nat in
     if n = 223 then ''SS''
     else if (97 \<le> n \<and> n \<le> 122) \<or> (224 \<le> n \<and> n \<le> 254 \<and> n \<noteq> 247) then [char_of (n - 32)]
     else [c])"

definition to_upper :: "string \<Rightarrow> string" where
  "to_upper s = concat (map upper_of s)"

datatype country_error = NotAList | UnknownCodes "string list" | NoCountry | TooManyCountries

definition normalizeCountries :: "jsval \<Rightarrow> country_error + string list" where
  "normalizeCountries input =
     (case input of
        JArr vs \<Rightarrow>
          (let out = sort (uniq (map (\<lambda>c. to_upper (trim (js_string c))) vs));
               bad = filter (\<lambda>c. c \<notin> set ISO_CODES) out
           in if bad \<noteq> [] then Inl (UnknownCodes (take 5 bad))
              else if out = [] then Inl NoCountry
              else if MAX_COUNTRIES < length out then Inl TooManyCountries
              else Inr out)
      | _ \<Rightarrow> Inl NotAList)"

text \<open>The stored selection; anything wrong with the file gives the default one.\<close>

definition readSettings :: "(string \<Rightarrow> jsval option) \<Rightarrow> string option \<Rightarrow> string list" where
  "readSettings json file =
     (case Option.bind file json of
        None \<Rightarrow> sort DEFAULT_COUNTRIES
      | Some raw \<Rightarrow> (case normalizeCountries (getp raw ''countries'') of
            Inl e \<Rightarrow> sort DEFAULT_COUNTRIES | Inr cs \<Rightarrow> cs))"

text \<open>\<open>JSON.stringify({ countries }, null, 2)\<close> and the final line break.\<close>

definition settings_text :: "string list \<Rightarrow> string" where
  "settings_text cs =
     join [NLc] ([''{'', ''  '' @ [CHR 0x22] @ ''countries'' @ [CHR 0x22] @ '': ['']
        @ [join ('','' @ [NLc]) (map (\<lambda>c. ''    '' @ [CHR 0x22] @ c @ [CHR 0x22]) cs)]
        @ [''  ]'', ''}'', []])"

subsection \<open>The option of a host\<close>

definition is_obj_or_arr :: "jsval \<Rightarrow> bool" where
  "is_obj_or_arr v = (case v of JObj _ \<Rightarrow> True | JArr _ \<Rightarrow> True | _ \<Rightarrow> False)"

definition hostUsesGeoFilter :: "jsval \<Rightarrow> bool" where
  "hostUsesGeoFilter host =
     (let m = getp host ''meta''
      in if \<not> is_obj_or_arr m then False
         else getp m ''geo_filter'' = JBool True \<or> getp m ''geoFilter'' = JBool True)"

definition sanitizeGeoMeta :: "jsval \<Rightarrow> jsval" where
  "sanitizeGeoMeta meta =
     (case meta of
        JObj ps \<Rightarrow>
          if \<not> has_own meta ''geo_filter'' \<and> \<not> has_own meta ''geoFilter'' then meta
          else (let b = (getp meta ''geo_filter'' = JBool True \<or> getp meta ''geoFilter'' = JBool True)
                in JObj (filter (\<lambda>kv. fst kv \<noteq> ''geoFilter'') (AList.update ''geo_filter'' (JBool b) ps)))
      | _ \<Rightarrow> meta)"

subsection \<open>The nginx file\<close>

definition HEADER_FORMAT :: string where "HEADER_FORMAT = ''# Format: ''"
definition HEADER_COUNTRIES :: string where "HEADER_COUNTRIES = ''# L'' @ [CHR 0xE4] @ ''nder: ''"
definition HEADER_STAND :: string where "HEADER_STAND = ''# Stand: ''"
definition HEADER_NETS :: string where "HEADER_NETS = ''# Netze: ''"
definition SOURCE_LABEL :: string where "SOURCE_LABEL = ''IP Geolocation by DB-IP (db-ip.com, CC BY 4.0)''"

definition first_line :: string where
  "first_line = ''# Von FloppyGuard erzeugt '' @ [EN_DASH] @ '' L'' @ [CHR 0xE4]
     @ ''nder-Filter (Proxy-Host-Option, Einstellungen '' @ [ARROW] @ '' L'' @ [CHR 0xE4]
     @ ''nder-Filter). Nicht von Hand '' @ [CHR 0xE4] @ ''ndern.''"

definition fallback_line :: string where
  "fallback_line = ''# NOTFASSUNG: L'' @ [CHR 0xE4] @ ''nderliste fehlt '' @ [EN_DASH]
     @ '' nur private Netze erlaubt (fail-closed)''"

definition range_line :: "string \<Rightarrow> string" where
  "range_line r = ''  '' @ r @ '' 1;''"

definition open_lines :: "string list" where
  "open_lines =
     [''log_format fg_geo '' @ [CHR 0x27] @ ''$msec $remote_addr $host'' @ [CHR 0x27] @ '';'',
      ''geo $fg_geo_allowed {'',
      ''  default 0;'']"

definition map_lines :: "string list" where
  "map_lines =
     [''}'',
      ''map '' @ [CHR 0x22] @ ''$fg_geo_allowed:$uri'' @ [CHR 0x22] @ '' $fg_geo_deny {'',
      ''  default 1;'',
      ''  '' @ [CHR 0x22] @ ''~^1:'' @ [CHR 0x22] @ '' 0;'',
      ''  '' @ [CHR 0x22] @ ''~^0:/'' @ [CHR 0x5C] @ ''.well-known/acme-challenge/'' @ [CHR 0x22] @ '' 0;'',
      ''}'',
      []]"

definition conf_lines :: "string list \<Rightarrow> string list \<Rightarrow> string \<Rightarrow> bool \<Rightarrow> string list" where
  "conf_lines ranges countries stamp full =
     [first_line,
      HEADER_FORMAT @ str_of_nat CONF_FORMAT,
      HEADER_COUNTRIES @ join '','' countries,
      HEADER_STAND @ stamp @ '' '' @ [CHR 0xB7] @ '' '' @ SOURCE_LABEL,
      (if full then HEADER_NETS @ str_of_nat (length ranges) else fallback_line)]
     @ open_lines @ map range_line PRIVATE_RANGES @ map range_line ranges @ map_lines"

definition renderConf :: "string list \<Rightarrow> string list \<Rightarrow> string \<Rightarrow> bool \<Rightarrow> string" where
  "renderConf ranges countries stamp full = join [NLc] (conf_lines ranges countries stamp full)"

record conf_info =
  ci_exists :: bool
  ci_countries :: "string list"
  ci_updatedAt :: "string option"
  ci_ranges :: jsnum
  ci_fallback :: bool
  ci_format :: jsnum

text \<open>\<open>Number(s) || d\<close>.\<close>

definition number_or :: "string \<Rightarrow> rat \<Rightarrow> jsnum" where
  "number_or s d = (let n = str_number s in if n = NaN \<or> n = Fin 0 then Fin d else n)"

definition head_line :: "string list \<Rightarrow> string \<Rightarrow> string" where
  "head_line hd_lines pre = (case find (starts_with pre) hd_lines of None \<Rightarrow> [] | Some l \<Rightarrow> drop (length pre) l)"

definition readConfInfo :: "string option \<Rightarrow> conf_info" where
  "readConfInfo file =
     (case file of
        None \<Rightarrow> \<lparr>ci_exists = False, ci_countries = [], ci_updatedAt = None, ci_ranges = Fin 0,
                  ci_fallback = True, ci_format = Fin 0\<rparr>
      | Some text \<Rightarrow>
          (let top = take 8 (split_on NLc text); stand = hd (split_on (CHR '' '') (head_line top HEADER_STAND))
           in \<lparr>ci_exists = True,
               ci_countries = filter (\<lambda>c. c \<noteq> []) (split_on (CHR '','') (head_line top HEADER_COUNTRIES)),
               ci_updatedAt = (if stand = [] then None else Some stand),
               ci_ranges = number_or (head_line top HEADER_NETS) 0,
               ci_fallback = str_includes ''NOTFASSUNG'' text,
               ci_format = number_or (head_line top HEADER_FORMAT) 1\<rparr>))"

text \<open>The file without the line that carries the time.\<close>

definition conf_body :: "string \<Rightarrow> string" where
  "conf_body s = join [NLc] (filter (\<lambda>l. \<not> starts_with HEADER_STAND l) (split_on NLc s))"

subsection \<open>The refresh\<close>

text \<open>The table of a month; in its first days the new one may not be there yet.\<close>

definition DBIP_URL :: "int \<Rightarrow> int \<Rightarrow> string" where
  "DBIP_URL year month =
     (let m = str_of_int month
      in ''https://download.db-ip.com/free/dbip-country-lite-'' @ str_of_int year @ ''-''
         @ replicate (2 - length m) (CHR ''0'') @ m @ ''.csv.gz'')"

text \<open>\<open>new Date(Date.UTC(y, m - 1, 1))\<close> for a zero-based month, as one-based month.\<close>

definition previous_month :: "int \<Rightarrow> int \<Rightarrow> int \<times> int" where
  "previous_month year month = (if month = 1 then (year - 1, 12) else (year, month - 1))"

datatype 'b fetch_result = FetchOk 'b | FetchErr int string

definition download :: "(string \<Rightarrow> 'b fetch_result) \<Rightarrow> int \<Rightarrow> int \<Rightarrow> string + 'b" where
  "download fetch year month =
     (case fetch (DBIP_URL year month) of
        FetchOk b \<Rightarrow> Inr b
      | FetchErr status msg \<Rightarrow>
          if status \<noteq> 404 then Inl msg
          else (let (y, m) = previous_month year month
                in case fetch (DBIP_URL y m) of FetchOk b \<Rightarrow> Inr b | FetchErr status msg \<Rightarrow> Inl msg))"

record 'b geo_state =
  gs_conf :: "string option"
  gs_written :: int
  gs_settings :: "string option"
  gs_cache :: "'b option"
  gs_processing :: "string list option"
  gs_last_error :: "string option"
  gs_last_attempt :: "int option"
  gs_reloads :: nat

text \<open>True: the file changed. A file that only differs in its time gets a new age.\<close>

definition writeIfChanged :: "string \<Rightarrow> int \<Rightarrow> 'b geo_state \<Rightarrow> bool \<times> 'b geo_state" where
  "writeIfChanged text now st =
     (if map_option conf_body (gs_conf st) = Some (conf_body text) then (False, st\<lparr>gs_written := now\<rparr>)
      else (True, st\<lparr>gs_conf := Some text, gs_written := now\<rparr>))"

definition ensureConf ::
  "(string \<Rightarrow> jsval option) \<Rightarrow> (int \<Rightarrow> string) \<Rightarrow> int \<Rightarrow> 'b geo_state \<Rightarrow> bool \<times> 'b geo_state" where
  "ensureConf json stamp now st =
     (if gs_conf st \<noteq> None then (False, st)
      else (True, snd (writeIfChanged (renderConf [] (readSettings json (gs_settings st)) (stamp now) False) now st)))"

definition conf_stale :: "(string \<Rightarrow> jsval option) \<Rightarrow> int \<Rightarrow> 'b geo_state \<Rightarrow> bool" where
  "conf_stale json now st =
     (let info = readConfInfo (gs_conf st)
      in gs_conf st = None \<or> MAX_AGE_MS \<le> now - gs_written st
         \<or> ci_fallback info \<or> ci_format info \<noteq> Fin (of_nat CONF_FORMAT)
         \<or> ci_countries info \<noteq> readSettings json (gs_settings st))"

text \<open>The call, up to the first await: a second one while a refresh is running joins it.\<close>

definition refresh_start :: "(string \<Rightarrow> jsval option) \<Rightarrow> bool \<Rightarrow> int \<Rightarrow> 'b geo_state \<Rightarrow> 'b geo_state" where
  "refresh_start json force now st =
     (if gs_processing st \<noteq> None then st
      else if \<not> force \<and> \<not> conf_stale json now st then st
      else st\<lparr>gs_processing := Some (readSettings json (gs_settings st)), gs_last_attempt := Some now\<rparr>)"

definition no_networks :: "dbip_result \<Rightarrow> string list \<Rightarrow> bool" where
  "no_networks r countries \<longleftrightarrow>
     list_all (\<lambda>c. case map_of (dr_per_country r) c of None \<Rightarrow> True | Some n \<Rightarrow> n = 0) countries"

text \<open>The rest of the run once the download is there: gunzip and the reader may throw, the copy
  for the statistics is kept before the last check, the reload of the web server comes last and
  may fail after the file was written.\<close>

definition geo_fail :: "(string \<Rightarrow> jsval option) \<Rightarrow> (int \<Rightarrow> string) \<Rightarrow> int \<Rightarrow> string \<Rightarrow> 'b geo_state \<Rightarrow> 'b geo_state" where
  "geo_fail json stamp now msg st =
     (snd (ensureConf json stamp now (st\<lparr>gs_last_error := Some msg\<rparr>)))\<lparr>gs_processing := None\<rparr>"

definition store_ranges ::
  "(string \<Rightarrow> jsval option) \<Rightarrow> (int \<Rightarrow> string) \<Rightarrow> bool \<Rightarrow> bool \<Rightarrow> int \<Rightarrow> string list \<Rightarrow> string list
     \<Rightarrow> 'b geo_state \<Rightarrow> bool \<times> 'b geo_state" where
  "store_ranges json stamp reload reload_ok now ranges countries st =
     (let (changed, st) = writeIfChanged (renderConf ranges countries (stamp now) True) now st;
          st = st\<lparr>gs_last_error := None\<rparr>
      in if changed \<and> reload then
           (if reload_ok then (True, st\<lparr>gs_reloads := Suc (gs_reloads st), gs_processing := None\<rparr>)
            else (False, geo_fail json stamp now ''reload'' st))
         else (changed, st\<lparr>gs_processing := None\<rparr>))"

definition refresh_finish ::
  "(string \<Rightarrow> jsval option) \<Rightarrow> (int \<Rightarrow> string) \<Rightarrow> ('b \<Rightarrow> string option) \<Rightarrow> bool \<Rightarrow> bool \<Rightarrow> int
     \<Rightarrow> string + 'b \<Rightarrow> 'b geo_state \<Rightarrow> bool \<times> 'b geo_state" where
  "refresh_finish json stamp gunzip reload reload_ok now fetched st =
     (case gs_processing st of
        None \<Rightarrow> (False, st)
      | Some countries \<Rightarrow>
          (case fetched of
             Inl msg \<Rightarrow> (False, geo_fail json stamp now msg st)
           | Inr gz \<Rightarrow>
               (case gunzip gz of
                  None \<Rightarrow> (False, geo_fail json stamp now ''gunzip'' st)
                | Some csv \<Rightarrow>
                    (case parseDbip csv countries of
                       Inl e \<Rightarrow> (False, geo_fail json stamp now ''parse'' st)
                     | Inr r \<Rightarrow>
                         if dr_rows r < MIN_ROWS then (False, geo_fail json stamp now ''rows'' st)
                         else (let st = st\<lparr>gs_cache := Some gz\<rparr>
                               in if no_networks r countries then (False, geo_fail json stamp now ''empty'' st)
                                  else store_ranges json stamp reload reload_ok now
                                         (uniq (dr_ranges r)) countries st)))))"

subsection \<open>Saving the selection and the status\<close>

text \<open>\<open>save\<close> up to the refresh it starts: what changed, and the new state. A refresh that is
  already running is joined, so its captured selection stays the old one.\<close>

definition save ::
  "(string \<Rightarrow> jsval option) \<Rightarrow> int \<Rightarrow> jsval \<Rightarrow> 'b geo_state
     \<Rightarrow> country_error + (bool \<times> string list \<times> string list) \<times> 'b geo_state" where
  "save json now input st =
     bind_res (normalizeCountries (getp input ''countries'')) (\<lambda>countries.
       let before = readSettings json (gs_settings st);
           st = st\<lparr>gs_settings := Some (settings_text countries)\<rparr>;
           changed = (before \<noteq> countries)
       in Inr ((changed, before, countries), if changed then refresh_start json True now st else st))"

record geo_status =
  st_countries :: "string list"
  st_default :: "string list"
  st_eu :: "string list"
  st_active :: "string list"
  st_updated :: "string option"
  st_ranges :: jsnum
  st_fallback :: bool
  st_pending :: bool
  st_refreshing :: bool
  st_error :: "string option"
  st_attempt :: "int option"
  st_all :: "string list"

definition status :: "(string \<Rightarrow> jsval option) \<Rightarrow> 'b geo_state \<Rightarrow> geo_status" where
  "status json st =
     (let countries = readSettings json (gs_settings st); info = readConfInfo (gs_conf st)
      in \<lparr>st_countries = countries, st_default = sort DEFAULT_COUNTRIES, st_eu = sort EU_COUNTRIES,
          st_active = ci_countries info, st_updated = ci_updatedAt info, st_ranges = ci_ranges info,
          st_fallback = ci_fallback info, st_pending = (ci_countries info \<noteq> countries),
          st_refreshing = (gs_processing st \<noteq> None), st_error = gs_last_error st,
          st_attempt = gs_last_attempt st, st_all = sort ISO_CODES\<rparr>)"


subsection \<open>The selection of countries\<close>

text \<open>An accepted selection is a sorted list of distinct ISO codes with at least one member,
  saving it again changes nothing, and the upper limit on its length can never be what refuses a
  selection, since there are fewer codes than that.\<close>

theorem normalizeCountries_correct:
  "(case normalizeCountries input of
      Inr cs \<Rightarrow> sorted_wrt (<) cs \<and> cs \<noteq> [] \<and> set cs \<subseteq> set ISO_CODES
        \<and> normalizeCountries (JArr (map JStr cs)) = Inr cs
    | Inl e \<Rightarrow> e \<noteq> TooManyCountries)"
proof -
  have iso: "length ISO_CODES \<le> MAX_COUNTRIES" "list_all (\<lambda>c. to_upper (trim c) = c) ISO_CODES"
    by code_simp+
  show ?thesis
  proof (cases input)
    case (JArr vs)
    let ?out = "sort (uniq (map (\<lambda>c. to_upper (trim (js_string c))) vs))"
    have d: "distinct ?out" "sorted ?out" by simp_all
    show ?thesis
    proof (cases "set ?out \<subseteq> set ISO_CODES")
      case False
      then have "filter (\<lambda>c. c \<notin> set ISO_CODES) ?out \<noteq> []" by (auto simp: filter_empty_conv)
      with JArr show ?thesis by (simp add: normalizeCountries_def Let_def del: set_sort)
    next
      case True
      then have f: "filter (\<lambda>c. c \<notin> set ISO_CODES) ?out = []" by (auto simp: filter_empty_conv)
      have "length ?out = card (set ?out)" using d(1) distinct_card by metis
      also have "\<dots> \<le> card (set ISO_CODES)" by (rule card_mono [OF finite_set True])
      also have "\<dots> \<le> MAX_COUNTRIES" using card_length [of ISO_CODES] iso(1) by linarith
      finally have len: "\<not> MAX_COUNTRIES < length ?out" by simp
      show ?thesis
      proof (cases "?out = []")
        case True
        with JArr f show ?thesis by (simp add: normalizeCountries_def Let_def)
      next
        case ne: False
        have n: "normalizeCountries input = Inr ?out"
          using JArr f len ne unfolding normalizeCountries_def Let_def by (simp only: jsval.case if_False not_True_eq_False simp_thms)
        have "map (\<lambda>c. to_upper (trim (js_string c))) (map JStr ?out) = ?out"
        proof -
          have "\<forall>c \<in> set ?out. to_upper (trim c) = c" using True iso(2) unfolding list_all_iff by blast
          then have "map (\<lambda>c. to_upper (trim c)) ?out = ?out" by (intro map_idI) blast
          then show ?thesis by (simp only: map_map o_def js_string.simps)
        qed
        then have "sort (uniq (map (\<lambda>c. to_upper (trim (js_string c))) (map JStr ?out))) = ?out"
          using d by (simp only: uniq_id sorted_sort_id)
        then have "normalizeCountries (JArr (map JStr ?out)) = Inr ?out"
          using f len ne unfolding normalizeCountries_def Let_def by (simp only: jsval.case if_False not_True_eq_False simp_thms)
        moreover have "sorted_wrt (<) ?out" using d strict_sorted_iff by blast
        ultimately show ?thesis using n ne True by simp
      qed
    qed
  qed (simp_all add: normalizeCountries_def)
qed

subsection \<open>The stored option\<close>

lemma map_of_filter_other: "map_of (filter (\<lambda>kv. fst kv \<noteq> k) ps) k = None"
  by (induction ps) auto

lemma map_of_filter_same: "j \<noteq> k \<Longrightarrow> map_of (filter (\<lambda>kv. fst kv \<noteq> k) ps) j = map_of ps j"
  by (induction ps) auto

lemma has_own_getp: "getp (JObj ps) k \<noteq> JUndef \<Longrightarrow> has_own (JObj ps) k"
  by (force split: option.splits dest: map_of_SomeD)

lemma getp_sanitized:
  assumes "has_own (JObj ps) ''geo_filter'' \<or> has_own (JObj ps) ''geoFilter''"
  shows "getp (sanitizeGeoMeta (JObj ps)) k =
     (if k = ''geoFilter'' then JUndef
      else if k = ''geo_filter'' then
        JBool (getp (JObj ps) ''geo_filter'' = JBool True \<or> getp (JObj ps) ''geoFilter'' = JBool True)
      else getp (JObj ps) k)"
  using assms
  by (auto simp: sanitizeGeoMeta_def Let_def map_of_filter_other map_of_filter_same update_conv'
      simp del: has_own.simps)

text \<open>Cleaning the stored options of a host keeps the meaning of the country filter and
  every other option, leaves only a real truth value under the one remaining name, and is done
  after one pass.\<close>

theorem sanitizeGeoMeta_correct:
  "hostUsesGeoFilter (JObj [(''meta'', sanitizeGeoMeta meta)]) = hostUsesGeoFilter (JObj [(''meta'', meta)])
   \<and> sanitizeGeoMeta (sanitizeGeoMeta meta) = sanitizeGeoMeta meta
   \<and> (\<forall>k. k \<notin> {''geo_filter'', ''geoFilter''} \<longrightarrow> getp (sanitizeGeoMeta meta) k = getp meta k)
   \<and> (\<forall>ps. meta = JObj ps \<longrightarrow> getp (sanitizeGeoMeta meta) ''geoFilter'' = JUndef
        \<and> getp (sanitizeGeoMeta meta) ''geo_filter'' \<in> {JUndef, JBool True, JBool False})"
proof (cases meta)
  case (JObj ps)
  show ?thesis
  proof (cases "has_own (JObj ps) ''geo_filter'' \<or> has_own (JObj ps) ''geoFilter''")
    case False
    then have "sanitizeGeoMeta meta = meta" using JObj by (simp add: sanitizeGeoMeta_def del: has_own.simps)
    moreover have "getp (JObj ps) ''geo_filter'' = JUndef" "getp (JObj ps) ''geoFilter'' = JUndef"
      using False by (auto split: option.split dest: map_of_SomeD) (force dest: map_of_SomeD)+
    ultimately show ?thesis using JObj by simp
  next
    case True
    let ?b = "getp (JObj ps) ''geo_filter'' = JBool True \<or> getp (JObj ps) ''geoFilter'' = JBool True"
    obtain qs where qs: "qs = filter (\<lambda>kv. fst kv \<noteq> ''geoFilter'') (AList.update ''geo_filter'' (JBool ?b) ps)"
      by blast
    have s: "sanitizeGeoMeta (JObj ps) = JObj qs"
      using True unfolding sanitizeGeoMeta_def Let_def qs
      by (simp only: jsval.case de_Morgan_disj [symmetric] not_True_eq_False if_False)
    note g = getp_sanitized [OF True]
    have "AList.update ''geo_filter'' (JBool ?b) qs = qs"
      by (rule update_triv) (simp add: qs map_of_filter_same update_conv' del: getp.simps)
    moreover have "filter (\<lambda>kv. fst kv \<noteq> ''geoFilter'') qs = qs" by (simp add: qs)
    moreover have "getp (JObj qs) ''geo_filter'' = JBool ?b" "getp (JObj qs) ''geoFilter'' = JUndef"
      using g s by (simp_all del: getp.simps)
    moreover from this have "has_own (JObj qs) ''geo_filter''" by (intro has_own_getp) simp
    ultimately have "sanitizeGeoMeta (JObj qs) = JObj qs"
      by (simp add: sanitizeGeoMeta_def [of "JObj qs"] del: getp.simps has_own.simps)
    with g s JObj show ?thesis
      by (auto simp: hostUsesGeoFilter_def is_obj_or_arr_def simp del: getp.simps has_own.simps)
        (simp_all add: hostUsesGeoFilter_def)
  qed
qed (simp_all add: sanitizeGeoMeta_def)

theorem sanitizeGeoMeta_correct_witness:
  "getp (sanitizeGeoMeta (JObj [(''geoFilter'', JBool True), (''nat'', JBool False)])) ''geoFilter'' = JUndef
   \<and> getp (sanitizeGeoMeta (JObj [(''geoFilter'', JBool True), (''nat'', JBool False)])) ''nat'' = JBool False"
  using sanitizeGeoMeta_correct [of "JObj [(''geoFilter'', JBool True), (''nat'', JBool False)]"] by simp

subsection \<open>Texts inside texts\<close>

lemma starts_with_chars: "starts_with p s \<Longrightarrow> set p \<subseteq> set s"
  unfolding starts_with_def by (metis set_take_subset)

lemma str_includes_set: "str_includes p s \<Longrightarrow> set p \<subseteq> set s"
  by (induction p s rule: str_includes.induct) (auto dest: starts_with_chars [THEN subsetD])

lemma str_includes_length: "str_includes p s \<Longrightarrow> length p \<le> length s"
proof (induction p s rule: str_includes.induct)
  case (2 p c cs)
  then have "length p \<le> length (c # cs)" if "starts_with p (c # cs)"
    using that unfolding starts_with_def by (metis length_take min.cobounded1)
  with 2 show ?case by auto
qed simp

lemma starts_with_sep: "d \<notin> set p \<Longrightarrow> starts_with p (x @ d # y) \<Longrightarrow> starts_with p x"
proof (induction x arbitrary: p)
  case Nil
  then show ?case by (cases p) (auto simp: starts_with_def)
next
  case (Cons c x)
  then show ?case by (cases p) (auto simp: starts_with_def)
qed

lemma str_includes_sep:
  "d \<notin> set p \<Longrightarrow> p \<noteq> [] \<Longrightarrow> str_includes p (x @ d # y) \<Longrightarrow> str_includes p x \<or> str_includes p y"
proof (induction x)
  case Nil
  then show ?case by (cases p) (auto simp: starts_with_def)
next
  case (Cons c x)
  from Cons.prems(3) consider "starts_with p ((c # x) @ d # y)" | "str_includes p (x @ d # y)" by auto
  then show ?case
  proof cases
    case 1
    with Cons.prems(1) have "starts_with p (c # x)" by (rule starts_with_sep)
    then show ?thesis by simp
  next
    case 2
    with Cons show ?thesis by auto
  qed
qed

lemma str_includes_join:
  "d \<notin> set p \<Longrightarrow> p \<noteq> [] \<Longrightarrow> str_includes p (join [d] ls) \<Longrightarrow> \<exists>l \<in> set ls. str_includes p l"
proof (induction ls rule: induct_list012)
  case (3 x y zs)
  from str_includes_sep [of d p x "join [d] (y # zs)"] 3 show ?case by auto
qed auto

subsection \<open>The head of the nginx file\<close>

definition stamp_ok :: "string \<Rightarrow> bool" where
  "stamp_ok s \<longleftrightarrow> s \<noteq> [] \<and> list_all (\<lambda>c. is_digit c \<or> c \<in> {CHR ''-'', CHR '':'', CHR ''.'', CHR ''T'', CHR ''Z'', CHR ''+''}) s"

lemma stamp_chars: "stamp_ok s \<Longrightarrow> c \<in> set s \<Longrightarrow> c \<notin> {NLc, CHR '' '', CHR ''N''}"
  by (auto simp: stamp_ok_def list_all_iff is_digit_def NLc_def)

lemma isCidr_chars:
  assumes "isCidr r" "c \<in> set r"
  shows "is_hex c \<or> c \<in> {CHR ''.'', CHR '':'', CHR ''/''}"
proof -
  let ?a = "takeWhile (\<lambda>c. c \<noteq> CHR ''/'') r"
  let ?p = "drop (Suc (length ?a)) r"
  have len: "length ?a \<noteq> length r" and p: "digits_upto 3 ?p"
    and a: "list_all (\<lambda>c. is_digit c \<or> c = CHR ''.'') ?a \<or> list_all (\<lambda>c. is_hex c \<or> c = CHR '':'') ?a"
    using assms(1) unfolding isCidr_def Let_def by (auto split: if_splits)
  have "dropWhile (\<lambda>c. c \<noteq> CHR ''/'') r \<noteq> []"
    using len by (metis append_Nil2 takeWhile_dropWhile_id)
  then obtain q where q: "dropWhile (\<lambda>c. c \<noteq> CHR ''/'') r = CHR ''/'' # q"
    using hd_dropWhile [of "\<lambda>c. c \<noteq> CHR ''/''" r] by (cases "dropWhile (\<lambda>c. c \<noteq> CHR ''/'') r") auto
  have r: "r = ?a @ CHR ''/'' # q" using takeWhile_dropWhile_id [of "\<lambda>c. c \<noteq> CHR ''/''" r] q by simp
  then have "?p = q" by (metis append_Cons append_eq_conv_conj append_Nil length_append_singleton append_assoc)
  with p have "list_all is_digit q" by (simp add: digits_upto_def)
  moreover have "c \<in> set ?a \<or> c = CHR ''/'' \<or> c \<in> set q" using assms(2) arg_cong [OF r, of set] by auto
  ultimately show ?thesis using a by (auto simp: list_all_iff is_hex_def)
qed

lemma range_line_chars:
  assumes "isCidr r"
  shows "NLc \<notin> set (range_line r) \<and> CHR ''N'' \<notin> set (range_line r)"
proof -
  have "\<not> is_hex NLc" "\<not> is_hex (CHR ''N'')" by code_simp+
  then show ?thesis using isCidr_chars [OF assms] by (auto simp: range_line_def NLc_def)
qed

definition code_ok :: "string \<Rightarrow> bool" where
  "code_ok c \<longleftrightarrow> length c = 2 \<and> NLc \<notin> set c \<and> CHR '','' \<notin> set c \<and> CHR '' '' \<notin> set c"

lemma ISO_code_ok: "c \<in> set ISO_CODES \<Longrightarrow> code_ok c"
proof -
  have "list_all code_ok ISO_CODES" by code_simp
  then show "c \<in> set ISO_CODES \<Longrightarrow> code_ok c" by (simp add: list_all_iff)
qed

lemma private_ranges_ok: "list_all isCidr PRIVATE_RANGES"
  by code_simp

lemma no_needle_countries:
  assumes "\<forall>c \<in> set cs. code_ok c"
  shows "\<not> str_includes ''NOTFASSUNG'' (HEADER_COUNTRIES @ join '','' cs)"
proof
  assume inc: "str_includes ''NOTFASSUNG'' (HEADER_COUNTRIES @ join '','' cs)"
  then have "str_includes ''NOTFASSUNG'' (join '','' cs)"
    by (simp add: HEADER_COUNTRIES_def starts_with_def)
  then obtain c where "c \<in> set cs" "str_includes ''NOTFASSUNG'' c"
    using str_includes_join [of "CHR '',''" "''NOTFASSUNG''" cs] by auto
  with assms show False by (auto simp: code_ok_def dest!: str_includes_length)
qed

lemma fixed_lines: "\<forall>l \<in> set (open_lines @ map_lines). NLc \<notin> set l \<and> \<not> str_includes ''NOTFASSUNG'' l"
proof -
  have "list_all (\<lambda>l. NLc \<notin> set l \<and> \<not> str_includes ''NOTFASSUNG'' l) (open_lines @ map_lines)" by code_simp
  then show ?thesis by (simp add: list_all_iff)
qed

lemma length_open_lines: "length open_lines = 3"
  by (simp add: open_lines_def)

lemma conf_lines_no_break:
  assumes "list_all isCidr ranges" "\<forall>c \<in> set countries. code_ok c" "stamp_ok stamp"
  shows "\<forall>l \<in> set (conf_lines ranges countries stamp full). NLc \<notin> set l"
proof -
  have "NLc \<notin> set (range_line r)" if "r \<in> set (PRIVATE_RANGES @ ranges)" for r
    using that assms(1) private_ranges_ok range_line_chars by (auto simp: list_all_iff)
  moreover have "NLc \<notin> set (join '','' countries)"
    using assms(2) by (auto simp: code_ok_def NLc_def dest!: set_join)
  moreover have "NLc \<notin> set stamp" using stamp_chars [OF assms(3)] by blast
  moreover have "NLc \<notin> set (str_of_nat n)" for n
    using str_of_nat_digits [of n] by (auto simp: list_all_iff is_digit_def NLc_def)
  moreover have "NLc \<notin> set first_line" "NLc \<notin> set fallback_line" "NLc \<notin> set HEADER_FORMAT"
    "NLc \<notin> set HEADER_COUNTRIES" "NLc \<notin> set HEADER_STAND" "NLc \<notin> set HEADER_NETS" "NLc \<notin> set SOURCE_LABEL"
    "NLc \<noteq> CHR '' ''" "NLc \<noteq> CHR 0xB7" by code_simp+
  ultimately show ?thesis using fixed_lines unfolding conf_lines_def by auto
qed

lemma split_conf:
  assumes "list_all isCidr ranges" "\<forall>c \<in> set countries. code_ok c" "stamp_ok stamp"
  shows "split_on NLc (renderConf ranges countries stamp full) = conf_lines ranges countries stamp full"
  unfolding renderConf_def
  by (rule split_on_join) (use conf_lines_no_break [OF assms] in \<open>auto simp: conf_lines_def\<close>)

lemma take_8_append: "length xs = 5 \<Longrightarrow> length ys = 3 \<Longrightarrow> take 8 (xs @ ys @ zs) = xs @ ys"
  by simp

lemma join_Cons: "zs \<noteq> [] \<Longrightarrow> join sep (x # zs) = x @ sep @ join sep zs"
  by (cases zs) simp_all

lemma header_texts: "starts_with HEADER_FORMAT first_line = False" "starts_with HEADER_COUNTRIES first_line = False"
  "starts_with HEADER_STAND first_line = False" "starts_with HEADER_NETS first_line = False"
  by code_simp+

lemma fallback_flag:
  assumes "list_all isCidr ranges" "\<forall>c \<in> set countries. code_ok c" "stamp_ok stamp"
  shows "str_includes ''NOTFASSUNG'' (renderConf ranges countries stamp full) \<longleftrightarrow> \<not> full"
proof (cases full)
  case True
  have "\<not> str_includes ''NOTFASSUNG'' l" if l: "l \<in> set (conf_lines ranges countries stamp True)" for l
  proof -
    have no_N: "\<not> str_includes ''NOTFASSUNG'' s" if "CHR ''N'' \<notin> set s" for s
      using that by (auto dest!: str_includes_set)
    have no_O: "\<not> str_includes ''NOTFASSUNG'' s" if "CHR ''O'' \<notin> set s" for s
      using that by (auto dest!: str_includes_set)
    have dig: "CHR ''N'' \<notin> set (str_of_nat n)" "CHR ''O'' \<notin> set (str_of_nat n)" for n
      using str_of_nat_digits [of n] by (auto simp: list_all_iff is_digit_def)
    have "\<not> str_includes ''NOTFASSUNG'' first_line" by code_simp
    moreover have "\<not> str_includes ''NOTFASSUNG'' (HEADER_FORMAT @ str_of_nat CONF_FORMAT)"
      using dig by (intro no_N) (simp add: HEADER_FORMAT_def)
    moreover have "\<not> str_includes ''NOTFASSUNG'' (HEADER_COUNTRIES @ join '','' countries)"
      by (rule no_needle_countries [OF assms(2)])
    moreover have "\<not> str_includes ''NOTFASSUNG'' (HEADER_STAND @ stamp @ '' '' @ [CHR 0xB7] @ '' '' @ SOURCE_LABEL)"
      using stamp_chars [OF assms(3)] by (intro no_N) (auto simp: HEADER_STAND_def SOURCE_LABEL_def)
    moreover have "\<not> str_includes ''NOTFASSUNG'' (HEADER_NETS @ str_of_nat (length ranges))"
      using dig by (intro no_O) (simp add: HEADER_NETS_def)
    moreover have "\<not> str_includes ''NOTFASSUNG'' (range_line r)" if "r \<in> set (PRIVATE_RANGES @ ranges)" for r
      using that assms(1) private_ranges_ok range_line_chars by (intro no_N) (auto simp: list_all_iff)
    ultimately show ?thesis
      using l fixed_lines unfolding conf_lines_def by (auto simp del: str_includes.simps)
  qed
  then have "\<not> (\<exists>l \<in> set (conf_lines ranges countries stamp True). str_includes ''NOTFASSUNG'' l)" by blast
  then show ?thesis
    using True str_includes_join [of NLc "''NOTFASSUNG''" "conf_lines ranges countries stamp full"]
    by (auto simp: renderConf_def NLc_def)
next
  case False
  have pre: "str_includes p s \<Longrightarrow> str_includes p (x @ s)" for p s x by (induction x) auto
  have post: "str_includes ''NOTFASSUNG'' (fallback_line @ s)" for s
    by (simp add: fallback_line_def starts_with_def)
  obtain a b where "renderConf ranges countries stamp False = a @ fallback_line @ b"
  proof -
    have "renderConf ranges countries stamp False =
      (first_line @ [NLc] @ (HEADER_FORMAT @ str_of_nat CONF_FORMAT) @ [NLc] @ (HEADER_COUNTRIES @ join '','' countries)
        @ [NLc] @ (HEADER_STAND @ stamp @ '' '' @ [CHR 0xB7] @ '' '' @ SOURCE_LABEL) @ [NLc])
      @ fallback_line @ ([NLc] @ join [NLc] (drop 5 (conf_lines ranges countries stamp False)))"
      by (simp add: renderConf_def conf_lines_def join_Cons open_lines_def)
    then show ?thesis by (rule that)
  qed
  then show ?thesis using False pre post by simp
qed

text \<open>What the module reads back from the head of a file it wrote is what it put there: the
  countries, the time, the format, the number of networks of a complete file, and the mark of a
  fallback file if and only if it is one. The hypotheses hold for every file it writes: the networks
  passed the strict test, the countries are ISO codes, the time is an ISO time.\<close>

theorem readConfInfo_renderConf:
  assumes "list_all isCidr ranges" and "set countries \<subseteq> set ISO_CODES" and "countries \<noteq> []" and "stamp_ok stamp"
  shows "readConfInfo (Some (renderConf ranges countries stamp full)) =
    \<lparr>ci_exists = True, ci_countries = countries, ci_updatedAt = Some stamp,
     ci_ranges = (if full then Fin (of_nat (length ranges)) else Fin 0),
     ci_fallback = (\<not> full), ci_format = Fin 2\<rparr>"
proof -
  have ok: "\<forall>c \<in> set countries. code_ok c" using assms(2) ISO_code_ok by blast
  let ?stand = "HEADER_STAND @ stamp @ '' '' @ [CHR 0xB7] @ '' '' @ SOURCE_LABEL"
  let ?nets = "if full then HEADER_NETS @ str_of_nat (length ranges) else fallback_line"
  let ?q = "[first_line, HEADER_FORMAT @ str_of_nat CONF_FORMAT, HEADER_COUNTRIES @ join '','' countries, ?stand, ?nets]
      @ open_lines"
  have top: "take 8 (split_on NLc (renderConf ranges countries stamp full)) = ?q"
    unfolding split_conf [OF assms(1) ok assms(4)] conf_lines_def
    by (rule take_8_append) (simp_all add: length_open_lines)
  have lines: "head_line ?q HEADER_FORMAT = str_of_nat CONF_FORMAT"
    "head_line ?q HEADER_COUNTRIES = join '','' countries"
    "head_line ?q HEADER_STAND = stamp @ '' '' @ [CHR 0xB7] @ '' '' @ SOURCE_LABEL"
    "head_line ?q HEADER_NETS = (if full then str_of_nat (length ranges) else [])"
    using header_texts
    by (simp_all add: head_line_def open_lines_def HEADER_FORMAT_def HEADER_COUNTRIES_def HEADER_STAND_def HEADER_NETS_def
        starts_with_def fallback_line_def)
  have "split_on (CHR '','') (join '','' countries) = countries"
    using assms(3) ok by (intro split_on_join) (auto simp: code_ok_def)
  moreover have "filter (\<lambda>c. c \<noteq> []) countries = countries"
    using ok by (intro filter_True) (auto simp: code_ok_def)
  moreover have "CHR '' '' \<notin> set stamp" using stamp_chars [OF assms(4)] by blast
  then have "hd (split_on (CHR '' '') (stamp @ '' '' @ [CHR 0xB7] @ '' '' @ SOURCE_LABEL)) = stamp"
    by (simp add: split_on_append_sep)
  moreover have "stamp \<noteq> []" using assms(4) by (simp add: stamp_ok_def)
  moreover have "str_number [] = Fin 0" by code_simp
  ultimately show ?thesis
    using lines fallback_flag [OF assms(1) ok assms(4), of full]
    unfolding readConfInfo_def option.case top Let_def
    by (simp add: number_or_def CONF_FORMAT_def Let_def)
qed

theorem readConfInfo_renderConf_witness:
  "readConfInfo (Some (renderConf [''10.0.0.0/24''] [''AT'', ''CH''] ''2026-01-01T00:00:00.000Z'' True)) =
    \<lparr>ci_exists = True, ci_countries = [''AT'', ''CH''], ci_updatedAt = Some ''2026-01-01T00:00:00.000Z'',
     ci_ranges = Fin 1, ci_fallback = False, ci_format = Fin 2\<rparr>"
proof -
  have a: "list_all isCidr [''10.0.0.0/24'']" by code_simp
  have "list_all (\<lambda>c. c \<in> set ISO_CODES) [''AT'', ''CH'']" by code_simp
  then have b: "set [''AT'', ''CH''] \<subseteq> set ISO_CODES" by (simp add: list_all_iff)
  have c: "stamp_ok ''2026-01-01T00:00:00.000Z''" by code_simp
  show ?thesis using readConfInfo_renderConf [OF a b _ c, of True] by simp
qed


subsection \<open>The life of the generated file\<close>

definition selection_ok :: "string list \<Rightarrow> bool" where
  "selection_ok cs \<longleftrightarrow> cs \<noteq> [] \<and> set cs \<subseteq> set ISO_CODES"

lemma normalized_ok: "normalizeCountries v = Inr cs \<Longrightarrow> selection_ok cs"
  by (auto simp: normalizeCountries_def selection_ok_def Let_def filter_empty_conv split: jsval.splits if_splits)

lemma readSettings_ok: "selection_ok (readSettings json f)"
proof -
  have "list_all (\<lambda>c. c \<in> set ISO_CODES) (sort DEFAULT_COUNTRIES)" "sort DEFAULT_COUNTRIES \<noteq> []" by code_simp+
  then have "selection_ok (sort DEFAULT_COUNTRIES)" by (auto simp: selection_ok_def list_all_iff)
  then show ?thesis by (auto simp: readSettings_def dest: normalized_ok split: option.split sum.split)
qed

lemma selection_codes: "selection_ok cs \<Longrightarrow> \<forall>c \<in> set cs. code_ok c"
  using ISO_code_ok by (auto simp: selection_ok_def)

text \<open>A file the module wrote: either a complete one or the fallback without countries' networks.\<close>

definition conf_ok :: "string \<Rightarrow> bool" where
  "conf_ok t \<longleftrightarrow> (\<exists>ranges cs stamp full. t = renderConf ranges cs stamp full \<and> list_all isCidr ranges
     \<and> selection_ok cs \<and> stamp_ok stamp \<and> (\<not> full \<longrightarrow> ranges = []))"

definition geo_inv :: "'b geo_state \<Rightarrow> bool" where
  "geo_inv st \<longleftrightarrow> (\<forall>t. gs_conf st = Some t \<longrightarrow> conf_ok t) \<and> (\<forall>cs. gs_processing st = Some cs \<longrightarrow> selection_ok cs)"

lemma renderConf_ok:
  "list_all isCidr ranges \<Longrightarrow> selection_ok cs \<Longrightarrow> stamp_ok s \<Longrightarrow> conf_ok (renderConf ranges cs s True)"
  "selection_ok cs \<Longrightarrow> stamp_ok s \<Longrightarrow> conf_ok (renderConf [] cs s False)"
  unfolding conf_ok_def by fastforce+

lemma writeIfChanged_fields:
  "gs_processing (snd (writeIfChanged t now st)) = gs_processing st"
  "gs_settings (snd (writeIfChanged t now st)) = gs_settings st"
  "gs_written (snd (writeIfChanged t now st)) = now"
  "gs_last_error (snd (writeIfChanged t now st)) = gs_last_error st"
  "gs_conf (snd (writeIfChanged t now st)) \<in> {gs_conf st, Some t}"
  "gs_conf (snd (writeIfChanged t now st)) \<noteq> None"
  by (auto simp: writeIfChanged_def)

lemma ensureConf_fields:
  "gs_processing (snd (ensureConf json stamp now st)) = gs_processing st"
  "gs_settings (snd (ensureConf json stamp now st)) = gs_settings st"
  "gs_last_error (snd (ensureConf json stamp now st)) = gs_last_error st"
  "gs_conf (snd (ensureConf json stamp now st)) \<noteq> None"
  "gs_conf st \<noteq> None \<Longrightarrow> snd (ensureConf json stamp now st) = st"
  by (simp_all add: ensureConf_def writeIfChanged_fields del: not_None_eq)

lemma geo_fail_fields:
  "gs_processing (geo_fail json stamp now msg st) = None"
  "gs_conf (geo_fail json stamp now msg st) \<noteq> None"
  "gs_last_error (geo_fail json stamp now msg st) = Some msg"
  "gs_settings (geo_fail json stamp now msg st) = gs_settings st"
  "gs_conf st \<noteq> None \<Longrightarrow> gs_conf (geo_fail json stamp now msg st) = gs_conf st"
  by (simp_all add: geo_fail_def ensureConf_fields)

definition clock_ok :: "(int \<Rightarrow> string) \<Rightarrow> bool" where
  "clock_ok stamp \<longleftrightarrow> (\<forall>t. stamp_ok (stamp t))"

lemma writeIfChanged_inv: "geo_inv st \<Longrightarrow> conf_ok t \<Longrightarrow> geo_inv (snd (writeIfChanged t now st))"
  by (auto simp: geo_inv_def writeIfChanged_def)

lemma ensureConf_inv: "clock_ok stamp \<Longrightarrow> geo_inv st \<Longrightarrow> geo_inv (snd (ensureConf json stamp now st))"
  by (auto simp: ensureConf_def clock_ok_def intro!: writeIfChanged_inv renderConf_ok readSettings_ok)

lemma geo_fail_inv: "clock_ok stamp \<Longrightarrow> geo_inv st \<Longrightarrow> geo_inv (geo_fail json stamp now msg st)"
  using ensureConf_inv [of stamp "st\<lparr>gs_last_error := Some msg\<rparr>" json now] by (simp add: geo_fail_def geo_inv_def)

lemma store_ranges_inv:
  assumes "geo_inv st" "list_all isCidr ranges" "selection_ok cs" "clock_ok stamp"
  shows "geo_inv (snd (store_ranges json stamp reload reload_ok now ranges cs st))"
proof -
  obtain b s where w: "writeIfChanged (renderConf ranges cs (stamp now) True) now st = (b, s)"
    by (cases "writeIfChanged (renderConf ranges cs (stamp now) True) now st")
  have "geo_inv s" using writeIfChanged_inv [OF assms(1) renderConf_ok(1) [OF assms(2,3)], of "stamp now" now] w assms(4)
    by (simp add: clock_ok_def)
  then have "geo_inv (s\<lparr>gs_last_error := None\<rparr>)" by (simp add: geo_inv_def)
  then have "geo_inv (geo_fail json stamp now ''reload'' (s\<lparr>gs_last_error := None\<rparr>))" by (rule geo_fail_inv [OF assms(4)])
  then show ?thesis using w \<open>geo_inv s\<close> by (auto simp: store_ranges_def geo_inv_def Let_def split: if_splits)
qed

lemma parseDbip_cidrs: "parseDbip csv cs = Inr r \<Longrightarrow> list_all isCidr (dr_ranges r)"
  by (auto simp: parseDbip_def bind_res_iff Let_def list_all_iff find_None_iff split: option.splits)

lemma list_all_uniq: "list_all P (uniq xs) = list_all P xs"
  by (simp add: list_all_iff)

lemma refresh_finish_cases:
  assumes "gs_processing st = Some cs"
  obtains msg where "refresh_finish json stamp gunzip reload reload_ok now fetched st = (False, geo_fail json stamp now msg st)"
  | gz msg where "refresh_finish json stamp gunzip reload reload_ok now fetched st
       = (False, geo_fail json stamp now msg (st\<lparr>gs_cache := Some gz\<rparr>))"
  | gz csv r where "fetched = Inr gz" "gunzip gz = Some csv" "parseDbip csv cs = Inr r" "MIN_ROWS \<le> dr_rows r"
      "\<not> no_networks r cs"
      "refresh_finish json stamp gunzip reload reload_ok now fetched st
       = store_ranges json stamp reload reload_ok now (uniq (dr_ranges r)) cs (st\<lparr>gs_cache := Some gz\<rparr>)"
proof (cases fetched)
  case (Inl msg)
  then show ?thesis using assms that(1) by (simp add: refresh_finish_def)
next
  case gz: (Inr gz)
  show ?thesis
  proof (cases "gunzip gz")
    case None
    then show ?thesis using assms gz that(1) by (simp add: refresh_finish_def)
  next
    case csv: (Some csv)
    show ?thesis
    proof (cases "parseDbip csv cs")
      case (Inl e)
      then show ?thesis using assms gz csv that(1) by (simp add: refresh_finish_def)
    next
      case r: (Inr r)
      show ?thesis
      proof (cases "dr_rows r < MIN_ROWS")
        case True
        then show ?thesis using assms gz csv r that(1) by (simp add: refresh_finish_def)
      next
        case False
        then show ?thesis
          using assms gz csv r that(2) [of "''empty''" gz] that(3) [OF gz csv r]
          by (cases "no_networks r cs") (simp_all add: refresh_finish_def Let_def)
      qed
    qed
  qed
qed

lemma geo_inv_cache: "geo_inv (st\<lparr>gs_cache := c\<rparr>) = geo_inv st"
  by (simp add: geo_inv_def)

lemma refresh_finish_inv:
  assumes "geo_inv st" "clock_ok stamp" "gs_processing st = Some cs"
  shows "geo_inv (snd (refresh_finish json stamp gunzip reload reload_ok now fetched st))"
  using assms(3)
proof (rule refresh_finish_cases [where json = json and stamp = stamp and gunzip = gunzip
        and reload = reload and reload_ok = reload_ok and now = now and fetched = fetched])
  fix gz csv r
  assume "parseDbip csv cs = Inr r"
    "refresh_finish json stamp gunzip reload reload_ok now fetched st
       = store_ranges json stamp reload reload_ok now (uniq (dr_ranges r)) cs (st\<lparr>gs_cache := Some gz\<rparr>)"
  moreover have "selection_ok cs" using assms(1,3) by (simp add: geo_inv_def)
  ultimately show ?thesis
    using assms(1,2) parseDbip_cidrs by (simp add: store_ranges_inv geo_inv_cache list_all_uniq)
qed (use assms in \<open>simp_all add: geo_fail_inv geo_inv_cache\<close>)

text \<open>The events of the module: a timed or forced refresh, the end of the running one, a saved
  selection and the check at start.\<close>

inductive geo_step ::
  "(string \<Rightarrow> jsval option) \<Rightarrow> (int \<Rightarrow> string) \<Rightarrow> ('b \<Rightarrow> string option) \<Rightarrow> 'b geo_state \<Rightarrow> 'b geo_state \<Rightarrow> bool"
  for json stamp gunzip where
  start: "geo_step json stamp gunzip st (refresh_start json force now st)"
| finish: "gs_processing st = Some cs \<Longrightarrow>
    geo_step json stamp gunzip st (snd (refresh_finish json stamp gunzip reload reload_ok now fetched st))"
| saved: "save json now input st = Inr (r, st') \<Longrightarrow> geo_step json stamp gunzip st st'"
| boot: "geo_step json stamp gunzip st (snd (ensureConf json stamp now st))"

inductive_cases geo_stepE: "geo_step json stamp gunzip st st'"

lemma refresh_start_inv: "geo_inv st \<Longrightarrow> geo_inv (refresh_start json force now st)"
  by (simp add: refresh_start_def geo_inv_def readSettings_ok)

lemma refresh_start_conf [simp]: "gs_conf (refresh_start json force now st) = gs_conf st"
  by (simp add: refresh_start_def)

lemma save_inv: "save json now input st = Inr (r, st') \<Longrightarrow> geo_inv st \<Longrightarrow> geo_inv st' \<and> gs_conf st' = gs_conf st"
  using refresh_start_inv [of "st\<lparr>gs_settings := Some (settings_text c)\<rparr>" for c]
  by (fastforce simp: save_def bind_res_iff Let_def geo_inv_def split: if_splits)

lemma geo_step_inv: "geo_step json stamp gunzip st st' \<Longrightarrow> clock_ok stamp \<Longrightarrow> geo_inv st \<Longrightarrow> geo_inv st'"
  by (induction rule: geo_step.induct)
    (auto intro: refresh_start_inv refresh_finish_inv ensureConf_inv dest: save_inv)

lemma store_ranges_conf: "gs_conf (snd (store_ranges json stamp reload reload_ok now ranges cs st)) \<noteq> None"
  using writeIfChanged_fields(6) [of "renderConf ranges cs (stamp now) True" now st]
    geo_fail_fields(2) by (auto simp: store_ranges_def Let_def split: prod.split if_splits)

lemma refresh_finish_conf:
  assumes "gs_processing st = Some cs"
  shows "gs_conf (snd (refresh_finish json stamp gunzip reload reload_ok now fetched st)) \<noteq> None"
  using assms
  by (rule refresh_finish_cases [where json = json and stamp = stamp and gunzip = gunzip
        and reload = reload and reload_ok = reload_ok and now = now and fetched = fetched])
    (simp_all add: geo_fail_fields store_ranges_conf del: not_None_eq)

lemma geo_step_keeps: "geo_step json stamp gunzip st st' \<Longrightarrow> geo_inv st \<Longrightarrow> gs_conf st \<noteq> None \<Longrightarrow> gs_conf st' \<noteq> None"
  by (erule geo_stepE) (auto simp: ensureConf_fields refresh_finish_conf dest!: save_inv simp del: not_None_eq)

definition geo_init :: "string option \<Rightarrow> 'b geo_state" where
  "geo_init f = \<lparr>gs_conf = None, gs_written = 0, gs_settings = f, gs_cache = None, gs_processing = None,
     gs_last_error = None, gs_last_attempt = None, gs_reloads = 0\<rparr>"


lemma geo_reach_inv:
  "(geo_step json stamp gunzip)\<^sup>*\<^sup>* (geo_init f) st \<Longrightarrow> clock_ok stamp \<Longrightarrow> geo_inv st"
proof (induction rule: rtranclp_induct)
  case base
  show ?case by (simp add: geo_inv_def geo_init_def)
next
  case (step y z)
  then show ?case using geo_step_inv by blast
qed

text \<open>C28: In every state the module can get into, whatever the downloads return and in whatever order
  refreshes, saved selections and restarts happen, the nginx file, where there is one, is a file
  rendered from networks that passed the strict test and from a valid selection, or the fallback
  file that lets only private networks in; and once there is a file there always is one, so that the
  variable the hosts test stays defined.\<close>

theorem geo_file_safe:
  assumes "(geo_step json stamp gunzip)\<^sup>*\<^sup>* (geo_init f) st" and "clock_ok stamp"
  shows "(\<forall>t. gs_conf st = Some t \<longrightarrow> conf_ok t)
    \<and> (\<forall>st'. (geo_step json stamp gunzip)\<^sup>*\<^sup>* st st' \<and> gs_conf st \<noteq> None \<longrightarrow> gs_conf st' \<noteq> None)"
proof -
  have inv: "geo_inv st" by (rule geo_reach_inv [OF assms(1,2)])
  have "geo_inv st' \<and> gs_conf st' \<noteq> None" if "(geo_step json stamp gunzip)\<^sup>*\<^sup>* st st'" "gs_conf st \<noteq> None" for st'
    using that(1)
  proof (induction rule: rtranclp_induct)
    case base
    show ?case using inv that(2) by blast
  next
    case (step y z)
    then show ?case using geo_step_inv geo_step_keeps assms(2) by blast
  qed
  with inv show ?thesis by (auto simp: geo_inv_def)
qed

definition ex_stamp :: "int \<Rightarrow> string" where
  "ex_stamp t = ''2026-01-01T00:00:00.000Z''"

lemma ex_clock: "clock_ok ex_stamp"
proof -
  have "stamp_ok ''2026-01-01T00:00:00.000Z''" by code_simp
  then show ?thesis by (simp add: clock_ok_def ex_stamp_def)
qed

theorem geo_file_safe_witness:
  "\<exists>st t. (geo_step (\<lambda>_. None) ex_stamp (\<lambda>b. Some b))\<^sup>*\<^sup>* (geo_init None) st \<and> gs_conf st = Some t \<and> conf_ok t"
proof -
  let ?st = "snd (ensureConf (\<lambda>_. None) ex_stamp 0 (geo_init None)) :: string geo_state"
  have r: "(geo_step (\<lambda>_. None) ex_stamp (\<lambda>b. Some b))\<^sup>*\<^sup>* (geo_init None) ?st"
    by (rule r_into_rtranclp) (rule geo_step.boot)
  obtain t where "gs_conf ?st = Some t"
    using ensureConf_fields(4) [of "\<lambda>_. None" ex_stamp 0 "geo_init None"] by auto
  with geo_file_safe [OF r ex_clock] r show ?thesis by blast
qed

lemma geo_fail_conf:
  "gs_conf (geo_fail json stamp now msg s) = (case gs_conf s of Some t \<Rightarrow> Some t
      | None \<Rightarrow> Some (renderConf [] (readSettings json (gs_settings s)) (stamp now) False))"
  by (cases "gs_conf s") (simp_all add: geo_fail_def ensureConf_def writeIfChanged_def)

text \<open>A refresh that fails leaves the list that is in force as it is: the file is not touched, or,
  where there was none, the fallback file that only lets private networks in is written; the failure
  is shown as the last error and the next refresh can start.\<close>

theorem failed_refresh_keeps_list:
  assumes "gs_processing st = Some cs" and "reload_ok"
    and "refresh_finish json stamp gunzip reload reload_ok now fetched st = (b, st')"
    and "gs_last_error st' \<noteq> None"
  shows "\<not> b \<and> gs_processing st' = None
    \<and> gs_conf st' = (case gs_conf st of Some t \<Rightarrow> Some t
         | None \<Rightarrow> Some (renderConf [] (readSettings json (gs_settings st)) (stamp now) False))"
  using assms(1)
proof (rule refresh_finish_cases [where json = json and stamp = stamp and gunzip = gunzip
        and reload = reload and reload_ok = reload_ok and now = now and fetched = fetched])
  {
    fix msg assume "refresh_finish json stamp gunzip reload reload_ok now fetched st = (False, geo_fail json stamp now msg st)"
    with assms(3) show ?thesis by (auto simp: geo_fail_fields geo_fail_conf)
  next
    fix gz msg assume "refresh_finish json stamp gunzip reload reload_ok now fetched st
        = (False, geo_fail json stamp now msg (st\<lparr>gs_cache := Some gz\<rparr>))"
    with assms(3) show ?thesis by (cases "gs_conf st") (auto simp: geo_fail_fields geo_fail_conf)
  next
    fix gz csv r assume "refresh_finish json stamp gunzip reload reload_ok now fetched st
        = store_ranges json stamp reload reload_ok now (uniq (dr_ranges r)) cs (st\<lparr>gs_cache := Some gz\<rparr>)"
    with assms(2-4) have False
      by (auto simp: store_ranges_def Let_def split: prod.splits if_splits)
    then show ?thesis ..
  }
qed

theorem failed_refresh_keeps_list_witness:
  "\<exists>st'. refresh_finish (\<lambda>_. None) ex_stamp (\<lambda>b. Some b) True True 5 (Inl ''HTTP 500'')
       ((geo_init None)\<lparr>gs_conf := Some ''old'', gs_processing := Some [''AT'']\<rparr>) = (False, st')
     \<and> gs_conf st' = Some ''old'' \<and> gs_processing st' = None"
proof -
  let ?st = "(geo_init None)\<lparr>gs_conf := Some ''old'', gs_processing := Some [''AT'']\<rparr>"
  obtain b s where r: "refresh_finish (\<lambda>_. None) ex_stamp (\<lambda>b. Some b) True True 5 (Inl ''HTTP 500'') ?st = (b, s)"
    by fastforce
  have e: "gs_last_error s \<noteq> None"
    using arg_cong [OF r, of snd] by (simp add: refresh_finish_def geo_init_def) (metis geo_fail_fields(3) option.distinct(1))
  have p: "gs_processing ?st = Some [''AT'']" by simp
  from failed_refresh_keeps_list [OF p TrueI r e] r show ?thesis by (auto simp: geo_init_def)
qed

subsection \<open>After a refresh\<close>

lemma body_lines:
  assumes "list_all isCidr ranges" "selection_ok cs" "stamp_ok stamp"
  shows "split_on NLc (conf_body (renderConf ranges cs stamp full))
    = [first_line, HEADER_FORMAT @ str_of_nat CONF_FORMAT, HEADER_COUNTRIES @ join '','' cs,
       (if full then HEADER_NETS @ str_of_nat (length ranges) else fallback_line)]
      @ open_lines @ map range_line PRIVATE_RANGES @ map range_line ranges @ map_lines"
proof -
  let ?ls = "filter (\<lambda>l. \<not> starts_with HEADER_STAND l) (conf_lines ranges cs stamp full)"
  have rl: "\<not> starts_with HEADER_STAND (range_line r)" for r
    by (simp add: range_line_def HEADER_STAND_def starts_with_def)
  have fx: "list_all (\<lambda>l. \<not> starts_with HEADER_STAND l) (open_lines @ map_lines)" by code_simp
  have eq: "?ls = [first_line, HEADER_FORMAT @ str_of_nat CONF_FORMAT, HEADER_COUNTRIES @ join '','' cs,
       (if full then HEADER_NETS @ str_of_nat (length ranges) else fallback_line)]
      @ open_lines @ map range_line PRIVATE_RANGES @ map range_line ranges @ map_lines"
  proof -
    have "starts_with HEADER_STAND (HEADER_STAND @ s)" for s by (simp add: starts_with_def)
    moreover have "\<not> starts_with HEADER_STAND (HEADER_FORMAT @ s)" "\<not> starts_with HEADER_STAND (HEADER_COUNTRIES @ s)"
      "\<not> starts_with HEADER_STAND (HEADER_NETS @ s)" for s
      by (simp_all add: starts_with_def HEADER_STAND_def HEADER_FORMAT_def HEADER_COUNTRIES_def HEADER_NETS_def)
    moreover have "\<not> starts_with HEADER_STAND fallback_line" by code_simp
    moreover have "filter (\<lambda>l. \<not> starts_with HEADER_STAND l) (map range_line xs) = map range_line xs" for xs
      by (rule filter_True) (auto simp: rl)
    moreover have "filter (\<lambda>l. \<not> starts_with HEADER_STAND l) open_lines = open_lines"
      "filter (\<lambda>l. \<not> starts_with HEADER_STAND l) map_lines = map_lines"
      using fx by (auto simp: list_all_iff)
    ultimately show ?thesis using header_texts by (simp add: conf_lines_def)
  qed
  have "conf_body (renderConf ranges cs stamp full) = join [NLc] ?ls"
    by (simp add: conf_body_def split_conf [OF assms(1) selection_codes [OF assms(2)] assms(3)])
  moreover have "\<forall>l \<in> set ?ls. NLc \<notin> set l"
    using conf_lines_no_break [OF assms(1) selection_codes [OF assms(2)] assms(3), of full]
    by (meson filter_is_subset subsetD)
  then have "split_on NLc (join [NLc] ?ls) = ?ls"
    by (intro split_on_join) (simp_all only: eq append_Cons list.distinct not_False_eq_True)
  ultimately show ?thesis using eq by simp
qed

lemma selection_join: "selection_ok cs \<Longrightarrow> selection_ok ds \<Longrightarrow> join '','' cs = join '','' ds \<Longrightarrow> cs = ds"
proof -
  assume ok: "selection_ok cs" "selection_ok ds" and eq: "join '','' cs = join '','' ds"
  have "split_on (CHR '','') (join '','' xs) = xs" if "selection_ok xs" for xs
    using that selection_codes [OF that] by (intro split_on_join) (auto simp: selection_ok_def code_ok_def)
  with ok eq show ?thesis by metis
qed

lemma conf_body_inj:
  assumes "list_all isCidr r" "selection_ok cs" "stamp_ok s"
    and "list_all isCidr r'" "selection_ok cs'" "stamp_ok s'"
    and "conf_body (renderConf r cs s full) = conf_body (renderConf r' cs' s' full')"
  shows "cs = cs' \<and> full = full'"
proof -
  note l = body_lines [OF assms(1-3), of full] and l' = body_lines [OF assms(4-6), of full']
  have "HEADER_COUNTRIES @ join '','' cs = HEADER_COUNTRIES @ join '','' cs'"
    using l l' assms(7) by simp
  moreover have "(if full then HEADER_NETS @ str_of_nat (length r) else fallback_line)
      = (if full' then HEADER_NETS @ str_of_nat (length r') else fallback_line)"
    using l l' assms(7) by simp
  then have "full = full'" by (auto simp: HEADER_NETS_def fallback_line_def split: if_splits)
  ultimately show ?thesis using selection_join [OF assms(2,5)] by simp
qed

definition conf_current :: "'b geo_state \<Rightarrow> string list \<Rightarrow> bool" where
  "conf_current st cs \<longleftrightarrow> (\<exists>t. gs_conf st = Some t) \<and> ci_countries (readConfInfo (gs_conf st)) = cs
     \<and> \<not> ci_fallback (readConfInfo (gs_conf st)) \<and> ci_format (readConfInfo (gs_conf st)) = Fin 2"

lemma writeIfChanged_current:
  assumes "geo_inv st" "list_all isCidr ranges" "selection_ok cs" "stamp_ok s"
  shows "conf_current (snd (writeIfChanged (renderConf ranges cs s True) now st)) cs"
proof -
  have info: "readConfInfo (Some (renderConf r cs s True)) = \<lparr>ci_exists = True, ci_countries = cs,
      ci_updatedAt = Some s, ci_ranges = Fin (of_nat (length r)), ci_fallback = False, ci_format = Fin 2\<rparr>"
    if "list_all isCidr r" "stamp_ok s" for r s
    using readConfInfo_renderConf [of r cs s True] that assms(3) by (simp add: selection_ok_def)
  show ?thesis
  proof (cases "map_option conf_body (gs_conf st) = Some (conf_body (renderConf ranges cs s True))")
    case False
    then show ?thesis using info [OF assms(2,4)] unfolding writeIfChanged_def conf_current_def
      by (simp only: if_False snd_conv) simp
  next
    case True
    then obtain t where t: "gs_conf st = Some t" "conf_body t = conf_body (renderConf ranges cs s True)" by auto
    then obtain r cs' s' full where o: "t = renderConf r cs' s' full" "list_all isCidr r" "selection_ok cs'" "stamp_ok s'"
      using assms(1) unfolding geo_inv_def conf_ok_def by blast
    have "cs' = cs \<and> full = True"
      using conf_body_inj [OF o(2-4) assms(2-4)] t(2) unfolding o(1) by blast
    then show ?thesis using True t o info [OF o(2,4)] by (simp add: writeIfChanged_def conf_current_def)
  qed
qed

lemma store_ranges_ok:
  assumes "store_ranges json stamp reload reload_ok now ranges cs st = (b, st')" "gs_last_error st' = None"
  shows "gs_conf st' = gs_conf (snd (writeIfChanged (renderConf ranges cs (stamp now) True) now st))"
    and "gs_written st' = now" and "gs_settings st' = gs_settings st"
  using assms writeIfChanged_fields(2,3) [of "renderConf ranges cs (stamp now) True" now st]
  by (auto simp: store_ranges_def Let_def geo_fail_fields split: prod.splits if_splits)

text \<open>C29: A refresh that succeeds settles the matter: the file carries the current selection in the
  current format and no fallback mark, so that the timer starts no other download within the
  seven days the list may be old, as long as the selection stays the same.\<close>

theorem refresh_settles:
  assumes "(geo_step json stamp gunzip)\<^sup>*\<^sup>* (geo_init f) st" and "clock_ok stamp"
    and "gs_processing st = Some (readSettings json (gs_settings st))"
    and "refresh_finish json stamp gunzip reload reload_ok now fetched st = (b, st')"
    and "gs_last_error st' = None" and "later - now < MAX_AGE_MS"
  shows "refresh_start json False later st' = st'
    \<and> ci_countries (readConfInfo (gs_conf st')) = readSettings json (gs_settings st')"
  using assms(3)
proof (rule refresh_finish_cases [where json = json and stamp = stamp and gunzip = gunzip
        and reload = reload and reload_ok = reload_ok and now = now and fetched = fetched])
  let ?cs = "readSettings json (gs_settings st)"
  have inv: "geo_inv st" by (rule geo_reach_inv [OF assms(1,2)])
  {
    fix msg assume "refresh_finish json stamp gunzip reload reload_ok now fetched st = (False, geo_fail json stamp now msg st)"
    with assms(4,5) show ?thesis by (auto simp: geo_fail_fields)
  next
    fix gz msg assume "refresh_finish json stamp gunzip reload reload_ok now fetched st
        = (False, geo_fail json stamp now msg (st\<lparr>gs_cache := Some gz\<rparr>))"
    with assms(4,5) show ?thesis by (auto simp: geo_fail_fields)
  next
    fix gz csv and r :: dbip_result
    let ?w = "writeIfChanged (renderConf (uniq (dr_ranges r)) ?cs (stamp now) True) now (st\<lparr>gs_cache := Some gz\<rparr>)"
    assume r: "parseDbip csv ?cs = Inr r" and fin: "refresh_finish json stamp gunzip reload reload_ok now fetched st
        = store_ranges json stamp reload reload_ok now (uniq (dr_ranges r)) ?cs (st\<lparr>gs_cache := Some gz\<rparr>)"
    have cur: "conf_current (snd ?w) ?cs"
      using inv parseDbip_cidrs [OF r] assms(2)
      by (intro writeIfChanged_current) (simp_all add: geo_inv_cache list_all_uniq readSettings_ok clock_ok_def)
    have "gs_conf st' = gs_conf (snd ?w)" "gs_written st' = now" "gs_settings st' = gs_settings st"
      using store_ranges_ok [OF trans [OF fin [symmetric] assms(4)] assms(5)] by simp_all
    then have "\<not> conf_stale json later st'" and "ci_countries (readConfInfo (gs_conf st')) = ?cs"
      using cur assms(6) by (simp_all add: conf_stale_def conf_current_def Let_def CONF_FORMAT_def)
    then show ?thesis using \<open>gs_settings st' = gs_settings st\<close> by (simp add: refresh_start_def)
  }
qed

definition long_csv :: "nat \<Rightarrow> string" where
  "long_csv n = concat (replicate n [CHR ''x'', CHR 0x0A]) @ ''10.0.0.0,10.0.0.255,AT''"

lemma split_long: "split_on (CHR 0x0A) (long_csv n) = replicate n ''x'' @ [''10.0.0.0,10.0.0.255,AT'']"
proof (induction n)
  case 0
  have "split_on (CHR 0x0A) ''10.0.0.0,10.0.0.255,AT'' = [''10.0.0.0,10.0.0.255,AT'']" by code_simp
  then show ?case by (simp add: long_csv_def)
qed (simp add: long_csv_def)

lemma skip_rows: "fold_res (dbip_line cs) (replicate n ''x'') a = Inr (a\<lparr>da_rows := n + da_rows a\<rparr>)"
proof (induction n arbitrary: a)
  case (Suc n)
  have "wanted_row cs ''x'' = None" by (simp add: wanted_row_def trim_def js_ws_def)
  with Suc show ?case by (simp add: dbip_line_def Let_def)
qed simp

lemma parse_long: "\<exists>r. parseDbip (long_csv n) (sort DEFAULT_COUNTRIES) = Inr r \<and> dr_rows r = Suc n
    \<and> map_of (dr_per_country r) ''AT'' = Some 1"
proof -
  let ?cs = "sort DEFAULT_COUNTRIES" and ?row = "''10.0.0.0,10.0.0.255,AT''"
  let ?m = "map (\<lambda>c. (c, 0 :: nat)) (uniq ?cs)"
  let ?init = "\<lparr>da_v4 = [], da_v6 = [], da_rows = 0, da_per_country = ?m\<rparr>"
  have w: "wanted_row ?cs ?row = Some (''10.0.0.0'', ''10.0.0.255'', ''AT'')" by code_simp
  have s: "row_span ''10.0.0.0'' ''10.0.0.255'' = Inr (False, (167772160, 167772415))" by code_simp
  have m: "map_of (count_country ''AT'' ?m) ''AT'' = Some 1" by code_simp
  let ?a = "\<lparr>da_v4 = [(167772160, 167772415)], da_v6 = [], da_rows = Suc n, da_per_country = count_country ''AT'' ?m\<rparr>"
  have "fold_res (dbip_line ?cs) (split_on (CHR 0x0A) (long_csv n)) ?init = Inr ?a"
    unfolding split_long fold_res_append skip_rows
    by (simp add: dbip_line_def w s add_span_def Let_def)
  moreover have "find (\<lambda>c. \<not> isCidr c) (family_ranges False [(167772160, 167772415)] @ family_ranges True []) = None"
    by code_simp
  ultimately show ?thesis using m by (simp add: parseDbip_def Let_def)
qed

theorem refresh_settles_witness:
  "\<exists>st' :: string geo_state. gs_last_error st' = None \<and> gs_conf st' \<noteq> None
     \<and> refresh_start (\<lambda>_. None) False 1000 st' = st'"
proof -
  let ?j = "\<lambda>_ :: string. None :: jsval option" and ?g = "\<lambda>b :: string. Some b"
  let ?st = "refresh_start ?j True 0 (geo_init None) :: string geo_state"
  have p: "gs_processing ?st = Some (readSettings ?j (gs_settings ?st))"
    by (simp add: refresh_start_def geo_init_def)
  have cs: "readSettings ?j (gs_settings ?st) = sort DEFAULT_COUNTRIES"
    by (simp add: refresh_start_def geo_init_def readSettings_def)
  have reach: "(geo_step ?j ex_stamp ?g)\<^sup>*\<^sup>* (geo_init None) ?st"
    by (rule r_into_rtranclp) (rule geo_step.start)
  obtain r where r: "parseDbip (long_csv MIN_ROWS) (sort DEFAULT_COUNTRIES) = Inr r" "dr_rows r = Suc MIN_ROWS"
    "map_of (dr_per_country r) ''AT'' = Some 1" using parse_long by blast
  have "''AT'' \<in> set (sort DEFAULT_COUNTRIES)" by (simp add: DEFAULT_COUNTRIES_def EU_COUNTRIES_def)
  then have "\<not> no_networks r (sort DEFAULT_COUNTRIES)" using r(3) by (auto simp: no_networks_def list_all_iff intro!: bexI [of _ "''AT''"])
  then have fin: "refresh_finish ?j ex_stamp ?g False True 0 (Inr (long_csv MIN_ROWS)) ?st
    = store_ranges ?j ex_stamp False True 0 (uniq (dr_ranges r)) (sort DEFAULT_COUNTRIES) (?st\<lparr>gs_cache := Some (long_csv MIN_ROWS)\<rparr>)"
    using p r(1,2) unfolding cs refresh_finish_def by (simp add: Let_def)
  obtain b st' where s: "refresh_finish ?j ex_stamp ?g False True 0 (Inr (long_csv MIN_ROWS)) ?st = (b, st')" by fastforce
  have "gs_last_error st' = None" "gs_conf st' \<noteq> None"
    using s store_ranges_conf [of ?j ex_stamp False True 0 "uniq (dr_ranges r)" "sort DEFAULT_COUNTRIES"
        "?st\<lparr>gs_cache := Some (long_csv MIN_ROWS)\<rparr>"] unfolding fin
    by (auto simp: store_ranges_def split: prod.splits)
  with refresh_settles [OF reach ex_clock p s, of 1000] show ?thesis by (auto simp: MAX_AGE_MS_def)
qed

text \<open>A selection saved while a refresh is running is stored, but the download that is promised at
  once does not happen: the call joins the running refresh, which still works with the selection it
  started with, and its success brings back a file with the old countries.\<close>

theorem save_during_refresh:
  assumes "(geo_step json stamp gunzip)\<^sup>*\<^sup>* (geo_init f) st" and "clock_ok stamp"
    and "gs_processing st = Some old"
    and "save json t input st = Inr ((changed, before, new), st1)"
    and "refresh_finish json stamp gunzip reload reload_ok now fetched st1 = (b, st2)"
    and "gs_last_error st2 = None"
  shows "gs_processing st1 = Some old \<and> gs_last_attempt st1 = gs_last_attempt st
    \<and> gs_settings st1 = Some (settings_text new) \<and> ci_countries (readConfInfo (gs_conf st2)) = old"
proof -
  have inv: "geo_inv st" by (rule geo_reach_inv [OF assms(1,2)])
  have st1: "st1 = st\<lparr>gs_settings := Some (settings_text new)\<rparr>"
    using assms(3,4) by (auto simp: save_def bind_res_iff Let_def refresh_start_def split: if_splits)
  then have p: "gs_processing st1 = Some old" and inv1: "geo_inv st1" using assms(3) inv by (simp_all add: geo_inv_def)
  have "ci_countries (readConfInfo (gs_conf st2)) = old"
    using p
  proof (rule refresh_finish_cases [where json = json and stamp = stamp and gunzip = gunzip
          and reload = reload and reload_ok = reload_ok and now = now and fetched = fetched])
    fix gz csv and r :: dbip_result
    let ?w = "writeIfChanged (renderConf (uniq (dr_ranges r)) old (stamp now) True) now (st1\<lparr>gs_cache := Some gz\<rparr>)"
    assume r: "parseDbip csv old = Inr r" and fin: "refresh_finish json stamp gunzip reload reload_ok now fetched st1
        = store_ranges json stamp reload reload_ok now (uniq (dr_ranges r)) old (st1\<lparr>gs_cache := Some gz\<rparr>)"
    have "selection_ok old" using inv1 p by (simp add: geo_inv_def)
    then have "conf_current (snd ?w) old"
      using inv1 parseDbip_cidrs [OF r] assms(2)
      by (intro writeIfChanged_current) (simp_all add: geo_inv_cache list_all_uniq clock_ok_def)
    moreover have "gs_conf st2 = gs_conf (snd ?w)"
      using store_ranges_ok(1) [OF trans [OF fin [symmetric] assms(5)] assms(6)] .
    ultimately show ?thesis by (simp add: conf_current_def)
  qed (use assms(5,6) in \<open>auto simp: geo_fail_fields\<close>)
  with st1 p show ?thesis by simp
qed

theorem save_during_refresh_witness:
  "\<exists>(st1 :: string geo_state) (st2 :: string geo_state). gs_settings st1 = Some (settings_text [''CH''])
     \<and> ci_countries (readConfInfo (gs_conf st2)) = sort DEFAULT_COUNTRIES"
proof -
  let ?j = "\<lambda>_ :: string. None :: jsval option" and ?g = "\<lambda>b :: string. Some b"
  let ?st = "refresh_start ?j True 0 (geo_init None) :: string geo_state"
  let ?in = "JObj [(''countries'', JArr [JStr ''ch''])]"
  have p: "gs_processing ?st = Some (sort DEFAULT_COUNTRIES)"
    by (simp add: refresh_start_def geo_init_def readSettings_def)
  have reach: "(geo_step ?j ex_stamp ?g)\<^sup>*\<^sup>* (geo_init None) ?st"
    by (rule r_into_rtranclp) (rule geo_step.start)
  have n: "normalizeCountries (getp ?in ''countries'') = Inr [''CH'']" by code_simp
  have df: "readSettings ?j None \<noteq> [''CH'']" by code_simp
  let ?st1 = "?st\<lparr>gs_settings := Some (settings_text [''CH''])\<rparr>"
  have s: "save ?j 1 ?in ?st = Inr ((True, readSettings ?j None, [''CH'']), ?st1)"
    using n df unfolding save_def by (simp add: Let_def refresh_start_def geo_init_def)
  obtain r where r: "parseDbip (long_csv MIN_ROWS) (sort DEFAULT_COUNTRIES) = Inr r" "dr_rows r = Suc MIN_ROWS"
    "map_of (dr_per_country r) ''AT'' = Some 1" using parse_long by blast
  have "''AT'' \<in> set (sort DEFAULT_COUNTRIES)" by (simp add: DEFAULT_COUNTRIES_def EU_COUNTRIES_def)
  then have "\<not> no_networks r (sort DEFAULT_COUNTRIES)"
    using r(3) by (auto simp: no_networks_def list_all_iff intro!: bexI [of _ "''AT''"])
  then have fin: "refresh_finish ?j ex_stamp ?g False True 2 (Inr (long_csv MIN_ROWS)) ?st1
    = store_ranges ?j ex_stamp False True 2 (uniq (dr_ranges r)) (sort DEFAULT_COUNTRIES) (?st1\<lparr>gs_cache := Some (long_csv MIN_ROWS)\<rparr>)"
    using p r(1,2) unfolding refresh_finish_def by (simp add: Let_def)
  obtain b st2 where f: "refresh_finish ?j ex_stamp ?g False True 2 (Inr (long_csv MIN_ROWS)) ?st1 = (b, st2)" by fastforce
  have "gs_last_error st2 = None" using f unfolding fin by (auto simp: store_ranges_def split: prod.splits)
  from save_during_refresh [OF reach ex_clock p s f this] show ?thesis
    by (intro exI [of _ ?st1] exI [of _ st2]) blast
qed

end
