(* ===== verification/Link_Rename.thy ===== *)
theory Link_Rename
  imports Js_Prelude
begin

text \<open>
  Renaming links: the cascade of backend/internal/wireguard.js (cascadeLinkRenames) over the
  binding update of backend/internal/agent.js (renameLinkBinding). Agents are bound to a link by
  its name, in their own link and in the list of sites they may reach, so a set of renames, swaps
  included, has to reach every binding at once although it runs as single renames that may fail.
\<close>

subsection \<open>The bindings of the agents\<close>

text \<open>A row of the agent table. The list of allowed sites is the parsed JSON array; a text that
  is no JSON array is left alone by the code and is \<open>None\<close> here, like a null column.\<close>

record agent_row =
  ar_id :: int
  ar_deleted :: bool
  ar_link :: "string option"
  ar_sites :: "string list option"

definition patch_link :: "string \<Rightarrow> string \<Rightarrow> agent_row \<Rightarrow> agent_row" where
  "patch_link old new a = (if ar_link a = Some old then a\<lparr>ar_link := Some new\<rparr> else a)"

definition patch_sites :: "string \<Rightarrow> string \<Rightarrow> agent_row \<Rightarrow> agent_row" where
  "patch_sites old new a =
     (case ar_sites a of
        Some sites \<Rightarrow>
          if \<not> ar_deleted a \<and> old \<in> set sites
          then a\<lparr>ar_sites := Some (map (\<lambda>s. if s = old then new else s) sites)\<rparr> else a
      | None \<Rightarrow> a)"

text \<open>The counts of the changed rows and the new table.\<close>

definition renameLinkBinding :: "string \<Rightarrow> string \<Rightarrow> agent_row list \<Rightarrow> (nat \<times> nat) \<times> agent_row list" where
  "renameLinkBinding old new agents =
     (if old = [] \<or> new = [] \<or> old = new then ((0, 0), agents)
      else (let bound = length (filter (\<lambda>a. ar_link a = Some old) agents);
                agents = map (patch_link old new) agents;
                sites = length (filter (\<lambda>a. \<not> ar_deleted a \<and> (case ar_sites a of Some xs \<Rightarrow> old \<in> set xs | None \<Rightarrow> False)) agents)
            in ((bound, sites), map (patch_sites old new) agents)))"

text \<open>The loop patches one row after the other without a transaction: what is left when it fails
  after \<open>m\<close> patches. The rows bound to the link come first, then those that list it.\<close>

fun patch_first :: "nat \<Rightarrow> (agent_row \<Rightarrow> agent_row) \<Rightarrow> agent_row list \<Rightarrow> agent_row list" where
  "patch_first m f [] = []"
| "patch_first m f (a # as) =
     (if m = 0 then a # as else if f a = a then a # patch_first m f as else f a # patch_first (m - 1) f as)"

definition renamePartly :: "nat \<Rightarrow> string \<Rightarrow> string \<Rightarrow> agent_row list \<Rightarrow> agent_row list" where
  "renamePartly m old new agents =
     (if old = [] \<or> new = [] \<or> old = new then agents
      else (let bound = length (filter (\<lambda>a. ar_link a = Some old) agents)
            in if m < bound then patch_first m (patch_link old new) agents
               else patch_first (m - bound) (patch_sites old new) (map (patch_link old new) agents)))"

subsection \<open>The cascade\<close>

record rename =
  oldName :: string
  newName :: string

text \<open>The errors of the result: from, to and the message.\<close>

record cascade_result =
  cr_renames :: "rename list"
  cr_errors :: "(string \<times> string \<times> string) list"
  cr_rolledBack :: bool

text \<open>One rename of the store behind the bindings: the message of a failure and the new store.\<close>

type_synonym 's rename_op = "string \<Rightarrow> string \<Rightarrow> 's \<Rightarrow> string option \<times> 's"

text \<open>The direct path and the second phase of the detour: errors are collected.\<close>

fun run_all :: "'s rename_op \<Rightarrow> (string \<times> string) list \<Rightarrow> 's \<Rightarrow> (string \<times> string \<times> string) list \<times> 's" where
  "run_all run [] s = ([], s)"
| "run_all run ((a, b) # rs) s =
     (let (e, s) = run a b s; (es, s) = run_all run rs s
      in (case e of None \<Rightarrow> es | Some m \<Rightarrow> (a, b, m) # es, s))"

text \<open>A failed final step is tried once more.\<close>

definition run_twice :: "'s rename_op \<Rightarrow> 's rename_op" where
  "run_twice run a b s =
     (let (e, s) = run a b s in case e of None \<Rightarrow> (None, s) | Some _ \<Rightarrow> run a b s)"

text \<open>The first phase stops at its first error: the moved renames, the last one first.\<close>

fun move_away ::
  "'s rename_op \<Rightarrow> (string \<times> string) list \<Rightarrow> (string \<times> string) list \<Rightarrow> 's
     \<Rightarrow> (string \<times> string) list \<times> (string \<times> string \<times> string) option \<times> 's" where
  "move_away run [] moved s = (moved, None, s)"
| "move_away run ((a, b) # rs) moved s =
     (let (e, s) = run a b s
      in case e of Some m \<Rightarrow> (moved, Some (a, b, m), s) | None \<Rightarrow> move_away run rs ((a, b) # moved) s)"

definition tmp_name :: "int \<Rightarrow> nat \<Rightarrow> string" where
  "tmp_name stamp i = ''__fg_rename_'' @ str_of_int stamp @ ''_'' @ str_of_nat i @ ''__''"

definition tmp_names :: "int \<Rightarrow> rename list \<Rightarrow> string list" where
  "tmp_names stamp renames = map (tmp_name stamp) [0..<length renames]"

definition cascadeLinkRenames ::
  "'s rename_op \<Rightarrow> int \<Rightarrow> rename list \<Rightarrow> 's \<Rightarrow> cascade_result \<times> 's" where
  "cascadeLinkRenames run stamp renames s =
     (if renames = [] then (\<lparr>cr_renames = [], cr_errors = [], cr_rolledBack = False\<rparr>, s)
      else if \<not> list_ex (\<lambda>r. newName r \<in> oldName ` set renames) renames then
        (let (es, s) = run_all run (map (\<lambda>r. (oldName r, newName r)) renames) s
         in (\<lparr>cr_renames = renames, cr_errors = es, cr_rolledBack = False\<rparr>, s))
      else (let tmps = tmp_names stamp renames;
                (moved, err, s) = move_away run (zip (map oldName renames) tmps) [] s
            in case err of
                 Some e \<Rightarrow>
                   (let (es, s) = run_all run (map (\<lambda>(a, b). (b, a)) moved) s
                    in (\<lparr>cr_renames = renames, cr_errors = e # es, cr_rolledBack = True\<rparr>, s))
               | None \<Rightarrow>
                   (let (es, s) = run_all (run_twice run) (zip tmps (map newName renames)) s
                    in (\<lparr>cr_renames = renames, cr_errors = es, cr_rolledBack = False\<rparr>, s))))"

subsection \<open>The laws of a store of names\<close>

text \<open>
  What the cascade needs of the store behind the bindings: applying a substitution to it acts on
  the names in it and on nothing else. The state of one rename that always succeeds is then a
  substitution of one name.
\<close>

definition one_name :: "string \<Rightarrow> string \<Rightarrow> string \<Rightarrow> string" where
  "one_name a b = id(a := b)"

definition subst_all :: "rename list \<Rightarrow> string \<Rightarrow> string" where
  "subst_all renames x =
     (case map_of (map (\<lambda>r. (oldName r, newName r)) renames) x of Some y \<Rightarrow> y | None \<Rightarrow> x)"

fun subst_pairs :: "(string \<times> string) list \<Rightarrow> string \<Rightarrow> string" where
  "subst_pairs [] x = x"
| "subst_pairs ((a, b) # rs) x = subst_pairs rs (one_name a b x)"

lemma subst_pairs_map_of:
  "distinct (map fst rs) \<Longrightarrow> fst ` set rs \<inter> snd ` set rs = {} \<Longrightarrow>
   subst_pairs rs x = (case map_of rs x of Some y \<Rightarrow> y | None \<Rightarrow> x)"
proof (induction rs arbitrary: x)
  case (Cons r rs)
  obtain a b where r: "r = (a, b)" by (cases r)
  have "b \<notin> fst ` set rs" using Cons.prems(2) r by auto
  then have "map_of rs b = None" by (simp add: map_of_eq_None_iff)
  moreover have "a \<notin> fst ` set rs" using Cons.prems(1) r by simp
  then have "map_of rs a = None" by (simp add: map_of_eq_None_iff)
  ultimately show ?case using Cons r by (auto simp: one_name_def split: option.split)
qed simp

lemma subst_pairs_append: "subst_pairs (ps @ qs) x = subst_pairs qs (subst_pairs ps x)"
  by (induction ps arbitrary: x) auto

lemma subst_detour:
  assumes "distinct os" "distinct ts" "length os = length ts" "length ns = length ts"
    and "set ts \<inter> set os = {}" "set ts \<inter> set ns = {}" "x \<notin> set ts"
  shows "subst_pairs (zip os ts @ zip ts ns) x = (case map_of (zip os ns) x of Some y \<Rightarrow> y | None \<Rightarrow> x)"
proof -
  have sub: "fst ` set (zip as bs) \<subseteq> set as" "snd ` set (zip as bs) \<subseteq> set bs" for as bs :: "string list"
    by (auto dest: set_zip_leftD set_zip_rightD)
  have one: "subst_pairs (zip os ts) x = (case map_of (zip os ts) x of Some y \<Rightarrow> y | None \<Rightarrow> x)"
    using assms sub [of os ts] by (intro subst_pairs_map_of) (simp, blast)
  have two: "subst_pairs (zip ts ns) y = (case map_of (zip ts ns) y of Some z \<Rightarrow> z | None \<Rightarrow> y)" for y
    using assms sub [of ts ns] by (intro subst_pairs_map_of) (simp, blast)
  show ?thesis
  proof (cases "x \<in> set os")
    case True
    then obtain i where i: "i < length os" "os ! i = x" by (auto simp: in_set_conv_nth)
    then have "map_of (zip os ts) x = Some (ts ! i)" "map_of (zip os ns) x = Some (ns ! i)"
      using assms map_of_zip_nth [of os ts i] map_of_zip_nth [of os ns i] by auto
    moreover have "map_of (zip ts ns) (ts ! i) = Some (ns ! i)"
      using assms i map_of_zip_nth [of ts ns i] by auto
    ultimately show ?thesis by (simp add: subst_pairs_append one two)
  next
    case False
    then have "map_of (zip os ts) x = None" "map_of (zip os ns) x = None" "map_of (zip ts ns) x = None"
      using assms by (auto simp: map_of_zip_is_None)
    then show ?thesis by (simp add: subst_pairs_append one two)
  qed
qed

lemma subst_undo:
  assumes "distinct (map fst ps)" "distinct (map snd ps)" "fst ` set ps \<inter> snd ` set ps = {}" "x \<notin> snd ` set ps"
  shows "subst_pairs (ps @ map (\<lambda>(a, b). (b, a)) (rev ps)) x = x"
proof -
  let ?b = "map (\<lambda>(a, b). (b, a)) (rev ps)"
  have fs: "map fst ?b = rev (map snd ps)" "map snd ?b = rev (map fst ps)"
    by (simp_all add: rev_map case_prod_unfold o_def)
  have undo: "subst_pairs ?b y = (case map_of ?b y of Some z \<Rightarrow> z | None \<Rightarrow> y)" for y
  proof (rule subst_pairs_map_of)
    show "distinct (map fst ?b)" unfolding fs using assms(2) by simp
    show "fst ` set ?b \<inter> snd ` set ?b = {}"
      using assms(3) fs by (metis Int_commute list.set_map set_rev)
  qed
  have forth: "subst_pairs ps x = (case map_of ps x of Some y \<Rightarrow> y | None \<Rightarrow> x)"
    using assms by (intro subst_pairs_map_of) auto
  show ?thesis
  proof (cases "map_of ps x")
    case None
    have "map_of ?b x = None" using assms(4) by (force simp: map_of_eq_None_iff)
    with None show ?thesis by (simp add: subst_pairs_append forth undo)
  next
    case (Some y)
    then have "(x, y) \<in> set ps" by (rule map_of_SomeD)
    then have "(y, x) \<in> set ?b" by force
    moreover have "distinct (map fst ?b)" unfolding fs using assms(2) by simp
    ultimately have "map_of ?b y = Some x" by simp
    with Some show ?thesis by (simp add: subst_pairs_append forth undo)
  qed
qed

lemma tmp_name_inject [simp]: "tmp_name t i = tmp_name t j \<longleftrightarrow> i = j"
  by (simp add: tmp_name_def)

lemma tmp_names_distinct [simp]: "distinct (tmp_names t rs)" "length (tmp_names t rs) = length rs"
  by (auto simp: tmp_names_def distinct_map inj_on_def)

text \<open>A store whose renames never fail.\<close>

definition sure :: "(string \<Rightarrow> string \<Rightarrow> 's \<Rightarrow> 's) \<Rightarrow> 's rename_op" where
  "sure ren a b s = (None, ren a b s)"

lemma run_all_sure: "run_all (sure ren) ps s = ([], fold (\<lambda>(a, b). ren a b) ps s)"
  by (induction ps arbitrary: s) (auto simp: sure_def)

lemma run_twice_sure: "run_twice (sure ren) = sure ren"
  by (intro ext) (simp add: run_twice_def sure_def)

lemma move_away_sure: "move_away (sure ren) ps moved s = (rev ps @ moved, None, fold (\<lambda>(a, b). ren a b) ps s)"
  by (induction ps arbitrary: s moved) (auto simp: sure_def)

text \<open>A store whose renames fail where a script says so, and then have changed a part.\<close>

fun faulty ::
  "(string \<Rightarrow> string \<Rightarrow> 's \<Rightarrow> 's) \<Rightarrow> (nat \<Rightarrow> string \<Rightarrow> string \<Rightarrow> 's \<Rightarrow> 's) \<Rightarrow> ('s \<times> nat option list) rename_op" where
  "faulty ren part a b (s, Some m # fs) = (Some ''failed'', (part m a b s, fs))"
| "faulty ren part a b (s, None # fs) = (None, (ren a b s, fs))"
| "faulty ren part a b (s, []) = (None, (ren a b s, []))"

lemma run_all_faulty:
  "run_all (faulty ren part) ps (s, replicate (length ps) None @ fs) = ([], (fold (\<lambda>(a, b). ren a b) ps s, fs))"
  by (induction ps arbitrary: s) auto

lemma move_away_faulty:
  "move_away (faulty ren part) (ps @ (a, b) # qs) moved (s, replicate (length ps) None @ Some m # fs)
     = (rev ps @ moved, Some (a, b, ''failed''), (part m a b (fold (\<lambda>(a, b). ren a b) ps s), fs))"
  by (induction ps arbitrary: s moved) auto

locale name_store =
  fixes subst :: "(string \<Rightarrow> string) \<Rightarrow> 's \<Rightarrow> 's"
    and names :: "'s \<Rightarrow> string set"
    and ren :: "string \<Rightarrow> string \<Rightarrow> 's \<Rightarrow> 's"
  assumes subst_comp: "subst f (subst g s) = subst (f \<circ> g) s"
    and subst_cong: "(\<And>x. x \<in> names s \<Longrightarrow> f x = g x) \<Longrightarrow> subst f s = subst g s"
    and subst_id: "subst id s = s"
    and ren_subst: "a \<noteq> [] \<Longrightarrow> b \<noteq> [] \<Longrightarrow> ren a b s = subst (one_name a b) s"
begin

lemma fold_ren:
  "\<forall>(a, b) \<in> set rs. a \<noteq> [] \<and> b \<noteq> [] \<Longrightarrow> fold (\<lambda>(a, b). ren a b) rs s = subst (subst_pairs rs) s"
proof (induction rs arbitrary: s)
  case Nil
  have "subst_pairs [] = id" by (rule ext) simp
  then have "subst (subst_pairs []) s = s" using subst_id [of s] by (simp only:)
  then show ?case by (simp only: fold.simps id_apply)
next
  case (Cons r rs)
  obtain a b where r: "r = (a, b)" by (cases r)
  have eq: "subst_pairs (r # rs) = subst_pairs rs \<circ> one_name a b" by (rule ext) (simp add: r)
  have "fold (\<lambda>(a, b). ren a b) (r # rs) s = subst (subst_pairs rs) (ren a b s)"
    using Cons.IH Cons.prems r by simp
  also have "\<dots> = subst (subst_pairs (r # rs)) s"
    unfolding eq using Cons.prems r by (simp add: ren_subst subst_comp)
  finally show ?case .
qed

lemma fold_ren_names:
  assumes "\<forall>(a, b) \<in> set rs. a \<noteq> [] \<and> b \<noteq> []" and "\<And>x. x \<in> names s \<Longrightarrow> subst_pairs rs x = f x"
  shows "fold (\<lambda>(a, b). ren a b) rs s = subst f s"
  using fold_ren [OF assms(1)] subst_cong [OF assms(2)] by simp

text \<open>All renames at once, where no rename fails.\<close>

lemma cascade_sure:
  assumes "distinct (map oldName rs)" "\<forall>r \<in> set rs. oldName r \<noteq> [] \<and> newName r \<noteq> []"
    and "set (tmp_names t rs) \<inter> (names s \<union> oldName ` set rs \<union> newName ` set rs) = {}"
  shows "cascadeLinkRenames (sure ren) t rs s
    = (\<lparr>cr_renames = rs, cr_errors = [], cr_rolledBack = False\<rparr>, subst (subst_all rs) s)"
proof -
  let ?ps = "map (\<lambda>r. (oldName r, newName r)) rs"
  let ?os = "map oldName rs" and ?ns = "map newName rs" and ?ts = "tmp_names t rs"
  have zip: "?ps = zip ?os ?ns" by (simp add: zip_map_map flip: zip_same_conv_map map_map) (simp add: zip_map_map zip_same_conv_map)
  consider "rs = []" | "rs \<noteq> []" "\<not> list_ex (\<lambda>r. newName r \<in> oldName ` set rs) rs"
    | "rs \<noteq> []" "list_ex (\<lambda>r. newName r \<in> oldName ` set rs) rs" by blast
  then show ?thesis
  proof cases
    case 1
    have "subst (subst_all []) s = subst id s" by (rule subst_cong) (simp add: subst_all_def)
    with 1 show ?thesis by (simp only: cascadeLinkRenames_def subst_id simp_thms if_True)
  next
    case 2
    have "fold (\<lambda>(a, b). ren a b) ?ps s = subst (subst_all rs) s"
    proof (rule fold_ren_names)
      show "\<forall>(a, b) \<in> set ?ps. a \<noteq> [] \<and> b \<noteq> []" using assms(2) by auto
      have "fst ` set ?ps \<inter> snd ` set ?ps = {}" using 2 by (fastforce simp: list_ex_iff image_iff)
      then show "subst_pairs ?ps x = subst_all rs x" for x
        using assms(1) by (subst subst_pairs_map_of) (simp_all add: subst_all_def o_def)
    qed
    with 2 show ?thesis by (simp add: cascadeLinkRenames_def run_all_sure)
  next
    case 3
    have "fold (\<lambda>(a, b). ren a b) (zip ?os ?ts @ zip ?ts ?ns) s = subst (subst_all rs) s"
    proof (rule fold_ren_names)
      have "[] \<notin> set ?ts" by (auto simp: tmp_names_def tmp_name_def)
      then show "\<forall>(a, b) \<in> set (zip ?os ?ts @ zip ?ts ?ns). a \<noteq> [] \<and> b \<noteq> []"
        using assms(2) by (fastforce dest: set_zip_leftD set_zip_rightD)
      show "subst_pairs (zip ?os ?ts @ zip ?ts ?ns) x = subst_all rs x" if "x \<in> names s" for x
        unfolding subst_all_def zip using assms(1,3) that by (intro subst_detour) auto
    qed
    with 3 show ?thesis by (simp add: cascadeLinkRenames_def Let_def move_away_sure run_twice_sure run_all_sure)
  qed
qed

end

text \<open>A failing rename has replaced some of the names: finishing or reverting it is still possible.\<close>

locale faulty_store = name_store subst names ren
  for subst :: "(string \<Rightarrow> string) \<Rightarrow> 's \<Rightarrow> 's"
    and names :: "'s \<Rightarrow> string set"
    and ren :: "string \<Rightarrow> string \<Rightarrow> 's \<Rightarrow> 's" +
  fixes part :: "nat \<Rightarrow> string \<Rightarrow> string \<Rightarrow> 's \<Rightarrow> 's"
  assumes part_0: "part 0 a b s = s"
    and part_revert: "a \<noteq> [] \<Longrightarrow> b \<noteq> [] \<Longrightarrow> subst (one_name b a) (part m a b s) = subst (one_name b a) s"
begin

lemma subst_names_id: "(\<And>x. x \<in> names s \<Longrightarrow> f x = x) \<Longrightarrow> subst f s = s"
  using subst_cong [of s f id] by (simp add: subst_id)

lemma part_reverted:
  assumes "a \<noteq> []" "b \<noteq> []" "b \<notin> names s" "\<And>x. x \<in> names s \<Longrightarrow> U (V x) = x"
    and "\<And>x. one_name b a (U x) = U (one_name b a x)"
  shows "ren b a (subst U (part m a b (subst V s))) = s"
proof -
  have swap: "one_name b a \<circ> U = U \<circ> one_name b a" using assms(5) by (intro ext) simp
  have "ren b a (subst U (part m a b (subst V s))) = subst U (subst (one_name b a) (part m a b (subst V s)))"
    using assms(1,2) by (simp add: ren_subst subst_comp swap)
  also have "\<dots> = subst (one_name b a) (subst (U \<circ> V) s)"
    using assms(1,2) by (simp add: part_revert subst_comp swap o_assoc)
  also have "subst (U \<circ> V) s = s" using assms(4) by (intro subst_names_id) simp
  also have "subst (one_name b a) s = s"
    using assms(3) by (intro subst_names_id) (auto simp: one_name_def)
  finally show ?thesis .
qed

text \<open>The detour with a failure in its first phase.\<close>

lemma cascade_first_failure:
  assumes "k < length rs" "list_ex (\<lambda>r. newName r \<in> oldName ` set rs) rs"
  shows "let ps = zip (map oldName rs) (tmp_names t rs); qs = take k ps in
    cascadeLinkRenames (faulty ren part) t rs (s, replicate k None @ Some m # replicate k None @ fs)
    = (\<lparr>cr_renames = rs, cr_errors = [(oldName (rs ! k), tmp_name t k, ''failed'')], cr_rolledBack = True\<rparr>,
       (fold (\<lambda>(a, b). ren a b) (map (\<lambda>(a, b). (b, a)) (rev qs))
          (part m (oldName (rs ! k)) (tmp_name t k) (fold (\<lambda>(a, b). ren a b) qs s)), fs))"
proof -
  define ps where "ps = zip (map oldName rs) (tmp_names t rs)"
  have k: "k < length ps" "ps ! k = (oldName (rs ! k), tmp_name t k)" "length (take k ps) = k"
    using assms(1) by (simp_all add: ps_def tmp_names_def)
  let ?undo = "map (\<lambda>(a, b). (b, a)) (rev (take k ps))"
  have ps: "ps = take k ps @ (oldName (rs ! k), tmp_name t k) # drop (Suc k) ps"
    using id_take_nth_drop [OF k(1)] k(2) by simp
  let ?p = "part m (oldName (rs ! k)) (tmp_name t k) (fold (\<lambda>(a, b). ren a b) (take k ps) s)"
  have move: "move_away (faulty ren part) ps [] (s, replicate k None @ Some m # replicate k None @ fs)
     = (rev (take k ps), Some (oldName (rs ! k), tmp_name t k, ''failed''), (?p, replicate k None @ fs))"
    using move_away_faulty [of ren part "take k ps" "oldName (rs ! k)" "tmp_name t k" "drop (Suc k) ps" "[]" s m
        "replicate k None @ fs"]
    unfolding k(3) ps [symmetric] by simp
  have "length ?undo = k" using k(3) by simp
  then have undo: "run_all (faulty ren part) ?undo (?p, replicate k None @ fs)
     = ([], (fold (\<lambda>(a, b). ren a b) ?undo ?p, fs))"
    using run_all_faulty [of ren part ?undo ?p fs] by simp
  have ne: "rs \<noteq> []" using assms(1) by auto
  show ?thesis
    unfolding Let_def ps_def [symmetric] cascadeLinkRenames_def
    using ne assms(2) move undo by (simp flip: ps_def add: Let_def)
qed

lemma cascade_rolled_back:
  assumes "distinct (map oldName rs)" "\<forall>r \<in> set rs. oldName r \<noteq> []"
    and "set (tmp_names t rs) \<inter> (names s \<union> oldName ` set rs) = {}"
    and "list_ex (\<lambda>r. newName r \<in> oldName ` set rs) rs" "k < length rs"
  obtains s' where
    "cascadeLinkRenames (faulty ren part) t rs (s, replicate k None @ Some m # replicate k None @ fs)
     = (\<lparr>cr_renames = rs, cr_errors = [(oldName (rs ! k), tmp_name t k, ''failed'')], cr_rolledBack = True\<rparr>, (s', fs))"
    "ren (tmp_name t k) (oldName (rs ! k)) s' = s" "m = 0 \<Longrightarrow> s' = s"
proof -
  define qs where "qs = take k (zip (map oldName rs) (tmp_names t rs))"
  let ?a = "oldName (rs ! k)" and ?b = "tmp_name t k"
  let ?undo = "map (\<lambda>(a, b). (b, a)) (rev qs)"
  let ?U = "subst_pairs ?undo" and ?V = "subst_pairs qs"
  let ?s' = "fold (\<lambda>(a, b). ren a b) ?undo (part m ?a ?b (fold (\<lambda>(a, b). ren a b) qs s))"
  have run: "cascadeLinkRenames (faulty ren part) t rs (s, replicate k None @ Some m # replicate k None @ fs)
     = (\<lparr>cr_renames = rs, cr_errors = [(?a, ?b, ''failed'')], cr_rolledBack = True\<rparr>, (?s', fs))"
    using cascade_first_failure [OF assms(5,4), of t s m fs] by (simp add: Let_def qs_def)
  have take: "map fst qs = take k (map oldName rs)" "map snd qs = take k (tmp_names t rs)"
    by (simp_all add: qs_def flip: take_map)
  have sets: "fst ` set qs = set (take k (map oldName rs))" "snd ` set qs = set (take k (tmp_names t rs))"
    by (simp_all flip: take set_map)
  have sub: "fst ` set qs \<subseteq> oldName ` set rs" "snd ` set qs \<subseteq> set (tmp_names t rs)"
    unfolding sets using set_take_subset [of k "map oldName rs"] set_take_subset [of k "tmp_names t rs"] by simp_all
  have ok: "distinct (map fst qs)" "distinct (map snd qs)" "fst ` set qs \<inter> snd ` set qs = {}"
    unfolding take using assms(1,3) sub by (simp, simp, blast)
  have k: "?a \<noteq> []" "?b \<noteq> []" "?b \<in> set (tmp_names t rs)" "?a \<in> oldName ` set rs"
    using assms(2,5) by (auto simp: tmp_names_def tmp_name_def)
  have "[] \<notin> set (tmp_names t rs)" by (auto simp: tmp_names_def tmp_name_def)
  then have ends: "a \<noteq> [] \<and> b \<noteq> []" if "(a, b) \<in> set qs" for a b
  proof -
    from that have "a \<in> fst ` set qs" "b \<in> snd ` set qs" by (force, force)
    with sub have "a \<in> oldName ` set rs" "b \<in> set (tmp_names t rs)" by blast+
    then show ?thesis using assms(2) \<open>[] \<notin> set (tmp_names t rs)\<close> by auto
  qed
  then have ne: "\<forall>(a, b) \<in> set qs. a \<noteq> [] \<and> b \<noteq> []" "\<forall>(a, b) \<in> set ?undo. a \<noteq> [] \<and> b \<noteq> []" by auto
  have s': "?s' = subst ?U (part m ?a ?b (subst ?V s))"
    unfolding fold_ren [OF ne(1)] fold_ren [OF ne(2)] ..
  have undone: "?U (?V x) = x" if "x \<in> names s" for x
  proof -
    have "x \<notin> snd ` set qs" using sub assms(3) that by blast
    from subst_undo [OF ok this] show ?thesis by (simp only: subst_pairs_append)
  qed
  have U: "?U y = (case map_of ?undo y of Some z \<Rightarrow> z | None \<Rightarrow> y)" for y
  proof (rule subst_pairs_map_of)
    have fs: "map fst ?undo = rev (map snd qs)" "map snd ?undo = rev (map fst qs)"
      by (simp_all add: rev_map case_prod_unfold o_def)
    show "distinct (map fst ?undo)" unfolding fs using ok by simp
    show "fst ` set ?undo \<inter> snd ` set ?undo = {}"
      using ok fs by (metis Int_commute list.set_map set_rev)
  qed
  have dom: "fst ` set ?undo = snd ` set qs" "snd ` set ?undo = fst ` set qs"
    by (simp_all add: image_image case_prod_unfold)
  have stays: "?U y = y" if "y \<notin> snd ` set qs" for y
  proof -
    have "map_of ?undo y = None" unfolding map_of_eq_None_iff dom by (rule that)
    then show ?thesis unfolding U by simp
  qed
  have "?b \<notin> snd ` set qs"
    unfolding sets using assms(5) by (auto simp: tmp_names_def take_map)
  then have Ub: "?U ?b = ?b" by (rule stays)
  have "?a \<notin> snd ` set qs" using k(4) sub assms(3) by blast
  then have Ua: "?U ?a = ?a" by (rule stays)
  have "?U x \<noteq> ?b" if "x \<noteq> ?b" for x
  proof (cases "map_of ?undo x")
    case (Some z)
    then have "z \<in> fst ` set qs" using map_of_SomeD [OF Some] unfolding dom(2) [symmetric] using image_eqI [of z snd "(x, z)"] by auto
    then have "z \<noteq> ?b" using sub assms(3) k(3) by blast
    then show ?thesis unfolding U Some by simp
  next
    case None
    then show ?thesis unfolding U using that by simp
  qed
  then have "one_name ?b ?a (?U x) = ?U (one_name ?b ?a x)" for x
    using Ua Ub by (cases "x = ?b") (simp_all add: one_name_def)
  moreover have "?b \<notin> names s" using k(3) assms(3) by blast
  ultimately have "ren ?b ?a ?s' = s" unfolding s' using k(1,2) undone by (intro part_reverted)
  moreover have "?s' = s" if "m = 0"
    unfolding s' unfolding that part_0 subst_comp using undone by (intro subst_names_id) simp
  ultimately show ?thesis using that run by blast
qed

end

subsection \<open>The agent table\<close>

definition row_subst :: "(string \<Rightarrow> string) \<Rightarrow> agent_row \<Rightarrow> agent_row" where
  "row_subst f a = a\<lparr>ar_link := map_option f (ar_link a),
     ar_sites := (if ar_deleted a then ar_sites a else map_option (map f) (ar_sites a))\<rparr>"

definition table_names :: "agent_row list \<Rightarrow> string set" where
  "table_names as = (\<Union>a \<in> set as. set_option (ar_link a)
     \<union> (if ar_deleted a then {} else (\<Union>xs \<in> set_option (ar_sites a). set xs)))"

lemma patch_row: "patch_sites old new (patch_link old new a) = row_subst (one_name old new) a"
  by (cases "ar_link a"; cases "ar_sites a"; cases a)
    (auto simp: patch_link_def patch_sites_def row_subst_def one_name_def map_idI)

lemma row_subst_same: "row_subst (one_name a a) r = r"
  by (cases r) (simp add: row_subst_def one_name_def option.map_ident fun_upd_idem cong: option.map_cong)

lemma map_row_subst_same: "map (row_subst (one_name a a)) as = as"
  by (rule map_idI) (rule row_subst_same)

lemma rename_subst:
  "a \<noteq> [] \<Longrightarrow> b \<noteq> [] \<Longrightarrow> snd (renameLinkBinding a b as) = map (row_subst (one_name a b)) as"
  by (auto simp: renameLinkBinding_def Let_def patch_row map_row_subst_same)

lemma row_subst_cong:
  "(\<And>x. x \<in> table_names [r] \<Longrightarrow> f x = g x) \<Longrightarrow> row_subst f r = row_subst g r"
  by (cases r) (auto simp: row_subst_def table_names_def intro!: option.map_cong split: if_splits)

interpretation bindings: name_store "\<lambda>f. map (row_subst f)" table_names "\<lambda>a b as. snd (renameLinkBinding a b as)"
proof
  fix f g :: "string \<Rightarrow> string" and s :: "agent_row list" and a b :: string
  have "row_subst f (row_subst g r) = row_subst (f \<circ> g) r" for r
    by (cases r) (simp add: row_subst_def option.map_comp o_def)
  then show "map (row_subst f) (map (row_subst g) s) = map (row_subst (f \<circ> g)) s" by simp
  show "(\<And>x. x \<in> table_names s \<Longrightarrow> f x = g x) \<Longrightarrow> map (row_subst f) s = map (row_subst g) s"
  proof -
    assume fg: "\<And>x. x \<in> table_names s \<Longrightarrow> f x = g x"
    have "table_names [r] \<subseteq> table_names s" if "r \<in> set s" for r using that by (auto simp: table_names_def)
    with fg show ?thesis by (intro map_cong refl row_subst_cong) blast
  qed
  have "row_subst id r = r" for r by (cases r) (simp add: row_subst_def option.map_id)
  then show "map (row_subst id) s = s" by (simp add: map_idI)
  show "a \<noteq> [] \<Longrightarrow> b \<noteq> [] \<Longrightarrow> snd (renameLinkBinding a b s) = map (row_subst (one_name a b)) s"
    by (rule rename_subst)
qed

text \<open>C30: Renaming links reaches every binding of every agent at once: the cascade of single renames,
  swaps and chains included, gives the table in which each agent's own link name and each name in a
  live agent's list of sites is replaced by its new name, without errors. The old names are distinct
  and no name in use looks like one of the temporary names.\<close>

theorem cascade_simultaneous:
  assumes "distinct (map oldName rs)" "\<forall>r \<in> set rs. oldName r \<noteq> [] \<and> newName r \<noteq> []"
    and "set (tmp_names t rs) \<inter> (table_names agents \<union> oldName ` set rs \<union> newName ` set rs) = {}"
  shows "cascadeLinkRenames (sure (\<lambda>a b as. snd (renameLinkBinding a b as))) t rs agents
    = (\<lparr>cr_renames = rs, cr_errors = [], cr_rolledBack = False\<rparr>, map (row_subst (subst_all rs)) agents)"
  by (rule bindings.cascade_sure [OF assms])

text \<open>A partial rename of the table.\<close>

lemma one_name_back: "one_name b a \<circ> one_name a b = one_name b a"
  by (rule ext) (simp add: one_name_def)

lemma patch_link_revert: "row_subst (one_name b a) (patch_link a b r) = row_subst (one_name b a) r"
  by (cases r) (simp add: patch_link_def row_subst_def one_name_def)

lemma patch_sites_revert: "row_subst (one_name b a) (patch_sites a b r) = row_subst (one_name b a) r"
  by (cases r) (auto simp: patch_sites_def row_subst_def one_name_def split: option.split)

lemma patch_first_revert:
  "(\<And>r. g (f r) = g r) \<Longrightarrow> map g (patch_first m f as) = map g as"
  by (induction as arbitrary: m) auto

lemma renamePartly_revert: "map (row_subst (one_name b a)) (renamePartly m a b as) = map (row_subst (one_name b a)) as"
  by (simp add: renamePartly_def Let_def patch_first_revert patch_link_revert patch_sites_revert)

lemma patch_first_0: "patch_first 0 f as = as"
  by (cases as) simp_all

lemma renamePartly_0: "renamePartly 0 a b as = as"
proof (cases "filter (\<lambda>r. ar_link r = Some a) as = []")
  case True
  then have "\<forall>r \<in> set as. patch_link a b r = r" by (simp add: filter_empty_conv patch_link_def)
  then have "map (patch_link a b) as = as" by (simp add: map_idI)
  then show ?thesis using True by (simp add: renamePartly_def patch_first_0)
qed (simp add: renamePartly_def Let_def patch_first_0)

interpretation faults: faulty_store "\<lambda>f. map (row_subst f)" table_names
  "\<lambda>a b as. snd (renameLinkBinding a b as)" renamePartly
proof
  show "renamePartly 0 a b s = s" for a b s by (rule renamePartly_0)
  show "map (row_subst (one_name b a)) (renamePartly m a b s) = map (row_subst (one_name b a)) s" for a b m s
    by (rule renamePartly_revert)
qed

text \<open>C31: A rename that fails while the bindings move to their temporary names may have changed some
  rows already. When undoing the renames before it meets no further failure, the result says that
  it was rolled back and names exactly the failed rename, nothing of the second phase runs, and
  the only rows that differ from before are those the failed rename had moved: renaming its
  temporary name back gives the table from before. If it failed before its first row, every
  agent is bound exactly as before. The old names are distinct and no name in use looks like one
  of the temporary names.\<close>

theorem cascade_rolls_back:
  assumes "distinct (map oldName rs)" "\<forall>r \<in> set rs. oldName r \<noteq> []"
    and "set (tmp_names t rs) \<inter> (table_names agents \<union> oldName ` set rs) = {}"
    and "list_ex (\<lambda>r. newName r \<in> oldName ` set rs) rs" "k < length rs"
  shows "\<exists>agents'. cascadeLinkRenames (faulty (\<lambda>a b as. snd (renameLinkBinding a b as)) renamePartly) t rs
       (agents, replicate k None @ Some m # replicate k None @ fs)
     = (\<lparr>cr_renames = rs, cr_errors = [(oldName (rs ! k), tmp_name t k, ''failed'')], cr_rolledBack = True\<rparr>,
        (agents', fs))
    \<and> snd (renameLinkBinding (tmp_name t k) (oldName (rs ! k)) agents') = agents
    \<and> (m = 0 \<longrightarrow> agents' = agents)"
  by (rule faults.cascade_rolled_back [OF assms, of m fs]) blast

definition ex_agents :: "agent_row list" where
  "ex_agents = [\<lparr>ar_id = 1, ar_deleted = False, ar_link = Some ''a'', ar_sites = Some [''b'', ''c'']\<rparr>,
     \<lparr>ar_id = 2, ar_deleted = False, ar_link = Some ''b'', ar_sites = None\<rparr>]"

definition ex_swap :: "rename list" where
  "ex_swap = [\<lparr>oldName = ''a'', newName = ''b''\<rparr>, \<lparr>oldName = ''b'', newName = ''a''\<rparr>]"

lemma ex_swap_fresh:
  "distinct (map oldName ex_swap)" "\<forall>r \<in> set ex_swap. oldName r \<noteq> [] \<and> newName r \<noteq> []"
  "set (tmp_names 7 ex_swap) \<inter> (table_names ex_agents \<union> oldName ` set ex_swap \<union> newName ` set ex_swap) = {}"
  by (auto simp: ex_swap_def ex_agents_def table_names_def tmp_names_def tmp_name_def)

theorem cascade_simultaneous_witness:
  "map ar_link (snd (cascadeLinkRenames (sure (\<lambda>a b as. snd (renameLinkBinding a b as))) 7 ex_swap ex_agents))
     = [Some ''b'', Some ''a'']"
  unfolding cascade_simultaneous [OF ex_swap_fresh]
  by (simp add: ex_swap_def ex_agents_def row_subst_def subst_all_def)

theorem cascade_rolls_back_witness:
  "\<exists>agents'. cascadeLinkRenames (faulty (\<lambda>a b as. snd (renameLinkBinding a b as)) renamePartly) 7 ex_swap
       (ex_agents, [None, Some 1, None])
     = (\<lparr>cr_renames = ex_swap, cr_errors = [(''b'', tmp_name 7 1, ''failed'')], cr_rolledBack = True\<rparr>, (agents', []))
    \<and> snd (renameLinkBinding (tmp_name 7 1) ''b'' agents') = ex_agents"
proof -
  have f: "\<forall>r \<in> set ex_swap. oldName r \<noteq> []"
    "set (tmp_names 7 ex_swap) \<inter> (table_names ex_agents \<union> oldName ` set ex_swap) = {}"
    "list_ex (\<lambda>r. newName r \<in> oldName ` set ex_swap) ex_swap" "1 < length ex_swap"
    using ex_swap_fresh(2,3) by (auto simp: ex_swap_def)
  have n: "oldName (ex_swap ! 1) = ''b''" by (simp add: ex_swap_def)
  from cascade_rolls_back [OF ex_swap_fresh(1) f, of 1 "[]"] show ?thesis unfolding n by auto
qed

text \<open>The rows the failed rename had moved are not rolled back: the second agent stays on the
  temporary name although the result says that the cascade was rolled back.\<close>

theorem failed_rename_not_undone:
  "case cascadeLinkRenames (faulty (\<lambda>a b as. snd (renameLinkBinding a b as)) renamePartly) 7 ex_swap
       (ex_agents, [None, Some 1, None]) of
     (res, (agents, _)) \<Rightarrow> cr_rolledBack res
       \<and> map ar_link agents = [Some ''a'', Some ''__fg_rename_7_1__'']"
  by code_simp

end
