(* ===== verification/Wg_Metadata.thy ===== *)
theory Wg_Metadata
  imports Ipv4_Cidr Geo_Ranges
begin

text \<open>
  The metadata of interfaces and links in backend/internal/wireguard.js: the cleaning of what the
  panel sends, the merge into the store and the checks on link names. A stored entry is the list
  of its properties; a cleaned patch may hold a property with the value undefined, which removes
  the property from the entry when it is merged. Writing the store succeeds, and the write lock
  makes each operation one step on the stored value.
\<close>

datatype wg_error =
    Wg_TypeError
  | BadNetwork string
  | Ipv6Network string
  | ShortPrefix string
  | DnsNotAnArray
  | BadDnsEntry string
  | NameTaken string

subsection \<open>Lists of texts and of name servers\<close>

definition sanitizeStringArray :: "jsval \<Rightarrow> string list" where
  "sanitizeStringArray value =
     (case value of
        JArr vs \<Rightarrow> uniq (filter (\<lambda>s. s \<noteq> []) (map (\<lambda>v. trim (if js_truthy v then js_string v else [])) vs))
      | _ \<Rightarrow> [])"

text \<open>\<open>net.isIP\<close> of any text: an IPv6 address may end in an IPv4 address and carry a zone.\<close>

definition zone_ok :: "string \<Rightarrow> bool" where
  "zone_ok z \<longleftrightarrow> z \<noteq> [] \<and> list_all (\<lambda>c. is_alnum c \<or> c \<in> {CHR ''-'', CHR ''.'', CHR '':''}) z"

definition v4_tail :: "string \<Rightarrow> string option" where
  "v4_tail a =
     (let t = rev (takeWhile (\<lambda>c. c \<noteq> CHR '':'') (rev a))
      in if CHR ''.'' \<notin> set t then Some a
         else if length t < length a \<and> net_isIPv4 t then Some (take (length a - length t) a @ ''0:0'')
         else None)"

definition isIPv6_any :: "string \<Rightarrow> bool" where
  "isIPv6_any s =
     (let a = takeWhile (\<lambda>c. c \<noteq> CHR ''%'') s; z = drop (Suc (length a)) s
      in (length a = length s \<or> zone_ok z)
         \<and> (case v4_tail a of None \<Rightarrow> False
            | Some b \<Rightarrow> list_all (\<lambda>c. is_hex c \<or> c = CHR '':'') b \<and> net_isIPv6 b))"

definition isIP_any :: "string \<Rightarrow> bool" where
  "isIP_any s \<longleftrightarrow> net_isIPv4 s \<or> isIPv6_any s"

text \<open>\<open>DNS_NAME_RE\<close>.\<close>

definition dns_label :: "string \<Rightarrow> bool" where
  "dns_label l \<longleftrightarrow> l \<noteq> [] \<and> length l \<le> 63 \<and> is_alnum (hd l) \<and> list_all (\<lambda>c. is_alnum c \<or> c = CHR ''-'') l"

definition dns_name :: "string \<Rightarrow> bool" where
  "dns_name s \<longleftrightarrow> s \<noteq> [] \<and> length s \<le> 253
     \<and> list_all dns_label (split_on (CHR ''.'') (if last s = CHR ''.'' then butlast s else s))"

definition isValidDnsEntry :: "string \<Rightarrow> bool" where
  "isValidDnsEntry value \<longleftrightarrow> isIP_any (trim value) \<or> dns_name (trim value)"

definition dns_entry :: "jsval \<Rightarrow> string list \<Rightarrow> wg_error + string list" where
  "dns_entry item out =
     (let s = trim (str_or_empty item)
      in if s = [] then Inr out
         else if \<not> isValidDnsEntry s then Inl (BadDnsEntry s)
         else Inr (push_new s out))"

definition sanitizeDnsArray :: "jsval \<Rightarrow> wg_error + string list" where
  "sanitizeDnsArray value =
     (if is_nullish value then Inr []
      else case value of JArr vs \<Rightarrow> fold_res dns_entry vs [] | _ \<Rightarrow> Inl DnsNotAnArray)"

subsection \<open>Networks\<close>

text \<open>\<open>canonicalizeIpv4Network\<close>: four octets and a prefix, the host bits cleared.\<close>

definition canonicalizeIpv4Network :: "string \<Rightarrow> string option" where
  "canonicalizeIpv4Network value =
     (case split_on CHR ''/'' (trim value) of
        [addr, pre] \<Rightarrow>
          (case ipv4_groups addr of
             Some (a, b, c, d) \<Rightarrow>
               if \<not> digits_upto 2 pre then None
               else (let p = nat_of_digits pre
                     in if 255 < a \<or> 255 < b \<or> 255 < c \<or> 255 < d \<or> 32 < p then None
                        else (let ip = push_bit 24 (of_nat a) + push_bit 16 (of_nat b)
                                       + push_bit 8 (of_nat c) + of_nat d :: addr
                              in Some (cidr_text (ip AND prefix_mask p) p)))
           | None \<Rightarrow> None)
      | _ \<Rightarrow> None)"

definition MIN_NETWORK_PREFIX :: nat where "MIN_NETWORK_PREFIX = 8"

definition isAcceptableNetworkPrefix :: "string \<Rightarrow> bool" where
  "isAcceptableNetworkPrefix cidr =
     (let ps = split_on CHR ''/'' (trim cidr)
      in 1 < length ps \<and> digits_upto 2 (last ps) \<and> MIN_NETWORK_PREFIX \<le> nat_of_digits (last ps))"

definition net_entry :: "jsval \<Rightarrow> string list \<Rightarrow> wg_error + string list" where
  "net_entry item out =
     (let raw = trim (str_or_empty item)
      in if raw = [] then Inr out
         else (case canonicalizeIpv4Network raw of
             None \<Rightarrow> Inl (if CHR '':'' \<in> set raw then Ipv6Network raw else BadNetwork raw)
           | Some canon \<Rightarrow>
               if \<not> isAcceptableNetworkPrefix canon then Inl (ShortPrefix raw) else Inr (out @ [canon])))"

definition sanitizeNetworkArray :: "jsval \<Rightarrow> wg_error + string list" where
  "sanitizeNetworkArray value =
     (case value of JArr vs \<Rightarrow> bind_res (fold_res net_entry vs []) (\<lambda>out. Inr (uniq out)) | _ \<Rightarrow> Inr [])"

subsection \<open>Patches of an interface and of a link\<close>

definition LINK_TYPES :: "string list" where
  "LINK_TYPES = [''client'', ''site-to-site'', ''hub-link'', ''imported'', ''unknown'']"
definition INTERFACE_ROLES :: "string list" where
  "INTERFACE_ROLES = [''client-hub'', ''site-to-site'', ''hub-link'', ''auxiliary'', ''unknown'']"
definition MANAGEMENT_MODES :: "string list" where
  "MANAGEMENT_MODES = [''local'', ''imported'', ''unknown'']"
definition REMOTE_MANAGEMENT_MODES :: "string list" where
  "REMOTE_MANAGEMENT_MODES = [''none'', ''ssh'', ''agent'', ''unknown'']"
definition RETURN_PATH_MODES :: "string list" where
  "RETURN_PATH_MODES = [''auto'', ''routed'', ''static-route'', ''nat'', ''unknown'']"

text \<open>\<open>v ? String(v) : undefined\<close>.\<close>

definition text_opt :: "jsval \<Rightarrow> string option" where
  "text_opt v = (if js_truthy v then Some (js_string v) else None)"

definition opt_val :: "string option \<Rightarrow> jsval" where
  "opt_val x = (case x of None \<Rightarrow> JUndef | Some s \<Rightarrow> JStr s)"

definition member_of :: "string list \<Rightarrow> string option \<Rightarrow> string option" where
  "member_of xs x = (case x of None \<Rightarrow> None | Some s \<Rightarrow> if s \<in> set xs then Some s else None)"

definition site_link_alias :: "string list \<Rightarrow> string option \<Rightarrow> string option" where
  "site_link_alias xs x =
     (case x of None \<Rightarrow> None
      | Some s \<Rightarrow> if s = [] then None else if s = ''site-link'' then Some ''site-to-site'' else member_of xs (Some s))"

definition normalizeLinkType :: "string option \<Rightarrow> string option" where
  "normalizeLinkType t = site_link_alias LINK_TYPES t"

definition normalizeInterfaceRole :: "string option \<Rightarrow> string option" where
  "normalizeInterfaceRole r = site_link_alias INTERFACE_ROLES r"

definition stripLinkNameControlChars :: "string \<Rightarrow> string" where
  "stripLinkNameControlChars s = filter (\<lambda>c. \<not> is_control c) s"

definition isSafeLinkName :: "jsval \<Rightarrow> bool" where
  "isSafeLinkName v \<longleftrightarrow> list_all (\<lambda>c. \<not> is_control c) (str_or_empty v)"

definition str_arr :: "string list \<Rightarrow> jsval" where
  "str_arr xs = JArr (map JStr xs)"

type_synonym props = "(string \<times> jsval) list"

text \<open>How one property of a patch is cleaned.\<close>

type_synonym cleaner = "jsval \<Rightarrow> wg_error + jsval"

definition keep_opt :: "(string option \<Rightarrow> string option) \<Rightarrow> cleaner" where
  "keep_opt f v = Inr (opt_val (f (text_opt v)))"

definition clean_nets :: cleaner where
  "clean_nets v = bind_res (sanitizeNetworkArray v) (\<lambda>xs. Inr (str_arr xs))"

definition clean_texts :: cleaner where
  "clean_texts v = Inr (str_arr (sanitizeStringArray v))"

definition clean_dns :: cleaner where
  "clean_dns v = bind_res (sanitizeDnsArray v) (\<lambda>xs. Inr (str_arr xs))"

definition clean_platform :: cleaner where
  "clean_platform v = Inr (if v \<in> {JStr ''desktop'', JStr ''mobile''} then v else JUndef)"

definition interface_fields :: "(string \<times> cleaner) list" where
  "interface_fields =
     [(''role'', keep_opt normalizeInterfaceRole),
      (''managementMode'', keep_opt (member_of MANAGEMENT_MODES)),
      (''exportedNetworks'', clean_nets),
      (''importedNetworks'', clean_nets),
      (''routeTargets'', clean_nets),
      (''notes'', clean_texts),
      (''dns'', clean_dns)]"

definition link_fields :: "(string \<times> cleaner) list" where
  "link_fields =
     [(''name'', keep_opt (map_option stripLinkNameControlChars)),
      (''type'', keep_opt normalizeLinkType),
      (''exportedNetworks'', clean_nets),
      (''importedNetworks'', clean_nets),
      (''returnPathMode'', keep_opt (member_of RETURN_PATH_MODES)),
      (''remoteManagementMode'', keep_opt (member_of REMOTE_MANAGEMENT_MODES)),
      (''planIntent'', keep_opt id),
      (''planState'', keep_opt id),
      (''dns'', clean_dns),
      (''fullTunnel'', \<lambda>v. Inr (JBool (js_truthy v))),
      (''platform'', clean_platform),
      (''notes'', clean_texts)]"

text \<open>The properties the input has of its own, in the order of the checks; null is no object.\<close>

fun clean_fields :: "(string \<times> cleaner) list \<Rightarrow> jsval \<Rightarrow> wg_error + props" where
  "clean_fields [] v = Inr []"
| "clean_fields ((k, f) # fs) v =
     (if has_own v k
      then bind_res (f (getp v k)) (\<lambda>w. bind_res (clean_fields fs v) (\<lambda>ps. Inr ((k, w) # ps)))
      else clean_fields fs v)"

definition sanitize_patch :: "(string \<times> cleaner) list \<Rightarrow> jsval \<Rightarrow> wg_error + props" where
  "sanitize_patch specs input = (if input = JNull then Inl Wg_TypeError else clean_fields specs input)"

definition sanitizeInterfaceMetadataPatch :: "jsval \<Rightarrow> wg_error + props" where
  "sanitizeInterfaceMetadataPatch input = sanitize_patch interface_fields input"

definition sanitizeLinkMetadataPatch :: "jsval \<Rightarrow> wg_error + props" where
  "sanitizeLinkMetadataPatch input = sanitize_patch link_fields input"

subsection \<open>The store\<close>

text \<open>\<open>{ ...a, ...b }\<close>.\<close>

definition spread :: "('k \<times> 'v) list \<Rightarrow> ('k \<times> 'v) list \<Rightarrow> ('k \<times> 'v) list" where
  "spread a b = fold (\<lambda>(k, v). AList.update k v) b a"

definition mergeMetadataEntry :: "props \<Rightarrow> props \<Rightarrow> props" where
  "mergeMetadataEntry current patch = filter (\<lambda>kv. snd kv \<noteq> JUndef) (spread current patch)"

record meta_store =
  ms_interfaces :: "(string \<times> props) list"
  ms_links :: "(string \<times> props) list"

definition entry_of :: "(string \<times> props) list \<Rightarrow> string \<Rightarrow> props" where
  "entry_of m k = (case map_of m k of None \<Rightarrow> [] | Some e \<Rightarrow> e)"

definition merge_entry ::
  "(jsval \<Rightarrow> wg_error + props) \<Rightarrow> string \<times> jsval \<Rightarrow> (string \<times> props) list \<Rightarrow> wg_error + (string \<times> props) list" where
  "merge_entry clean kv m =
     bind_res (clean (snd kv)) (\<lambda>p. Inr (AList.update (fst kv) (mergeMetadataEntry (entry_of m (fst kv)) p) m))"

text \<open>A patch from outside: the entries to change, as they were sent.\<close>

record meta_patch =
  mp_interfaces :: "(string \<times> jsval) list"
  mp_links :: "(string \<times> jsval) list"

definition mergeMetadataStorePatch :: "meta_store \<Rightarrow> meta_patch \<Rightarrow> wg_error + meta_store" where
  "mergeMetadataStorePatch store patch =
     bind_res (fold_res (merge_entry sanitizeInterfaceMetadataPatch) (mp_interfaces patch) (ms_interfaces store)) (\<lambda>is.
     bind_res (fold_res (merge_entry sanitizeLinkMetadataPatch) (mp_links patch) (ms_links store)) (\<lambda>ls.
       Inr \<lparr>ms_interfaces = is, ms_links = ls\<rparr>))"

text \<open>Operations on the stored value under the lock: an error leaves it as it was.\<close>

definition mutate_store :: "(meta_store \<Rightarrow> 'e + meta_store) \<Rightarrow> meta_store \<Rightarrow> ('e + meta_store) \<times> meta_store" where
  "mutate_store f store = (case f store of Inl e \<Rightarrow> (Inl e, store) | Inr s \<Rightarrow> (Inr s, s))"

definition applyMetadataPatch ::
  "(meta_store \<Rightarrow> wg_error option) \<Rightarrow> meta_patch \<Rightarrow> meta_store \<Rightarrow> (wg_error + meta_store \<times> meta_store) \<times> meta_store" where
  "applyMetadataPatch validate patch store =
     (case validate store of
        Some e \<Rightarrow> (Inl e, store)
      | None \<Rightarrow> (case mergeMetadataStorePatch store patch of
            Inl e \<Rightarrow> (Inl e, store)
          | Inr next_store \<Rightarrow> (Inr (next_store, store), next_store)))"

definition entry_name :: "props \<Rightarrow> jsval" where
  "entry_name e = getp (JObj e) ''name''"

definition assertUniqueLinkName :: "meta_store \<Rightarrow> string \<Rightarrow> string \<Rightarrow> string \<Rightarrow> wg_error + unit" where
  "assertUniqueLinkName store linkId new old =
     (if new = [] \<or> new = old then Inr ()
      else if list_ex (\<lambda>(i, l). i \<noteq> linkId \<and> entry_name l = JStr new) (ms_links store)
      then Inl (NameTaken new) else Inr ())"

subsection \<open>Networks are read as by the rule modules\<close>

text \<open>Within a text with a slash the two readers of this program agree.\<close>

lemma canonicalizeIpv4Network_eq [code]:
  "canonicalizeIpv4Network s = (if CHR ''/'' \<in> set (trim s) then canonicalCidr s else None)"
proof (cases "length (split_on CHR ''/'' (trim s)) = 2")
  case False
  have one: "split_on CHR ''/'' (trim s) = [x] \<Longrightarrow> CHR ''/'' \<notin> set (trim s)" for x
    by (simp add: split_on_eq_iff)
  show ?thesis
    using False one split_on_not_Nil [of "CHR ''/''" "trim s"]
    unfolding canonicalizeIpv4Network_def canonicalCidr_def Let_def
    by (cases "split_on CHR ''/'' (trim s)" rule: remdups_adj.cases) (auto split: list.splits)
next
  case True
  then obtain a p where ap: "split_on CHR ''/'' (trim s) = [a, p]"
    by (auto simp: length_Suc_conv numeral_2_eq_2)
  then have "CHR ''/'' \<in> set (trim s)" "trim s \<noteq> []" by (auto simp: split_on_eq_iff)
  then show ?thesis
    by (auto simp: canonicalizeIpv4Network_def canonicalCidr_def ap ipToInt_def Let_def
        split: option.splits)
qed

lemma canonicalize_text: "p \<le> 32 \<Longrightarrow>
  canonicalizeIpv4Network (cidr_text n p) = Some (cidr_text (n AND prefix_mask p) p)"
  by (simp add: canonicalizeIpv4Network_eq canonicalCidr_text) (simp add: cidr_text_def)

lemma acceptable_text: "p \<le> 32 \<Longrightarrow> isAcceptableNetworkPrefix (cidr_text n p) \<longleftrightarrow> 8 \<le> p"
  using digits_upto_str_of_nat [of p 1]
  by (simp add: isAcceptableNetworkPrefix_def MIN_NETWORK_PREFIX_def numeral_2_eq_2)

text \<open>A network the metadata may carry.\<close>

definition meta_net :: "string \<Rightarrow> bool" where
  "meta_net c \<longleftrightarrow> (\<exists>n p. 8 \<le> p \<and> p \<le> 32 \<and> n AND prefix_mask p = n \<and> c = cidr_text n p)"

lemma meta_net_iff: "meta_net c \<longleftrightarrow> is_canonical c \<and> 8 \<le> cidr_prefix c"
proof
  assume "is_canonical c \<and> 8 \<le> cidr_prefix c"
  then show "meta_net c"
    unfolding is_canonical_def meta_net_def by (auto elim!: canonicalCidr_cases)
qed (auto simp: meta_net_def is_canonical_def canonicalCidr_text)

lemma net_entry_meta: "meta_net c \<Longrightarrow> net_entry (JStr c) out = Inr (out @ [c])"
  by (auto simp: meta_net_def net_entry_def str_or_empty_def canonicalize_text acceptable_text)

lemma net_entry_Inr:
  "net_entry v out = Inr out' \<longleftrightarrow>
     (if trim (str_or_empty v) = [] then out' = out
      else \<exists>c. canonicalizeIpv4Network (str_or_empty v) = Some c \<and> meta_net c \<and> out' = out @ [c])"
proof -
  have *: "canonicalizeIpv4Network s = Some c \<Longrightarrow> isAcceptableNetworkPrefix c \<longleftrightarrow> meta_net c" for s c
    unfolding canonicalizeIpv4Network_eq
    by (auto simp: acceptable_text meta_net_def elim!: canonicalCidr_cases split: if_splits)
  have t: "canonicalizeIpv4Network (trim s) = canonicalizeIpv4Network s" for s
    by (simp add: canonicalizeIpv4Network_def)
  show ?thesis
    by (auto simp: net_entry_def t Let_def * split: option.split)
qed

text \<open>What an entry of a list contributes: nothing when blank, its network otherwise.\<close>

definition blank_entry :: "jsval \<Rightarrow> bool" where
  "blank_entry v \<longleftrightarrow> trim (str_or_empty v) = []"

definition entry_net :: "jsval \<Rightarrow> string option" where
  "entry_net v = (if blank_entry v then None else canonicalizeIpv4Network (str_or_empty v))"

definition net_refused :: "jsval \<Rightarrow> bool" where
  "net_refused v \<longleftrightarrow> \<not> blank_entry v \<and> (case entry_net v of None \<Rightarrow> True | Some c \<Rightarrow> cidr_prefix c < MIN_NETWORK_PREFIX)"

lemma entry_net_canonical: "entry_net v = Some c \<Longrightarrow> is_canonical c"
  by (auto simp: entry_net_def canonicalizeIpv4Network_eq intro: canonical_is_canonical split: if_splits)

lemma entry_net_meta: "\<not> net_refused v \<Longrightarrow> entry_net v = Some c \<Longrightarrow> meta_net c"
  using entry_net_canonical [of v c]
  by (auto simp: net_refused_def meta_net_iff entry_net_def MIN_NETWORK_PREFIX_def split: if_splits)

lemma fold_net_entry_Inr:
  "fold_res net_entry vs ns = Inr out \<longleftrightarrow>
     list_all (\<lambda>v. \<not> net_refused v) vs \<and> out = ns @ List.map_filter entry_net vs"
proof (induction vs arbitrary: ns)
  case (Cons v vs)
  have "net_entry v ns = Inr t \<longleftrightarrow> \<not> net_refused v
      \<and> t = ns @ (case entry_net v of None \<Rightarrow> [] | Some c \<Rightarrow> [c])" for t
    unfolding net_entry_Inr
    by (auto simp: net_refused_def entry_net_def blank_entry_def map_filter_simps meta_net_iff
        canonicalizeIpv4Network_eq MIN_NETWORK_PREFIX_def not_less is_canonical_def
        dest: canonicalCidr_idem split: option.splits if_splits)
  with Cons show ?case
    by (auto simp: bind_res_Inr_iff map_filter_simps split: option.splits)
qed (auto simp: map_filter_simps)

lemma sanitizeNetworkArray_Inr:
  "sanitizeNetworkArray (JArr vs) = Inr out \<longleftrightarrow>
     list_all (\<lambda>v. \<not> net_refused v) vs \<and> out = uniq (List.map_filter entry_net vs)"
  by (simp add: sanitizeNetworkArray_def bind_res_Inr_iff fold_net_entry_Inr) blast

lemma entry_net_JStr: "meta_net c \<Longrightarrow> entry_net (JStr c) = Some c \<and> \<not> net_refused (JStr c)"
  by (auto simp: meta_net_def entry_net_def net_refused_def blank_entry_def str_or_empty_def
      canonicalize_text MIN_NETWORK_PREFIX_def)

lemma map_filter_Some: "\<forall>x \<in> set xs. f x = Some (g x) \<Longrightarrow> List.map_filter f xs = map g xs"
  by (induction xs) (auto simp: map_filter_simps)

lemma set_map_filter_iff: "y \<in> set (List.map_filter f xs) \<longleftrightarrow> (\<exists>x \<in> set xs. f x = Some y)"
  by (induction xs) (auto simp: map_filter_simps split: option.splits)

lemma sanitizeNetworkArray_idem:
  assumes "sanitizeNetworkArray v = Inr out"
  shows "list_all meta_net out \<and> distinct out \<and> sanitizeNetworkArray (str_arr out) = Inr out"
proof (cases "\<exists>vs. v = JArr vs")
  case True
  then obtain vs where v: "v = JArr vs" by blast
  with assms have ok: "list_all (\<lambda>v. \<not> net_refused v) vs" and out: "out = uniq (List.map_filter entry_net vs)"
    by (simp_all add: sanitizeNetworkArray_Inr)
  have meta: "\<forall>c \<in> set out. meta_net c"
  proof
    fix c assume "c \<in> set out"
    then obtain v where "v \<in> set vs" "entry_net v = Some c" by (auto simp: out set_map_filter_iff)
    with ok show "meta_net c" by (intro entry_net_meta [of v]) (auto simp: list_all_iff)
  qed
  have "List.map_filter entry_net (map JStr out) = out"
    using meta by (subst map_filter_Some [where g = "\<lambda>v. case v of JStr c \<Rightarrow> c | _ \<Rightarrow> []"])
      (auto simp: entry_net_JStr comp_def)
  moreover have "distinct out" by (simp add: out)
  ultimately show ?thesis
    using meta by (simp add: str_arr_def sanitizeNetworkArray_Inr list_all_iff entry_net_JStr uniq_id)
next
  case False
  with assms have "out = []" by (cases v) (auto simp: sanitizeNetworkArray_def)
  then show ?thesis by (simp add: str_arr_def sanitizeNetworkArray_def uniq_def)
qed

text \<open>A list of networks is stored exactly when no entry that is not blank is malformed or
  shorter than /8; nothing is dropped silently. What is stored is the distinct canonical texts of
  the entries, each a /8 or longer, and cleaning it again changes nothing.\<close>

theorem sanitizeNetworkArray_correct:
  "((\<exists>out. sanitizeNetworkArray (JArr vs) = Inr out) \<longleftrightarrow> \<not> list_ex net_refused vs)
   \<and> (case sanitizeNetworkArray (JArr vs) of
        Inr out \<Rightarrow> distinct out \<and> list_all (\<lambda>c. is_canonical c \<and> 8 \<le> cidr_prefix c) out
          \<and> set out = {c. \<exists>v \<in> set vs. \<not> blank_entry v \<and> canonicalCidr (str_or_empty v) = Some c}
          \<and> sanitizeNetworkArray (str_arr out) = Inr out
      | Inl e \<Rightarrow> True)"
proof (cases "sanitizeNetworkArray (JArr vs)")
  case (Inl e)
  then show ?thesis using sanitizeNetworkArray_Inr [of vs]
    by (auto simp: list_all_iff list_ex_iff)
next
  case (Inr out)
  then have ok: "list_all (\<lambda>v. \<not> net_refused v) vs" and out: "out = uniq (List.map_filter entry_net vs)"
    by (simp_all add: sanitizeNetworkArray_Inr)
  have "entry_net v = Some c \<longleftrightarrow> \<not> blank_entry v \<and> canonicalCidr (str_or_empty v) = Some c"
    if "v \<in> set vs" for v c
    using ok that by (auto simp: list_all_iff net_refused_def entry_net_def canonicalizeIpv4Network_eq split: if_splits)
  then have "set out = {c. \<exists>v \<in> set vs. \<not> blank_entry v \<and> canonicalCidr (str_or_empty v) = Some c}"
    by (auto simp: out set_map_filter_iff)
  then show ?thesis
    using Inr ok sanitizeNetworkArray_idem [OF Inr] by (auto simp: list_all_iff list_ex_iff meta_net_iff)
qed

definition ex_nets :: "jsval list" where
  "ex_nets = [JStr '' 192.168.10.1/24'', JStr [], JStr ''192.168.10.0/24'', JNull]"

theorem sanitizeNetworkArray_correct_witness:
  "sanitizeNetworkArray (JArr ex_nets) = Inr [''192.168.10.0/24'']
   \<and> \<not> list_ex net_refused ex_nets \<and> is_canonical ''192.168.10.0/24''"
proof -
  have s: "sanitizeNetworkArray (JArr ex_nets) = Inr [''192.168.10.0/24'']" by code_simp
  show ?thesis using sanitizeNetworkArray_correct [of ex_nets] unfolding s by simp
qed

subsection \<open>Cleaning a cleaned patch\<close>

text \<open>An empty text that survived the cleaning counts as absent the second time.\<close>

definition settle :: "jsval \<Rightarrow> jsval" where
  "settle w = (if w = JStr [] then JUndef else w)"

definition steady :: "cleaner \<Rightarrow> bool" where
  "steady f \<longleftrightarrow> (\<forall>v w. f v = Inr w \<longrightarrow> f w = Inr (settle w))"

lemma steady_keep_opt:
  assumes "f None = None" and "\<And>x s. f x = Some s \<Longrightarrow> s \<noteq> [] \<Longrightarrow> f (Some s) = Some s"
  shows "steady (keep_opt f)"
  using assms by (auto simp: steady_def keep_opt_def text_opt_def opt_val_def settle_def split: option.splits)

lemma steady_member: "steady (keep_opt (member_of xs))"
  by (rule steady_keep_opt) (auto simp: member_of_def split: option.splits if_splits)

lemma steady_site_link: "''site-to-site'' \<in> set xs \<Longrightarrow> steady (keep_opt (site_link_alias xs))"
  by (rule steady_keep_opt) (auto simp: site_link_alias_def member_of_def split: option.splits if_splits)

lemma steady_clean_nets: "steady clean_nets"
  by (auto simp: steady_def clean_nets_def bind_res_Inr_iff settle_def str_arr_def
      dest: sanitizeNetworkArray_idem [unfolded str_arr_def])

lemma steady_clean_texts: "steady clean_texts"
proof -
  have "sanitizeStringArray (str_arr (sanitizeStringArray v)) = sanitizeStringArray v" for v
  proof -
    let ?xs = "sanitizeStringArray v"
    have x: "trim s = s \<and> s \<noteq> []" if "s \<in> set ?xs" for s
      using that by (auto simp: sanitizeStringArray_def split: jsval.splits)
    have "map (\<lambda>v. trim (if js_truthy v then js_string v else [])) (map JStr ?xs) = ?xs"
      using x by (auto intro!: map_idI)
    moreover have "filter (\<lambda>s. s \<noteq> []) ?xs = ?xs" using x by (simp add: filter_id_conv)
    moreover have "uniq ?xs = ?xs"
      by (rule uniq_id) (simp add: sanitizeStringArray_def split: jsval.splits)
    ultimately show ?thesis
      unfolding str_arr_def by (subst sanitizeStringArray_def) (simp only: jsval.case)
  qed
  then show ?thesis by (simp add: steady_def clean_texts_def settle_def str_arr_def)
qed

lemma isValidDnsEntry_trim: "isValidDnsEntry (trim s) = isValidDnsEntry s"
  by (simp add: isValidDnsEntry_def)

definition dns_ok :: "string \<Rightarrow> bool" where
  "dns_ok s \<longleftrightarrow> s \<noteq> [] \<and> trim s = s \<and> isValidDnsEntry s"

lemma fold_dns_ok:
  "fold_res dns_entry vs out = Inr out' \<Longrightarrow> list_all dns_ok out \<and> distinct out \<Longrightarrow> list_all dns_ok out' \<and> distinct out'"
  by (erule fold_res_invariant [where P = "\<lambda>out. list_all dns_ok out \<and> distinct out"])
    (auto simp: dns_entry_def Let_def dns_ok_def list_all_iff isValidDnsEntry_trim distinct_push_new split: if_splits)

lemma fold_dns_id:
  "list_all dns_ok xs \<Longrightarrow> distinct (out @ xs) \<Longrightarrow> fold_res dns_entry (map JStr xs) out = Inr (out @ xs)"
proof (induction xs arbitrary: out)
  case (Cons x xs)
  have "dns_entry (JStr x) out = Inr (out @ [x])"
    using Cons.prems by (auto simp: dns_entry_def str_or_empty_def dns_ok_def push_new_def)
  then show ?case using Cons.IH [of "out @ [x]"] Cons.prems by simp
qed simp

lemma sanitizeDnsArray_idem:
  assumes "sanitizeDnsArray v = Inr out"
  shows "list_all dns_ok out \<and> distinct out \<and> sanitizeDnsArray (str_arr out) = Inr out"
proof -
  have "list_all dns_ok out \<and> distinct out"
    using assms fold_dns_ok [of _ "[]" out] by (cases v) (auto simp: sanitizeDnsArray_def)
  then show ?thesis using fold_dns_id [of out "[]"] by (simp add: sanitizeDnsArray_def str_arr_def)
qed

lemma steady_clean_dns: "steady clean_dns"
  by (auto simp: steady_def clean_dns_def bind_res_Inr_iff settle_def str_arr_def
      dest: sanitizeDnsArray_idem [unfolded str_arr_def])

lemma steady_platform: "steady clean_platform"
  by (auto simp: steady_def clean_platform_def settle_def)

lemma steady_name: "steady (keep_opt (map_option stripLinkNameControlChars))"
proof (rule steady_keep_opt)
  fix x s assume "map_option stripLinkNameControlChars x = Some s"
  then show "map_option stripLinkNameControlChars (Some s) = Some s"
    by (auto simp: stripLinkNameControlChars_def)
qed simp

lemma steady_flag: "steady (\<lambda>v. Inr (JBool (js_truthy v)))"
  by (simp add: steady_def settle_def)

lemma steady_id: "steady (keep_opt id)"
  by (rule steady_keep_opt) auto

lemma steady_specs:
  "\<forall>(k, f) \<in> set interface_fields. steady f" "\<forall>(k, f) \<in> set link_fields. steady f"
  by (auto simp: interface_fields_def link_fields_def normalizeLinkType_def [abs_def] normalizeInterfaceRole_def [abs_def]
      INTERFACE_ROLES_def LINK_TYPES_def intro!: steady_flag steady_id steady_member steady_site_link steady_clean_nets
      steady_clean_texts steady_clean_dns steady_platform steady_name)

lemma clean_fields_keys:
  "clean_fields specs v = Inr ps \<Longrightarrow> map fst ps = map fst (filter (\<lambda>kf. has_own v (fst kf)) specs)"
  by (induction specs v arbitrary: ps rule: clean_fields.induct) (auto simp: bind_res_Inr_iff)

lemma key_in: "(k, f) \<in> set fs \<Longrightarrow> k \<in> fst ` set fs"
  by force

lemma clean_fields_again:
  assumes "clean_fields specs v = Inr ps" and "\<forall>(k, f) \<in> set specs. steady f" and "distinct (map fst specs)"
    and "\<forall>k \<in> fst ` set specs. has_own u k = (k \<in> fst ` set ps) \<and> (\<forall>w. map_of ps k = Some w \<longrightarrow> getp u k = w)"
  shows "clean_fields specs u = Inr (map (apsnd settle) ps)"
  using assms
proof (induction specs v arbitrary: ps rule: clean_fields.induct)
  case (2 k f fs v)
  show ?case
  proof (cases "has_own v k")
    case True
    then obtain w qs where ps: "ps = (k, w) # qs" and w: "f (getp v k) = Inr w" and qs: "clean_fields fs v = Inr qs"
      using "2.prems"(1) by (auto simp: bind_res_Inr_iff)
    have "k \<notin> fst ` set fs" using "2.prems"(3) by simp
    then have "clean_fields fs u = Inr (map (apsnd settle) qs)"
    proof (intro "2.IH"(1) [OF True w qs] ballI)
      fix j assume j: "j \<in> fst ` set fs"
      then have "j \<noteq> k" "j \<in> fst ` set ((k, f) # fs)" using \<open>k \<notin> fst ` set fs\<close> by auto
      from bspec [OF "2.prems"(4) this(2)] ps \<open>j \<noteq> k\<close>
      show "has_own u j = (j \<in> fst ` set qs) \<and> (\<forall>w. map_of qs j = Some w \<longrightarrow> getp u j = w)"
        by simp
    qed (use "2.prems"(2,3) in simp_all)
    moreover have "f (getp u k) = Inr (settle w)" "has_own u k"
      using "2.prems"(2,4) ps w by (auto simp: steady_def)
    ultimately show ?thesis using ps by simp
  next
    case False
    then have ps: "clean_fields fs v = Inr ps" using "2.prems"(1) by simp
    have "k \<notin> set (map fst ps)"
      unfolding clean_fields_keys [OF ps] using "2.prems"(3) by auto
    then have "\<not> has_own u k" using "2.prems"(4) by simp
    moreover have "clean_fields fs u = Inr (map (apsnd settle) ps)"
      using "2.IH"(2) [OF False ps] "2.prems" by simp
    ultimately show ?thesis by simp
  qed
qed simp

lemma clean_fields_distinct: "clean_fields specs v = Inr ps \<Longrightarrow> distinct (map fst specs) \<Longrightarrow> distinct (map fst ps)"
  by (simp add: clean_fields_keys distinct_map_filter)

lemma sanitize_patch_again:
  assumes "sanitize_patch specs v = Inr ps" "\<forall>(k, f) \<in> set specs. steady f" "distinct (map fst specs)"
  shows "sanitize_patch specs (JObj ps) = Inr (map (apsnd settle) ps)"
proof -
  have "clean_fields specs v = Inr ps" using assms(1) by (simp add: sanitize_patch_def split: if_splits)
  from clean_fields_again [OF this assms(2,3), of "JObj ps"] show ?thesis
    by (simp add: sanitize_patch_def)
qed

lemma specs_distinct [simp]: "distinct (map fst interface_fields)" "distinct (map fst link_fields)"
  by (simp_all add: interface_fields_def link_fields_def)

lemma sanitizeLinkMetadataPatch_again:
  "sanitizeLinkMetadataPatch v = Inr ps \<Longrightarrow> sanitizeLinkMetadataPatch (JObj ps) = Inr (map (apsnd settle) ps)"
  unfolding sanitizeLinkMetadataPatch_def by (rule sanitize_patch_again) (use steady_specs in auto)

lemma sanitizeInterfaceMetadataPatch_again:
  "sanitizeInterfaceMetadataPatch v = Inr ps \<Longrightarrow> sanitizeInterfaceMetadataPatch (JObj ps) = Inr (map (apsnd settle) ps)"
  unfolding sanitizeInterfaceMetadataPatch_def by (rule sanitize_patch_again) (use steady_specs in auto)

subsection \<open>Merging into the store\<close>

lemma spread_Cons: "spread a ((k, v) # b) = spread (AList.update k v a) b"
  by (simp add: spread_def)

lemma spread_Nil [simp]: "spread a [] = a"
  by (simp add: spread_def)

lemma map_of_spread: "distinct (map fst b) \<Longrightarrow> map_of (spread a b) = map_of a ++ map_of b"
proof (induction b arbitrary: a)
  case (Cons kv b)
  obtain k v where kv: "kv = (k, v)" by (cases kv)
  then have "map_of b k = None" using Cons.prems by (simp add: map_of_eq_None_iff)
  moreover have "map_of (spread a (kv # b)) = (map_of a)(k \<mapsto> v) ++ map_of b"
    using Cons by (simp add: kv spread_Cons update_conv')
  ultimately show ?case by (auto simp: kv fun_eq_iff map_add_def simp del: Some_eq_map_of_iff map_of_eq_Some_iff split: option.split)
qed simp

lemma distinct_spread: "distinct (map fst a) \<Longrightarrow> distinct (map fst (spread a b))"
  by (induction b arbitrary: a) (auto simp: spread_Cons distinct_update)

text \<open>The properties of a stored object: each key once, none undefined.\<close>

definition stored_props :: "props \<Rightarrow> bool" where
  "stored_props e \<longleftrightarrow> distinct (map fst e) \<and> list_all (\<lambda>kv. snd kv \<noteq> JUndef) e"

definition stored_entries :: "(string \<times> props) list \<Rightarrow> bool" where
  "stored_entries m \<longleftrightarrow> distinct (map fst m) \<and> list_all (\<lambda>(k, e). stored_props e) m"

lemma stored_entry: "stored_entries m \<Longrightarrow> stored_props (entry_of m k)"
  by (cases "map_of m k") (auto simp: stored_entries_def entry_of_def stored_props_def [of "[]"] list_all_iff
      dest!: map_of_SomeD bspec)

lemma map_of_filter_distinct:
  "distinct (map fst xs) \<Longrightarrow> map_of (filter (\<lambda>kv. P (snd kv)) xs) k
     = (case map_of xs k of None \<Rightarrow> None | Some v \<Rightarrow> if P v then Some v else None)"
  by (induction xs) (auto simp: map_of_eq_None_iff split: option.split)

lemma stored_merge: "stored_props e \<Longrightarrow> stored_props (mergeMetadataEntry e p)"
  by (auto simp: mergeMetadataEntry_def stored_props_def distinct_map_filter distinct_spread list_all_iff)

lemma getp_merge:
  assumes "stored_props e" "distinct (map fst p)"
  shows "getp (JObj (mergeMetadataEntry e p)) k = (case map_of p k of None \<Rightarrow> getp (JObj e) k | Some v \<Rightarrow> v)"
proof -
  have "distinct (map fst (spread e p))" using assms by (simp add: stored_props_def distinct_spread)
  then show ?thesis
    using map_of_filter_distinct [of "spread e p" "\<lambda>v. v \<noteq> JUndef" k] assms(2)
    by (cases "map_of p k"; cases "map_of e k")
      (simp_all add: mergeMetadataEntry_def map_of_spread map_add_def
        del: Some_eq_map_of_iff map_of_eq_Some_iff)
qed

text \<open>What a property of an entry is after a patch: the cleaned value where the patch has one,
  otherwise as it was.\<close>

definition patched ::
  "(jsval \<Rightarrow> wg_error + props) \<Rightarrow> (string \<times> jsval) list \<Rightarrow> (string \<times> props) list \<Rightarrow> string \<Rightarrow> string \<Rightarrow> jsval" where
  "patched clean kvs m i k =
     (case map_of kvs i of
        None \<Rightarrow> getp (JObj (entry_of m i)) k
      | Some v \<Rightarrow> (case clean v of
            Inr p \<Rightarrow> (case map_of p k of None \<Rightarrow> getp (JObj (entry_of m i)) k | Some w \<Rightarrow> w)
          | Inl e \<Rightarrow> getp (JObj (entry_of m i)) k))"

lemma stored_update: "stored_entries m \<Longrightarrow> stored_props e \<Longrightarrow> stored_entries (AList.update k e m)"
proof (induction m)
  case (Cons x m)
  then show ?case
    by (cases x) (auto simp: stored_entries_def list_all_iff distinct_update dom_update)
qed (simp add: stored_entries_def)

lemma merge_entry_Inr:
  "merge_entry clean (k, v) m = Inr t \<longleftrightarrow>
     (\<exists>p. clean v = Inr p \<and> t = AList.update k (mergeMetadataEntry (entry_of m k) p) m)"
  by (auto simp: merge_entry_def bind_res_Inr_iff)

lemma fold_merge_entry:
  assumes "fold_res (merge_entry clean) kvs m = Inr m'" "distinct (map fst kvs)" "stored_entries m"
  shows "stored_entries m' \<and> map_of m' i = (case map_of kvs i of None \<Rightarrow> map_of m i
           | Some v \<Rightarrow> (case clean v of Inr p \<Rightarrow> Some (mergeMetadataEntry (entry_of m i) p) | Inl _ \<Rightarrow> None))
    \<and> list_all (\<lambda>kv. \<not> isl (clean (snd kv))) kvs"
  using assms
proof (induction kvs arbitrary: m)
  case (Cons kv kvs)
  obtain k v where kv: "kv = (k, v)" by (cases kv)
  obtain p where p: "clean v = Inr p"
    and rest: "fold_res (merge_entry clean) kvs (AList.update k (mergeMetadataEntry (entry_of m k) p) m) = Inr m'"
    using Cons.prems(1) by (auto simp: kv merge_entry_Inr bind_res_Inr_iff)
  have st: "stored_entries (AList.update k (mergeMetadataEntry (entry_of m k) p) m)"
    using Cons.prems(3) by (intro stored_update stored_merge stored_entry)
  have k: "map_of kvs k = None" using Cons.prems(2) by (simp add: kv map_of_eq_None_iff)
  have e: "i \<noteq> k \<Longrightarrow> entry_of (AList.update k x m) i = entry_of m i" for x
    by (simp add: entry_of_def update_conv')
  show ?case
    using Cons.IH [OF rest _ st] Cons.prems(2) k p e
    by (cases "i = k") (simp_all add: kv update_conv' cong: option.case_cong sum.case_cong)
qed simp

lemma fold_merge_entry_ok:
  "list_all (\<lambda>kv. \<not> isl (clean (snd kv))) kvs \<Longrightarrow> \<exists>m'. fold_res (merge_entry clean) kvs m = Inr m'"
proof (induction kvs arbitrary: m)
  case (Cons kv kvs)
  then obtain p where "clean (snd kv) = Inr p" by (cases "clean (snd kv)") auto
  then have "merge_entry clean kv m = Inr (AList.update (fst kv) (mergeMetadataEntry (entry_of m (fst kv)) p) m)"
    by (cases kv) (simp add: merge_entry_Inr)
  with Cons show ?case by simp
qed simp

lemma patched_merge:
  assumes "fold_res (merge_entry clean) kvs m = Inr m'" "distinct (map fst kvs)" "stored_entries m"
    and dist: "\<And>v p. clean v = Inr p \<Longrightarrow> distinct (map fst p)"
  shows "getp (JObj (entry_of m' i)) k = patched clean kvs m i k"
proof (cases "map_of kvs i")
  case None
  with fold_merge_entry [OF assms(1-3), of i] show ?thesis by (simp add: patched_def entry_of_def)
next
  case (Some v)
  then have "(i, v) \<in> set kvs" by (rule map_of_SomeD)
  have "list_all (\<lambda>kv. \<not> isl (clean (snd kv))) kvs" using fold_merge_entry [OF assms(1-3)] by blast
  with \<open>(i, v) \<in> set kvs\<close> have "\<not> isl (clean v)" by (auto simp: list_all_iff dest!: bspec)
  then obtain p where p: "clean v = Inr p" by (cases "clean v") auto
  with Some fold_merge_entry [OF assms(1-3), of i]
  have "entry_of m' i = mergeMetadataEntry (entry_of m i) p" by (simp add: entry_of_def)
  with Some p show ?thesis
    using getp_merge [OF stored_entry [OF assms(3)] dist [OF p], of i k] by (simp add: patched_def)
qed

lemma sanitize_distinct:
  "sanitizeLinkMetadataPatch v = Inr p \<Longrightarrow> distinct (map fst p)"
  "sanitizeInterfaceMetadataPatch v = Inr p \<Longrightarrow> distinct (map fst p)"
  by (auto simp: sanitizeLinkMetadataPatch_def sanitizeInterfaceMetadataPatch_def sanitize_patch_def
      split: if_splits intro: clean_fields_distinct)

text \<open>C36: A metadata patch is written completely or not at all. An error leaves the store as it was;
  otherwise the answer carries the store before and the store written, every property of every
  entry is the cleaned value where the patch names it and unchanged where it does not, and the
  entries keep the shape of stored objects (no key twice, nothing undefined).\<close>

theorem applyMetadataPatch_correct:
  assumes "stored_entries (ms_interfaces store)" "stored_entries (ms_links store)"
    and "distinct (map fst (mp_interfaces patch))" "distinct (map fst (mp_links patch))"
  shows "case applyMetadataPatch validate patch store of
      (Inl e, store') \<Rightarrow> store' = store
        \<and> (validate store = Some e \<or> list_ex (\<lambda>kv. isl (sanitizeInterfaceMetadataPatch (snd kv))) (mp_interfaces patch)
           \<or> list_ex (\<lambda>kv. isl (sanitizeLinkMetadataPatch (snd kv))) (mp_links patch))
    | (Inr (written, previous), store') \<Rightarrow> store' = written \<and> previous = store
        \<and> stored_entries (ms_interfaces written) \<and> stored_entries (ms_links written)
        \<and> (\<forall>i k. getp (JObj (entry_of (ms_interfaces written) i)) k
              = patched sanitizeInterfaceMetadataPatch (mp_interfaces patch) (ms_interfaces store) i k)
        \<and> (\<forall>i k. getp (JObj (entry_of (ms_links written) i)) k
              = patched sanitizeLinkMetadataPatch (mp_links patch) (ms_links store) i k)"
proof (cases "applyMetadataPatch validate patch store")
  case (Pair r store')
  show ?thesis
  proof (cases r)
    case (Inl e)
    have "validate store = Some e \<or> mergeMetadataStorePatch store patch = Inl e" and st: "store' = store"
      using Pair Inl by (auto simp: applyMetadataPatch_def split: option.splits sum.splits)
    moreover have "mergeMetadataStorePatch store patch \<noteq> Inl e"
      if "list_all (\<lambda>kv. \<not> isl (sanitizeInterfaceMetadataPatch (snd kv))) (mp_interfaces patch)"
        "list_all (\<lambda>kv. \<not> isl (sanitizeLinkMetadataPatch (snd kv))) (mp_links patch)"
      using fold_merge_entry_ok [OF that(1), of "ms_interfaces store"] fold_merge_entry_ok [OF that(2), of "ms_links store"]
      by (auto simp: mergeMetadataStorePatch_def)
    ultimately show ?thesis
      unfolding Pair Inl by (auto simp: list_ex_iff list_all_iff)
  next
    case (Inr q)
    then obtain written previous where q: "r = Inr (written, previous)" by (cases q) auto
    then have m: "mergeMetadataStorePatch store patch = Inr written" and "store' = written" "previous = store"
      using Pair by (auto simp: applyMetadataPatch_def split: option.splits sum.splits)
    then obtain ifs ls where ifs: "fold_res (merge_entry sanitizeInterfaceMetadataPatch) (mp_interfaces patch) (ms_interfaces store) = Inr ifs"
      and ls: "fold_res (merge_entry sanitizeLinkMetadataPatch) (mp_links patch) (ms_links store) = Inr ls"
      and w: "written = \<lparr>ms_interfaces = ifs, ms_links = ls\<rparr>"
      by (auto simp: mergeMetadataStorePatch_def bind_res_Inr_iff)
    show ?thesis
      using patched_merge [OF ifs assms(3,1) sanitize_distinct(2)] patched_merge [OF ls assms(4,2) sanitize_distinct(1)]
        fold_merge_entry [OF ifs assms(3,1)] fold_merge_entry [OF ls assms(4,2)]
      by (simp add: Pair q w \<open>store' = written\<close> \<open>previous = store\<close>)
  qed
qed

definition ex_store :: meta_store where
  "ex_store = \<lparr>ms_interfaces = [],
     ms_links = [(''wg0:a'', [(''name'', JStr ''office''), (''notes'', JArr [])]), (''wg0:b'', [(''name'', JStr ''depot'')])]\<rparr>"

definition ex_patch :: meta_patch where
  "ex_patch = \<lparr>mp_interfaces = [], mp_links = [(''wg0:a'', JObj [(''name'', JStr ''hq''), (''importedNetworks'', JArr [JStr ''10.1.2.3/16''])])]\<rparr>"

theorem applyMetadataPatch_correct_witness:
  "\<exists>written. fst (applyMetadataPatch (\<lambda>_. None) ex_patch ex_store) = Inr (written, ex_store)
     \<and> getp (JObj (entry_of (ms_links written) ''wg0:a'')) ''notes'' = JArr []
     \<and> getp (JObj (entry_of (ms_links written) ''wg0:a'')) ''importedNetworks'' = JArr [JStr ''10.1.0.0/16'']
     \<and> getp (JObj (entry_of (ms_links written) ''wg0:b'')) ''name'' = JStr ''depot''"
proof -
  have ok: "stored_entries (ms_interfaces ex_store)" "stored_entries (ms_links ex_store)"
    "distinct (map fst (mp_interfaces ex_patch))" "distinct (map fst (mp_links ex_patch))"
    by code_simp+
  have p: "\<not> isl (fst (applyMetadataPatch (\<lambda>_. None) ex_patch ex_store))" by code_simp
  then obtain written previous store' where a: "applyMetadataPatch (\<lambda>_. None) ex_patch ex_store = (Inr (written, previous), store')"
    by (metis isl_def prod.collapse sum.collapse(2) surj_pair)
  have v: "patched sanitizeLinkMetadataPatch (mp_links ex_patch) (ms_links ex_store) ''wg0:a'' ''notes'' = JArr []"
    "patched sanitizeLinkMetadataPatch (mp_links ex_patch) (ms_links ex_store) ''wg0:a'' ''importedNetworks'' = JArr [JStr ''10.1.0.0/16'']"
    "patched sanitizeLinkMetadataPatch (mp_links ex_patch) (ms_links ex_store) ''wg0:b'' ''name'' = JStr ''depot''"
    by code_simp+
  from applyMetadataPatch_correct [OF ok, of "\<lambda>_. None"] show ?thesis
    unfolding a by (auto simp: v)
qed

end
