(* ===== verification/Wg_Conf.thy ===== *)
theory Wg_Conf
  imports Wg_Metadata "HOL-Library.Sublist"
begin

text \<open>
  Configuration texts in backend/internal/wireguard.js: the checks on host names and addresses
  that are written into files, the file of a client (\<open>buildClientConfig\<close>), reading a
  wg-quick file (\<open>parseConfig\<close>), reading \<open>wg show all dump\<close> (\<open>parseDump\<close>) and
  the rewrite of a file when the key of a peer is rotated (\<open>_rewriteRotatedPeer\<close>). The
  dash U+2014 in the first comment of a client file is outside the modelled characters and is
  written as a hyphen.
\<close>

subsection \<open>Texts spliced into configurations\<close>

abbreviation (input) LF :: char where "LF \<equiv> CHR 0x0A"
abbreviation (input) CR :: char where "CR \<equiv> CHR 0x0D"
abbreviation (input) TAB :: char where "TAB \<equiv> CHR 0x09"

definition HUB_HOST_RE :: "string \<Rightarrow> bool" where
  "HUB_HOST_RE s \<longleftrightarrow> s \<noteq> [] \<and> list_all (\<lambda>c. is_alnum c \<or> c \<in> set ''.-_:[]'') s"

definition sanitizeHubHost :: "string option \<Rightarrow> string option" where
  "sanitizeHubHost raw =
     (let v = trim (case raw of None \<Rightarrow> [] | Some s \<Rightarrow> s)
      in if v = [] \<or> \<not> HUB_HOST_RE v then None
         else if CHR '':'' \<in> set v \<and> \<not> starts_with ''['' v then Some (''['' @ v @ '']'') else Some v)"

definition resolveHubHost :: "string option \<Rightarrow> string \<Rightarrow> string" where
  "resolveHubHost env os_name =
     (case sanitizeHubHost env of Some h \<Rightarrow> h | None \<Rightarrow> if os_name = [] then ''<server-ip>'' else os_name)"

definition configuredHubHost :: "string option \<Rightarrow> string option" where
  "configuredHubHost env = sanitizeHubHost env"

text \<open>A decimal number without leading zero, at most \<open>n\<close>.\<close>

definition decimal_upto :: "nat \<Rightarrow> string \<Rightarrow> bool" where
  "decimal_upto n p \<longleftrightarrow> all_digits p \<and> (length p = 1 \<or> hd p \<noteq> CHR ''0'') \<and> nat_of_digits p \<le> n"

definition v4_octets_ok :: "string \<Rightarrow> bool" where
  "v4_octets_ok a = (case ipv4_groups a of None \<Rightarrow> False
     | Some (a, b, c, d) \<Rightarrow> a \<le> 255 \<and> b \<le> 255 \<and> c \<le> 255 \<and> d \<le> 255)"

definition IPV4_NET_RE :: "string \<Rightarrow> bool" where
  "IPV4_NET_RE s = (case split_on CHR ''/'' s of
       [a] \<Rightarrow> ipv4_groups a \<noteq> None
     | [a, p] \<Rightarrow> ipv4_groups a \<noteq> None \<and> decimal_upto 32 p
     | _ \<Rightarrow> False)"

definition hex_colons :: "string \<Rightarrow> bool" where
  "hex_colons a \<longleftrightarrow> a \<noteq> [] \<and> list_all (\<lambda>c. is_hex c \<or> c = CHR '':'') a"

definition IPV6_NET_RE :: "string \<Rightarrow> bool" where
  "IPV6_NET_RE s = (case split_on CHR ''/'' s of
       [a] \<Rightarrow> hex_colons a
     | [a, p] \<Rightarrow> hex_colons a \<and> decimal_upto 128 p
     | _ \<Rightarrow> False)"

definition isValidNetwork :: "jsval \<Rightarrow> bool" where
  "isValidNetwork value =
     (let v = trim (if js_truthy value then js_string value else [])
      in if v = [] then False
         else if IPV4_NET_RE v then v4_octets_ok (split_on CHR ''/'' v ! 0)
         else CHR '':'' \<in> set v \<and> IPV6_NET_RE v)"

definition isValidInterfaceAddress :: "jsval \<Rightarrow> bool" where
  "isValidInterfaceAddress value =
     (let v = trim (if js_truthy value then js_string value else [])
      in if v = [] \<or> list_ex js_ws v then False
         else (case split_on CHR ''/'' v of
             [a, p] \<Rightarrow>
               if ipv4_groups a \<noteq> None \<and> digits_upto 2 p then v4_octets_ok a \<and> nat_of_digits p \<le> 32
               else CHR '':'' \<in> set v \<and> CHR ''/'' \<in> set v \<and> IPV6_NET_RE v
           | _ \<Rightarrow> CHR '':'' \<in> set v \<and> CHR ''/'' \<in> set v \<and> IPV6_NET_RE v))"

subsection \<open>The file of a client\<close>

text \<open>What \<open>buildClientConfig\<close> needs of a link of the status.\<close>

record link_nets =
  ln_id :: string
  ln_interface :: string
  ln_exported :: "string list"

record client_config =
  cc_displayName :: string
  cc_filenameBase :: string
  cc_privateKey :: string
  cc_publicKey :: "string option"
  cc_tunnelAddress :: "string option"
  cc_linkDns :: "string list"
  cc_ifaceDns :: "string list"
  cc_fullTunnel :: bool
  cc_platform :: "string option"
  cc_importedNets :: "string list"
  cc_tunnelSubnets :: "string list"
  cc_links :: "link_nets list"
  cc_excludeLinkId :: "string option"
  cc_ifaceName :: string
  cc_hubPublicKey :: "string option"
  cc_hubHost :: string
  cc_hubListenPort :: int

text \<open>\<open>if (x) lines.push(...)\<close>.\<close>

definition opt_line :: "string option \<Rightarrow> (string \<Rightarrow> string) \<Rightarrow> string list" where
  "opt_line x f = (case x of Some s \<Rightarrow> if s = [] then [] else [f s] | None \<Rightarrow> [])"

definition client_dns :: "string option \<Rightarrow> client_config \<Rightarrow> string list" where
  "client_dns env_dns c =
     filter isValidDnsEntry
       (if cc_linkDns c \<noteq> [] then cc_linkDns c
        else if cc_ifaceDns c \<noteq> [] then cc_ifaceDns c
        else (case env_dns of None \<Rightarrow> []
              | Some s \<Rightarrow> if s = [] then [] else map trim (split_on CHR '','' s)))"

definition client_reach :: "client_config \<Rightarrow> string list" where
  "client_reach c =
     (if cc_importedNets c \<noteq> [] then cc_importedNets c
      else uniq (cc_tunnelSubnets c @ concat (map ln_exported
        (filter (\<lambda>l. Some (ln_id l) \<noteq> cc_excludeLinkId c \<and> ln_interface l = cc_ifaceName c) (cc_links c)))))"

definition full_tunnel_ips :: "string option \<Rightarrow> string list" where
  "full_tunnel_ips platform =
     (if platform = Some ''mobile'' then [''0.0.0.0/0'', ''::/0'']
      else [''0.0.0.0/1'', ''128.0.0.0/1'', ''::/1'', ''8000::/1''])"

definition client_allowed :: "client_config \<Rightarrow> string list" where
  "client_allowed c = (if cc_fullTunnel c then full_tunnel_ips (cc_platform c) else client_reach c)"

definition client_lines :: "string option \<Rightarrow> client_config \<Rightarrow> string list" where
  "client_lines env_dns c =
     [''# WireGuard peer config - '' @ cc_displayName c, ''# Generated by FloppyGuard'', [],
      ''[Interface]'', ''PrivateKey = '' @ cc_privateKey c]
     @ opt_line (cc_publicKey c) (\<lambda>k. ''# PublicKey = '' @ k @ ''  # (registered on hub - do not share)'')
     @ opt_line (cc_tunnelAddress c) (\<lambda>a. ''Address = '' @ a)
     @ (if client_dns env_dns c = [] then [] else [''DNS = '' @ join '', '' (client_dns env_dns c)])
     @ [[], ''[Peer]'', ''# Hub interface: '' @ cc_ifaceName c]
     @ opt_line (cc_hubPublicKey c) (\<lambda>k. ''PublicKey = '' @ k)
     @ [''Endpoint = '' @ cc_hubHost c @ '':'' @ str_of_int (cc_hubListenPort c),
        ''AllowedIPs = '' @ (let ips = join '', '' (client_allowed c) in if ips = [] then ''0.0.0.0/0'' else ips),
        ''PersistentKeepalive = 25'']"

definition safe_filename :: "string \<Rightarrow> string" where
  "safe_filename s = map (\<lambda>c. if is_alnum c \<or> c \<in> set ''_.-'' then c else CHR ''_'') s"

definition buildClientConfig :: "string option \<Rightarrow> client_config \<Rightarrow> string \<times> string" where
  "buildClientConfig env_dns c =
     (safe_filename (cc_filenameBase c @ ''.conf''), join [LF] (client_lines env_dns c) @ [LF])"

subsection \<open>Reading a wg-quick file\<close>

text \<open>\<open>split(/\r?\n/)\<close>: a carriage return directly before a line feed goes with it.\<close>

definition strip_cr :: "string \<Rightarrow> string" where
  "strip_cr s = (if s \<noteq> [] \<and> last s = CR then butlast s else s)"

definition split_lines :: "string \<Rightarrow> string list" where
  "split_lines s = (let ps = split_on LF s in map strip_cr (butlast ps) @ [last ps])"

text \<open>\<open>Number.parseInt(s, 10)\<close>; \<open>None\<close> is NaN.\<close>

definition parse_int10 :: "string \<Rightarrow> int option" where
  "parse_int10 s0 =
     (let s = trim_start s0;
          neg = (s \<noteq> [] \<and> hd s = CHR ''-'');
          t = (if s \<noteq> [] \<and> (hd s = CHR ''-'' \<or> hd s = CHR ''+'') then tl s else s);
          ds = takeWhile is_digit t
      in if ds = [] then None
         else Some (if neg then - int (nat_of_digits ds) else int (nat_of_digits ds)))"

record conf_file =
  cf_addresses :: "string list"
  cf_listenPort :: "int option"
  cf_privateKeyPresent :: bool
  cf_peers :: "(string \<times> string) list list"

datatype conf_section = NoSection | InterfaceSection | PeerSection

text \<open>\<open>text.split(",").map(trim).filter(Boolean)\<close>.\<close>

definition comma_list :: "string \<Rightarrow> string list" where
  "comma_list s = filter (\<lambda>p. p \<noteq> []) (map trim (split_on CHR '','' s))"

definition interface_key :: "string \<Rightarrow> string \<Rightarrow> conf_file \<Rightarrow> conf_file" where
  "interface_key key val r =
     (if key = ''Address'' then r\<lparr>cf_addresses := comma_list val\<rparr>
      else if key = ''ListenPort'' then r\<lparr>cf_listenPort := parse_int10 val\<rparr>
      else if key = ''PrivateKey'' then r\<lparr>cf_privateKeyPresent := (val \<noteq> [])\<rparr>
      else r)"

definition peer_key :: "string \<Rightarrow> string \<Rightarrow> conf_file \<Rightarrow> conf_file" where
  "peer_key key val r =
     (if cf_peers r = [] then r
      else r\<lparr>cf_peers := butlast (cf_peers r) @ [AList.update key val (last (cf_peers r))]\<rparr>)"

text \<open>\<open>line.split("=", 2)\<close>: the text after a second equals sign is dropped.\<close>

definition parse_line :: "string \<Rightarrow> conf_section \<times> conf_file \<Rightarrow> conf_section \<times> conf_file" where
  "parse_line rawLine st =
     (let line = trim rawLine; (section, r) = st
      in if line = [] \<or> starts_with ''#'' line then st
         else if line = ''[Interface]'' then (InterfaceSection, r)
         else if line = ''[Peer]'' then (PeerSection, r\<lparr>cf_peers := cf_peers r @ [[]]\<rparr>)
         else if CHR ''='' \<notin> set line then st
         else (let ps = map trim (split_on CHR ''='' line); key = ps ! 0; val = ps ! 1
               in case section of
                    InterfaceSection \<Rightarrow> (section, interface_key key val r)
                  | PeerSection \<Rightarrow> (section, peer_key key val r)
                  | NoSection \<Rightarrow> st))"

definition empty_conf :: conf_file where
  "empty_conf = \<lparr>cf_addresses = [], cf_listenPort = None, cf_privateKeyPresent = False, cf_peers = []\<rparr>"

definition parseConfig :: "string \<Rightarrow> conf_file" where
  "parseConfig confText = snd (fold parse_line (split_lines confText) (NoSection, empty_conf))"

subsection \<open>Reading the dump of the running interfaces\<close>

definition ACTIVE_HANDSHAKE_WINDOW :: int where "ACTIVE_HANDSHAKE_WINDOW = 180"

record dump_peer =
  dp_publicKey :: "string option"
  dp_endpoint :: "string option"
  dp_allowedIps :: "string list"
  dp_latestHandshake :: int
  dp_rxBytes :: int
  dp_txBytes :: int
  dp_isActive :: bool

record dump_iface =
  di_name :: string
  di_publicKey :: "string option"
  di_listenPort :: "int option"
  di_peers :: "dump_peer list"
  di_peerCount :: nat
  di_activePeerCount :: nat
  di_rxBytes :: int
  di_txBytes :: int

text \<open>A field of a line; missing and empty ones are falsy.\<close>

definition field :: "string list \<Rightarrow> nat \<Rightarrow> string option" where
  "field parts i = (if i < length parts \<and> parts ! i \<noteq> [] then Some (parts ! i) else None)"

text \<open>\<open>Number.parseInt(parts[i] || "0", 10) || 0\<close>.\<close>

definition int_field :: "string list \<Rightarrow> nat \<Rightarrow> int" where
  "int_field parts i = (case field parts i of None \<Rightarrow> 0
     | Some s \<Rightarrow> (case parse_int10 s of None \<Rightarrow> 0 | Some n \<Rightarrow> n))"

definition port_field :: "string list \<Rightarrow> nat \<Rightarrow> int option" where
  "port_field parts i = (case field parts i of None \<Rightarrow> None
     | Some s \<Rightarrow> (case parse_int10 s of None \<Rightarrow> None | Some n \<Rightarrow> if n = 0 then None else Some n))"

definition new_iface :: "string \<Rightarrow> string option \<Rightarrow> int option \<Rightarrow> dump_iface" where
  "new_iface i key prt = \<lparr>di_name = i, di_publicKey = key, di_listenPort = prt, di_peers = [],
     di_peerCount = 0, di_activePeerCount = 0, di_rxBytes = 0, di_txBytes = 0\<rparr>"

definition peer_of_line :: "int \<Rightarrow> string list \<Rightarrow> dump_peer" where
  "peer_of_line now parts =
     (let latest = int_field parts 5
      in \<lparr>dp_publicKey = field parts 1, dp_endpoint = field parts 3,
          dp_allowedIps = (case field parts 4 of None \<Rightarrow> [] | Some s \<Rightarrow> comma_list s),
          dp_latestHandshake = latest, dp_rxBytes = int_field parts 6, dp_txBytes = int_field parts 7,
          dp_isActive = (latest > 0 \<and> now - latest < ACTIVE_HANDSHAKE_WINDOW)\<rparr>)"

definition add_peer :: "dump_peer \<Rightarrow> dump_iface \<Rightarrow> dump_iface" where
  "add_peer p d = d\<lparr>di_peers := di_peers d @ [p], di_peerCount := di_peerCount d + 1,
     di_activePeerCount := di_activePeerCount d + (if dp_isActive p then 1 else 0),
     di_rxBytes := di_rxBytes d + dp_rxBytes p, di_txBytes := di_txBytes d + dp_txBytes p\<rparr>"

definition dump_line :: "int \<Rightarrow> string \<Rightarrow> (string \<times> dump_iface) list \<Rightarrow> (string \<times> dump_iface) list" where
  "dump_line now rawLine by_iface =
     (let line = trim rawLine; parts = split_on TAB line; i = parts ! 0
      in if line = [] \<or> i = [] then by_iface
         else if length parts = 5 then AList.update i (new_iface i (field parts 2) (port_field parts 3)) by_iface
         else AList.update i
                (add_peer (peer_of_line now parts)
                  (case map_of by_iface i of Some d \<Rightarrow> d | None \<Rightarrow> new_iface i None None)) by_iface)"

definition parseDump :: "int \<Rightarrow> string \<Rightarrow> (string \<times> dump_iface) list" where
  "parseDump now stdout = fold (dump_line now) (split_lines stdout) []"

subsection \<open>Rotating the key of a peer\<close>

record conf_part =
  cp_isPeer :: bool
  cp_lines :: "string list"

text \<open>The sections of a file, each with its header line; the first one has no header.\<close>

definition section_step :: "string \<Rightarrow> conf_part list \<times> conf_part \<Rightarrow> conf_part list \<times> conf_part" where
  "section_step rawLine st =
     (let t = trim rawLine; (sections, cur) = st;
          (sections, cur) = (if starts_with ''['' t
             then (sections @ [cur], \<lparr>cp_isPeer = (t = ''[Peer]''), cp_lines = []\<rparr>) else (sections, cur))
      in (sections, cur\<lparr>cp_lines := cp_lines cur @ [rawLine]\<rparr>))"

definition conf_sections :: "string list \<Rightarrow> conf_part list" where
  "conf_sections ls =
     (let (sections, cur) = fold section_step ls ([], \<lparr>cp_isPeer = False, cp_lines = []\<rparr>)
      in sections @ [cur])"

definition keyOf :: "string \<Rightarrow> string" where
  "keyOf line = to_lower (trim (split_on CHR ''='' (trim line) ! 0))"

definition valOf :: "string \<Rightarrow> string" where
  "valOf line = trim (if CHR ''='' \<in> set line then tl (dropWhile (\<lambda>c. c \<noteq> CHR ''='') line) else line)"

definition is_target :: "string \<Rightarrow> conf_part \<Rightarrow> bool" where
  "is_target old sec \<longleftrightarrow> cp_isPeer sec \<and> list_ex (\<lambda>l. keyOf l = ''publickey'' \<and> valOf l = old) (cp_lines sec)"

definition rotate_line :: "string \<Rightarrow> string \<Rightarrow> string \<Rightarrow> string list" where
  "rotate_line old new rawLine =
     (if keyOf rawLine = ''presharedkey'' then []
      else if keyOf rawLine = ''publickey'' \<and> valOf rawLine = old then [''PublicKey = '' @ new]
      else [rawLine])"

fun rotate_sections :: "string \<Rightarrow> string \<Rightarrow> conf_part list \<Rightarrow> string list \<times> bool" where
  "rotate_sections old new [] = ([], False)"
| "rotate_sections old new (sec # secs) =
     (if is_target old sec
      then (concat (map (rotate_line old new) (cp_lines sec)) @ concat (map cp_lines secs), True)
      else (let (out, swapped) = rotate_sections old new secs in (cp_lines sec @ out, swapped)))"

definition rewriteRotatedPeer :: "string \<Rightarrow> string \<Rightarrow> string \<Rightarrow> string \<times> bool" where
  "rewriteRotatedPeer confText old new =
     (let (out, swapped) = rotate_sections old new (conf_sections (split_lines confText))
      in (join [LF] out, swapped))"

text \<open>The file and the commands sent to the running interface; a missing file is no swap, and a
  failing command is only logged.\<close>

definition rotatePeerPublicKey ::
  "string \<Rightarrow> string \<Rightarrow> string \<Rightarrow> string list \<Rightarrow> string option \<Rightarrow> bool \<times> string option \<times> string list list" where
  "rotatePeerPublicKey iface old new allowed conf =
     (case conf of
        None \<Rightarrow> (False, None, [])
      | Some confText \<Rightarrow>
          (case rewriteRotatedPeer confText old new of
             (text, swapped) \<Rightarrow>
               if \<not> swapped then (False, conf, [])
               else (True, Some text,
                     [[''set'', iface, ''peer'', old, ''remove''],
                      [''set'', iface, ''peer'', new]
                        @ (if allowed = [] then [] else [''allowed-ips'', join '','' allowed])])))"

subsection \<open>Sections of a file\<close>

definition is_header :: "string \<Rightarrow> bool" where
  "is_header l \<longleftrightarrow> starts_with ''['' (trim l)"

definition section_ok :: "conf_part \<Rightarrow> bool" where
  "section_ok s \<longleftrightarrow> cp_lines s \<noteq> [] \<and> is_header (hd (cp_lines s)) \<and> \<not> list_ex is_header (tl (cp_lines s))
     \<and> cp_isPeer s = (trim (hd (cp_lines s)) = ''[Peer]'')"

definition sections_ok :: "conf_part list \<Rightarrow> bool" where
  "sections_ok ss \<longleftrightarrow> ss \<noteq> [] \<and> \<not> cp_isPeer (hd ss) \<and> \<not> list_ex is_header (cp_lines (hd ss))
     \<and> list_all section_ok (tl ss)"

lemma section_step_plain: "\<not> is_header l \<Longrightarrow> section_step l (S, cur) = (S, cur\<lparr>cp_lines := cp_lines cur @ [l]\<rparr>)"
  by (simp add: section_step_def is_header_def Let_def)

lemma section_step_header:
  "is_header l \<Longrightarrow> section_step l (S, cur) = (S @ [cur], \<lparr>cp_isPeer = (trim l = ''[Peer]''), cp_lines = [l]\<rparr>)"
  by (simp add: section_step_def is_header_def Let_def)

lemma fold_plain:
  "\<not> list_ex is_header ls \<Longrightarrow> fold section_step ls (S, cur) = (S, cur\<lparr>cp_lines := cp_lines cur @ ls\<rparr>)"
  by (induction ls arbitrary: cur) (auto simp: section_step_plain)

lemma fold_section:
  assumes "section_ok s"
  shows "fold section_step (cp_lines s) (S, cur) = (S @ [cur], s)"
proof (cases s)
  case (fields p ls)
  then obtain h t where "ls = h # t" using assms by (cases ls) (auto simp: section_ok_def)
  with assms fields show ?thesis by (simp add: section_ok_def section_step_header fold_plain)
qed

lemma fold_sections:
  "list_all section_ok ss \<Longrightarrow>
     (case fold section_step (concat (map cp_lines ss)) (S, cur) of (S', cur') \<Rightarrow> S' @ [cur'] = S @ [cur] @ ss)"
proof (induction ss arbitrary: S cur)
  case (Cons s ss)
  then show ?case using Cons.IH [of "S @ [cur]" s] by (simp add: fold_section)
qed simp

text \<open>Reading the lines of well-formed sections gives the sections back.\<close>

lemma conf_sections_concat:
  assumes "sections_ok ss"
  shows "conf_sections (concat (map cp_lines ss)) = ss"
proof -
  obtain f r where ss: "ss = f # r" using assms by (cases ss) (auto simp: sections_ok_def)
  then have "fold section_step (cp_lines f) ([], \<lparr>cp_isPeer = False, cp_lines = []\<rparr>) = ([], f)"
    using assms by (simp add: sections_ok_def fold_plain)
  then show ?thesis
    using fold_sections [of r "[]" f] assms by (simp add: ss sections_ok_def conf_sections_def split: prod.splits)
qed

lemma sections_step_inv:
  assumes "sections_ok (S @ [cur])" "section_step l (S, cur) = (S', cur')"
  shows "sections_ok (S' @ [cur']) \<and> concat (map cp_lines (S' @ [cur'])) = concat (map cp_lines (S @ [cur])) @ [l]"
proof (cases "is_header l")
  case True
  with assms show ?thesis
    by (cases S) (auto simp: section_step_header sections_ok_def section_ok_def)
next
  case False
  then have st: "S' = S" "cur' = cur\<lparr>cp_lines := cp_lines cur @ [l]\<rparr>" using assms(2) by (simp_all add: section_step_plain)
  show ?thesis
  proof (cases S)
    case Nil
    with assms(1) st False show ?thesis by (simp add: sections_ok_def)
  next
    case (Cons f r)
    with assms(1) have "section_ok cur" by (simp add: sections_ok_def)
    then have "section_ok cur'" using False st by (cases "cp_lines cur") (auto simp: section_ok_def)
    with assms(1) Cons st show ?thesis by (simp add: sections_ok_def)
  qed
qed

lemma fold_sections_inv:
  "sections_ok (S @ [cur]) \<Longrightarrow> fold section_step ls (S, cur) = (S', cur')
    \<Longrightarrow> sections_ok (S' @ [cur']) \<and> concat (map cp_lines (S' @ [cur'])) = concat (map cp_lines (S @ [cur])) @ ls"
proof (induction ls arbitrary: S cur)
  case (Cons l ls)
  obtain S1 cur1 where s: "section_step l (S, cur) = (S1, cur1)" by (cases "section_step l (S, cur)")
  from Cons.IH [of S1 cur1] sections_step_inv [OF Cons.prems(1) s] Cons.prems(2) s show ?case by simp
qed simp

lemma conf_sections_ok: "sections_ok (conf_sections ls)"
  and conf_sections_lines: "concat (map cp_lines (conf_sections ls)) = ls"
proof -
  obtain S cur where f: "fold section_step ls ([], \<lparr>cp_isPeer = False, cp_lines = []\<rparr>) = (S, cur)" by fastforce
  have "sections_ok ([] @ [\<lparr>cp_isPeer = False, cp_lines = []\<rparr>])" by (simp add: sections_ok_def)
  from fold_sections_inv [OF this f] show "sections_ok (conf_sections ls)" "concat (map cp_lines (conf_sections ls)) = ls"
    using f by (simp_all add: conf_sections_def)
qed

subsection \<open>The rotated section\<close>

definition rotate_part :: "string \<Rightarrow> string \<Rightarrow> conf_part \<Rightarrow> conf_part" where
  "rotate_part old new s = s\<lparr>cp_lines := concat (map (rotate_line old new) (cp_lines s))\<rparr>"

lemma rotate_sections_None: "\<not> list_ex (is_target old) ss \<Longrightarrow> rotate_sections old new ss = (concat (map cp_lines ss), False)"
  by (induction ss) auto

lemma rotate_sections_Some:
  "\<not> list_ex (is_target old) pre \<Longrightarrow> is_target old s \<Longrightarrow>
   rotate_sections old new (pre @ s # post) = (concat (map cp_lines (pre @ rotate_part old new s # post)), True)"
  by (induction pre) (auto simp: rotate_part_def)

lemma trim_Cons:
  assumes "\<not> js_ws c"
  shows "\<exists>t. trim (c # s) = c # t"
  using assms
  by (auto simp: trim_def dropWhile_append intro: exI [of _ "rev (dropWhile js_ws (rev s))"])

lemma new_key_line: "\<not> is_header (''PublicKey = '' @ new)"
proof -
  have "\<not> js_ws CHR ''P''" by code_simp
  then obtain t where "trim (CHR ''P'' # ''ublicKey = '' @ new) = CHR ''P'' # t"
    using trim_Cons by blast
  then show ?thesis by (simp add: is_header_def starts_with_def)
qed

lemma peer_header: "trim h = ''[Peer]'' \<Longrightarrow> rotate_line old new h = [h]"
proof -
  assume t: "trim h = ''[Peer]''"
  have "to_lower (trim (split_on CHR ''='' ''[Peer]'' ! 0)) = ''[peer]''" by code_simp
  then show ?thesis by (simp add: rotate_line_def keyOf_def t)
qed

lemma rotate_line_header: "\<not> is_header l \<Longrightarrow> \<not> list_ex is_header (rotate_line old new l)"
  using new_key_line [of new] by (simp add: rotate_line_def)

lemma section_ok_rotate:
  assumes "section_ok s" "cp_isPeer s"
  shows "section_ok (rotate_part old new s)"
proof -
  obtain h t where s: "cp_lines s = h # t" using assms by (cases "cp_lines s") (auto simp: section_ok_def)
  then have "rotate_line old new h = [h]" using assms by (simp add: section_ok_def peer_header)
  moreover have "\<not> list_ex is_header (concat (map (rotate_line old new) t))"
    using assms s rotate_line_header by (fastforce simp: section_ok_def list_ex_iff)
  ultimately show ?thesis using assms s by (simp add: section_ok_def rotate_part_def)
qed

lemma sections_ok_rotate:
  assumes "sections_ok (pre @ s # post)" "cp_isPeer s"
  shows "sections_ok (pre @ rotate_part old new s # post)"
  using assms by (cases pre) (auto simp: sections_ok_def section_ok_rotate)

text \<open>What the rewrite leaves behind in the section: no pre-shared key and the old key only where
  the new one equals it; every other line as it was.\<close>

lemma new_key_fields:
  assumes "trim new = new"
  shows "keyOf (''PublicKey = '' @ new) = ''publickey''" "valOf (''PublicKey = '' @ new) = new"
proof -
  have P: "\<not> js_ws CHR ''P''" "js_ws CHR '' ''" "\<not> js_ws CHR ''=''" by code_simp+
  have low: "to_lower (trim ''PublicKey '') = ''publickey''" by code_simp
  have l: "trim (''PublicKey = '' @ new) = (if new = [] then ''PublicKey ='' else ''PublicKey = '' @ new)"
  proof (cases "new = []")
    case True
    have "trim ''PublicKey = '' = ''PublicKey =''" by code_simp
    with True show ?thesis by simp
  next
    case False
    then have "\<not> js_ws (last new)"
      using assms dropWhile_ends [of js_ws "rev (dropWhile js_ws new)"]
      by (metis hd_rev last_rev rev_is_Nil_conv rev_rev_ident trim_def)
    with False P show ?thesis by (simp add: trim_id)
  qed
  show "keyOf (''PublicKey = '' @ new) = ''publickey''"
    unfolding keyOf_def l by (cases "split_on CHR ''='' new") (simp_all add: low)
  have "trim (CHR '' '' # new) = trim new" using P by (simp add: trim_def)
  then show "valOf (''PublicKey = '' @ new) = new" using assms by (simp add: valOf_def)
qed

definition key_line :: "string \<Rightarrow> bool" where
  "key_line l \<longleftrightarrow> keyOf l = ''publickey'' \<or> keyOf l = ''presharedkey''"

lemma rotated_line:
  assumes "trim new = new" "new \<noteq> old" "l' \<in> set (rotate_line old new l)"
  shows "keyOf l' \<noteq> ''presharedkey'' \<and> \<not> (keyOf l' = ''publickey'' \<and> valOf l' = old)"
  using assms new_key_fields [OF assms(1)]
  by (auto simp: rotate_line_def simp del: append_Cons append_Nil split: if_splits)

lemma rotated_part:
  assumes "trim new = new" "new \<noteq> old" "is_target old s"
  shows "list_all (\<lambda>l. keyOf l \<noteq> ''presharedkey'' \<and> \<not> (keyOf l = ''publickey'' \<and> valOf l = old)) (cp_lines (rotate_part old new s))
    \<and> is_target new (rotate_part old new s)
    \<and> filter (\<lambda>l. \<not> key_line l) (cp_lines (rotate_part old new s)) = filter (\<lambda>l. \<not> key_line l) (cp_lines s)"
proof (intro conjI)
  show "list_all (\<lambda>l. keyOf l \<noteq> ''presharedkey'' \<and> \<not> (keyOf l = ''publickey'' \<and> valOf l = old)) (cp_lines (rotate_part old new s))"
    using rotated_line [OF assms(1,2)] by (simp add: rotate_part_def list_all_iff)
  obtain l where l: "l \<in> set (cp_lines s)" "keyOf l = ''publickey''" "valOf l = old" and p: "cp_isPeer s"
    using assms(3) by (auto simp: is_target_def list_ex_iff)
  then have "''PublicKey = '' @ new \<in> set (cp_lines (rotate_part old new s))"
    by (auto simp: rotate_part_def rotate_line_def intro!: bexI [of _ l] simp del: append_Cons append_Nil)
  with new_key_fields [OF assms(1)] p show "is_target new (rotate_part old new s)"
    unfolding is_target_def list_ex_iff by (auto simp: rotate_part_def simp del: append_Cons append_Nil)
  have "filter (\<lambda>l. \<not> key_line l) (rotate_line old new l) = (if key_line l then [] else [l])" for l
    using new_key_fields [OF assms(1)]
    by (auto simp: rotate_line_def key_line_def simp del: append_Cons append_Nil)
  then have "filter (\<lambda>l. \<not> key_line l) (concat (map (rotate_line old new) ls)) = filter (\<lambda>l. \<not> key_line l) ls" for ls
    by (induction ls) simp_all
  then show "filter (\<lambda>l. \<not> key_line l) (cp_lines (rotate_part old new s)) = filter (\<lambda>l. \<not> key_line l) (cp_lines s)"
    by (simp add: rotate_part_def)
qed

lemma split_lines_no_LF: "l \<in> set (split_lines s) \<Longrightarrow> LF \<notin> set l"
proof -
  have no: "\<forall>p \<in> set (split_on LF s). LF \<notin> set p" using split_on_eq_iff [of LF s "split_on LF s"] by simp
  assume "l \<in> set (split_lines s)"
  then show ?thesis
    using no by (auto simp: split_lines_def strip_cr_def Let_def dest!: in_set_butlastD split: if_splits)
qed

lemma rewrite_lines:
  assumes "LF \<notin> set new" "ss = conf_sections (split_lines conf)"
  shows "\<forall>l \<in> set (concat (map cp_lines ss)). LF \<notin> set l"
    and "\<forall>l \<in> set (concat (map cp_lines (map (rotate_part old new) ss))). LF \<notin> set l"
proof -
  show a: "\<forall>l \<in> set (concat (map cp_lines ss)). LF \<notin> set l"
    unfolding assms(2) conf_sections_lines by (auto dest: split_lines_no_LF)
  show "\<forall>l \<in> set (concat (map cp_lines (map (rotate_part old new) ss))). LF \<notin> set l"
    using a assms(1) by (auto simp: rotate_part_def rotate_line_def split: if_splits)
qed

text \<open>The sections of the file after a rewrite, read from its new text.\<close>

lemma rewrite_reads_back:
  assumes "sections_ok ss" "\<forall>l \<in> set (concat (map cp_lines ss)). LF \<notin> set l" "concat (map cp_lines ss) \<noteq> []"
  shows "conf_sections (split_on LF (join [LF] (concat (map cp_lines ss)))) = ss"
  using assms by (simp add: split_on_join conf_sections_concat)

text \<open>C37: Rotating a key rewrites exactly one section of the file. If some [Peer] section holds the
  old public key, the first of them becomes the rotated one and the new text, read again, has the
  other sections unchanged and in place; the rotated section has the new key, no line with the old
  one, no pre-shared key, and all its other lines. Without such a section the file keeps its
  sections and the caller is told so.\<close>

theorem rewriteRotatedPeer_correct:
  assumes "LF \<notin> set new" "trim new = new" "new \<noteq> old"
    and "rewriteRotatedPeer conf old new = (out, swapped)"
    and "ss = conf_sections (split_lines conf)"
  shows "if list_ex (is_target old) ss
    then swapped \<and> (\<exists>pre s s' post. ss = pre @ s # post \<and> \<not> list_ex (is_target old) pre \<and> is_target old s
        \<and> conf_sections (split_on LF out) = pre @ s' # post
        \<and> is_target new s' \<and> \<not> is_target old s' \<and> \<not> list_ex (\<lambda>l. keyOf l = ''presharedkey'') (cp_lines s')
        \<and> filter (\<lambda>l. \<not> key_line l) (cp_lines s') = filter (\<lambda>l. \<not> key_line l) (cp_lines s))
    else \<not> swapped \<and> conf_sections (split_on LF out) = ss"
proof (cases "list_ex (is_target old) ss")
  case False
  have "concat (map cp_lines ss) = split_lines conf" using assms(5) by (simp add: conf_sections_lines)
  then have "concat (map cp_lines ss) \<noteq> []" by (simp add: split_lines_def Let_def)
  then have "conf_sections (split_on LF (join [LF] (concat (map cp_lines ss)))) = ss"
    using rewrite_lines(1) [OF assms(1,5)] conf_sections_ok assms(5) by (intro rewrite_reads_back) simp_all
  then show ?thesis
    using assms(4,5) False by (auto simp: rewriteRotatedPeer_def rotate_sections_None)
next
  case True
  then have "\<exists>s \<in> set ss. is_target old s" by (simp add: list_ex_iff)
  then obtain pre s post where ss: "ss = pre @ s # post" and pre: "\<not> list_ex (is_target old) pre" and s: "is_target old s"
    by (elim split_list_first_propE) (simp add: list_ex_iff)
  let ?s = "rotate_part old new s"
  have ok: "sections_ok (pre @ s # post)" using conf_sections_ok [of "split_lines conf"] assms(5) ss by simp
  have peer: "cp_isPeer s" using s by (simp add: is_target_def)
  have out: "out = join [LF] (concat (map cp_lines (pre @ ?s # post)))" and sw: "swapped"
    using assms(4,5) ss rotate_sections_Some [OF pre s, of new post] by (auto simp: rewriteRotatedPeer_def)
  have "section_ok s" using ok peer by (cases pre) (auto simp: sections_ok_def)
  from section_ok_rotate [OF this peer] have "cp_lines ?s \<noteq> []" by (simp add: section_ok_def)
  moreover have "\<forall>l \<in> set (concat (map cp_lines (pre @ ?s # post))). LF \<notin> set l"
    using rewrite_lines(1) [OF assms(1,5)] rewrite_lines(2) [OF assms(1,5), of old] ss by auto
  ultimately have "conf_sections (split_on LF out) = pre @ ?s # post"
    unfolding out by (intro rewrite_reads_back sections_ok_rotate ok peer) simp_all
  moreover have "\<not> is_target old ?s" "\<not> list_ex (\<lambda>l. keyOf l = ''presharedkey'') (cp_lines ?s)"
    using rotated_part [OF assms(2,3) s] by (auto simp: is_target_def list_all_iff list_ex_iff)
  ultimately show ?thesis
    using True sw ss pre s rotated_part [OF assms(2,3) s] by auto
qed

definition ex_conf :: string where
  "ex_conf = join [LF] [''[Interface]'', ''Address = 10.8.0.1/24'', ''[Peer]'', ''PresharedKey = s='', ''PublicKey = a'',
     ''AllowedIPs = 10.8.0.2/32'', ''[Peer]'', ''PublicKey = b'', ''PresharedKey = t='']"

theorem rewriteRotatedPeer_correct_witness:
  "\<exists>s'. is_target ''c'' s' \<and> \<not> is_target ''a'' s'
     \<and> conf_sections (split_on LF (fst (rewriteRotatedPeer ex_conf ''a'' ''c''))) \<noteq> conf_sections (split_lines ex_conf)"
proof -
  obtain out swapped where r: "rewriteRotatedPeer ex_conf ''a'' ''c'' = (out, swapped)" by fastforce
  have c: "LF \<notin> set ''c''" "trim ''c'' = ''c''" "''c'' \<noteq> ''a''" by code_simp+
  have "list_ex (is_target ''a'') (conf_sections (split_lines ex_conf))" by code_simp
  with rewriteRotatedPeer_correct [OF c r refl] obtain pre s s' post
    where "conf_sections (split_lines ex_conf) = pre @ s # post" "is_target ''a'' s"
      "conf_sections (split_on LF out) = pre @ s' # post" "is_target ''c'' s'" "\<not> is_target ''a'' s'" by auto
  then show ?thesis using r by (metis append_same_eq fst_conv list.inject same_append_eq)
qed

subsection \<open>The file of a client has no foreign line\<close>

abbreviation (input) one_line :: "string \<Rightarrow> bool" where
  "one_line s \<equiv> LF \<notin> set s"

lemma one_line_digits: "list_all is_digit s \<Longrightarrow> one_line s"
  by (auto simp: list_all_iff is_digit_def)

lemma one_line_str_of_int [simp]: "one_line (str_of_int i)"
  by (simp add: str_of_int_def one_line_digits)

lemma one_line_join: "one_line sep \<Longrightarrow> \<forall>s \<in> set ss. one_line s \<Longrightarrow> one_line (join sep ss)"
  by (induction sep ss rule: join.induct) auto

definition addr_char :: "char \<Rightarrow> bool" where
  "addr_char c \<longleftrightarrow> is_alnum c \<or> c \<in> set ''.:-%''"

lemma hex_alnum: "is_hex c \<Longrightarrow> is_alnum c"
  by (auto simp: is_hex_def is_alnum_def is_lower_az_def is_upper_az_def)

lemma split_chars:
  assumes "\<And>p c. p \<in> set (split_on d s) \<Longrightarrow> c \<in> set p \<Longrightarrow> P c" and "P d" and "c \<in> set s"
  shows "P c"
proof -
  have "c = d \<or> (\<exists>p \<in> set (split_on d s). c \<in> set p)"
    using assms(3) by (induction s) (auto split: list.splits)
  then show ?thesis using assms(1,2) by blast
qed

lemma suffix_chars: "suffix t a \<Longrightarrow> x \<in> set a \<Longrightarrow> x \<in> set (take (length a - length t) a) \<or> x \<in> set t"
  by (auto elim!: suffixE)

lemma isIPv4_chars:
  assumes "net_isIPv4 a" "c \<in> set a"
  shows "addr_char c"
proof (rule split_chars [OF _ _ assms(2), of "CHR ''.''"])
  fix p c assume "p \<in> set (split_on CHR ''.'' a)" "c \<in> set p"
  with assms(1) have "is_octet_text p" by (auto simp: net_isIPv4_def list_all_iff)
  then have "list_all is_digit p" by (simp add: is_octet_text_def digits_upto_def)
  with \<open>c \<in> set p\<close> show "addr_char c" by (auto simp: list_all_iff addr_char_def is_alnum_def)
qed (simp add: addr_char_def)

lemma until_chars:
  "c \<in> set s \<Longrightarrow> c \<in> set (takeWhile (\<lambda>c. c \<noteq> d) s) \<or> c = d
     \<or> c \<in> set (drop (Suc (length (takeWhile (\<lambda>c. c \<noteq> d) s))) s)"
  by (induction s) auto

lemma isIPv6_chars: "isIPv6_any s \<Longrightarrow> c \<in> set s \<Longrightarrow> addr_char c"
proof -
  let ?a = "takeWhile (\<lambda>c. c \<noteq> CHR ''%'') s"
  assume s: "isIPv6_any s" and c: "c \<in> set s"
  have zone: "x \<in> set (drop (Suc (length ?a)) s) \<Longrightarrow> addr_char x" for x
    using s by (auto simp: isIPv6_any_def Let_def zone_ok_def list_all_iff addr_char_def)
  obtain b where b: "v4_tail ?a = Some b" and hex: "list_all (\<lambda>c. is_hex c \<or> c = CHR '':'') b"
    using s by (auto simp: isIPv6_any_def Let_def split: option.splits)
  let ?t = "rev (takeWhile (\<lambda>c. c \<noteq> CHR '':'') (rev ?a))"
  have head: "addr_char x" if "x \<in> set ?a" for x
  proof (cases "CHR ''.'' \<in> set ?t")
    case False
    then have "b = ?a" using b by (simp add: v4_tail_def Let_def)
    with that hex show ?thesis by (auto simp: list_all_iff addr_char_def dest!: hex_alnum bspec)
  next
    case True
    then have t: "net_isIPv4 ?t" and b': "b = take (length ?a - length ?t) ?a @ ''0:0''"
      using b by (simp_all add: v4_tail_def Let_def split: if_splits)
    have "suffix ?t ?a" by (metis rev_rev_ident suffix_to_prefix takeWhile_is_prefix)
    from suffix_chars [OF this that] show ?thesis
    proof
      assume "x \<in> set (take (length ?a - length ?t) ?a)"
      then have "x \<in> set b" unfolding b' by simp
      with hex show ?thesis by (auto simp: list_all_iff addr_char_def dest!: hex_alnum bspec)
    qed (rule isIPv4_chars [OF t])
  qed
  from until_chars [OF c, of "CHR ''%''"] show ?thesis
    by (elim disjE head zone) (simp add: addr_char_def)
qed

lemma dns_name_chars:
  assumes s: "dns_name s" and c: "c \<in> set s"
  shows "addr_char c"
proof -
  let ?u = "if last s = CHR ''.'' then butlast s else s"
  have u: "addr_char c" if "c \<in> set ?u" for c
  proof (rule split_chars [OF _ _ that, of "CHR ''.''"])
    fix p c assume "p \<in> set (split_on CHR ''.'' ?u)" "c \<in> set p"
    moreover from s have "list_all dns_label (split_on CHR ''.'' ?u)" by (simp add: dns_name_def)
    ultimately show "addr_char c" by (auto simp: dns_label_def list_all_iff addr_char_def)
  qed (simp add: addr_char_def)
  have "s \<noteq> []" using s by (simp add: dns_name_def)
  then have "s = butlast s @ [last s]" by simp
  then have "c \<in> set (butlast s) \<or> c = last s" using c by (metis Un_iff empty_iff insert_iff list.set set_append)
  then show ?thesis
  proof
    assume "c = last s"
    with u [of c] c show ?thesis by (cases "last s = CHR ''.''") (auto simp: addr_char_def)
  next
    assume "c \<in> set (butlast s)"
    then have "c \<in> set ?u" by (auto dest: in_set_butlastD)
    then show ?thesis by (rule u)
  qed
qed

lemma dns_entry_chars: "isValidDnsEntry s \<Longrightarrow> c \<in> set (trim s) \<Longrightarrow> addr_char c"
  using isIPv4_chars isIPv6_chars dns_name_chars by (auto simp: isValidDnsEntry_def isIP_any_def)

lemma addr_char_one_line: "(\<And>c. c \<in> set s \<Longrightarrow> addr_char c) \<Longrightarrow> one_line s"
proof
  assume "\<And>c. c \<in> set s \<Longrightarrow> addr_char c" "LF \<in> set s"
  then have "addr_char LF" by blast
  moreover have "\<not> addr_char LF" by code_simp
  ultimately show False by blast
qed

text \<open>The inputs that come from keys, names and checked networks stay on their line; stored name
  servers were trimmed when they were cleaned (\<open>dns_ok\<close>).\<close>

definition opt_one_line :: "string option \<Rightarrow> bool" where
  "opt_one_line x = (case x of None \<Rightarrow> True | Some s \<Rightarrow> one_line s)"

definition plain_config :: "client_config \<Rightarrow> bool" where
  "plain_config c \<longleftrightarrow> one_line (cc_displayName c) \<and> one_line (cc_privateKey c) \<and> one_line (cc_ifaceName c)
     \<and> one_line (cc_hubHost c) \<and> opt_one_line (cc_publicKey c) \<and> opt_one_line (cc_tunnelAddress c)
     \<and> opt_one_line (cc_hubPublicKey c) \<and> list_all one_line (cc_importedNets c) \<and> list_all one_line (cc_tunnelSubnets c)
     \<and> list_all (\<lambda>l. list_all one_line (ln_exported l)) (cc_links c)
     \<and> list_all (\<lambda>d. trim d = d) (cc_linkDns c) \<and> list_all (\<lambda>d. trim d = d) (cc_ifaceDns c)"

lemma client_dns_ok:
  assumes "plain_config c" "d \<in> set (client_dns env c)"
  shows "isValidDnsEntry d \<and> one_line d"
proof -
  have "trim d = d" "isValidDnsEntry d"
    using assms by (auto simp: client_dns_def plain_config_def list_all_iff split: if_splits option.splits)
  then show ?thesis using dns_entry_chars [of d] addr_char_one_line [of d] by simp
qed

lemma client_allowed_one_line: "plain_config c \<Longrightarrow> d \<in> set (client_allowed c) \<Longrightarrow> one_line d"
  by (auto simp: client_allowed_def client_reach_def full_tunnel_ips_def plain_config_def list_all_iff split: if_splits)

lemma opt_line_iff: "l \<in> set (opt_line x f) \<longleftrightarrow> (\<exists>s. x = Some s \<and> s \<noteq> [] \<and> l = f s)"
  by (auto simp: opt_line_def split: option.split)

lemma client_lines_one_line:
  assumes c: "plain_config c" and l: "l \<in> set (client_lines env c)"
  shows "one_line l"
proof -
  have "one_line (join '', '' (client_dns env c))"
    by (rule one_line_join) (use client_dns_ok [OF c] in auto)
  moreover have "one_line (join '', '' (client_allowed c))"
    by (rule one_line_join) (use client_allowed_one_line [OF c] in auto)
  ultimately show ?thesis
    using c l by (auto simp: client_lines_def plain_config_def opt_one_line_def opt_line_iff Let_def split: if_splits)
qed

text \<open>The key of an assignment.\<close>

lemma trim_assign:
  assumes "\<not> js_ws c"
  shows "\<exists>y. trim (c # k @ '' = '' @ x) = c # k @ '' ='' @ y"
proof -
  have ws: "\<not> js_ws CHR ''=''" "js_ws CHR '' ''" by code_simp+
  show ?thesis
  proof (cases "dropWhile js_ws (rev x) = []")
    case True
    then show ?thesis using assms ws by (auto simp: trim_def dropWhile_append)
  next
    case False
    then show ?thesis using assms
      by (auto simp: trim_def dropWhile_append intro: exI [of _ "CHR '' '' # rev (dropWhile js_ws (rev x))"])
  qed
qed

lemma keyOf_assign:
  assumes "k \<noteq> []" "list_all is_alnum k"
  shows "keyOf (k @ '' = '' @ x) = to_lower k"
proof -
  have alnum: "is_alnum c \<Longrightarrow> \<not> js_ws c \<and> c \<noteq> CHR ''=''" for c
    by (auto simp: is_alnum_def is_digit_def is_lower_az_def is_upper_az_def js_ws_def)
  obtain c cs where k: "k = c # cs" using assms(1) by (cases k) auto
  with assms alnum obtain y where y: "trim (k @ '' = '' @ x) = (k @ '' '') @ CHR ''='' # y"
    using trim_assign [of c cs x] by auto
  have n: "CHR ''='' \<notin> set (k @ '' '')" using assms(2) alnum by (auto simp: list_all_iff)
  have "trim (k @ '' '') = k"
  proof -
    have "js_ws CHR '' ''" by code_simp
    moreover have "\<not> js_ws c" using k assms(2) alnum by simp
    ultimately have "trim (k @ '' '') = trim k" by (simp add: trim_def dropWhile_append k)
    also have "trim k = k" using assms(2) alnum by (intro trim_no_ws) (auto simp: list_all_iff)
    finally show ?thesis .
  qed
  then show ?thesis unfolding keyOf_def y split_on_append_sep [OF n] by simp
qed

definition client_keys :: "string set" where
  "client_keys = {''privatekey'', ''address'', ''dns'', ''publickey'', ''endpoint'', ''allowedips'', ''persistentkeepalive''}"

definition line_kind :: "string \<Rightarrow> bool" where
  "line_kind l \<longleftrightarrow> l = [] \<or> starts_with ''#'' l \<or> l \<in> {''[Interface]'', ''[Peer]''} \<or> keyOf l \<in> client_keys"

lemma line_kind_key:
  "k \<noteq> [] \<Longrightarrow> list_all is_alnum k \<Longrightarrow> to_lower k \<in> client_keys \<Longrightarrow> line_kind (k @ '' = '' @ x)"
  by (simp only: line_kind_def keyOf_assign simp_thms)

lemma line_kind_assign:
  "line_kind (''PrivateKey'' @ '' = '' @ x)" "line_kind (''Address'' @ '' = '' @ x)" "line_kind (''DNS'' @ '' = '' @ x)"
  "line_kind (''PublicKey'' @ '' = '' @ x)" "line_kind (''Endpoint'' @ '' = '' @ x)" "line_kind (''AllowedIPs'' @ '' = '' @ x)"
  "line_kind (''PersistentKeepalive'' @ '' = '' @ x)"
  by (rule line_kind_key; code_simp)+

lemmas line_kind_assigns = line_kind_assign [simplified append_Cons append_Nil]

lemma line_kind_other: "line_kind []" "line_kind (CHR ''#'' # x)" "line_kind ''[Interface]''" "line_kind ''[Peer]''"
  by (simp_all add: line_kind_def starts_with_def)

lemma list_all_opt_line: "(\<And>s. P (f s)) \<Longrightarrow> list_all P (opt_line x f)"
  by (simp add: opt_line_def split: option.split)

lemma client_line_kind: "list_all line_kind (client_lines env c)"
  unfolding client_lines_def Let_def list_all_append list.pred_inject append_Cons append_Nil
  by (intro conjI list_all_opt_line)
    (simp_all add: line_kind_assigns line_kind_other line_kind_assigns(7) [of "''25''", simplified])

text \<open>C38: The downloaded file of a client consists of the lines the code assembles and of no others:
  with single-line names, keys and networks and with cleaned name servers, the text splits into
  exactly these lines, each blank, a comment, a section header or an assignment to one of the
  seven known keys, so nothing stored can add a hook that wg-quick runs as root. Every name server
  written is an address or a host name.\<close>

theorem buildClientConfig_lines:
  assumes "plain_config c"
  shows "split_on LF (snd (buildClientConfig env c)) = client_lines env c @ [[]]
    \<and> list_all line_kind
        (split_on LF (snd (buildClientConfig env c)))
    \<and> list_all isValidDnsEntry (client_dns env c)"
proof -
  have "split_on LF (join [LF] (client_lines env c)) = client_lines env c"
    using client_lines_one_line [OF assms, of _ env] by (intro split_on_join) (auto simp: client_lines_def)
  then have s: "split_on LF (snd (buildClientConfig env c)) = client_lines env c @ [[]]"
    by (simp add: buildClientConfig_def split_on_append [of LF _ "[]", simplified])
  show ?thesis
    unfolding s using client_line_kind [of env c] client_dns_ok [OF assms] by (auto simp: list_all_iff line_kind_other)
qed

definition ex_client :: client_config where
  "ex_client = \<lparr>cc_displayName = ''phone'', cc_filenameBase = ''phone/1'', cc_privateKey = ''k='', cc_publicKey = Some ''p='',
     cc_tunnelAddress = Some ''10.8.0.7/32'', cc_linkDns = [''1.1.1.1'', ''x; PostUp = y''], cc_ifaceDns = [], cc_fullTunnel = False,
     cc_platform = None, cc_importedNets = [], cc_tunnelSubnets = [''10.8.0.0/24''], cc_links = [], cc_excludeLinkId = None,
     cc_ifaceName = ''wg0'', cc_hubPublicKey = Some ''h='', cc_hubHost = ''hub.example'', cc_hubListenPort = 51820\<rparr>"

theorem buildClientConfig_lines_witness:
  "length (split_on LF (snd (buildClientConfig None ex_client))) = 16
   \<and> client_dns None ex_client = [''1.1.1.1''] \<and> fst (buildClientConfig None ex_client) = ''phone_1.conf''"
proof -
  have p: "plain_config ex_client" by code_simp
  have l: "length (client_lines None ex_client) = 15" by code_simp
  have "client_dns None ex_client = [''1.1.1.1'']" "fst (buildClientConfig None ex_client) = ''phone_1.conf''" by code_simp+
  then show ?thesis using buildClientConfig_lines [OF p, of None] l by simp
qed

subsection \<open>Totals of the dump\<close>

definition iface_totals :: "string \<times> dump_iface \<Rightarrow> bool" where
  "iface_totals x \<longleftrightarrow> (case x of (i, d) \<Rightarrow> di_name d = i \<and> i \<noteq> [] \<and> di_peerCount d = length (di_peers d)
     \<and> di_activePeerCount d = length (filter dp_isActive (di_peers d))
     \<and> di_rxBytes d = sum_list (map dp_rxBytes (di_peers d))
     \<and> di_txBytes d = sum_list (map dp_txBytes (di_peers d)))"

lemma totals_update:
  "list_all iface_totals m \<Longrightarrow> iface_totals (i, d) \<Longrightarrow> list_all iface_totals (AList.update i d m)"
  by (induction m) (auto simp: iface_totals_def)

lemma totals_dump_line:
  assumes "list_all iface_totals m"
  shows "list_all iface_totals (dump_line now l m)"
proof -
  have new: "i \<noteq> [] \<Longrightarrow> iface_totals (i, new_iface i k p)" for i k p
    by (simp add: iface_totals_def new_iface_def)
  have add: "iface_totals (i, d) \<Longrightarrow> iface_totals (i, add_peer p d)" for i d p
    by (simp add: iface_totals_def add_peer_def)
  have old: "map_of m i = Some d \<Longrightarrow> iface_totals (i, d)" for i d
    using assms by (auto simp: list_all_iff dest: map_of_SomeD)
  show ?thesis
    using assms by (cases "map_of m (split_on TAB (trim l) ! 0)")
      (auto simp: dump_line_def Let_def intro!: totals_update new add dest: old)
qed

text \<open>Whatever the dump says, every interface is listed once, under its name, and its counts are
  those of its peers: the number of peers, of active peers, and the sums of the received and sent
  bytes. A peer counts as active exactly when its last handshake is under 180 seconds ago.\<close>

theorem parseDump_totals:
  "distinct (map fst (parseDump now out)) \<and> list_all iface_totals (parseDump now out)
   \<and> dp_isActive (peer_of_line now parts) = (0 < dp_latestHandshake (peer_of_line now parts)
        \<and> now - dp_latestHandshake (peer_of_line now parts) < 180)"
proof (intro conjI)
  have "distinct (map fst m) \<Longrightarrow> distinct (map fst (fold (dump_line now) ls m))" for ls m
    by (induction ls arbitrary: m) (auto simp: dump_line_def Let_def distinct_update)
  then show "distinct (map fst (parseDump now out))" by (simp add: parseDump_def)
  have "list_all iface_totals m \<Longrightarrow> list_all iface_totals (fold (dump_line now) ls m)" for ls m
    by (induction ls arbitrary: m) (auto simp: totals_dump_line)
  then show "list_all iface_totals (parseDump now out)" by (simp add: parseDump_def)
qed (simp add: peer_of_line_def Let_def ACTIVE_HANDSHAKE_WINDOW_def)

end
