(* ===== verification/Wg_Status.thy ===== *)
theory Wg_Status
  imports Wg_Conf
begin

text \<open>
  The status view of backend/internal/wireguard.js: the record of a link from the live peer and its
  metadata, the routes, the topology, the route analysis, the warnings and the next actions, and
  \<open>getStatus\<close>, which puts them together. What the operating system answers (the directory, the
  dump, the routes, the counters, the order of \<open>localeCompare\<close>) is an argument. Stored
  metadata is read as the cleaning functions of \<open>Wg_Metadata\<close> write it, texts and lists of
  texts; another shape, which only a hand-edited store can hold, reads as absent.
\<close>

subsection \<open>Networks and kinds of links\<close>

text \<open>\<open>Array.from(new Set(values.filter(Boolean)))\<close>.\<close>

definition dedupe :: "string list \<Rightarrow> string list" where
  "dedupe xs = uniq (filter (\<lambda>s. s \<noteq> []) xs)"

definition isPrivateNetwork :: "string \<Rightarrow> bool" where
  "isPrivateNetwork t \<longleftrightarrow> starts_with ''10.'' t \<or> starts_with ''192.168.'' t
     \<or> (starts_with ''172.'' t \<and> 7 \<le> length t \<and> t ! 6 = CHR ''.''
        \<and> ((t ! 4 = CHR ''1'' \<and> t ! 5 \<in> set ''6789'') \<or> (t ! 4 = CHR ''2'' \<and> is_digit (t ! 5))
           \<or> (t ! 4 = CHR ''3'' \<and> t ! 5 \<in> set ''01'')))
     \<or> starts_with ''fd'' t \<or> starts_with ''fc'' t"

definition isHostRoute :: "string \<Rightarrow> bool" where
  "isHostRoute t \<longleftrightarrow> ends_with ''/32'' t \<or> ends_with ''/128'' t"

definition classifyLinkType :: "string list \<Rightarrow> string \<Rightarrow> string" where
  "classifyLinkType allowedIps ifaceName =
     (let privs = filter isPrivateNetwork allowedIps;
          networkRoutes = filter (\<lambda>n. \<not> isHostRoute n) privs;
          hostRoutes = filter isHostRoute privs
      in if ifaceName = ''wg0'' \<and> length networkRoutes \<le> 1 then ''client''
         else if length networkRoutes \<ge> 2 then ''hub-link''
         else if length networkRoutes \<ge> 1 then ''site-to-site''
         else if hostRoutes \<noteq> [] then ''client''
         else if ifaceName = ''wg0'' then ''client'' else ''unknown'')"

definition inferInterfaceRole :: "string \<Rightarrow> dump_peer list \<Rightarrow> string" where
  "inferInterfaceRole name peers =
     (if name = ''wg0'' then ''client-hub''
      else (let linkTypes = map (\<lambda>p. classifyLinkType (dp_allowedIps p) name) peers
            in if ''hub-link'' \<in> set linkTypes then ''hub-link''
               else if ''site-to-site'' \<in> set linkTypes then ''site-to-site''
               else if peers \<noteq> [] then ''auxiliary'' else ''unknown''))"

subsection \<open>The record of a link\<close>

definition meta_text :: "props \<Rightarrow> string \<Rightarrow> string option" where
  "meta_text e k = (case getp (JObj e) k of JStr s \<Rightarrow> if s = [] then None else Some s | _ \<Rightarrow> None)"

definition meta_list :: "props \<Rightarrow> string \<Rightarrow> string list option" where
  "meta_list e k = (case getp (JObj e) k of JArr vs \<Rightarrow> Some (map js_string vs) | _ \<Rightarrow> None)"

definition or_else :: "'a option \<Rightarrow> 'a \<Rightarrow> 'a" where
  "or_else x d = (case x of None \<Rightarrow> d | Some v \<Rightarrow> v)"

text \<open>\<open>m?.length ? m : d\<close>.\<close>

definition or_if_empty :: "string list option \<Rightarrow> string list \<Rightarrow> string list" where
  "or_if_empty m d = (case m of Some xs \<Rightarrow> if xs = [] then d else xs | None \<Rightarrow> d)"

record link_record =
  lr_id :: string
  lr_interfaceName :: string
  lr_type :: string
  lr_typeExplicit :: bool
  lr_name :: string
  lr_peerPublicKey :: "string option"
  lr_remoteEndpoint :: "string option"
  lr_allowedIps :: "string list"
  lr_tunnelAddresses :: "string list"
  lr_exportedNetworks :: "string list"
  lr_importedNetworks :: "string list"
  lr_latestHandshake :: int
  lr_rxBytes :: int
  lr_txBytes :: int
  lr_active :: bool
  lr_hasMetadata :: bool
  lr_returnPathMode :: string
  lr_remoteManagementMode :: string
  lr_platform :: "string option"
  lr_dns :: "string list"
  lr_fullTunnel :: bool
  lr_planIntent :: string
  lr_planState :: "string option"
  lr_notes :: "string list"
  lr_warnings :: "string list"
  lr_nextActions :: "string list"

definition peer_id :: "string \<Rightarrow> string option \<Rightarrow> nat \<Rightarrow> string" where
  "peer_id ifaceName key index = ifaceName @ '':'' @ (case key of Some k \<Rightarrow> k | None \<Rightarrow> str_of_nat index)"

definition generated_name :: "string \<Rightarrow> string \<Rightarrow> string" where
  "generated_name type key = type @ ''-'' @ take 8 key"

definition private_nets :: "string list \<Rightarrow> string list" where
  "private_nets ips = filter (\<lambda>n. isPrivateNetwork n \<and> \<not> isHostRoute n) ips"

definition mode_in :: "string list \<Rightarrow> string option \<Rightarrow> string \<Rightarrow> string" where
  "mode_in modes x d = (case x of Some s \<Rightarrow> if s \<in> set modes then s else d | None \<Rightarrow> d)"

definition buildLinkRecord :: "string \<Rightarrow> dump_peer \<Rightarrow> nat \<Rightarrow> props \<Rightarrow> link_record" where
  "buildLinkRecord ifaceName p index m =
     (let ips = dp_allowedIps p;
          imported = or_if_empty (meta_list m ''importedNetworks'') (dedupe (private_nets ips));
          explicit = normalizeLinkType (meta_text m ''type'');
          type = or_else explicit (classifyLinkType ips ifaceName)
      in \<lparr>lr_id = peer_id ifaceName (dp_publicKey p) index,
          lr_interfaceName = ifaceName,
          lr_type = type,
          lr_typeExplicit = (explicit \<noteq> None),
          lr_name = or_else (meta_text m ''name'')
             (case dp_publicKey p of Some k \<Rightarrow> generated_name type k
              | None \<Rightarrow> type @ ''-'' @ str_of_nat (index + 1)),
          lr_peerPublicKey = dp_publicKey p,
          lr_remoteEndpoint = dp_endpoint p,
          lr_allowedIps = ips,
          lr_tunnelAddresses = dedupe (filter isHostRoute ips),
          lr_exportedNetworks = or_else (meta_list m ''exportedNetworks'') [],
          lr_importedNetworks = imported,
          lr_latestHandshake = dp_latestHandshake p,
          lr_rxBytes = dp_rxBytes p,
          lr_txBytes = dp_txBytes p,
          lr_active = dp_isActive p,
          lr_hasMetadata = (m \<noteq> []),
          lr_returnPathMode = mode_in RETURN_PATH_MODES (meta_text m ''returnPathMode'')
             (if imported \<noteq> [] then ''unknown'' else ''routed''),
          lr_remoteManagementMode = mode_in REMOTE_MANAGEMENT_MODES (meta_text m ''remoteManagementMode'') ''none'',
          lr_platform = meta_text m ''platform'',
          lr_dns = or_else (meta_list m ''dns'') [],
          lr_fullTunnel = js_truthy (getp (JObj m) ''fullTunnel''),
          lr_planIntent = or_else (meta_text m ''planIntent'') type,
          lr_planState = meta_text m ''planState'',
          lr_notes = or_else (meta_list m ''notes'') [],
          lr_warnings = [], lr_nextActions = []\<rparr>)"

subsection \<open>Routes\<close>

record route =
  rt_destination :: string
  rt_device :: "string option"
  rt_via :: "string option"
  rt_raw :: string

definition is_word :: "char \<Rightarrow> bool" where
  "is_word c \<longleftrightarrow> is_alnum c \<or> c = CHR ''_''"

text \<open>\<open>/\bw\s+(\S+)/\<close>: the argument of the first such word; the flag tells whether the character
  before is a word character.\<close>

fun word_arg :: "string \<Rightarrow> bool \<Rightarrow> string \<Rightarrow> string option" where
  "word_arg w prev [] = None"
| "word_arg w prev (c # cs) =
     (let r = drop (length w) (c # cs)
      in if \<not> prev \<and> starts_with w (c # cs) \<and> r \<noteq> [] \<and> js_ws (hd r) \<and> dropWhile js_ws r \<noteq> []
         then Some (takeWhile (\<lambda>c. \<not> js_ws c) (dropWhile js_ws r))
         else word_arg w (is_word c) cs)"

record route_table =
  rs_all :: "route list"
  rs_wireguard :: "route list"
  rs_privateRoutes :: "route list"

definition on_wg :: "route \<Rightarrow> bool" where
  "on_wg r = (case rt_device r of Some d \<Rightarrow> starts_with ''wg'' d | None \<Rightarrow> False)"

definition parse_route :: "string \<Rightarrow> route" where
  "parse_route line = \<lparr>rt_destination = takeWhile (\<lambda>c. \<not> js_ws c) line,
     rt_device = word_arg ''dev'' False line, rt_via = word_arg ''via'' False line, rt_raw = line\<rparr>"

text \<open>The output of \<open>ip route show\<close>; \<open>None\<close> when the command failed.\<close>

definition getRoutes :: "string option \<Rightarrow> route_table" where
  "getRoutes out = (case out of
       None \<Rightarrow> \<lparr>rs_all = [], rs_wireguard = [], rs_privateRoutes = []\<rparr>
     | Some stdout \<Rightarrow>
        (let parsed = map parse_route (filter (\<lambda>l. l \<noteq> []) (map trim (split_lines stdout)))
         in \<lparr>rs_all = parsed, rs_wireguard = filter on_wg parsed,
             rs_privateRoutes = filter (\<lambda>r. rt_destination r \<noteq> ''default'' \<and> isPrivateNetwork (rt_destination r)) parsed\<rparr>))"

subsection \<open>The status of an interface\<close>

record iface_status =
  si_name :: string
  si_isHub :: bool
  si_role :: string
  si_managementMode :: string
  si_configExists :: bool
  si_active :: bool
  si_addresses :: "string list"
  si_listenPort :: "int option"
  si_publicKey :: "string option"
  si_peerCount :: nat
  si_activePeerCount :: nat
  si_rxBytes :: int
  si_txBytes :: int
  si_privateKeyPresent :: bool
  si_peerNetworks :: "string list"
  si_importedNetworks :: "string list"
  si_exportedNetworks :: "string list"
  si_dns :: "string list"
  si_routeTargets :: "string list"
  si_health :: string
  si_notes :: "string list"
  si_peers :: "dump_peer list"

text \<open>What is read: the files of the configuration directory, the counters below
  \<open>/sys/class/net\<close> and the texts the commands print. An unreadable file is the empty text.\<close>

record wg_env =
  env_available :: bool
  env_conf :: "string \<Rightarrow> string"
  env_names :: "string list"
  env_dump :: string
  env_routes :: "string option"
  env_counter :: "string \<Rightarrow> string \<Rightarrow> string"
  env_sysfs :: bool
  env_now :: int
  env_sort :: "string list \<Rightarrow> string list"

definition readNumber :: "string \<Rightarrow> int" where
  "readNumber content = or_else (parse_int10 (trim content)) 0"

definition imported_note :: "nat \<Rightarrow> string" where
  "imported_note n = str_of_nat n @ '' imported network(s) detected''"

definition config_networks :: "conf_file \<Rightarrow> string list" where
  "config_networks c = dedupe (concat (map (\<lambda>p. comma_list (or_else (map_of p ''AllowedIPs'') [])) (cf_peers c)))"

definition getInterfaceStatus ::
  "wg_env \<Rightarrow> string \<Rightarrow> (string \<times> dump_iface) list \<Rightarrow> meta_store \<Rightarrow> iface_status" where
  "getInterfaceStatus env name dumps store =
     (let conf = env_conf env name; cfg = parseConfig conf; dump = map_of dumps name;
          peers = (case dump of Some d \<Rightarrow> di_peers d | None \<Rightarrow> []);
          m = entry_of (ms_interfaces store) name;
          imported = or_if_empty (meta_list m ''importedNetworks'')
             (dedupe (concat (map (\<lambda>p. private_nets (dp_allowedIps p)) peers)));
          active = (dump \<noteq> None)
      in \<lparr>si_name = name, si_isHub = (name = ''wg0''),
          si_role = or_else (normalizeInterfaceRole (meta_text m ''role'')) (inferInterfaceRole name peers),
          si_managementMode = mode_in MANAGEMENT_MODES (meta_text m ''managementMode'') ''local'',
          si_configExists = (conf \<noteq> []), si_active = active,
          si_addresses = cf_addresses cfg,
          si_listenPort = (case dump of Some d \<Rightarrow> (case di_listenPort d of Some p \<Rightarrow> Some p | None \<Rightarrow> cf_listenPort cfg)
             | None \<Rightarrow> cf_listenPort cfg),
          si_publicKey = (case dump of Some d \<Rightarrow> di_publicKey d | None \<Rightarrow> None),
          si_peerCount = (case dump of Some d \<Rightarrow> di_peerCount d | None \<Rightarrow> length (cf_peers cfg)),
          si_activePeerCount = (case dump of Some d \<Rightarrow> di_activePeerCount d | None \<Rightarrow> 0),
          si_rxBytes = readNumber (env_counter env name ''rx_bytes''),
          si_txBytes = readNumber (env_counter env name ''tx_bytes''),
          si_privateKeyPresent = cf_privateKeyPresent cfg,
          si_peerNetworks = config_networks cfg,
          si_importedNetworks = imported,
          si_exportedNetworks = or_else (meta_list m ''exportedNetworks'') [],
          si_dns = or_else (meta_list m ''dns'') [],
          si_routeTargets = or_if_empty (meta_list m ''routeTargets'')
             (dedupe (concat (map dp_allowedIps peers))),
          si_health = (if active then ''healthy'' else ''inactive''),
          si_notes = or_if_empty (meta_list m ''notes'')
             (if imported \<noteq> [] then [imported_note (length imported)] else []),
          si_peers = peers\<rparr>)"

subsection \<open>Topology and routes\<close>

record topology =
  tp_exportedNetworks :: "string list"
  tp_importedNetworks :: "string list"
  tp_undecided :: "string list"
  tp_siteLinks :: "string list"
  tp_clientLinks :: "string list"
  tp_hubLinks :: "string list"

definition buildTopology :: "iface_status list \<Rightarrow> link_record list \<Rightarrow> topology" where
  "buildTopology interfaces links =
     \<lparr>tp_exportedNetworks = dedupe (concat (map si_exportedNetworks interfaces) @ concat (map lr_exportedNetworks links)),
      tp_importedNetworks = dedupe (concat (map si_importedNetworks interfaces) @ concat (map lr_importedNetworks links)),
      tp_undecided = dedupe (concat (map lr_importedNetworks
        (filter (\<lambda>l. lr_type l \<noteq> ''client'' \<and> lr_returnPathMode l \<in> {''auto'', ''unknown''}) links))),
      tp_siteLinks = map lr_id (filter (\<lambda>l. lr_type l = ''site-to-site'') links),
      tp_clientLinks = map lr_id (filter (\<lambda>l. lr_type l = ''client'') links),
      tp_hubLinks = map lr_id (filter (\<lambda>l. lr_type l = ''hub-link'') links)\<rparr>"

record route_analysis =
  ra_all :: "route list"
  ra_wireguard :: "route list"
  ra_privateRoutes :: "route list"
  ra_staticRoutes :: "route list"
  ra_missingReturnRoutes :: "(string \<times> string) list"
  ra_natCandidates :: "(string \<times> string) list"
  ra_conflicts :: "string list"
  ra_splitTunnelCandidates :: "string list"
  ra_observations :: "string list"

definition buildRouteAnalysis :: "route_table \<Rightarrow> topology \<Rightarrow> route_analysis" where
  "buildRouteAnalysis routes topo =
     (let wireguardDestinations = set (map rt_destination (rs_wireguard routes));
          staticRoutes = filter (\<lambda>r. \<not> on_wg r) (rs_privateRoutes routes);
          staticDestinations = set (map rt_destination staticRoutes);
          missing = map (\<lambda>n. (n, ''network-not-found-in-live-routes''))
            (filter (\<lambda>n. n \<notin> wireguardDestinations \<and> n \<notin> staticDestinations) (tp_importedNetworks topo))
      in \<lparr>ra_all = rs_all routes, ra_wireguard = rs_wireguard routes, ra_privateRoutes = rs_privateRoutes routes,
          ra_staticRoutes = staticRoutes, ra_missingReturnRoutes = missing,
          ra_natCandidates = map (\<lambda>n. (n, ''return-path-unclear'')) (tp_undecided topo),
          ra_conflicts = [],
          ra_splitTunnelCandidates = dedupe (tp_importedNetworks topo @ map rt_destination staticRoutes),
          ra_observations =
            (if missing \<noteq> [] then [''Some imported networks are not visible as live WireGuard routes yet''] else [])
            @ (if staticRoutes \<noteq> [] then [''Static private routes exist outside WireGuard and may affect reachability decisions''] else [])\<rparr>)"

definition getMissingImportedNetworks :: "link_record \<Rightarrow> route_analysis \<Rightarrow> string list" where
  "getMissingImportedNetworks link ra =
     filter (\<lambda>n. n \<in> fst ` set (ra_missingReturnRoutes ra)) (lr_importedNetworks link)"

subsection \<open>Readiness, warnings and next actions\<close>

definition readiness_checks :: "link_record \<Rightarrow> string list \<Rightarrow> bool list" where
  "readiness_checks l missing =
     [lr_planIntent l \<noteq> [] \<and> lr_planIntent l \<noteq> ''unknown'',
      lr_exportedNetworks l \<noteq> [],
      lr_importedNetworks l \<noteq> [],
      lr_remoteManagementMode l \<noteq> [] \<and> lr_remoteManagementMode l \<notin> {''none'', ''unknown''},
      lr_returnPathMode l \<noteq> [] \<and> lr_returnPathMode l \<notin> {''auto'', ''unknown''},
      missing = []]"

definition inferPlanState :: "link_record \<Rightarrow> string list \<Rightarrow> string" where
  "inferPlanState l missing =
     (let completed = length (filter id (readiness_checks l missing))
      in if completed \<le> 2 then ''discover'' else if completed \<le> 4 then ''shape''
         else if completed \<le> 5 then ''validate'' else ''ready'')"

text \<open>The rules of \<open>enrichLinkRecord\<close>: condition, warning, next action.\<close>

definition link_rules :: "link_record \<Rightarrow> string list \<Rightarrow> (bool \<times> string \<times> string) list" where
  "link_rules l missing =
     (let undecided = lr_returnPathMode l \<in> {''auto'', ''unknown''}
      in [(lr_remoteEndpoint l \<in> {None, Some []}, ''remote-endpoint-missing'', []),
          (lr_importedNetworks l \<noteq> [], [], ''verify-return-path''),
          (missing \<noteq> [], ''imported-network-missing-live-route'', ''fix-return-path''),
          (missing \<noteq> [] \<and> undecided, ''nat-likely-needed'', ''decide-nat-or-static-route''),
          (lr_type l \<in> {''site-to-site'', ''hub-link''} \<and> lr_exportedNetworks l = [],
             ''exported-networks-missing'', ''model-exported-networks''),
          (lr_importedNetworks l \<noteq> [] \<and> undecided, ''return-path-mode-undefined'', ''define-return-path-mode''),
          (lr_remoteManagementMode l \<in> {''none'', ''unknown''} \<and> lr_type l \<noteq> ''client'',
             ''remote-management-mode-undefined'', ''define-remote-management-mode''),
          (\<not> lr_active l \<and> (lr_importedNetworks l \<noteq> [] \<or> lr_exportedNetworks l \<noteq> []) \<and> lr_type l \<noteq> ''client'',
             ''link-not-currently-active'', ''verify-live-tunnel-state'')])"

text \<open>A rule without a warning or an action has the empty text there, which \<open>dedupe\<close> drops.\<close>

definition enrichLinkRecord :: "link_record \<Rightarrow> route_analysis \<Rightarrow> link_record" where
  "enrichLinkRecord l ra =
     (let missing = getMissingImportedNetworks l ra; fired = filter fst (link_rules l missing)
      in l\<lparr>lr_warnings := dedupe (lr_warnings l @ map (fst \<circ> snd) fired),
           lr_nextActions := dedupe (lr_nextActions l @ map (snd \<circ> snd) fired),
           lr_planState := Some (case lr_planState l of Some s \<Rightarrow> if s = [] then inferPlanState l missing else s
             | None \<Rightarrow> inferPlanState l missing)\<rparr>)"

definition enrichInterfaceStatus :: "iface_status \<Rightarrow> link_record list \<Rightarrow> iface_status" where
  "enrichInterfaceStatus item links =
     (let related = filter (\<lambda>l. lr_interfaceName l = si_name item) links;
          warningCount = length (filter (\<lambda>l. lr_warnings l \<noteq> []) related);
          imported = si_importedNetworks item
      in item\<lparr>si_health :=
             (if \<not> si_active item \<and> (0 < si_peerCount item \<or> imported \<noteq> []) then ''warning''
              else if \<not> si_active item then ''inactive''
              else if 0 < warningCount \<or> \<not> si_configExists item \<or> \<not> si_privateKeyPresent item then ''warning''
              else ''healthy''),
           si_notes := dedupe (si_notes item
             @ (if \<not> si_configExists item then [''config file missing''] else [])
             @ (if \<not> si_privateKeyPresent item \<and> si_configExists item then [''private key missing from config''] else [])
             @ (if \<not> si_active item \<and> imported \<noteq> [] then [''inactive interface with imported networks''] else [])
             @ (if 0 < warningCount then [str_of_nat warningCount @ '' link(s) on this interface need review''] else []))\<rparr>)"

definition deriveGlobalNextActions :: "iface_status list \<Rightarrow> link_record list \<Rightarrow> route_analysis \<Rightarrow> string list" where
  "deriveGlobalNextActions interfaces links ra =
     dedupe ((if ra_missingReturnRoutes ra \<noteq> [] then [''fix-return-path''] else [])
       @ (if ra_natCandidates ra \<noteq> [] then [''review-nat-requirements''] else [])
       @ concat (map (\<lambda>i. if si_health i = ''warning'' then [''review-interface-health''] else []) interfaces)
       @ concat (map lr_nextActions links))"

definition deriveGlobalWarnings :: "iface_status list \<Rightarrow> route_analysis \<Rightarrow> string list" where
  "deriveGlobalWarnings interfaces ra =
     dedupe ((if ra_missingReturnRoutes ra \<noteq> []
              then [''Imported networks exist without matching live WireGuard route entries''] else [])
       @ (if ra_natCandidates ra \<noteq> []
          then [''Some imported networks may still require NAT or explicit return-path handling''] else [])
       @ concat (map (\<lambda>i. if si_health i = ''warning'' then [''Interface '' @ si_name i @ '' needs review''] else []) interfaces))"

subsection \<open>The whole status\<close>

record wg_summary =
  sm_interfaceCount :: nat
  sm_activeInterfaceCount :: nat
  sm_totalPeers :: nat
  sm_activePeers :: nat
  sm_totalRxBytes :: int
  sm_totalTxBytes :: int
  sm_peerNetworkCount :: nat
  sm_wireguardRouteCount :: nat
  sm_privateRouteCount :: nat
  sm_linkCount :: nat
  sm_siteLinkCount :: nat
  sm_hubLinkCount :: nat
  sm_clientLinkCount :: nat

definition buildSummary :: "iface_status list \<Rightarrow> link_record list \<Rightarrow> topology \<Rightarrow> route_analysis \<Rightarrow> wg_summary" where
  "buildSummary interfaces links topo ra =
     \<lparr>sm_interfaceCount = length interfaces,
      sm_activeInterfaceCount = length (filter si_active interfaces),
      sm_totalPeers = sum_list (map si_peerCount interfaces),
      sm_activePeers = sum_list (map si_activePeerCount interfaces),
      sm_totalRxBytes = sum_list (map si_rxBytes interfaces),
      sm_totalTxBytes = sum_list (map si_txBytes interfaces),
      sm_peerNetworkCount = length (dedupe (concat (map si_peerNetworks interfaces))),
      sm_wireguardRouteCount = length (ra_wireguard ra),
      sm_privateRouteCount = length (ra_privateRoutes ra),
      sm_linkCount = length links,
      sm_siteLinkCount = length (tp_siteLinks topo),
      sm_hubLinkCount = length (tp_hubLinks topo),
      sm_clientLinkCount = length (tp_clientLinks topo)\<rparr>"

datatype status_warning =
    WText string
  | AllowedIpsConflict string "string list"

record wg_status =
  ws_available :: bool
  ws_hub :: "iface_status option"
  ws_interfaces :: "iface_status list"
  ws_links :: "link_record list"
  ws_routes :: route_analysis
  ws_topology :: topology
  ws_summary :: "wg_summary option"
  ws_metadata :: meta_store
  ws_warnings :: "status_warning list"
  ws_nextActions :: "string list"

definition empty_analysis :: route_analysis where
  "empty_analysis = \<lparr>ra_all = [], ra_wireguard = [], ra_privateRoutes = [], ra_staticRoutes = [],
     ra_missingReturnRoutes = [], ra_natCandidates = [], ra_conflicts = [], ra_splitTunnelCandidates = [], ra_observations = []\<rparr>"

definition empty_topology :: topology where
  "empty_topology = \<lparr>tp_exportedNetworks = [], tp_importedNetworks = [], tp_undecided = [],
     tp_siteLinks = [], tp_clientLinks = [], tp_hubLinks = []\<rparr>"

text \<open>\<open>subnetToPeers\<close>: the claims of the subnets, in the order of the first claim.\<close>

definition claim :: "string \<Rightarrow> string \<Rightarrow> (string \<times> string list) list \<Rightarrow> (string \<times> string list) list" where
  "claim name cidr m =
     (if isHostRoute cidr then m
      else AList.update cidr ((case map_of m cidr of Some ns \<Rightarrow> ns | None \<Rightarrow> []) @ [name]) m)"

definition subnet_claims :: "link_record list \<Rightarrow> (string \<times> string list) list" where
  "subnet_claims links = fold (\<lambda>(name, cidr). claim name cidr) (concat (map (\<lambda>l. map (Pair (lr_name l)) (lr_allowedIps l)) links)) []"

definition conflict_warnings :: "link_record list \<Rightarrow> status_warning list" where
  "conflict_warnings links =
     map (\<lambda>(subnet, names). AllowedIpsConflict subnet names) (filter (\<lambda>(subnet, names). 1 < length names) (subnet_claims links))"

definition raw_links :: "meta_store \<Rightarrow> iface_status \<Rightarrow> link_record list" where
  "raw_links store item =
     map (\<lambda>(index, p). buildLinkRecord (si_name item) p index
            (entry_of (ms_links store) (peer_id (si_name item) (dp_publicKey p) index)))
       (enumerate 0 (si_peers item))"

definition unavailable_status :: "string \<Rightarrow> meta_store \<Rightarrow> wg_status" where
  "unavailable_status dir store =
     \<lparr>ws_available = False, ws_hub = None, ws_interfaces = [], ws_links = [], ws_routes = empty_analysis,
      ws_topology = empty_topology, ws_summary = None, ws_metadata = store,
      ws_warnings = [WText (''WireGuard config directory is not available at '' @ dir)],
      ws_nextActions = [''mount-wireguard-config-directory'']\<rparr>"

definition env_warnings :: "string \<Rightarrow> string \<Rightarrow> wg_env \<Rightarrow> (string \<times> dump_iface) list \<Rightarrow> route_table \<Rightarrow> iface_status list \<Rightarrow> status_warning list" where
  "env_warnings wgBin ipBin env dumps routes interfaces =
     (if \<not> env_sysfs env then [WText ''/sys/class/net is not mounted; traffic counters are unavailable''] else [])
     @ (if dumps = [] then [WText (''No live output from \"'' @ wgBin @ '' show all dump\"; data may be config-only'')] else [])
     @ (if rs_all routes = [] then [WText (''No route data from \"'' @ ipBin @ '' route show\"; gateway summary is incomplete'')] else [])
     @ (if interfaces = [] then [WText ''No WireGuard interfaces were discovered from config files or live runtime data''] else [])"

definition getStatus :: "string \<Rightarrow> string \<Rightarrow> string \<Rightarrow> wg_env \<Rightarrow> meta_store \<Rightarrow> wg_status" where
  "getStatus dir wgBin ipBin env store =
     (if \<not> env_available env then unavailable_status dir store
      else (let dumps = parseDump (env_now env) (env_dump env);
                names = env_sort env (uniq (env_names env @ map fst dumps));
                statuses = map (\<lambda>n. getInterfaceStatus env n dumps store) names;
                raws = concat (map (raw_links store) statuses);
                routes = getRoutes (env_routes env);
                topo = buildTopology statuses raws;
                ra = buildRouteAnalysis routes topo;
                links = map (\<lambda>l. enrichLinkRecord l ra) raws;
                interfaces = map (\<lambda>i. enrichInterfaceStatus i links) statuses
            in \<lparr>ws_available = True, ws_hub = find (\<lambda>i. si_name i = ''wg0'') interfaces,
                ws_interfaces = interfaces, ws_links = links, ws_routes = ra, ws_topology = topo,
                ws_summary = Some (buildSummary interfaces links topo ra), ws_metadata = store,
                ws_warnings = map WText (deriveGlobalWarnings interfaces ra) @ conflict_warnings links
                  @ env_warnings wgBin ipBin env dumps routes interfaces,
                ws_nextActions = deriveGlobalNextActions interfaces links ra\<rparr>))"

text \<open>The names of the configuration files, as \<open>readdir\<close> lists the entries.\<close>

definition listConfigNames :: "(string list \<Rightarrow> string list) \<Rightarrow> (string \<times> bool) list option \<Rightarrow> string list" where
  "listConfigNames collate entries =
     (case entries of None \<Rightarrow> []
      | Some es \<Rightarrow> collate (map (\<lambda>(n, f). take (length n - 5) n) (filter (\<lambda>(n, is_file). is_file \<and> ends_with ''.conf'' n) es)))"

subsection \<open>Conflicting claims\<close>

text \<open>The names of the links that claim a subnet, once per claim.\<close>

definition claimants :: "link_record list \<Rightarrow> string \<Rightarrow> string list" where
  "claimants links s = concat (map (\<lambda>l. map (\<lambda>_. lr_name l) (filter (\<lambda>c. c = s) (lr_allowedIps l))) links)"

definition claims_of :: "(string \<times> string) list \<Rightarrow> string \<Rightarrow> string list" where
  "claims_of xs s = map fst (filter (\<lambda>x. snd x = s) xs)"

lemma claims_of_links:
  "claims_of (concat (map (\<lambda>l. map (Pair (lr_name l)) (lr_allowedIps l)) links)) s = claimants links s"
proof -
  have "claims_of (map (Pair n) cs) s = map (\<lambda>_. n) (filter (\<lambda>c. c = s) cs)" for n cs
    by (induction cs) (auto simp: claims_of_def)
  moreover have "claims_of (a @ b) s = claims_of a s @ claims_of b s" for a b by (simp add: claims_of_def)
  ultimately show ?thesis by (induction links) (simp_all add: claimants_def claims_of_def)
qed

lemma map_of_claim:
  "map_of (claim n c m) s = (if c = s \<and> \<not> isHostRoute s then Some (or_else (map_of m s) [] @ [n]) else map_of m s)"
  by (cases "map_of m c") (auto simp: claim_def update_conv' or_else_def)

lemma map_of_claims:
  "map_of (fold (\<lambda>(name, cidr). claim name cidr) xs m) s =
     (if isHostRoute s \<or> claims_of xs s = [] then map_of m s
      else Some (or_else (map_of m s) [] @ claims_of xs s))"
proof (induction xs arbitrary: m)
  case (Cons x xs)
  obtain n c where x: "x = (n, c)" by (cases x)
  have "claims_of (x # xs) s = (if c = s then n # claims_of xs s else claims_of xs s)" by (simp add: claims_of_def x)
  with Cons.IH [of "claim n c m"] show ?case by (simp add: x map_of_claim) (simp add: or_else_def)
qed (simp add: claims_of_def)

lemma distinct_claims: "distinct (map fst m) \<Longrightarrow> distinct (map fst (fold (\<lambda>(name, cidr). claim name cidr) xs m))"
  by (induction xs arbitrary: m) (auto simp: claim_def distinct_update)

lemma subnet_claims_iff:
  "(s, ns) \<in> set (subnet_claims links) \<longleftrightarrow> \<not> isHostRoute s \<and> claimants links s \<noteq> [] \<and> ns = claimants links s"
proof -
  have "(s, ns) \<in> set (subnet_claims links) \<longleftrightarrow> map_of (subnet_claims links) s = Some ns"
    by (simp add: subnet_claims_def distinct_claims)
  also have "\<dots> \<longleftrightarrow> \<not> isHostRoute s \<and> claimants links s \<noteq> [] \<and> ns = claimants links s"
    unfolding subnet_claims_def map_of_claims claims_of_links by (auto simp: or_else_def)
  finally show ?thesis .
qed

text \<open>The status warns of a subnet exactly when it is no host route and at least two claims of
  peers name it, and the warning lists the claiming links in order; no subnet is warned of twice.\<close>

theorem conflict_warnings_correct:
  "set (conflict_warnings links) =
     {AllowedIpsConflict s (claimants links s) | s. \<not> isHostRoute s \<and> 1 < length (claimants links s)}
   \<and> distinct (conflict_warnings links)"
proof
  show "set (conflict_warnings links) =
     {AllowedIpsConflict s (claimants links s) | s. \<not> isHostRoute s \<and> 1 < length (claimants links s)}"
    by (force simp: conflict_warnings_def subnet_claims_iff image_iff)
  have "distinct (subnet_claims links)"
    using distinct_claims [of "[]"] by (auto simp: subnet_claims_def distinct_map)
  moreover have "inj_on (\<lambda>(subnet, names). AllowedIpsConflict subnet names) A" for A
    by (auto simp: inj_on_def)
  ultimately show "distinct (conflict_warnings links)"
    by (simp add: conflict_warnings_def distinct_map)
qed

subsection \<open>Missing routes and the state of an interface\<close>

lemma set_dedupe [simp]: "set (dedupe xs) = set xs - {[]}"
  by (auto simp: dedupe_def)

definition live_route :: "route_table \<Rightarrow> string \<Rightarrow> bool" where
  "live_route routes n \<longleftrightarrow> n \<in> rt_destination ` set (rs_wireguard routes)
     \<or> n \<in> rt_destination ` {r \<in> set (rs_privateRoutes routes). \<not> on_wg r}"

lemma missing_nets:
  assumes "l \<in> set links"
  shows "set (getMissingImportedNetworks l (buildRouteAnalysis routes (buildTopology interfaces links)))
     = {n \<in> set (lr_importedNetworks l). n \<noteq> [] \<and> \<not> live_route routes n}"
  using assms
  by (force simp: getMissingImportedNetworks_def buildRouteAnalysis_def buildTopology_def live_route_def Let_def image_iff)

lemma enriched_warning:
  "w \<in> set (lr_warnings (enrichLinkRecord l ra)) \<longleftrightarrow> w \<noteq> [] \<and> (w \<in> set (lr_warnings l)
     \<or> (\<exists>r \<in> set (link_rules l (getMissingImportedNetworks l ra)). fst r \<and> fst (snd r) = w))"
  by (auto simp: enrichLinkRecord_def Let_def)

lemma enriched_action:
  "a \<in> set (lr_nextActions (enrichLinkRecord l ra)) \<longleftrightarrow> a \<noteq> [] \<and> (a \<in> set (lr_nextActions l)
     \<or> (\<exists>r \<in> set (link_rules l (getMissingImportedNetworks l ra)). fst r \<and> snd (snd r) = a))"
  by (auto simp: enrichLinkRecord_def Let_def)

lemma count_all: "length (filter id bs) = length bs \<longleftrightarrow> list_all id bs"
proof
  assume l: "length (filter id bs) = length bs"
  show "list_all id bs"
  proof (rule ccontr)
    assume "\<not> list_all id bs"
    then obtain b where "b \<in> set bs" "\<not> id b" by (auto simp: list_all_iff)
    from length_filter_less [of b bs id] this l show False by simp
  qed
qed (simp add: list_all_iff filter_id_conv)

lemma inferPlanState_ready: "inferPlanState l missing = ''ready'' \<longleftrightarrow> list_all id (readiness_checks l missing)"
proof -
  let ?bs = "readiness_checks l missing"
  have six: "length ?bs = 6" by (simp add: readiness_checks_def)
  then have "length (filter id ?bs) \<le> 6" using length_filter_le [of id ?bs] by simp
  then have "inferPlanState l missing = ''ready'' \<longleftrightarrow> length (filter id ?bs) = 6"
    by (simp add: inferPlanState_def Let_def del: filter.simps)
  then show ?thesis using count_all [of ?bs] six by simp
qed

text \<open>In the status built from the live routes, a link carries the warning about missing
  routes and the action to fix the return path exactly when one of its imported networks has
  neither a WireGuard route nor another private route to exactly that network; the inferred state
  of a link is ready exactly when all six checks hold.\<close>

theorem link_review_correct:
  assumes "l \<in> set links" "lr_warnings l = []" "lr_nextActions l = []"
    and "ra = buildRouteAnalysis routes (buildTopology interfaces links)"
  shows "(''imported-network-missing-live-route'' \<in> set (lr_warnings (enrichLinkRecord l ra)))
      = (\<exists>n \<in> set (lr_importedNetworks l). n \<noteq> [] \<and> \<not> live_route routes n)
    \<and> (''fix-return-path'' \<in> set (lr_nextActions (enrichLinkRecord l ra)))
      = (\<exists>n \<in> set (lr_importedNetworks l). n \<noteq> [] \<and> \<not> live_route routes n)
    \<and> (inferPlanState l missing = ''ready'') = list_all id (readiness_checks l missing)"
proof -
  let ?missing = "getMissingImportedNetworks l ra"
  have m: "?missing \<noteq> [] \<longleftrightarrow> (\<exists>n \<in> set (lr_importedNetworks l). n \<noteq> [] \<and> \<not> live_route routes n)"
    using missing_nets [OF assms(1), of routes interfaces] unfolding assms(4) by (auto simp flip: set_empty)
  have "(''imported-network-missing-live-route'' \<in> set (lr_warnings (enrichLinkRecord l ra))) = (?missing \<noteq> [])"
    "(''fix-return-path'' \<in> set (lr_nextActions (enrichLinkRecord l ra))) = (?missing \<noteq> [])"
    by (simp_all add: enriched_warning enriched_action assms(2,3) link_rules_def Let_def)
  then show ?thesis unfolding m by (simp add: inferPlanState_ready)
qed

definition ex_peer :: dump_peer where
  "ex_peer = \<lparr>dp_publicKey = Some ''aaaabbbbcccc'', dp_endpoint = None, dp_allowedIps = [''10.8.0.2/32'', ''192.168.7.0/24''],
     dp_latestHandshake = 0, dp_rxBytes = 0, dp_txBytes = 0, dp_isActive = False\<rparr>"

definition ex_link :: link_record where
  "ex_link = buildLinkRecord ''wg1'' ex_peer 0 []"

theorem link_review_correct_witness:
  "''fix-return-path'' \<in> set (lr_nextActions (enrichLinkRecord ex_link
      (buildRouteAnalysis (getRoutes None) (buildTopology [] [ex_link]))))
   \<and> ''fix-return-path'' \<notin> set (lr_nextActions (enrichLinkRecord ex_link
      (buildRouteAnalysis (getRoutes (Some ''192.168.7.0/24 dev wg1 scope link'')) (buildTopology [] [ex_link]))))
   \<and> lr_name ex_link = ''site-to-site-aaaabbbb''"
proof -
  have e: "ex_link \<in> set [ex_link]" "lr_warnings ex_link = []" "lr_nextActions ex_link = []"
    by (simp_all add: ex_link_def buildLinkRecord_def Let_def)
  have "lr_importedNetworks ex_link = [''192.168.7.0/24'']" "lr_name ex_link = ''site-to-site-aaaabbbb''"
    "\<not> live_route (getRoutes None) ''192.168.7.0/24''"
    "live_route (getRoutes (Some ''192.168.7.0/24 dev wg1 scope link'')) ''192.168.7.0/24''"
    by code_simp+
  then show ?thesis
    using link_review_correct [OF e refl, of "getRoutes None" "[]"]
      link_review_correct [OF e refl, of "getRoutes (Some ''192.168.7.0/24 dev wg1 scope link'')" "[]"]
    by simp
qed

end
