(* ===== verification/Wg_Links.thy ===== *)
theory Wg_Links
  imports Wg_Status
begin

text \<open>
  Checks on links in backend/internal/wireguard.js: overlapping networks
  (\<open>networksOverlap\<close>, \<open>checkAllowedIPsConflicts\<close>, \<open>findLinkNetworkConflicts\<close>), the
  update of a link (\<open>updatePeer\<close> up to the write of the store), when a configuration may be
  handed out (\<open>assertPeerConfigAllowed\<close>) and the deletion of the agents bound to a link.
\<close>

subsection \<open>Overlapping networks\<close>

definition networksOverlap :: "string \<Rightarrow> string \<Rightarrow> bool" where
  "networksOverlap a b \<longleftrightarrow> a = b \<or> cidrContains a b \<or> cidrContains b a"

text \<open>The subnet text of a conflict (both networks when they differ) and the peer.\<close>

definition conflict_of :: "string \<Rightarrow> link_record \<Rightarrow> ((string \<times> string) \<times> string) list" where
  "conflict_of net l =
     (case find (networksOverlap net) (filter (\<lambda>ip. \<not> isHostRoute ip) (lr_allowedIps l)) of
        None \<Rightarrow> []
      | Some hit \<Rightarrow> [((net, hit), if lr_name l = [] then lr_id l else lr_name l)])"

definition checkAllowedIPsConflicts :: "string list \<Rightarrow> link_record list \<Rightarrow> ((string \<times> string) \<times> string) list" where
  "checkAllowedIPsConflicts proposedNets existingLinks =
     concat (map (\<lambda>net. if isHostRoute net then [] else concat (map (conflict_of net) existingLinks)) proposedNets)"

text \<open>An entry of a links map, as far as the check reads it.\<close>

record link_claim =
  lc_type :: "string option"
  lc_name :: "string option"
  lc_nets :: "string list"

datatype net_conflict =
    ClaimedTwice string string string
  | NetsOverlap string string string string

record net_entry_of =
  ne_id :: string
  ne_name :: string
  ne_net :: string

definition claim_entries :: "(string \<times> link_claim) list \<Rightarrow> net_entry_of list" where
  "claim_entries links = concat (map (\<lambda>(i, m).
     if lc_type m = Some ''client'' then []
     else map (\<lambda>n. \<lparr>ne_id = i, ne_name = (case lc_name m of Some s \<Rightarrow> if s = [] then i else s | None \<Rightarrow> i), ne_net = n\<rparr>)
            (filter (\<lambda>n. \<not> isHostRoute n) (lc_nets m))) links)"

fun pairs_of :: "'a list \<Rightarrow> ('a \<times> 'a) list" where
  "pairs_of [] = []"
| "pairs_of (x # xs) = map (Pair x) xs @ pairs_of xs"

definition pair_conflict :: "string set option \<Rightarrow> net_entry_of \<times> net_entry_of \<Rightarrow> net_conflict list" where
  "pair_conflict changed ab =
     (let (a, b) = ab
      in if ne_id a = ne_id b then []
         else if (case changed of None \<Rightarrow> False | Some S \<Rightarrow> ne_id a \<notin> S \<and> ne_id b \<notin> S) then []
         else if \<not> networksOverlap (ne_net a) (ne_net b) then []
         else if ne_net a = ne_net b then [ClaimedTwice (ne_net a) (ne_name a) (ne_name b)]
         else [NetsOverlap (ne_net a) (ne_name a) (ne_net b) (ne_name b)])"

definition findLinkNetworkConflicts :: "(string \<times> link_claim) list \<Rightarrow> string set option \<Rightarrow> net_conflict list" where
  "findLinkNetworkConflicts links changedIds = concat (map (pair_conflict changedIds) (pairs_of (claim_entries links)))"

subsection \<open>Updating a link\<close>

datatype update_error =
    BadType jsval
  | BadPlatform jsval
  | NetsClaimed "((string \<times> string) \<times> string) list"
  | Meta wg_error

definition lift_meta :: "wg_error + 'a \<Rightarrow> update_error + 'a" where
  "lift_meta r = (case r of Inl e \<Rightarrow> Inl (Meta e) | Inr a \<Rightarrow> Inr a)"

definition norm_type :: "jsval \<Rightarrow> string option" where
  "norm_type v = (case v of JStr s \<Rightarrow> normalizeLinkType (Some s) | _ \<Rightarrow> None)"

definition update_nets :: "link_record \<Rightarrow> jsval \<Rightarrow> wg_error + string list" where
  "update_nets link changes =
     (if getp changes ''importedNetworks'' \<noteq> JUndef then sanitizeNetworkArray (getp changes ''importedNetworks'')
      else Inr (List.map_filter canonicalizeIpv4Network (lr_importedNetworks link)))"

definition effective_type :: "meta_store \<Rightarrow> string \<Rightarrow> jsval \<Rightarrow> string option" where
  "effective_type store linkId changes =
     (if getp changes ''type'' \<noteq> JUndef then norm_type (getp changes ''type'')
      else normalizeLinkType (meta_text (entry_of (ms_links store) linkId) ''type''))"

definition updatePeer_check :: "link_record list \<Rightarrow> meta_store \<Rightarrow> link_record \<Rightarrow> jsval \<Rightarrow> update_error + unit" where
  "updatePeer_check links store link changes =
     (let t = getp changes ''type''; p = getp changes ''platform''
      in if js_truthy t \<and> norm_type t = None then Inl (BadType t)
         else if js_truthy p \<and> p \<notin> {JStr ''desktop'', JStr ''mobile''} then Inl (BadPlatform p)
         else if (getp changes ''importedNetworks'' \<noteq> JUndef \<or> t \<noteq> JUndef)
              \<and> effective_type store (lr_id link) changes \<noteq> Some ''client''
         then bind_res (lift_meta (update_nets link changes)) (\<lambda>nets.
                let conflicts = checkAllowedIPsConflicts nets (filter (\<lambda>l. lr_id l \<noteq> lr_id link) links)
                in if conflicts \<noteq> [] then Inl (NetsClaimed conflicts) else Inr ())
         else Inr ())"

definition update_fields :: "(string \<times> cleaner) list" where
  "update_fields =
     [(''importedNetworks'', clean_nets),
      (''name'', keep_opt (map_option stripLinkNameControlChars)),
      (''type'', \<lambda>v. Inr (opt_val (norm_type v))),
      (''dns'', clean_dns),
      (''fullTunnel'', \<lambda>v. Inr (JBool (js_truthy v))),
      (''platform'', clean_platform)]"

definition updatePeer_patch :: "jsval \<Rightarrow> wg_error + props" where
  "updatePeer_patch changes = clean_fields (filter (\<lambda>(k, f). getp changes k \<noteq> JUndef) update_fields) changes"

definition name_text :: "jsval \<Rightarrow> string" where
  "name_text v = (case v of JStr s \<Rightarrow> s | _ \<Rightarrow> [])"

definition put_link :: "string \<Rightarrow> props \<Rightarrow> meta_store \<Rightarrow> meta_store" where
  "put_link linkId e store = store\<lparr>ms_links := AList.update linkId e (ms_links store)\<rparr>"

definition updatePeer_mutator :: "string \<Rightarrow> props \<Rightarrow> meta_store \<Rightarrow> wg_error + meta_store" where
  "updatePeer_mutator linkId patch s =
     (let cur = entry_of (ms_links s) linkId
      in bind_res (assertUniqueLinkName s linkId (name_text (getp (JObj patch) ''name'')) (name_text (entry_name cur)))
           (\<lambda>_. Inr (put_link linkId (mergeMetadataEntry cur patch) s)))"

text \<open>\<open>updatePeer\<close> as far as the store goes: the checks, the patch and the locked write.\<close>

definition updatePeer :: "link_record list \<Rightarrow> link_record \<Rightarrow> jsval \<Rightarrow> meta_store \<Rightarrow> (update_error + meta_store) \<times> meta_store" where
  "updatePeer links link changes store =
     (case bind_res (updatePeer_check links store link changes) (\<lambda>_. lift_meta (updatePeer_patch changes)) of
        Inl e \<Rightarrow> (Inl e, store)
      | Inr patch \<Rightarrow> (case mutate_store (updatePeer_mutator (lr_id link) patch) store of (r, s) \<Rightarrow> (lift_meta r, s)))"

subsection \<open>Handing out a configuration\<close>

datatype config_refusal = NotAClient | UntypedWithNetwork | ManagedByAgent | AgentBound

definition assertPeerConfigAllowed ::
  "link_record \<Rightarrow> props option \<Rightarrow> (string \<Rightarrow> string list) \<Rightarrow> config_refusal + unit" where
  "assertPeerConfigAllowed link linkMeta boundAgents =
     (let m = or_else linkMeta []; stored = normalizeLinkType (meta_text m ''type'');
          effective = (if lr_type link \<noteq> [] then lr_type link
             else or_else stored (classifyLinkType (lr_allowedIps link) (lr_interfaceName link)))
      in if effective \<noteq> ''client'' then Inl NotAClient
         else if stored \<noteq> Some ''client'' \<and> list_ex (\<lambda>c. \<not> isHostRoute c) (lr_allowedIps link) then Inl UntypedWithNetwork
         else if meta_text m ''remoteManagementMode'' = Some ''agent'' then Inl ManagedByAgent
         else if lr_name link \<noteq> [] \<and> lr_name link \<in> set (boundAgents (lr_name link)) then Inl AgentBound
         else Inr ())"

subsection \<open>Deleting the bound agents with a link\<close>

record bound_agent =
  ba_id :: int
  ba_name :: string
  ba_linkName :: string
  ba_force :: bool
  ba_blocker :: "(string \<times> bool) option"

record agent_ref =
  ag_id :: int
  ag_name :: string
  ag_link :: string

definition planBoundAgentCascade ::
  "(string list \<Rightarrow> agent_ref list) \<Rightarrow> (agent_ref \<Rightarrow> bool \<Rightarrow> (string \<times> bool) option) \<Rightarrow> string list \<Rightarrow> int list \<Rightarrow> bound_agent list" where
  "planBoundAgentCascade loadAgents deleteBlocker names forceAgentIds =
     map (\<lambda>r. let force = ag_id r \<in> set forceAgentIds
              in \<lparr>ba_id = ag_id r, ba_name = ag_name r, ba_linkName = ag_link r, ba_force = force,
                  ba_blocker = deleteBlocker r force\<rparr>) (loadAgents names)"

datatype cascade_refusal = BoundAgents "string list" | BlockedAgents "(string \<times> string) list"

definition assertBoundAgentCascade :: "bound_agent list \<Rightarrow> bool \<Rightarrow> cascade_refusal + unit" where
  "assertBoundAgentCascade plan deleteBoundAgents =
     (if plan = [] then Inr ()
      else if \<not> deleteBoundAgents then Inl (BoundAgents (map ba_name plan))
      else (let blocked = List.map_filter (\<lambda>p. map_option (\<lambda>b. (ba_name p, fst b)) (ba_blocker p)) plan
            in if blocked \<noteq> [] then Inl (BlockedAgents blocked) else Inr ()))"

text \<open>Every agent of the plan is tried; one that is already gone counts as deleted.\<close>

fun deleteBoundAgents ::
  "(int \<Rightarrow> bool \<Rightarrow> 's \<Rightarrow> string option \<times> 's) \<Rightarrow> bound_agent list \<Rightarrow> 's \<Rightarrow> (int list \<times> (int \<times> string \<times> string) list) \<times> 's" where
  "deleteBoundAgents del [] s = (([], []), s)"
| "deleteBoundAgents del (p # ps) s =
     (let (r, s) = del (ba_id p) (ba_force p) s; ((gone, errs), s) = deleteBoundAgents del ps s
      in (case r of
            None \<Rightarrow> ((ba_id p # gone, errs), s)
          | Some msg \<Rightarrow> if starts_with ''Not Found'' msg then ((ba_id p # gone, errs), s)
                        else ((gone, (ba_id p, ba_name p, msg) # errs), s)))"

definition cascadeView :: "bound_agent list \<Rightarrow> (int \<times> string \<times> string \<times> string option \<times> bool) list" where
  "cascadeView plan = map (\<lambda>p. (ba_id p, ba_name p, ba_linkName p, map_option fst (ba_blocker p),
     (case ba_blocker p of None \<Rightarrow> False | Some b \<Rightarrow> snd b))) plan"

subsection \<open>Overlap is a shared address\<close>

lemma networksOverlap_iff: "networksOverlap a b \<longleftrightarrow> a = b \<or> (\<exists>A B. cidr_set a = Some A \<and> cidr_set b = Some B \<and> A \<inter> B \<noteq> {})"
  using cidr.overlap_iff [of a b] unfolding networksOverlap_def by blast

lemma pairs_of_iff: "(x, y) \<in> set (pairs_of xs) \<longleftrightarrow> (\<exists>i j. i < j \<and> j < length xs \<and> xs ! i = x \<and> xs ! j = y)"
proof (induction xs)
  case (Cons z zs)
  have "(x, y) \<in> set (pairs_of (z # zs)) \<longleftrightarrow> (x = z \<and> (\<exists>j < length zs. zs ! j = y))
      \<or> (\<exists>i j. i < j \<and> j < length zs \<and> zs ! i = x \<and> zs ! j = y)"
  proof -
    have "(x, y) \<in> set (pairs_of (z # zs)) \<longleftrightarrow> (x = z \<and> y \<in> set zs) \<or> (x, y) \<in> set (pairs_of zs)" by auto
    then show ?thesis unfolding Cons in_set_conv_nth [of y zs] .
  qed
  also have "\<dots> \<longleftrightarrow> (\<exists>i j. i < j \<and> j < length (z # zs) \<and> (z # zs) ! i = x \<and> (z # zs) ! j = y)"
  proof
    assume "(x = z \<and> (\<exists>j < length zs. zs ! j = y)) \<or> (\<exists>i j. i < j \<and> j < length zs \<and> zs ! i = x \<and> zs ! j = y)"
    then show "\<exists>i j. i < j \<and> j < length (z # zs) \<and> (z # zs) ! i = x \<and> (z # zs) ! j = y"
    proof (elim disjE conjE exE)
      fix j assume "x = z" "j < length zs" "zs ! j = y"
      then show ?thesis by (intro exI [of _ 0] exI [of _ "Suc j"]) simp
    next
      fix i j assume "i < j" "j < length zs" "zs ! i = x" "zs ! j = y"
      then show ?thesis by (intro exI [of _ "Suc i"] exI [of _ "Suc j"]) simp
    qed
  next
    assume "\<exists>i j. i < j \<and> j < length (z # zs) \<and> (z # zs) ! i = x \<and> (z # zs) ! j = y"
    then obtain i j where "i < j" "j < length (z # zs)" "(z # zs) ! i = x" "(z # zs) ! j = y" by blast
    then show "(x = z \<and> (\<exists>j < length zs. zs ! j = y)) \<or> (\<exists>i j. i < j \<and> j < length zs \<and> zs ! i = x \<and> zs ! j = y)"
      by (cases i; cases j) auto
  qed
  finally show ?case .
qed simp

lemma pairs_of_set: "(x, y) \<in> set (pairs_of xs) \<Longrightarrow> x \<in> set xs \<and> y \<in> set xs"
  by (induction xs) auto

definition entries_clash :: "net_entry_of \<Rightarrow> net_entry_of \<Rightarrow> bool" where
  "entries_clash a b \<longleftrightarrow> ne_id a \<noteq> ne_id b \<and> networksOverlap (ne_net a) (ne_net b)"

lemma entries_clash_sym: "entries_clash a b \<longleftrightarrow> entries_clash b a"
  by (auto simp: entries_clash_def networksOverlap_def)

text \<open>The pairs a check looks at: all, or those with a changed link.\<close>

definition pair_checked :: "string set option \<Rightarrow> string \<Rightarrow> string \<Rightarrow> bool" where
  "pair_checked changedIds i j \<longleftrightarrow> (case changedIds of None \<Rightarrow> True | Some C \<Rightarrow> i \<in> C \<or> j \<in> C)"

lemma no_pair_conflict_in:
  "findLinkNetworkConflicts links changedIds = [] \<longleftrightarrow> (\<forall>a \<in> set (claim_entries links).
     \<forall>b \<in> set (claim_entries links). \<not> (pair_checked changedIds (ne_id a) (ne_id b) \<and> entries_clash a b))"
proof -
  let ?clash = "\<lambda>a b. pair_checked changedIds (ne_id a) (ne_id b) \<and> entries_clash a b"
  let ?es = "claim_entries links"
  have sym: "pair_checked changedIds i j = pair_checked changedIds j i" for i j
    by (auto simp: pair_checked_def split: option.split)
  have "findLinkNetworkConflicts links changedIds = [] \<longleftrightarrow> (\<forall>(a, b) \<in> set (pairs_of ?es). \<not> ?clash a b)"
  proof -
    have "pair_conflict changedIds (a, b) = [] \<longleftrightarrow> \<not> ?clash a b" for a b
      by (auto simp: pair_conflict_def entries_clash_def pair_checked_def split: option.split)
    then show ?thesis by (auto simp: findLinkNetworkConflicts_def)
  qed
  also have "\<dots> \<longleftrightarrow> (\<forall>a \<in> set ?es. \<forall>b \<in> set ?es. \<not> ?clash a b)"
  proof
    assume p: "\<forall>(a, b) \<in> set (pairs_of ?es). \<not> ?clash a b"
    show "\<forall>a \<in> set ?es. \<forall>b \<in> set ?es. \<not> ?clash a b"
    proof (intro ballI)
      fix a b assume "a \<in> set ?es" "b \<in> set ?es"
      then obtain i j where ij: "i < length ?es" "?es ! i = a" "j < length ?es" "?es ! j = b" by (auto simp: in_set_conv_nth)
      consider "i < j" | "j < i" | "i = j" by linarith
      then show "\<not> ?clash a b"
      proof cases
        case 1
        then have "(a, b) \<in> set (pairs_of ?es)" using ij
          by (subst pairs_of_iff) (intro exI [of _ i] exI [of _ j], simp)
        with p show ?thesis by auto
      next
        case 2
        then have "(b, a) \<in> set (pairs_of ?es)" using ij
          by (subst pairs_of_iff) (intro exI [of _ j] exI [of _ i], simp)
        with p show ?thesis using entries_clash_sym sym by auto
      next
        case 3
        with ij show ?thesis by (simp add: entries_clash_def)
      qed
    qed
  next
    assume n: "\<forall>a \<in> set ?es. \<forall>b \<in> set ?es. \<not> ?clash a b"
    have "\<not> ?clash a b" if "(a, b) \<in> set (pairs_of ?es)" for a b
      using n pairs_of_set [OF that] by blast
    then show "\<forall>(a, b) \<in> set (pairs_of ?es). \<not> ?clash a b" by blast
  qed
  finally show ?thesis .
qed

lemma no_pair_conflict:
  "findLinkNetworkConflicts links None = [] \<longleftrightarrow>
     (\<forall>a \<in> set (claim_entries links). \<forall>b \<in> set (claim_entries links). \<not> entries_clash a b)"
  by (simp add: no_pair_conflict_in pair_checked_def)

text \<open>The networks a link of the map claims on the hub.\<close>

definition claimed :: "(string \<times> link_claim) list \<Rightarrow> string \<Rightarrow> string \<Rightarrow> bool" where
  "claimed links i n \<longleftrightarrow> (\<exists>m. (i, m) \<in> set links \<and> lc_type m \<noteq> Some ''client'' \<and> n \<in> set (lc_nets m) \<and> \<not> isHostRoute n)"

lemma claim_entries_iff: "(\<exists>a \<in> set (claim_entries links). ne_id a = i \<and> ne_net a = n) \<longleftrightarrow> claimed links i n"
  by (force simp: claim_entries_def claimed_def)

text \<open>C39: The conflict check reports nothing exactly when the networks that different non-client links
  claim, host routes aside, neither are the same text nor share an address; with a list of
  changed links (the check of a save) only the pairs with a changed link count, so that an old
  overlap does not block an unrelated save.\<close>

theorem findLinkNetworkConflicts_correct:
  "findLinkNetworkConflicts links changedIds = [] \<longleftrightarrow>
     (\<forall>i j a b. claimed links i a \<and> claimed links j b \<and> i \<noteq> j
        \<and> (case changedIds of None \<Rightarrow> True | Some C \<Rightarrow> i \<in> C \<or> j \<in> C)
      \<longrightarrow> a \<noteq> b \<and> (\<forall>A B. cidr_set a = Some A \<and> cidr_set b = Some B \<longrightarrow> A \<inter> B = {}))"
proof -
  have "findLinkNetworkConflicts links changedIds = [] \<longleftrightarrow>
      (\<forall>i j a b. claimed links i a \<and> claimed links j b
         \<longrightarrow> \<not> (pair_checked changedIds i j \<and> i \<noteq> j \<and> networksOverlap a b))"
    unfolding no_pair_conflict_in entries_clash_def claim_entries_iff [symmetric] by blast
  then show ?thesis unfolding networksOverlap_iff pair_checked_def by blast
qed

definition ex_claims :: "(string \<times> link_claim) list" where
  "ex_claims = [(''wg0:a'', \<lparr>lc_type = None, lc_name = Some ''office'', lc_nets = [''192.168.20.0/24'', ''10.8.0.2/32'']\<rparr>),
     (''wg0:b'', \<lparr>lc_type = Some ''client'', lc_name = None, lc_nets = [''192.168.0.0/16'']\<rparr>),
     (''wg0:c'', \<lparr>lc_type = Some ''site-to-site'', lc_name = None, lc_nets = [''192.168.21.0/24'', ''10.8.0.2/32'']\<rparr>)]"

theorem findLinkNetworkConflicts_correct_witness:
  "cidr_set ''192.168.20.0/24'' \<noteq> cidr_set ''192.168.21.0/24''
   \<and> findLinkNetworkConflicts (map (apsnd (\<lambda>m. m\<lparr>lc_type := None\<rparr>)) ex_claims) (Some {''wg0:b''}) \<noteq> []"
proof
  have "findLinkNetworkConflicts ex_claims (Some {''wg0:c''}) = []" by code_simp
  moreover have "claimed ex_claims ''wg0:a'' ''192.168.20.0/24''" "claimed ex_claims ''wg0:c'' ''192.168.21.0/24''"
    by (simp_all add: claimed_def ex_claims_def isHostRoute_def ends_with_def starts_with_def)
  moreover have "net_of ''192.168.20.0/24'' = Some (0xC0A81400, 24)" by code_simp
  then have "cidr_set ''192.168.20.0/24'' = Some (net_set (0xC0A81400, 24))" by (simp add: cidr_set_def)
  ultimately show "cidr_set ''192.168.20.0/24'' \<noteq> cidr_set ''192.168.21.0/24''"
    using findLinkNetworkConflicts_correct [of ex_claims "Some {''wg0:c''}"] net_set_not_empty by fastforce
  show "findLinkNetworkConflicts (map (apsnd (\<lambda>m. m\<lparr>lc_type := None\<rparr>)) ex_claims) (Some {''wg0:b''}) \<noteq> []" by code_simp
qed

subsection \<open>Names stay unique\<close>

definition unique_names :: "(string \<times> props) list \<Rightarrow> bool" where
  "unique_names m \<longleftrightarrow> (\<forall>i j e f. (i, e) \<in> set m \<and> (j, f) \<in> set m \<and> name_text (entry_name e) \<noteq> []
     \<and> name_text (entry_name e) = name_text (entry_name f) \<longrightarrow> i = j)"

lemma name_text_JStr: "name_text v = s \<Longrightarrow> s \<noteq> [] \<Longrightarrow> v = JStr s"
  by (auto simp: name_text_def split: jsval.splits)

lemma name_text_undef [simp]: "name_text JUndef = []"
  by (simp add: name_text_def)

lemma assertUniqueLinkName_Inr:
  "assertUniqueLinkName store linkId new old = Inr u \<longleftrightarrow>
     new = [] \<or> new = old \<or> (\<forall>(i, l) \<in> set (ms_links store). i \<noteq> linkId \<longrightarrow> name_text (entry_name l) \<noteq> new)"
proof (cases "new = []")
  case False
  then have "entry_name l = JStr new \<longleftrightarrow> name_text (entry_name l) = new" for l
    by (auto simp: name_text_def split: jsval.splits)
  then show ?thesis by (auto simp: assertUniqueLinkName_def list_ex_iff split_beta)
qed (simp add: assertUniqueLinkName_def)

lemma set_update_distinct:
  "distinct (map fst m) \<Longrightarrow> (i, e) \<in> set (AList.update k v m) \<longleftrightarrow> (if i = k then e = v else (i, e) \<in> set m)"
proof -
  assume d: "distinct (map fst m)"
  then have "(i, e) \<in> set (AList.update k v m) \<longleftrightarrow> map_of (AList.update k v m) i = Some e"
    by (simp add: distinct_update)
  also have "\<dots> \<longleftrightarrow> (if i = k then e = v else (i, e) \<in> set m)"
    using d by (auto simp: update_conv')
  finally show ?thesis .
qed

lemma updatePeer_patch_distinct: "updatePeer_patch changes = Inr p \<Longrightarrow> distinct (map fst p)"
  unfolding updatePeer_patch_def by (erule clean_fields_distinct) (simp add: update_fields_def distinct_map_filter)

lemma mutator_keeps_names_unique:
  assumes st: "stored_entries (ms_links s)" and u: "unique_names (ms_links s)"
    and p: "distinct (map fst p)" and ok: "updatePeer_mutator linkId p s = Inr s'"
  shows "unique_names (ms_links s')"
proof -
  let ?cur = "entry_of (ms_links s) linkId"
  let ?e = "mergeMetadataEntry ?cur p"
  let ?old = "name_text (entry_name ?cur)"
  let ?new = "name_text (getp (JObj p) ''name'')"
  have assert_ok: "assertUniqueLinkName s linkId ?new ?old = Inr ()" and s': "s' = put_link linkId ?e s"
    using ok by (auto simp: updatePeer_mutator_def Let_def bind_res_Inr_iff)
  have name: "name_text (entry_name ?e) = (if map_of p ''name'' = None then ?old else ?new)"
    unfolding entry_name_def getp_merge [OF stored_entry [OF st] p] by (simp split: option.split)
  have fresh: "name_text (entry_name f) \<noteq> name_text (entry_name ?e)"
    if f: "(j, f) \<in> set (ms_links s)" "j \<noteq> linkId" "name_text (entry_name ?e) \<noteq> []" for j f
  proof (cases "name_text (entry_name ?e) = ?old")
    case True
    then have "?cur \<noteq> []" using f(3) by (auto simp: entry_name_def)
    then have "(linkId, ?cur) \<in> set (ms_links s)"
      by (cases "map_of (ms_links s) linkId") (auto simp: entry_of_def dest: map_of_SomeD)
    then show ?thesis using u f True unfolding unique_names_def by metis
  next
    case False
    then have "name_text (entry_name ?e) = ?new" "?new \<noteq> ?old" using name by (auto split: if_splits)
    then show ?thesis using assert_ok f unfolding assertUniqueLinkName_Inr by auto
  qed
  have d: "distinct (map fst (ms_links s))" using st by (simp add: stored_entries_def)
  show ?thesis
    unfolding unique_names_def
  proof (intro allI impI)
    fix i j e f
    assume a: "(i, e) \<in> set (ms_links s') \<and> (j, f) \<in> set (ms_links s') \<and> name_text (entry_name e) \<noteq> []
      \<and> name_text (entry_name e) = name_text (entry_name f)"
    then have ie: "if i = linkId then e = ?e else (i, e) \<in> set (ms_links s)"
      and jf: "if j = linkId then f = ?e else (j, f) \<in> set (ms_links s)"
      by (simp_all add: s' put_link_def set_update_distinct [OF d])
    show "i = j"
    proof (cases "i = linkId"; cases "j = linkId")
      assume "i \<noteq> linkId" "j \<noteq> linkId"
      with ie jf a show ?thesis using u [unfolded unique_names_def, rule_format, of i e j f] by auto
    next
      assume "i = linkId" "j \<noteq> linkId"
      with ie jf a fresh [of j f] show ?thesis by auto
    next
      assume "i \<noteq> linkId" "j = linkId"
      with ie jf a fresh [of i e] show ?thesis by auto
    qed simp
  qed
qed

text \<open>C40: Updating a link keeps the stored names unique: from a store where no two links hold the same
  name, every outcome leaves such a store, and the update of a link writes no other entry.\<close>

theorem updatePeer_names_unique:
  assumes "stored_entries (ms_links store)" "unique_names (ms_links store)"
  shows "unique_names (ms_links (snd (updatePeer links link changes store)))
    \<and> stored_entries (ms_links (snd (updatePeer links link changes store)))
    \<and> (\<forall>i. i \<noteq> lr_id link \<longrightarrow> map_of (ms_links (snd (updatePeer links link changes store))) i = map_of (ms_links store) i)
    \<and> ms_interfaces (snd (updatePeer links link changes store)) = ms_interfaces store"
proof (cases "bind_res (updatePeer_check links store link changes) (\<lambda>_. lift_meta (updatePeer_patch changes))")
  case (Inl e)
  then show ?thesis using assms by (simp add: updatePeer_def)
next
  case (Inr p)
  then have p: "distinct (map fst p)"
    by (auto simp: bind_res_Inr_iff lift_meta_def intro: updatePeer_patch_distinct split: sum.splits)
  show ?thesis
  proof (cases "updatePeer_mutator (lr_id link) p store")
    case (Inl e)
    then show ?thesis using assms Inr by (simp add: updatePeer_def mutate_store_def)
  next
    case (Inr s')
    then have snd: "snd (updatePeer links link changes store) = s'"
      using \<open>bind_res _ _ = Inr p\<close> by (simp add: updatePeer_def mutate_store_def)
    have s': "s' = put_link (lr_id link) (mergeMetadataEntry (entry_of (ms_links store) (lr_id link)) p) store"
      using Inr by (auto simp: updatePeer_mutator_def Let_def bind_res_Inr_iff)
    have "stored_entries (ms_links s')"
      unfolding s' put_link_def using assms(1) by (simp add: stored_update stored_merge stored_entry)
    then show ?thesis
      unfolding snd using mutator_keeps_names_unique [OF assms p Inr] by (simp add: s' put_link_def update_conv')
  qed
qed

definition ex_links :: "link_record list" where
  "ex_links = [buildLinkRecord ''wg1'' ex_peer 0 [],
     buildLinkRecord ''wg1'' (ex_peer\<lparr>dp_publicKey := Some ''ddddeeee'', dp_allowedIps := [''10.8.0.3/32'']\<rparr>) 1 [(''name'', JStr ''depot'')]]"

definition ex_names :: meta_store where
  "ex_names = \<lparr>ms_interfaces = [], ms_links = [(''wg1:ddddeeee'', [(''name'', JStr ''depot'')]), (''wg1:x'', [(''name'', JStr ''hq'')])]\<rparr>"

theorem updatePeer_names_unique_witness:
  "unique_names (ms_links (snd (updatePeer ex_links (ex_links ! 1) (JObj [(''name'', JStr ''store'')]) ex_names)))
   \<and> isl (fst (updatePeer ex_links (ex_links ! 1) (JObj [(''name'', JStr ''hq'')]) ex_names))
   \<and> \<not> isl (fst (updatePeer ex_links (ex_links ! 1) (JObj [(''name'', JStr ''store'')]) ex_names))"
proof -
  have "stored_entries (ms_links ex_names)" by code_simp
  moreover have "unique_names (ms_links ex_names)"
    unfolding unique_names_def ex_names_def by (auto simp: entry_name_def name_text_def)
  moreover have "isl (fst (updatePeer ex_links (ex_links ! 1) (JObj [(''name'', JStr ''hq'')]) ex_names))"
    "\<not> isl (fst (updatePeer ex_links (ex_links ! 1) (JObj [(''name'', JStr ''store'')]) ex_names))"
    by code_simp+
  ultimately show ?thesis using updatePeer_names_unique by blast
qed

text \<open>The check looks at the stored names only. A link without a stored name is addressed by its
  generated one, and another link can be renamed to it: two links of the next status then share the
  name by which the agents are bound.\<close>

lemma updatePeer_misses_generated_names:
  "let (r, store) = updatePeer ex_links (ex_links ! 1) (JObj [(''name'', JStr ''site-to-site-aaaabbbb'')]) ex_names
   in \<not> isl r
    \<and> lr_name (buildLinkRecord ''wg1'' (ex_peer\<lparr>dp_publicKey := Some ''ddddeeee''\<rparr>) 1 (entry_of (ms_links store) ''wg1:ddddeeee''))
      = lr_name (buildLinkRecord ''wg1'' ex_peer 0 (entry_of (ms_links store) (lr_id (ex_links ! 0))))"
  by code_simp

end
