(* ===== verification/Wg_Plan.thy ===== *)
theory Wg_Plan
  imports Wg_Links Link_Rename
begin

text \<open>
  backend/internal/wireguard-plan.js: the preview of a metadata patch (\<open>buildPlanPreview\<close>), its
  application (\<open>applyMetadata\<close>), the renames that follow a write (\<open>diffLinkRenames\<close>,
  \<open>finishMetadataWrite\<close>), the merge of a backup into the live store (\<open>mergeBackupIntoLive\<close>)
  and the audit list. Stored values are compared as values, which for the texts, truth values and
  lists of texts of the store is what comparing their JSON texts does. Times and file names are
  arguments, and writing a file succeeds.
\<close>

subsection \<open>The normalized patch and the differences\<close>

record norm_patch =
  np_interfaces :: "(string \<times> props) list"
  np_links :: "(string \<times> props) list"

definition norm_entries :: "(jsval \<Rightarrow> wg_error + props) \<Rightarrow> (string \<times> jsval) list \<Rightarrow> wg_error + (string \<times> props) list" where
  "norm_entries clean kvs =
     bind_res (map_res (\<lambda>(k, v). bind_res (clean v) (\<lambda>p. Inr (k, p))) kvs) (\<lambda>es. Inr (filter (\<lambda>(k, p). p \<noteq> []) es))"

definition normalizePatch :: "meta_patch \<Rightarrow> wg_error + norm_patch" where
  "normalizePatch patch =
     bind_res (norm_entries sanitizeInterfaceMetadataPatch (mp_interfaces patch)) (\<lambda>ifs.
     bind_res (norm_entries sanitizeLinkMetadataPatch (mp_links patch)) (\<lambda>ls.
       Inr \<lparr>np_interfaces = ifs, np_links = ls\<rparr>))"

record diff_entry =
  df_id :: string
  df_kind :: string
  df_changedFields :: "string list"
  df_before :: props
  df_after :: props

definition changed_fields :: "props \<Rightarrow> props \<Rightarrow> string list" where
  "changed_fields before after =
     filter (\<lambda>f. getp (JObj before) f \<noteq> getp (JObj after) f) (uniq (map fst before @ map fst after))"

definition buildDiffEntries :: "(string \<times> props) list \<Rightarrow> (string \<times> props) list \<Rightarrow> string \<Rightarrow> diff_entry list" where
  "buildDiffEntries current patches kind =
     concat (map (\<lambda>(i, patch).
       let before = entry_of current i; after = mergeMetadataEntry before patch; fs = changed_fields before after
       in if fs = [] then []
          else [\<lparr>df_id = i, df_kind = kind, df_changedFields = fs, df_before = before, df_after = after\<rparr>]) patches)"

subsection \<open>Projected records\<close>

definition text_or :: "props \<Rightarrow> string \<Rightarrow> string \<Rightarrow> string" where
  "text_or m k d = or_else (meta_text m k) (if d = [] then ''unknown'' else d)"

text \<open>\<open>Object.hasOwn(m, k) ? m[k] : d\<close> of a list.\<close>

definition own_list :: "props \<Rightarrow> string \<Rightarrow> string list \<Rightarrow> string list" where
  "own_list m k d = (if k \<in> fst ` set m then or_else (meta_list m k) [] else d)"

definition buildProjectedInterface :: "iface_status \<Rightarrow> props \<Rightarrow> iface_status" where
  "buildProjectedInterface item m =
     item\<lparr>si_role := text_or m ''role'' (si_role item),
          si_managementMode := text_or m ''managementMode'' (si_managementMode item),
          si_importedNetworks := own_list m ''importedNetworks'' (si_importedNetworks item),
          si_exportedNetworks := or_else (meta_list m ''exportedNetworks'') (si_exportedNetworks item),
          si_routeTargets := own_list m ''routeTargets'' (si_routeTargets item),
          si_notes := own_list m ''notes'' (si_notes item)\<rparr>"

definition buildProjectedLink :: "link_record \<Rightarrow> props \<Rightarrow> link_record" where
  "buildProjectedLink link m =
     (let type = text_or m ''type'' (lr_type link)
      in link\<lparr>lr_type := type,
           lr_name := or_else (meta_text m ''name'')
             (case lr_peerPublicKey link of Some k \<Rightarrow> generated_name type k | None \<Rightarrow> lr_name link),
           lr_exportedNetworks := or_else (meta_list m ''exportedNetworks'') (lr_exportedNetworks link),
           lr_importedNetworks := own_list m ''importedNetworks'' (lr_importedNetworks link),
           lr_returnPathMode := text_or m ''returnPathMode'' (lr_returnPathMode link),
           lr_remoteManagementMode := text_or m ''remoteManagementMode'' (lr_remoteManagementMode link),
           lr_planIntent := or_else (meta_text m ''planIntent'')
             (if lr_planIntent link \<noteq> [] then lr_planIntent link else text_or m ''type'' (lr_type link)),
           lr_planState := meta_text m ''planState'',
           lr_notes := own_list m ''notes'' (lr_notes link),
           lr_hasMetadata := (m \<noteq> []),
           lr_warnings := [], lr_nextActions := []\<rparr>)"

subsection \<open>What a patch would need to be applied\<close>

datatype plan_error =
    UnknownInterface string
  | UnknownLink string
  | DuplicateName string
  | SubnetConflict net_conflict

definition configRelevantFields :: "string list" where
  "configRelevantFields = [''name'', ''type'', ''importedNetworks'', ''exportedNetworks'', ''returnPathMode'',
     ''remoteManagementMode'', ''planIntent'', ''planState'', ''role'', ''managementMode'', ''routeTargets'']"

record plan_diff =
  pd_interfaces :: "diff_entry list"
  pd_links :: "diff_entry list"

definition classifyChangeScope :: "plan_diff \<Rightarrow> string" where
  "classifyChangeScope d =
     (let fs = dedupe (concat (map df_changedFields (pd_interfaces d)) @ concat (map df_changedFields (pd_links d)))
      in if fs = [] then ''none''
         else if list_ex (\<lambda>f. f \<in> set configRelevantFields) fs then ''metadata-with-config-intent''
         else ''metadata-only'')"

record apply_contract =
  ac_canApply :: bool
  ac_blockedBy :: "plan_error list"
  ac_requiresBackup :: bool
  ac_changeScope :: string
  ac_changeCount :: nat
  ac_recommendedSteps :: "string list"

definition buildApplyContract :: "plan_error list \<Rightarrow> string list \<Rightarrow> plan_diff \<Rightarrow> apply_contract" where
  "buildApplyContract errors nextActions d =
     (let count = sum_list (map (length \<circ> df_changedFields) (pd_interfaces d))
            + sum_list (map (length \<circ> df_changedFields) (pd_links d));
          scope = classifyChangeScope d; blockedBy = uniq errors;
          needsBackup = (scope \<noteq> ''none'' \<and> 0 < count)
      in \<lparr>ac_canApply = (blockedBy = [] \<and> 0 < count), ac_blockedBy = blockedBy, ac_requiresBackup = needsBackup,
          ac_changeScope = scope, ac_changeCount = count,
          ac_recommendedSteps = dedupe ((if needsBackup then [''create-backup-before-apply''] else [])
            @ (if scope = ''metadata-with-config-intent'' then [''implement-write-layer-before-apply''] else [])
            @ take 5 nextActions)\<rparr>)"

definition buildPatchSummary :: "norm_patch \<Rightarrow> string list \<times> string list" where
  "buildPatchSummary patch = (map fst (np_interfaces patch), map fst (np_links patch))"

subsection \<open>The preview\<close>

text \<open>Names seen so far and names seen twice, in the order they were found.\<close>

definition see_name :: "link_record \<Rightarrow> string list \<times> string list \<Rightarrow> string list \<times> string list" where
  "see_name l st =
     (let (seen, dups) = st; n = lr_name l
      in if n = [] then st else if n \<in> set seen then (seen, push_new n dups) else (seen @ [n], dups))"

definition duplicate_names :: "link_record list \<Rightarrow> string list" where
  "duplicate_names links = snd (fold see_name links ([], []))"

definition claim_of :: "link_record \<Rightarrow> link_claim" where
  "claim_of l = \<lparr>lc_type = Some (lr_type l), lc_name = Some (lr_name l), lc_nets = lr_importedNetworks l\<rparr>"

definition claims_by_id :: "link_record list \<Rightarrow> (string \<times> link_claim) list" where
  "claims_by_id links = fold (\<lambda>l. AList.update (lr_id l) (claim_of l)) links []"

definition merge_all :: "(string \<times> props) list \<Rightarrow> (string \<times> props) list \<Rightarrow> (string \<times> props) list" where
  "merge_all current patches =
     fold (\<lambda>(i, p). AList.update i (mergeMetadataEntry (entry_of current i) p)) patches current"

definition nextMetadata :: "meta_store \<Rightarrow> norm_patch \<Rightarrow> meta_store" where
  "nextMetadata current patch =
     \<lparr>ms_interfaces = merge_all (ms_interfaces current) (np_interfaces patch),
      ms_links = merge_all (ms_links current) (np_links patch)\<rparr>"

definition unknown_targets :: "wg_status \<Rightarrow> norm_patch \<Rightarrow> plan_error list" where
  "unknown_targets status patch =
     map UnknownInterface (filter (\<lambda>n. n \<notin> si_name ` set (ws_interfaces status)) (map fst (np_interfaces patch)))
     @ map UnknownLink (filter (\<lambda>i. i \<notin> lr_id ` set (ws_links status)) (map fst (np_links patch)))"

definition projected_links :: "wg_status \<Rightarrow> norm_patch \<Rightarrow> link_record list" where
  "projected_links status patch =
     (let next = nextMetadata (ws_metadata status) patch
      in map (\<lambda>l. buildProjectedLink l (entry_of (ms_links next) (lr_id l))) (ws_links status))"

definition projected_interfaces :: "wg_status \<Rightarrow> norm_patch \<Rightarrow> iface_status list" where
  "projected_interfaces status patch =
     (let next = nextMetadata (ws_metadata status) patch
      in map (\<lambda>i. buildProjectedInterface i (entry_of (ms_interfaces next) (si_name i))) (ws_interfaces status))"

definition plan_errors :: "wg_status \<Rightarrow> norm_patch \<Rightarrow> plan_error list" where
  "plan_errors status patch =
     (let links = projected_links status patch
      in unknown_targets status patch @ map DuplicateName (duplicate_names links)
         @ map SubnetConflict (findLinkNetworkConflicts (claims_by_id links) None))"

definition status_routes :: "wg_status \<Rightarrow> route_table" where
  "status_routes status = \<lparr>rs_all = ra_all (ws_routes status), rs_wireguard = ra_wireguard (ws_routes status),
     rs_privateRoutes = ra_privateRoutes (ws_routes status)\<rparr>"

record plan_preview =
  pv_valid :: bool
  pv_errors :: "plan_error list"
  pv_warnings :: "string list"
  pv_nextActions :: "string list"
  pv_apply :: apply_contract
  pv_patch :: norm_patch
  pv_diff :: plan_diff
  pv_interfaces :: "iface_status list"
  pv_links :: "link_record list"
  pv_topology :: topology
  pv_routes :: route_analysis
  pv_summary :: wg_summary

definition buildPlanPreview :: "wg_status \<Rightarrow> meta_patch \<Rightarrow> wg_error + plan_preview" where
  "buildPlanPreview status rawPatch =
     bind_res (normalizePatch rawPatch) (\<lambda>patch.
     let current = ws_metadata status; errors = plan_errors status patch;
         ifacesBase = projected_interfaces status patch; linksBase = projected_links status patch;
         topo = buildTopology ifacesBase linksBase;
         ra = buildRouteAnalysis (status_routes status) topo;
         links = map (\<lambda>l. enrichLinkRecord l ra) linksBase;
         interfaces = map (\<lambda>i. enrichInterfaceStatus i links) ifacesBase;
         warnings = dedupe (deriveGlobalWarnings interfaces ra
           @ [''Preview only applies metadata; live WireGuard config is unchanged'']);
         nextActions = dedupe (deriveGlobalNextActions interfaces links ra
           @ (if errors \<noteq> [] then [''resolve-preview-errors''] else []));
         diff = \<lparr>pd_interfaces = buildDiffEntries (ms_interfaces current) (np_interfaces patch) ''interface'',
                 pd_links = buildDiffEntries (ms_links current) (np_links patch) ''link''\<rparr>
     in Inr \<lparr>pv_valid = (errors = []), pv_errors = errors, pv_warnings = warnings, pv_nextActions = nextActions,
          pv_apply = buildApplyContract errors nextActions diff, pv_patch = patch, pv_diff = diff,
          pv_interfaces = interfaces, pv_links = links, pv_topology = topo, pv_routes = ra,
          pv_summary = buildSummary interfaces links topo ra\<rparr>)"

subsection \<open>Renames that follow a write\<close>

definition stored_name :: "meta_store \<Rightarrow> string \<Rightarrow> string option" where
  "stored_name store i = meta_text (entry_of (ms_links store) i) ''name''"

definition first_some :: "'a option \<Rightarrow> 'a option \<Rightarrow> 'a option" where
  "first_some x y = (case x of Some _ \<Rightarrow> x | None \<Rightarrow> y)"

definition rename_of :: "meta_store \<Rightarrow> meta_store \<Rightarrow> (string \<Rightarrow> string option) \<Rightarrow> (string \<Rightarrow> string option) \<Rightarrow> string \<Rightarrow> rename list" where
  "rename_of before after fallbackNames afterNames i =
     (case (first_some (stored_name before i) (fallbackNames i), first_some (stored_name after i) (afterNames i)) of
        (Some old, Some new) \<Rightarrow> if old \<noteq> [] \<and> new \<noteq> [] \<and> old \<noteq> new then [\<lparr>oldName = old, newName = new\<rparr>] else []
      | _ \<Rightarrow> [])"

definition diffLinkRenames ::
  "meta_store \<Rightarrow> meta_store \<Rightarrow> (string \<Rightarrow> string option) \<Rightarrow> (string \<Rightarrow> string option) \<Rightarrow> rename list" where
  "diffLinkRenames before after fallbackNames afterNames =
     concat (map (rename_of before after fallbackNames afterNames) (map fst (ms_links after)))"

definition statusLinkNames :: "wg_status \<Rightarrow> string \<Rightarrow> string option" where
  "statusLinkNames status =
     map_of (rev (map (\<lambda>l. (lr_id l, lr_name l)) (filter (\<lambda>l. lr_id l \<noteq> [] \<and> lr_name l \<noteq> []) (ws_links status))))"

text \<open>The tail of every write: the status after it, the cascade to the bindings, and the syncs, whose
  failures end up in the answer. \<open>status_of\<close> is the status of a store, \<open>run\<close> a rename of
  the bindings.\<close>

record finish_result =
  fr_cascade :: cascade_result
  fr_hubSync :: "string option"
  fr_agentSync :: "string option"
  fr_status :: wg_status

definition finishMetadataWrite ::
  "(meta_store \<Rightarrow> wg_status) \<Rightarrow> 's rename_op \<Rightarrow> int \<Rightarrow> (string list \<Rightarrow> string) \<Rightarrow> string
     \<Rightarrow> meta_store \<Rightarrow> meta_store \<Rightarrow> wg_status \<Rightarrow> bool \<Rightarrow> 's \<Rightarrow> finish_result \<times> 's" where
  "finishMetadataWrite status_of run stamp hub_sync agent_sync previous written statusBefore syncConfig bindings =
     (let after = status_of written;
          renames = diffLinkRenames previous written (statusLinkNames statusBefore) (statusLinkNames after);
          (cascade, bindings) = cascadeLinkRenames run stamp renames bindings
      in (\<lparr>fr_cascade = cascade,
           fr_hubSync = (if syncConfig then Some (hub_sync (map si_name (ws_interfaces after))) else None),
           fr_agentSync = (if syncConfig then Some agent_sync else None),
           fr_status = status_of written\<rparr>, bindings))"

subsection \<open>Applying a patch\<close>

datatype apply_failure =
    PatchRefused wg_error
  | PreviewInvalid "plan_error list"
  | ApplyBlocked "plan_error list"

definition patch_of :: "norm_patch \<Rightarrow> meta_patch" where
  "patch_of p = \<lparr>mp_interfaces = map (\<lambda>(k, e). (k, JObj e)) (np_interfaces p),
     mp_links = map (\<lambda>(k, e). (k, JObj e)) (np_links p)\<rparr>"

text \<open>The gate, then the locked write: the answer is the store before and the store written.\<close>

definition apply_gate :: "wg_status \<Rightarrow> meta_patch \<Rightarrow> apply_failure + plan_preview" where
  "apply_gate status patch =
     (case buildPlanPreview status patch of
        Inl e \<Rightarrow> Inl (PatchRefused e)
      | Inr pv \<Rightarrow> if \<not> pv_valid pv then Inl (PreviewInvalid (pv_errors pv))
                  else if \<not> ac_canApply (pv_apply pv) then Inl (ApplyBlocked (ac_blockedBy (pv_apply pv)))
                  else Inr pv)"

definition apply_write :: "plan_preview \<Rightarrow> meta_store \<Rightarrow> (apply_failure + meta_store \<times> meta_store) \<times> meta_store" where
  "apply_write pv store =
     (case applyMetadataPatch (\<lambda>_. None) (patch_of (pv_patch pv)) store of
        (Inl e, s) \<Rightarrow> (Inl (PatchRefused e), s)
      | (Inr r, s) \<Rightarrow> (Inr r, s))"

record wg_world =
  ww_store :: meta_store
  ww_bindings :: "agent_row list"
  ww_backups :: "(string \<times> meta_store) list"

text \<open>\<open>entries.unshift(entry); entries.slice(0, 25)\<close>.\<close>

definition append_audit :: "'a \<Rightarrow> 'a list \<Rightarrow> 'a list" where
  "append_audit entry entries = take 25 (entry # entries)"

definition applyMetadata ::
  "(meta_store \<Rightarrow> wg_status) \<Rightarrow> agent_row list rename_op \<Rightarrow> int \<Rightarrow> (string list \<Rightarrow> string) \<Rightarrow> string \<Rightarrow> string
     \<Rightarrow> meta_patch \<Rightarrow> wg_world \<Rightarrow> (apply_failure + plan_preview \<times> finish_result) \<times> wg_world" where
  "applyMetadata status_of run stamp hub_sync agent_sync backupPath patch w =
     (let before = status_of (ww_store w)
      in case apply_gate before patch of
           Inl e \<Rightarrow> (Inl e, w)
         | Inr pv \<Rightarrow>
             (let w1 = w\<lparr>ww_backups := (backupPath, ws_metadata before) # ww_backups w\<rparr>
              in case apply_write pv (ww_store w1) of
                   (Inl e, s) \<Rightarrow> (Inl e, w1\<lparr>ww_store := s\<rparr>)
                 | (Inr (written, previous), s) \<Rightarrow>
                     (case finishMetadataWrite status_of run stamp hub_sync agent_sync previous written before
                             (ac_changeScope (pv_apply pv) = ''metadata-with-config-intent'') (ww_bindings w) of
                        (fr, b) \<Rightarrow> (Inr (pv, fr), w1\<lparr>ww_store := s, ww_bindings := b\<rparr>))))"

subsection \<open>Restoring a backup\<close>

definition RESTORE_KEEP_IF_MISSING :: "string list" where
  "RESTORE_KEEP_IF_MISSING = [''name'', ''type'', ''importedNetworks'']"

definition keep_missing :: "props \<Rightarrow> string \<Rightarrow> props \<Rightarrow> props" where
  "keep_missing current key merged =
     (let absent = (if key = ''name'' then \<not> js_truthy (getp (JObj merged) key) else key \<notin> fst ` set merged)
      in if absent \<and> key \<in> fst ` set current \<and> getp (JObj current) key \<notin> {JUndef, JStr []}
         then AList.update key (getp (JObj current) key) merged else merged)"

definition mergeRestoredLink :: "props option \<Rightarrow> props \<Rightarrow> props" where
  "mergeRestoredLink current backupEntry =
     (case current of None \<Rightarrow> backupEntry
      | Some cur \<Rightarrow> fold (keep_missing cur) RESTORE_KEEP_IF_MISSING backupEntry)"

record merge_info =
  mi_store :: meta_store
  mi_restoredLinks :: "string list"
  mi_keptLinks :: "string list"
  mi_skippedLinks :: "string list"
  mi_skippedInterfaces :: "string list"

definition restore_link :: "(string \<times> props) list \<Rightarrow> string \<Rightarrow> (string \<times> props) list \<Rightarrow> (string \<times> props) list" where
  "restore_link bak i links =
     (case map_of bak i of None \<Rightarrow> links
      | Some e \<Rightarrow> AList.update i (mergeRestoredLink (map_of links i) e) links)"

definition restore_interface :: "string set \<Rightarrow> string \<times> props \<Rightarrow> (string \<times> props) list \<Rightarrow> (string \<times> props) list" where
  "restore_interface live kv m = (if fst kv \<in> live then AList.update (fst kv) (snd kv) m else m)"

text \<open>The live ids are the elements of a set, in insertion order and each once.\<close>

definition mergeBackupIntoLive :: "meta_store \<Rightarrow> meta_store \<Rightarrow> string list \<Rightarrow> string list \<Rightarrow> merge_info" where
  "mergeBackupIntoLive cur bak liveLinkIds liveInterfaceNames =
     (let has = (\<lambda>i. i \<in> fst ` set (ms_links bak))
      in \<lparr>mi_store = \<lparr>ms_interfaces = fold (restore_interface (set liveInterfaceNames)) (ms_interfaces bak) (ms_interfaces cur),
                      ms_links = fold (restore_link (ms_links bak)) liveLinkIds (ms_links cur)\<rparr>,
          mi_restoredLinks = filter has liveLinkIds,
          mi_keptLinks = filter (\<lambda>i. \<not> has i) liveLinkIds,
          mi_skippedLinks = filter (\<lambda>i. i \<notin> set liveLinkIds) (map fst (ms_links bak)),
          mi_skippedInterfaces = filter (\<lambda>n. n \<notin> set liveInterfaceNames) (map fst (ms_interfaces bak))\<rparr>)"

datatype restore_failure = UnknownBackup string | CorruptBackup string | Unavailable

text \<open>The backups are the files of the directory; \<open>parse\<close> reads one as JSON.\<close>

definition restoreMetadataBackup ::
  "(meta_store \<Rightarrow> wg_status) \<Rightarrow> agent_row list rename_op \<Rightarrow> int \<Rightarrow> (string list \<Rightarrow> string) \<Rightarrow> string
     \<Rightarrow> (string \<times> meta_store option) list \<Rightarrow> string \<Rightarrow> string \<Rightarrow> wg_world
     \<Rightarrow> (restore_failure + merge_info \<times> finish_result) \<times> wg_world" where
  "restoreMetadataBackup status_of run stamp hub_sync agent_sync backups backupPath newBackupPath w =
     (case map_of backups backupPath of
        None \<Rightarrow> (Inl (UnknownBackup backupPath), w)
      | Some None \<Rightarrow> (Inl (CorruptBackup backupPath), w)
      | Some (Some source) \<Rightarrow>
          (let before = status_of (ww_store w)
           in if \<not> ws_available before then (Inl Unavailable, w)
              else (let previous = ww_store w;
                        info = mergeBackupIntoLive previous source
                          (uniq (map lr_id (ws_links before))) (uniq (map si_name (ws_interfaces before)));
                        (fr, b) = finishMetadataWrite status_of run stamp hub_sync agent_sync previous (mi_store info)
                          before True (ww_bindings w)
                    in (Inr (info, fr),
                        w\<lparr>ww_store := mi_store info, ww_bindings := b,
                          ww_backups := (newBackupPath, ws_metadata before) # ww_backups w\<rparr>))))"

subsection \<open>The preview predicts the write\<close>

lemma norm_entries_Inr:
  assumes "norm_entries clean kvs = Inr es"
  shows "\<forall>(k, p) \<in> set es. p \<noteq> [] \<and> (\<exists>v. (k, v) \<in> set kvs \<and> clean v = Inr p)"
    and "distinct (map fst kvs) \<Longrightarrow> distinct (map fst es)"
proof -
  obtain xs where xs: "map_res (\<lambda>(k, v). bind_res (clean v) (\<lambda>p. Inr (k, p))) kvs = Inr xs"
    and es: "es = filter (\<lambda>(k, p). p \<noteq> []) xs"
    using assms by (auto simp: norm_entries_def bind_res_Inr_iff)
  have r: "list_all2 (\<lambda>(k, v) (k', p). k' = k \<and> clean v = Inr p) kvs xs"
    using xs unfolding map_res_Inr_iff by (rule list_all2_mono) (auto simp: bind_res_Inr_iff split: prod.splits)
  then have "map fst xs = map fst kvs" by (induction) auto
  then show "distinct (map fst kvs) \<Longrightarrow> distinct (map fst es)"
    unfolding es by (metis distinct_map_filter)
  from r have "\<forall>(k, p) \<in> set xs. \<exists>v. (k, v) \<in> set kvs \<and> clean v = Inr p" by (induction) fastforce+
  then show "\<forall>(k, p) \<in> set es. p \<noteq> [] \<and> (\<exists>v. (k, v) \<in> set kvs \<and> clean v = Inr p)"
    by (auto simp: es)
qed

lemma fold_update_map_of:
  "distinct (map fst ps) \<Longrightarrow> map_of (fold (\<lambda>(i, p). AList.update i (g i p)) ps m) i =
     (case map_of ps i of None \<Rightarrow> map_of m i | Some p \<Rightarrow> Some (g i p))"
proof (induction ps arbitrary: m)
  case (Cons x ps)
  obtain j p where x: "x = (j, p)" by (cases x)
  then have "map_of ps j = None" using Cons.prems by (simp add: map_of_eq_None_iff)
  then show ?case using Cons x by (cases "i = j") (simp_all add: update_conv' cong: option.case_cong)
qed simp

lemma map_of_merge_all:
  "distinct (map fst ps) \<Longrightarrow> map_of (merge_all m ps) i =
     (case map_of ps i of None \<Rightarrow> map_of m i | Some p \<Rightarrow> Some (mergeMetadataEntry (entry_of m i) p))"
  unfolding merge_all_def by (rule fold_update_map_of)

text \<open>An empty text of the preview is no property of the store; nothing else differs.\<close>

definition agrees :: "jsval \<Rightarrow> jsval \<Rightarrow> bool" where
  "agrees stored previewed \<longleftrightarrow> stored = previewed \<or> (previewed = JStr [] \<and> stored = JUndef)"

definition same_entries :: "(string \<times> props) list \<Rightarrow> (string \<times> props) list \<Rightarrow> bool" where
  "same_entries stored previewed \<longleftrightarrow>
     (\<forall>i k. agrees (getp (JObj (entry_of stored i)) k) (getp (JObj (entry_of previewed i)) k))"

text \<open>One group of entries: cleaning the cleaned patch again and merging it into the store.\<close>

lemma merge_again:
  assumes again: "\<And>v p. clean v = Inr p \<Longrightarrow> clean (JObj p) = Inr (map (apsnd settle) p)"
    and dist: "\<And>v p. clean v = Inr p \<Longrightarrow> distinct (map fst p)"
    and es: "norm_entries clean kvs = Inr es" and kvs: "distinct (map fst kvs)" and m: "stored_entries m"
  shows "\<exists>m'. fold_res (merge_entry clean) (map (\<lambda>(k, e). (k, JObj e)) es) m = Inr m' \<and> same_entries m' (merge_all m es)"
proof -
  let ?kvs = "map (\<lambda>(k, e). (k, JObj e)) es"
  have cl: "clean (JObj p) = Inr (map (apsnd settle) p) \<and> distinct (map fst p)" if "(k, p) \<in> set es" for k p
    using norm_entries_Inr(1) [OF es] that again dist by blast
  have de: "distinct (map fst es)" by (rule norm_entries_Inr(2) [OF es kvs])
  have keys: "map fst ?kvs = map fst es" by (induction es) auto
  have dk: "distinct (map fst ?kvs)" using de by (simp only: keys)
  have "list_all (\<lambda>kv. \<not> isl (clean (snd kv))) ?kvs" using cl by (auto simp: list_all_iff)
  then obtain m' where m': "fold_res (merge_entry clean) ?kvs m = Inr m'" using fold_merge_entry_ok by blast
  have mk: "map_of ?kvs i = map_option JObj (map_of es i)" for i
    by (induction es) auto
  have "agrees (getp (JObj (entry_of m' i)) k) (getp (JObj (entry_of (merge_all m es) i)) k)" for i k
  proof (cases "map_of es i")
    case None
    then show ?thesis using patched_merge [OF m' dk m dist, where i = i and k = k]
      by (simp add: patched_def mk agrees_def entry_of_def [of "merge_all m es"] map_of_merge_all de)
        (simp add: entry_of_def)
  next
    case (Some p)
    then have p: "clean (JObj p) = Inr (map (apsnd settle) p)" "distinct (map fst p)"
      using cl map_of_SomeD by fastforce+
    have ms: "map_of (map (apsnd settle) p) k = map_option settle (map_of p k)" by (induction p) auto
    have "getp (JObj (entry_of m' i)) k = (case map_option settle (map_of p k) of None \<Rightarrow> getp (JObj (entry_of m i)) k | Some w \<Rightarrow> w)"
      using patched_merge [OF m' dk m dist, where i = i and k = k] Some p(1) by (simp add: patched_def mk ms)
    moreover have "getp (JObj (entry_of (merge_all m es) i)) k = (case map_of p k of None \<Rightarrow> getp (JObj (entry_of m i)) k | Some w \<Rightarrow> w)"
      using getp_merge [OF stored_entry [OF m] p(2), of i k] Some
      by (simp add: entry_of_def [of "merge_all m es"] map_of_merge_all de)
    ultimately show ?thesis by (simp add: agrees_def settle_def split: option.split)
  qed
  then show ?thesis using m' by (auto simp: same_entries_def)
qed

text \<open>Writing the cleaned patch of a preview to the store it was made for.\<close>

lemma apply_write_predicted:
  assumes "stored_entries (ms_interfaces store)" "stored_entries (ms_links store)"
    and "distinct (map fst (mp_interfaces patch))" "distinct (map fst (mp_links patch))"
    and "ws_metadata status = store" "buildPlanPreview status patch = Inr pv"
  shows "\<exists>written. apply_write pv store = (Inr (written, store), written)
    \<and> same_entries (ms_interfaces written) (ms_interfaces (nextMetadata store (pv_patch pv)))
    \<and> same_entries (ms_links written) (ms_links (nextMetadata store (pv_patch pv)))"
proof -
  obtain np where "normalizePatch patch = Inr np" and pv: "pv_patch pv = np"
    using assms(6) by (auto simp: buildPlanPreview_def bind_res_Inr_iff Let_def)
  then obtain ifs ls where n: "norm_entries sanitizeInterfaceMetadataPatch (mp_interfaces patch) = Inr ifs"
      "norm_entries sanitizeLinkMetadataPatch (mp_links patch) = Inr ls"
    and np: "np = \<lparr>np_interfaces = ifs, np_links = ls\<rparr>"
    by (auto simp: normalizePatch_def bind_res_Inr_iff)
  obtain mi where mi: "fold_res (merge_entry sanitizeInterfaceMetadataPatch) (map (\<lambda>(k, e). (k, JObj e)) ifs) (ms_interfaces store) = Inr mi"
      "same_entries mi (merge_all (ms_interfaces store) ifs)"
    using merge_again [OF _ _ n(1) assms(3,1)] sanitizeInterfaceMetadataPatch_again sanitize_distinct(2) by blast
  obtain ml where ml: "fold_res (merge_entry sanitizeLinkMetadataPatch) (map (\<lambda>(k, e). (k, JObj e)) ls) (ms_links store) = Inr ml"
      "same_entries ml (merge_all (ms_links store) ls)"
    using merge_again [OF _ _ n(2) assms(4,2)] sanitizeLinkMetadataPatch_again sanitize_distinct(1) by blast
  have "mergeMetadataStorePatch store (patch_of np) = Inr \<lparr>ms_interfaces = mi, ms_links = ml\<rparr>"
    using mi(1) ml(1) by (simp add: mergeMetadataStorePatch_def patch_of_def np)
  then have "apply_write pv store = (Inr (\<lparr>ms_interfaces = mi, ms_links = ml\<rparr>, store), \<lparr>ms_interfaces = mi, ms_links = ml\<rparr>)"
    by (simp add: apply_write_def applyMetadataPatch_def pv)
  then show ?thesis using mi(2) ml(2) by (simp add: nextMetadata_def pv np)
qed

text \<open>C34: The preview predicts the write. If the preview of a patch exists, then applying the cleaned
  patch it shows to the same store succeeds, and every property of every interface and link is what
  the metadata behind the preview say, except that a text the cleaning emptied is dropped.\<close>

theorem preview_predicts_write:
  assumes "stored_entries (ms_interfaces store)" "stored_entries (ms_links store)"
    and "distinct (map fst (mp_interfaces patch))" "distinct (map fst (mp_links patch))"
    and "ws_metadata status = store" "buildPlanPreview status patch = Inr pv"
  shows "\<exists>written. apply_write pv store = (Inr (written, store), written)
    \<and> same_entries (ms_interfaces written) (ms_interfaces (nextMetadata store (pv_patch pv)))
    \<and> same_entries (ms_links written) (ms_links (nextMetadata store (pv_patch pv)))"
  by (rule apply_write_predicted [OF assms])

definition ex_plan_status :: wg_status where
  "ex_plan_status = (unavailable_status [] ex_names)\<lparr>ws_available := True, ws_links := ex_links\<rparr>"

definition ex_plan_patch :: meta_patch where
  "ex_plan_patch = \<lparr>mp_interfaces = [],
     mp_links = [(''wg1:ddddeeee'', JObj [(''name'', JStr ''store''), (''importedNetworks'', JArr [JStr ''10.1.2.3/16''])])]\<rparr>"

subsection \<open>What a valid preview guarantees\<close>

lemma see_name_pair:
  "see_name l (seen, dups) = (if lr_name l = [] then (seen, dups)
     else if lr_name l \<in> set seen then (seen, push_new (lr_name l) dups) else (seen @ [lr_name l], dups))"
  by (simp add: see_name_def)

lemma fold_see_name:
  "fold see_name ls (seen, dups) = (seen', dups') \<Longrightarrow> distinct seen \<Longrightarrow>
    (dups' = [] \<longleftrightarrow> dups = [] \<and> distinct (seen @ filter (\<lambda>n. n \<noteq> []) (map lr_name ls)))"
proof (induction ls arbitrary: seen dups)
  case (Cons l ls)
  show ?case
  proof (cases "lr_name l = []")
    case True
    then show ?thesis using Cons by (simp add: see_name_pair)
  next
    case n: False
    show ?thesis
    proof (cases "lr_name l \<in> set seen")
      case True
      then have f: "fold see_name ls (seen, push_new (lr_name l) dups) = (seen', dups')"
        using Cons.prems(1) n by (simp add: see_name_pair)
      have "push_new (lr_name l) dups \<noteq> []" by (simp add: push_new_def) auto
      with Cons.IH [OF f Cons.prems(2)] True n show ?thesis by auto
    next
      case False
      then have f: "fold see_name ls (seen @ [lr_name l], dups) = (seen', dups')"
        using Cons.prems(1) n by (simp add: see_name_pair)
      have "distinct (seen @ [lr_name l])" using False Cons.prems(2) by simp
      from Cons.IH [OF f this] n show ?thesis by simp
    qed
  qed
qed simp

lemma duplicate_names_Nil: "duplicate_names links = [] \<longleftrightarrow> distinct (filter (\<lambda>n. n \<noteq> []) (map lr_name links))"
proof -
  obtain seen dups where f: "fold see_name links ([], []) = (seen, dups)" by fastforce
  from fold_see_name [OF f] show ?thesis by (simp add: duplicate_names_def f)
qed

lemma fold_update_new:
  "distinct (map f xs) \<Longrightarrow> f ` set xs \<inter> fst ` set m = {} \<Longrightarrow>
    fold (\<lambda>x. AList.update (f x) (g x)) xs m = m @ map (\<lambda>x. (f x, g x)) xs"
proof (induction xs arbitrary: m)
  case (Cons x xs)
  have "k \<notin> fst ` set m \<Longrightarrow> AList.update k v m = m @ [(k, v)]" for k v by (induction m) auto
  then have "AList.update (f x) (g x) m = m @ [(f x, g x)]" using Cons.prems(2) by simp
  moreover have "f ` set xs \<inter> fst ` set (m @ [(f x, g x)]) = {}" using Cons.prems by auto
  ultimately show ?case using Cons.IH [of "m @ [(f x, g x)]"] Cons.prems(1) by simp
qed simp

lemma claims_by_id_distinct:
  "distinct (map lr_id links) \<Longrightarrow> claims_by_id links = map (\<lambda>l. (lr_id l, claim_of l)) links"
  unfolding claims_by_id_def by (simp add: fold_update_new)

definition routes_net :: "link_record \<Rightarrow> string \<Rightarrow> bool" where
  "routes_net l n \<longleftrightarrow> lr_type l \<noteq> ''client'' \<and> n \<in> set (lr_importedNetworks l) \<and> \<not> isHostRoute n"

lemma claimed_links:
  "distinct (map lr_id links) \<Longrightarrow> claimed (claims_by_id links) i n \<longleftrightarrow> (\<exists>l \<in> set links. lr_id l = i \<and> routes_net l n)"
  by (force simp: claims_by_id_distinct claimed_def claim_of_def routes_net_def)

lemma no_conflict_links:
  assumes "distinct (map lr_id links)"
  shows "findLinkNetworkConflicts (claims_by_id links) None = [] \<longleftrightarrow>
    (\<forall>l \<in> set links. \<forall>k \<in> set links. lr_id l \<noteq> lr_id k \<longrightarrow>
       (\<forall>a b. routes_net l a \<and> routes_net k b \<longrightarrow> \<not> networksOverlap a b))"
proof -
  have "findLinkNetworkConflicts (claims_by_id links) None = [] \<longleftrightarrow>
      (\<forall>i j a b. claimed (claims_by_id links) i a \<and> claimed (claims_by_id links) j b \<longrightarrow> \<not> (i \<noteq> j \<and> networksOverlap a b))"
    unfolding no_pair_conflict entries_clash_def claim_entries_iff [symmetric] by blast
  then show ?thesis unfolding claimed_links [OF assms] by blast
qed

definition patch_changes :: "(string \<times> props) list \<Rightarrow> (string \<times> props) list \<Rightarrow> bool" where
  "patch_changes current es \<longleftrightarrow>
     (\<exists>(i, p) \<in> set es. \<exists>k. getp (JObj (entry_of current i)) k \<noteq> getp (JObj (mergeMetadataEntry (entry_of current i) p)) k)"

lemma changed_fields_Nil: "changed_fields before after = [] \<longleftrightarrow> (\<forall>k. getp (JObj before) k = getp (JObj after) k)"
proof -
  have "getp (JObj e) k = JUndef" if "k \<notin> fst ` set e" for e k
    using that by (simp add: map_of_eq_None_iff [symmetric])
  then have "getp (JObj before) k = getp (JObj after) k" if "k \<notin> fst ` set before \<union> fst ` set after" for k
    using that by simp
  then show ?thesis by (auto simp: changed_fields_def filter_empty_conv simp del: getp.simps)
qed

definition change_count :: "diff_entry list \<Rightarrow> nat" where
  "change_count ds = sum_list (map (length \<circ> df_changedFields) ds)"

lemma change_count_zero: "change_count (buildDiffEntries current es kind) = 0 \<longleftrightarrow> \<not> patch_changes current es"
proof (induction es)
  case (Cons x es)
  obtain i p where x: "x = (i, p)" by (cases x)
  let ?fs = "changed_fields (entry_of current i) (mergeMetadataEntry (entry_of current i) p)"
  have "change_count (buildDiffEntries current (x # es) kind) = length ?fs + change_count (buildDiffEntries current es kind)"
    by (simp add: buildDiffEntries_def change_count_def x Let_def)
  moreover have "patch_changes current (x # es) \<longleftrightarrow> ?fs \<noteq> [] \<or> patch_changes current es"
    unfolding changed_fields_Nil by (auto simp: patch_changes_def x)
  ultimately show ?case using Cons by simp
qed (simp add: buildDiffEntries_def change_count_def patch_changes_def)

text \<open>What must hold for a patch to be applied.\<close>

definition applicable :: "wg_status \<Rightarrow> norm_patch \<Rightarrow> bool" where
  "applicable status np \<longleftrightarrow>
     fst ` set (np_interfaces np) \<subseteq> si_name ` set (ws_interfaces status)
   \<and> fst ` set (np_links np) \<subseteq> lr_id ` set (ws_links status)
   \<and> distinct (filter (\<lambda>n. n \<noteq> []) (map lr_name (projected_links status np)))
   \<and> (\<forall>l \<in> set (projected_links status np). \<forall>k \<in> set (projected_links status np). lr_id l \<noteq> lr_id k \<longrightarrow>
        (\<forall>a b. routes_net l a \<and> routes_net k b \<longrightarrow> \<not> networksOverlap a b))
   \<and> (patch_changes (ms_interfaces (ws_metadata status)) (np_interfaces np)
      \<or> patch_changes (ms_links (ws_metadata status)) (np_links np))"

lemma projected_ids: "map lr_id (projected_links status np) = map lr_id (ws_links status)"
  by (simp add: projected_links_def buildProjectedLink_def Let_def comp_def)

lemma plan_errors_Nil:
  assumes "distinct (map lr_id (ws_links status))"
  shows "plan_errors status np = [] \<longleftrightarrow>
     fst ` set (np_interfaces np) \<subseteq> si_name ` set (ws_interfaces status)
   \<and> fst ` set (np_links np) \<subseteq> lr_id ` set (ws_links status)
   \<and> distinct (filter (\<lambda>n. n \<noteq> []) (map lr_name (projected_links status np)))
   \<and> (\<forall>l \<in> set (projected_links status np). \<forall>k \<in> set (projected_links status np). lr_id l \<noteq> lr_id k \<longrightarrow>
        (\<forall>a b. routes_net l a \<and> routes_net k b \<longrightarrow> \<not> networksOverlap a b))"
proof -
  have "distinct (map lr_id (projected_links status np))" using assms by (simp add: projected_ids)
  then have "findLinkNetworkConflicts (claims_by_id (projected_links status np)) None = [] \<longleftrightarrow>
      (\<forall>l \<in> set (projected_links status np). \<forall>k \<in> set (projected_links status np). lr_id l \<noteq> lr_id k \<longrightarrow>
        (\<forall>a b. routes_net l a \<and> routes_net k b \<longrightarrow> \<not> networksOverlap a b))"
    by (rule no_conflict_links)
  moreover have "unknown_targets status np = [] \<longleftrightarrow>
     fst ` set (np_interfaces np) \<subseteq> si_name ` set (ws_interfaces status) \<and> fst ` set (np_links np) \<subseteq> lr_id ` set (ws_links status)"
    by (auto simp: unknown_targets_def filter_empty_conv)
  ultimately show ?thesis
    unfolding plan_errors_def Let_def append_is_Nil_conv map_is_Nil_conv duplicate_names_Nil
    by (simp only: conj_assoc)
qed

lemma preview_parts:
  assumes "normalizePatch patch = Inr np"
  shows "\<exists>pv. buildPlanPreview status patch = Inr pv \<and> pv_patch pv = np \<and> pv_valid pv = (plan_errors status np = [])
    \<and> pv_errors pv = plan_errors status np \<and> ac_canApply (pv_apply pv) = (plan_errors status np = []
      \<and> (patch_changes (ms_interfaces (ws_metadata status)) (np_interfaces np)
         \<or> patch_changes (ms_links (ws_metadata status)) (np_links np)))"
  using change_count_zero [of "ms_interfaces (ws_metadata status)" "np_interfaces np" "''interface''"]
    change_count_zero [of "ms_links (ws_metadata status)" "np_links np" "''link''"]
  by (auto simp: buildPlanPreview_def assms Let_def buildApplyContract_def change_count_def [symmetric] uniq_def)

theorem preview_predicts_write_witness:
  "\<exists>pv written. buildPlanPreview ex_plan_status ex_plan_patch = Inr pv
     \<and> apply_write pv ex_names = (Inr (written, ex_names), written)
     \<and> same_entries (ms_links written) (ms_links (nextMetadata ex_names (pv_patch pv)))"
proof -
  have ok: "stored_entries (ms_interfaces ex_names)" "stored_entries (ms_links ex_names)"
    "distinct (map fst (mp_interfaces ex_plan_patch))" "distinct (map fst (mp_links ex_plan_patch))"
    by code_simp+
  have st: "ws_metadata ex_plan_status = ex_names" by (simp add: ex_plan_status_def unavailable_status_def)
  have "\<not> isl (normalizePatch ex_plan_patch)" by code_simp
  then obtain np where "normalizePatch ex_plan_patch = Inr np" by (cases "normalizePatch ex_plan_patch") auto
  then obtain pv where pv: "buildPlanPreview ex_plan_status ex_plan_patch = Inr pv"
    using preview_parts by blast
  from preview_predicts_write [OF ok st pv] pv show ?thesis by blast
qed

lemma apply_gate_iff:
  assumes "distinct (map lr_id (ws_links status))"
  shows "(\<exists>pv. apply_gate status patch = Inr pv) \<longleftrightarrow> (\<exists>np. normalizePatch patch = Inr np \<and> applicable status np)"
proof (cases "normalizePatch patch")
  case (Inl e)
  then show ?thesis by (simp add: apply_gate_def buildPlanPreview_def)
next
  case (Inr np)
  obtain pv where pv: "buildPlanPreview status patch = Inr pv" "pv_valid pv = (plan_errors status np = [])"
    "ac_canApply (pv_apply pv) = (plan_errors status np = [] \<and> (patch_changes (ms_interfaces (ws_metadata status)) (np_interfaces np)
       \<or> patch_changes (ms_links (ws_metadata status)) (np_links np)))"
    using preview_parts [OF Inr, of status] by blast
  have "(\<exists>q. apply_gate status patch = Inr q) \<longleftrightarrow> pv_valid pv \<and> ac_canApply (pv_apply pv)"
    by (simp add: apply_gate_def pv(1))
  also have "\<dots> \<longleftrightarrow> applicable status np"
    unfolding pv(2,3) applicable_def plan_errors_Nil [OF assms] by blast
  finally show ?thesis using Inr by simp
qed

lemma apply_gate_preview:
  "apply_gate status patch = Inr pv \<Longrightarrow> buildPlanPreview status patch = Inr pv"
  by (auto simp: apply_gate_def split: sum.split_asm if_split_asm)

lemma preview_patch: "buildPlanPreview status patch = Inr pv \<Longrightarrow> normalizePatch patch = Inr (pv_patch pv)"
  by (auto simp: buildPlanPreview_def bind_res_Inr_iff Let_def)

text \<open>C33: A patch is applied exactly when it can be cleaned, names only live interfaces and links,
  leaves the effective names of the links distinct, leaves no two links that are not clients with
  overlapping networks, and changes some property. Then the answer is a success, the store from
  before is added to the backups, and the store holds the cleaned patch merged into it, property
  by property. In every other case the answer is an error and nothing at all changes. The entries
  of the store have the shape every write keeps, the status was read from that store and its
  links have distinct ids, and no key stands twice in the patch.\<close>

theorem applyMetadata_iff:
  assumes "stored_entries (ms_interfaces (ww_store w))" "stored_entries (ms_links (ww_store w))"
    and "distinct (map fst (mp_interfaces patch))" "distinct (map fst (mp_links patch))"
    and "ws_metadata (status_of (ww_store w)) = ww_store w"
    and "distinct (map lr_id (ws_links (status_of (ww_store w))))"
  shows "case applyMetadata status_of run stamp hub_sync agent_sync backupPath patch w of (res, w') \<Rightarrow>
    if \<exists>np. normalizePatch patch = Inr np \<and> applicable (status_of (ww_store w)) np
    then (\<exists>pv fr. res = Inr (pv, fr)) \<and> ww_backups w' = (backupPath, ww_store w) # ww_backups w
      \<and> (\<exists>np. normalizePatch patch = Inr np
          \<and> same_entries (ms_interfaces (ww_store w')) (ms_interfaces (nextMetadata (ww_store w) np))
          \<and> same_entries (ms_links (ww_store w')) (ms_links (nextMetadata (ww_store w) np)))
    else isl res \<and> w' = w"
proof (cases "apply_gate (status_of (ww_store w)) patch")
  case (Inl e)
  then have "\<not> (\<exists>np. normalizePatch patch = Inr np \<and> applicable (status_of (ww_store w)) np)"
    using apply_gate_iff [OF assms(6), of patch] by simp
  then show ?thesis by (simp add: applyMetadata_def Let_def Inl)
next
  case (Inr pv)
  note pre = apply_gate_preview [OF Inr]
  from apply_write_predicted [OF assms(1-5) pre] obtain written where
    written: "apply_write pv (ww_store w) = (Inr (written, ww_store w), written)"
      "same_entries (ms_interfaces written) (ms_interfaces (nextMetadata (ww_store w) (pv_patch pv)))"
      "same_entries (ms_links written) (ms_links (nextMetadata (ww_store w) (pv_patch pv)))"
    by blast
  obtain fr b where fin: "finishMetadataWrite status_of run stamp hub_sync agent_sync (ww_store w) written
      (status_of (ww_store w)) (ac_changeScope (pv_apply pv) = ''metadata-with-config-intent'') (ww_bindings w) = (fr, b)"
    by fastforce
  have "applyMetadata status_of run stamp hub_sync agent_sync backupPath patch w
      = (Inr (pv, fr), w\<lparr>ww_backups := (backupPath, ww_store w) # ww_backups w, ww_store := written, ww_bindings := b\<rparr>)"
    by (simp add: applyMetadata_def Let_def Inr written(1) fin assms(5))
  moreover have "\<exists>np. normalizePatch patch = Inr np \<and> applicable (status_of (ww_store w)) np"
    using apply_gate_iff [OF assms(6), of patch] Inr by blast
  ultimately show ?thesis using preview_patch [OF pre] written(2,3) by simp
qed

definition ex_world :: wg_world where
  "ex_world = \<lparr>ww_store = ex_names, ww_bindings = [], ww_backups = []\<rparr>"

definition ex_np :: norm_patch where
  "ex_np = \<lparr>np_interfaces = [], np_links = [(''wg1:ddddeeee'', [(''name'', JStr ''store''), (''importedNetworks'', JArr [JStr ''10.1.0.0/16''])])]\<rparr>"

theorem applyMetadata_iff_witness:
  "(\<exists>pv fr w'. applyMetadata (\<lambda>_. ex_plan_status) (\<lambda>_ _ as. (None, as)) 0 (\<lambda>_. []) [] ''backup'' ex_plan_patch ex_world
       = (Inr (pv, fr), w') \<and> ww_backups w' = [(''backup'', ex_names)])
   \<and> snd (applyMetadata (\<lambda>_. ex_plan_status) (\<lambda>_ _ as. (None, as)) 0 (\<lambda>_. []) [] ''backup''
        \<lparr>mp_interfaces = [], mp_links = [(''wg1:gone'', JObj [(''name'', JStr ''x'')])]\<rparr> ex_world) = ex_world"
proof -
  let ?bad = "\<lparr>mp_interfaces = [], mp_links = [(''wg1:gone'', JObj [(''name'', JStr ''x'')])]\<rparr>"
  let ?run = "\<lambda>p. applyMetadata (\<lambda>_. ex_plan_status) (\<lambda>_ _ as. (None, as)) 0 (\<lambda>_. []) [] ''backup'' p ex_world"
  have d: "distinct (map lr_id (ws_links ex_plan_status))" by code_simp
  have st: "ws_metadata ex_plan_status = ex_names" by (simp add: ex_plan_status_def unavailable_status_def)
  have w: "ww_store ex_world = ex_names" "ww_backups ex_world = []" by (simp_all add: ex_world_def)
  have ok: "stored_entries (ms_interfaces (ww_store ex_world))" "stored_entries (ms_links (ww_store ex_world))"
    unfolding w by code_simp+
  have keys: "distinct (map fst (mp_interfaces ex_plan_patch))" "distinct (map fst (mp_links ex_plan_patch))"
    "distinct (map fst (mp_interfaces ?bad))" "distinct (map fst (mp_links ?bad))"
    by code_simp+
  have np: "normalizePatch ex_plan_patch = Inr ex_np" by code_simp
  have "plan_errors ex_plan_status ex_np = []" by code_simp
  moreover have "patch_changes (ms_links (ws_metadata ex_plan_status)) (np_links ex_np)"
    by (simp add: patch_changes_def ex_np_def ex_plan_status_def unavailable_status_def ex_names_def entry_of_def
        mergeMetadataEntry_def spread_def) (rule exI [of _ "''name''"], simp)
  ultimately have "applicable ex_plan_status ex_np"
    unfolding applicable_def plan_errors_Nil [OF d] by blast
  with np have yes: "\<exists>np. normalizePatch ex_plan_patch = Inr np \<and> applicable ex_plan_status np" by blast
  have bad: "normalizePatch ?bad = Inr \<lparr>np_interfaces = [], np_links = [(''wg1:gone'', [(''name'', JStr ''x'')])]\<rparr>" by code_simp
  have "''wg1:gone'' \<notin> lr_id ` set (ws_links ex_plan_status)" by code_simp
  then have no: "\<not> (\<exists>np. normalizePatch ?bad = Inr np \<and> applicable ex_plan_status np)"
    unfolding bad by (auto simp: applicable_def)
  note t = applyMetadata_iff [where w = ex_world and status_of = "\<lambda>_. ex_plan_status" and run = "\<lambda>_ _ as. (None, as)"
      and stamp = 0 and hub_sync = "\<lambda>_. []" and agent_sync = "[]" and backupPath = "''backup''",
      OF ok _ _ _ d, unfolded w st]
  obtain r1 w1 where r1: "?run ex_plan_patch = (r1, w1)" by fastforce
  obtain r2 w2 where r2: "?run ?bad = (r2, w2)" by fastforce
  from t [OF keys(1,2) refl] yes have "\<exists>pv fr. r1 = Inr (pv, fr)" "ww_backups w1 = [(''backup'', ex_names)]"
    unfolding r1 by simp_all
  moreover from t [OF keys(3,4) refl] no have "w2 = ex_world" unfolding r2 by simp
  ultimately show ?thesis unfolding r1 r2 by auto
qed

subsection \<open>Restoring a backup\<close>

lemma keep_missing_value:
  "getp (JObj (keep_missing cur key e)) k =
     (if k = key \<and> (if key = ''name'' then \<not> js_truthy (getp (JObj e) key) else key \<notin> fst ` set e)
         \<and> key \<in> fst ` set cur \<and> getp (JObj cur) key \<notin> {JUndef, JStr []}
      then getp (JObj cur) key else getp (JObj e) k)"
  by (simp add: keep_missing_def Let_def update_conv')

lemma keep_missing_keys: "k \<noteq> key \<Longrightarrow> k \<in> fst ` set (keep_missing cur key e) \<longleftrightarrow> k \<in> fst ` set e"
  by (simp add: keep_missing_def Let_def dom_update flip: dom_map_of_conv_image_fst) (simp add: dom_def update_conv')

text \<open>The value of a property of a restored entry.\<close>

definition restored_value :: "props \<Rightarrow> props \<Rightarrow> string \<Rightarrow> jsval" where
  "restored_value cur e k =
     (if k \<in> {''name'', ''type'', ''importedNetworks''}
         \<and> (if k = ''name'' then \<not> js_truthy (getp (JObj e) k) else k \<notin> fst ` set e)
         \<and> k \<in> fst ` set cur \<and> getp (JObj cur) k \<notin> {JUndef, JStr []}
      then getp (JObj cur) k else getp (JObj e) k)"

lemma mergeRestoredLink_value: "getp (JObj (mergeRestoredLink (Some cur) e)) k = restored_value cur e k"
proof -
  let ?e1 = "keep_missing cur ''name'' e"
  let ?e2 = "keep_missing cur ''type'' ?e1"
  have t: "''type'' \<in> fst ` set ?e1 \<longleftrightarrow> ''type'' \<in> fst ` set e" by (rule keep_missing_keys) simp
  have n: "''importedNetworks'' \<in> fst ` set ?e2 \<longleftrightarrow> ''importedNetworks'' \<in> fst ` set e"
    by (subst keep_missing_keys, simp) (rule keep_missing_keys, simp)
  have m: "getp (JObj (mergeRestoredLink (Some cur) e)) k = getp (JObj (keep_missing cur ''importedNetworks'' ?e2)) k"
    for k by (simp add: mergeRestoredLink_def RESTORE_KEEP_IF_MISSING_def)
  consider "k = ''name''" | "k = ''type''" | "k = ''importedNetworks''" | "k \<notin> {''name'', ''type'', ''importedNetworks''}" by blast
  then show ?thesis
    by cases (simp_all add: m t n keep_missing_value restored_value_def del: getp.simps)
qed

lemma fold_restore_link:
  "distinct live \<Longrightarrow> map_of (fold (restore_link bak) live links) i =
     (if i \<in> set live then (case map_of bak i of None \<Rightarrow> map_of links i
        | Some e \<Rightarrow> Some (mergeRestoredLink (map_of links i) e)) else map_of links i)"
proof (induction live arbitrary: links)
  case (Cons j live)
  have s: "map_of (restore_link bak j links) i = (if i = j then (case map_of bak i of None \<Rightarrow> map_of links i
        | Some e \<Rightarrow> Some (mergeRestoredLink (map_of links i) e)) else map_of links i)"
    for i by (simp add: restore_link_def update_conv' split: option.split)
  show ?case using Cons.IH [of "restore_link bak j links"] Cons.prems by (cases "i = j"; cases "map_of bak i") (simp_all add: s)
qed simp

text \<open>C35: Restoring a backup touches only live links the backup knows. A live link the backup does
  not know and a removed link keep their entries, so that no entry of a removed link comes back. A
  restored link has the backup's properties, except that a name, type or list of networks it has
  now survives a backup without one; so a named link always stays named.\<close>

theorem mergeBackupIntoLive_correct:
  assumes "distinct live" and "info = mergeBackupIntoLive cur bak live ifs"
  shows "set (mi_restoredLinks info) \<union> set (mi_keptLinks info) = set live
    \<and> set (mi_restoredLinks info) \<inter> set (mi_keptLinks info) = {}
    \<and> (\<forall>i. i \<notin> set (mi_restoredLinks info) \<longrightarrow> map_of (ms_links (mi_store info)) i = map_of (ms_links cur) i)
    \<and> (\<forall>i \<in> set (mi_restoredLinks info).
         (\<forall>k. getp (JObj (entry_of (ms_links (mi_store info)) i)) k
            = restored_value (entry_of (ms_links cur) i) (entry_of (ms_links bak) i) k)
       \<and> (js_truthy (getp (JObj (entry_of (ms_links cur) i)) ''name'')
            \<longrightarrow> js_truthy (getp (JObj (entry_of (ms_links (mi_store info)) i)) ''name'')))"
proof -
  have r: "set (mi_restoredLinks info) = set live \<inter> fst ` set (ms_links bak)"
    and kept: "set (mi_keptLinks info) = set live - fst ` set (ms_links bak)"
    using assms(2) by (auto simp: mergeBackupIntoLive_def)
  have m: "map_of (ms_links (mi_store info)) i = (if i \<in> set live then (case map_of (ms_links bak) i of
        None \<Rightarrow> map_of (ms_links cur) i | Some e \<Rightarrow> Some (mergeRestoredLink (map_of (ms_links cur) i) e))
      else map_of (ms_links cur) i)" for i
    using fold_restore_link [OF assms(1)] assms(2) by (simp add: mergeBackupIntoLive_def)
  have v: "getp (JObj (entry_of (ms_links (mi_store info)) i)) k
      = restored_value (entry_of (ms_links cur) i) (entry_of (ms_links bak) i) k"
    if i: "i \<in> set (mi_restoredLinks info)" for i k
  proof -
    obtain e where e: "map_of (ms_links bak) i = Some e"
      using i r by (metis Int_iff dom_map_of_conv_image_fst domD)
    show ?thesis
    proof (cases "map_of (ms_links cur) i")
      case None
      then show ?thesis using i e r by (simp add: entry_of_def m mergeRestoredLink_def restored_value_def)
    next
      case (Some c)
      then show ?thesis using i e r mergeRestoredLink_value [of c e k] by (simp add: entry_of_def m del: getp.simps)
    qed
  qed
  have named: "js_truthy (restored_value c e ''name'')" if "js_truthy (getp (JObj c) ''name'')" for c e
  proof -
    have ne: "js_truthy v \<Longrightarrow> v \<notin> {JUndef, JStr []}" for v by auto
    have "''name'' \<in> fst ` set c"
    proof (rule ccontr)
      assume "''name'' \<notin> fst ` set c"
      then have "getp (JObj c) ''name'' = JUndef" by (simp add: map_of_eq_None_iff [symmetric])
      with ne [OF that] show False by simp
    qed
    with that ne [OF that] show ?thesis by (simp add: restored_value_def del: getp.simps)
  qed
  have u: "map_of (ms_links (mi_store info)) i = map_of (ms_links cur) i" if "i \<notin> set (mi_restoredLinks info)" for i
  proof -
    have "i \<notin> set live \<or> map_of (ms_links bak) i = None" using that r by (auto simp: map_of_eq_None_iff)
    then show ?thesis by (auto simp: m)
  qed
  have "js_truthy (getp (JObj (entry_of (ms_links (mi_store info)) i)) ''name'')"
    if "i \<in> set (mi_restoredLinks info)" "js_truthy (getp (JObj (entry_of (ms_links cur) i)) ''name'')" for i
    unfolding v [OF that(1)] by (rule named [OF that(2)])
  then show ?thesis using u v by (intro conjI allI ballI impI) (auto simp: r kept simp del: getp.simps)
qed

theorem mergeBackupIntoLive_correct_witness:
  "getp (JObj (entry_of (ms_links (mi_store (mergeBackupIntoLive
      \<lparr>ms_interfaces = [], ms_links = [(''wg1:a'', [(''name'', JStr ''now'')]), (''wg1:gone'', [])]\<rparr>
      \<lparr>ms_interfaces = [], ms_links = [(''wg1:a'', [(''type'', JStr ''client'')]), (''wg1:gone'', [(''name'', JStr ''ghost'')])]\<rparr>
      [''wg1:a''] []))) ''wg1:a'')) ''name'' = JStr ''now''"
  using mergeBackupIntoLive_correct [of "[''wg1:a'']" _
      "\<lparr>ms_interfaces = [], ms_links = [(''wg1:a'', [(''name'', JStr ''now'')]), (''wg1:gone'', [])]\<rparr>"
      "\<lparr>ms_interfaces = [], ms_links = [(''wg1:a'', [(''type'', JStr ''client'')]), (''wg1:gone'', [(''name'', JStr ''ghost'')])]\<rparr>" "[]", OF _ refl]
  by (simp add: mergeBackupIntoLive_def restored_value_def entry_of_def del: getp.simps) simp

subsection \<open>A renamed link keeps its agents\<close>

definition effective_name :: "meta_store \<Rightarrow> (string \<Rightarrow> string option) \<Rightarrow> string \<Rightarrow> string option" where
  "effective_name store names i = first_some (stored_name store i) (names i)"

lemma rename_of_cases:
  "effective_name before f i = Some old \<Longrightarrow> effective_name after g i = Some new \<Longrightarrow> old \<noteq> [] \<Longrightarrow> new \<noteq> [] \<Longrightarrow>
    rename_of before after f g i = (if old = new then [] else [\<lparr>oldName = old, newName = new\<rparr>])"
  by (simp add: rename_of_def effective_name_def)

lemma rename_of_member:
  "r \<in> set (rename_of before after f g i) \<longleftrightarrow> effective_name before f i = Some (oldName r)
    \<and> effective_name after g i = Some (newName r) \<and> oldName r \<noteq> [] \<and> newName r \<noteq> [] \<and> oldName r \<noteq> newName r"
  by (cases r) (auto simp: rename_of_def effective_name_def split: option.splits)

lemma renames_distinct:
  assumes "distinct is"
    and "\<And>i j old. i \<in> set is \<Longrightarrow> j \<in> set is \<Longrightarrow> effective_name before f i = Some old \<Longrightarrow> effective_name before f j = Some old \<Longrightarrow> i = j"
  shows "distinct (map oldName (concat (map (rename_of before after f g) is)))"
  using assms
proof (induction "is")
  case (Cons i js)
  have d: "distinct (map oldName (concat (map (rename_of before after f g) js)))" by (rule Cons.IH) (use Cons.prems in auto)
  have "oldName r \<noteq> oldName q" if "r \<in> set (rename_of before after f g i)" "q \<in> set (rename_of before after f g j)" "j \<in> set js" for r q j
    using Cons.prems(2) [of i j "oldName r"] Cons.prems(1) that by (auto simp: rename_of_member)
  then have "oldName ` set (rename_of before after f g i) \<inter> oldName ` set (concat (map (rename_of before after f g) js)) = {}"
    by fastforce
  moreover have "distinct (map oldName (rename_of before after f g i))" by (simp add: rename_of_def split: option.split)
  ultimately show ?case using d by simp
qed simp

text \<open>C32: When a write to the store changes the names of links, the agents follow: if links had
  different effective names before (the stored one, otherwise the one the status shows), then
  every agent bound to a link's old effective name is bound to its new one afterwards, swapped names
  included, and an agent bound to no link's name keeps its binding.\<close>

theorem finishMetadataWrite_rebinds:
  assumes "distinct (map fst (ms_links written))"
    and "rs = diffLinkRenames previous written (statusLinkNames before) (statusLinkNames (status_of written))"
    and "set (tmp_names t rs) \<inter> (table_names agents \<union> oldName ` set rs \<union> newName ` set rs) = {}"
    and "\<forall>i \<in> fst ` set (ms_links written). \<forall>j \<in> fst ` set (ms_links written). \<forall>old.
      effective_name previous (statusLinkNames before) i = Some old \<and> effective_name previous (statusLinkNames before) j = Some old \<longrightarrow> i = j"
    and "finishMetadataWrite status_of (sure (\<lambda>a b as. snd (renameLinkBinding a b as))) t hub_sync agent_sync
      previous written before syncConfig agents = (fr, agents')"
  shows "cr_errors (fr_cascade fr) = [] \<and> length agents' = length agents
    \<and> (\<forall>n < length agents. \<forall>i \<in> fst ` set (ms_links written). \<forall>old new.
         effective_name previous (statusLinkNames before) i = Some old \<and> old \<noteq> []
         \<and> effective_name written (statusLinkNames (status_of written)) i = Some new \<and> new \<noteq> []
         \<and> ar_link (agents ! n) = Some old \<longrightarrow> ar_link (agents' ! n) = Some new)
    \<and> (\<forall>n < length agents. (\<forall>i \<in> fst ` set (ms_links written).
           effective_name previous (statusLinkNames before) i \<noteq> ar_link (agents ! n)) \<longrightarrow> ar_link (agents' ! n) = ar_link (agents ! n))"
proof -
  let ?f = "statusLinkNames before" and ?g = "statusLinkNames (status_of written)"
  let ?is = "map fst (ms_links written)"
  have rs: "rs = concat (map (rename_of previous written ?f ?g) ?is)" by (simp add: assms(2) diffLinkRenames_def)
  have d: "distinct (map oldName rs)" unfolding rs by (rule renames_distinct) (use assms(1,4) in auto)
  have ne: "\<forall>r \<in> set rs. oldName r \<noteq> [] \<and> newName r \<noteq> []" by (auto simp: rs rename_of_member)
  have res: "fr_cascade fr = \<lparr>cr_renames = rs, cr_errors = [], cr_rolledBack = False\<rparr>"
    "agents' = map (row_subst (subst_all rs)) agents"
    using assms(5) bindings.cascade_sure [OF d ne assms(3)]
    by (auto simp: finishMetadataWrite_def Let_def assms(2) [symmetric])
  have dk: "distinct (map fst (map (\<lambda>r. (oldName r, newName r)) rs))" using d by (simp add: comp_def)
  have one: "subst_all rs old = new" if i: "i \<in> set ?is" and o: "effective_name previous ?f i = Some old" "old \<noteq> []"
    and n: "effective_name written ?g i = Some new" "new \<noteq> []" for i old new
  proof (cases "old = new")
    case False
    then have "\<lparr>oldName = old, newName = new\<rparr> \<in> set rs" using i o n by (force simp: rs rename_of_cases)
    then have "(old, new) \<in> set (map (\<lambda>r. (oldName r, newName r)) rs)" by force
    from map_of_is_SomeI [OF dk this] show ?thesis by (simp add: subst_all_def)
  next
    case True
    have "r \<notin> set rs" if "oldName r = old" for r
    proof
      assume "r \<in> set rs"
      then obtain j where j: "j \<in> set ?is" "r \<in> set (rename_of previous written ?f ?g j)" by (auto simp: rs)
      then have "j = i" using assms(4) i o that by (auto simp: rename_of_member)
      with j o n that True show False by (auto simp: rename_of_member)
    qed
    then have "old \<notin> oldName ` set rs" by blast
    then have "map_of (map (\<lambda>r. (oldName r, newName r)) rs) old = None" by (force simp: map_of_eq_None_iff)
    with True show ?thesis by (simp add: subst_all_def)
  qed
  have none: "subst_all rs x = x" if "\<forall>i \<in> set ?is. effective_name previous ?f i \<noteq> Some x" for x
  proof -
    have "x \<notin> oldName ` set rs" using that by (auto simp: rs rename_of_member)
    then have "map_of (map (\<lambda>r. (oldName r, newName r)) rs) x = None" by (force simp: map_of_eq_None_iff)
    then show ?thesis by (simp add: subst_all_def)
  qed
  have link: "ar_link (agents' ! n) = map_option (subst_all rs) (ar_link (agents ! n))" if "n < length agents" for n
    using that by (simp add: res(2) row_subst_def)
  show ?thesis
  proof (intro conjI allI ballI impI)
    show "cr_errors (fr_cascade fr) = []" "length agents' = length agents" by (simp_all add: res)
  next
    fix n i old new
    assume "n < length agents" "i \<in> fst ` set (ms_links written)"
      and "effective_name previous ?f i = Some old \<and> old \<noteq> [] \<and> effective_name written ?g i = Some new \<and> new \<noteq> []
        \<and> ar_link (agents ! n) = Some old"
    then show "ar_link (agents' ! n) = Some new" using one [of i old new] link [of n] by simp
  next
    fix n assume n: "n < length agents" and u: "\<forall>i \<in> fst ` set (ms_links written). effective_name previous ?f i \<noteq> ar_link (agents ! n)"
    show "ar_link (agents' ! n) = ar_link (agents ! n)"
    proof (cases "ar_link (agents ! n)")
      case (Some x)
      then have "subst_all rs x = x" using u by (intro none) auto
      then show ?thesis using link [OF n] Some by simp
    qed (use link [OF n] in simp)
  qed
qed

theorem finishMetadataWrite_rebinds_witness:
  "\<exists>fr agents'. finishMetadataWrite (unavailable_status []) (sure (\<lambda>a b as. snd (renameLinkBinding a b as))) 7 (\<lambda>_. []) []
      \<lparr>ms_interfaces = [], ms_links = [(''1'', [(''name'', JStr ''a'')]), (''2'', [(''name'', JStr ''b'')])]\<rparr>
      \<lparr>ms_interfaces = [], ms_links = [(''1'', [(''name'', JStr ''b'')]), (''2'', [(''name'', JStr ''a'')])]\<rparr>
      (unavailable_status [] \<lparr>ms_interfaces = [], ms_links = []\<rparr>) True ex_agents = (fr, agents')
    \<and> ar_link (agents' ! 0) = Some ''b'' \<and> ar_link (agents' ! 1) = Some ''a''"
proof -
  let ?p = "\<lparr>ms_interfaces = [], ms_links = [(''1'', [(''name'', JStr ''a'')]), (''2'', [(''name'', JStr ''b'')])]\<rparr> :: meta_store"
  let ?w = "\<lparr>ms_interfaces = [], ms_links = [(''1'', [(''name'', JStr ''b'')]), (''2'', [(''name'', JStr ''a'')])]\<rparr> :: meta_store"
  let ?b = "unavailable_status [] \<lparr>ms_interfaces = [], ms_links = []\<rparr>"
  obtain fr agents' where r: "finishMetadataWrite (unavailable_status []) (sure (\<lambda>a b as. snd (renameLinkBinding a b as))) 7 (\<lambda>_. []) [] ?p ?w ?b True ex_agents = (fr, agents')"
    by (cases "finishMetadataWrite (unavailable_status []) (sure (\<lambda>a b as. snd (renameLinkBinding a b as))) 7 (\<lambda>_. []) [] ?p ?w ?b True ex_agents")
  have rs: "ex_swap = diffLinkRenames ?p ?w (statusLinkNames ?b) (statusLinkNames (unavailable_status [] ?w))"
    by code_simp
  have "\<forall>i \<in> fst ` set (ms_links ?w). \<forall>j \<in> fst ` set (ms_links ?w). \<forall>old.
      effective_name ?p (statusLinkNames ?b) i = Some old \<and> effective_name ?p (statusLinkNames ?b) j = Some old \<longrightarrow> i = j"
    by (auto simp: effective_name_def first_some_def stored_name_def entry_of_def meta_text_def)
  from finishMetadataWrite_rebinds [OF _ rs ex_swap_fresh(3) this r] r show ?thesis
    by (force simp: ex_agents_def effective_name_def first_some_def stored_name_def entry_of_def meta_text_def)
qed

end
