(* ===== verification/Wg_Hub_Conf.thy ===== *)
theory Wg_Hub_Conf
  imports Wg_Links
begin

text \<open>
  The configuration of the hub in backend/internal/wireguard.js: which networks each peer gets
  (\<open>_buildPeerUpdates\<close>), the rewrite of the file with its routes and MASQUERADE rules
  (\<open>_rewriteHubConf\<close>) and the removal of a peer (\<open>_removePeerFromConf\<close>).
  The name of an interface is spliced into a regular expression; it is read as the text it is,
  which it is for every name without special characters.
\<close>

subsection \<open>Networks of the machine\<close>

record nic_addr =
  na_v4 :: bool
  na_internal :: bool
  na_address :: string
  na_netmask :: string
  na_cidr :: "string option"

record nic =
  nic_name :: string
  nic_address :: string
  nic_cidr :: string

definition nic_of :: "string \<Rightarrow> nic_addr \<Rightarrow> nic list" where
  "nic_of name a =
     (if \<not> na_v4 a \<or> na_internal a \<or> \<not> isPrivateNetwork (na_address a) then []
      else [\<lparr>nic_name = name, nic_address = na_address a,
             nic_cidr = (case na_cidr a of Some c \<Rightarrow> if c = [] then na_address a @ ''/'' @ na_netmask a else c
               | None \<Rightarrow> na_address a @ ''/'' @ na_netmask a)\<rparr>])"

definition getPrivatePhysicalInterfaces :: "(string \<times> nic_addr list) list \<Rightarrow> nic list" where
  "getPrivatePhysicalInterfaces nics =
     concat (map (\<lambda>(name, addrs). if starts_with ''wg'' name \<or> name = ''lo'' then []
                    else concat (map (nic_of name) addrs)) nics)"

definition excludeConnectedNets :: "string list \<Rightarrow> nic list \<Rightarrow> string list" where
  "excludeConnectedNets routeNets nics =
     fold (\<lambda>n nets. filter (\<lambda>net. \<not> cidrContains (nic_cidr n) net) nets) nics routeNets"

subsection \<open>The peers of a file\<close>

record peer_scan =
  ps_inPeer :: bool
  ps_key :: "string option"
  ps_ips :: "string list"
  ps_peers :: "(string \<times> string list) list"

definition flush_peer :: "peer_scan \<Rightarrow> peer_scan" where
  "flush_peer s =
     (case ps_key s of
        Some k \<Rightarrow> if ps_inPeer s \<and> k \<noteq> [] then s\<lparr>ps_peers := AList.update k (ps_ips s) (ps_peers s)\<rparr> else s
      | None \<Rightarrow> s)"

definition key_text :: "string \<Rightarrow> string" where
  "key_text t = trim (takeWhile (\<lambda>c. c \<noteq> CHR ''='') t)"

definition scan_line :: "string \<Rightarrow> peer_scan \<Rightarrow> peer_scan" where
  "scan_line rawLine s =
     (let t = trim rawLine
      in if t = ''[Peer]'' then (flush_peer s)\<lparr>ps_inPeer := True, ps_key := None, ps_ips := []\<rparr>
         else if starts_with ''['' t then (flush_peer s)\<lparr>ps_inPeer := False, ps_key := None\<rparr>
         else if t = [] \<or> starts_with ''#'' t \<or> CHR ''='' \<notin> set t then s
         else if \<not> ps_inPeer s then s
         else if key_text t = ''PublicKey'' then s\<lparr>ps_key := Some (valOf t)\<rparr>
         else if key_text t = ''AllowedIPs'' then s\<lparr>ps_ips := comma_list (valOf t)\<rparr>
         else s)"

definition parsePeersFromConf :: "string list \<Rightarrow> (string \<times> string list) list" where
  "parsePeersFromConf ls =
     ps_peers (flush_peer (fold scan_line ls \<lparr>ps_inPeer = False, ps_key = None, ps_ips = [], ps_peers = []\<rparr>))"

subsection \<open>The networks of a peer\<close>

definition same_ips :: "string list \<Rightarrow> string list \<Rightarrow> bool" where
  "same_ips a b \<longleftrightarrow> join '','' (sort a) = join '','' (sort b)"

definition peer_nets :: "props \<Rightarrow> string list \<Rightarrow> string list" where
  "peer_nets m currentCIDRs =
     (let hostRoutes = filter isHostRoute currentCIDRs
      in if normalizeLinkType (meta_text m ''type'') = Some ''client'' then uniq hostRoutes
         else (let imported = filter (\<lambda>c. \<not> isHostRoute c \<and> isAcceptableNetworkPrefix c)
                    (or_else (meta_list m ''importedNetworks'') []);
                   currentNonHost = filter (\<lambda>c. \<not> isHostRoute c) currentCIDRs
               in uniq (hostRoutes @ (if ''importedNetworks'' \<in> fst ` set m then imported else currentNonHost))))"

definition peer_update :: "(string \<times> props) list \<Rightarrow> string \<Rightarrow> string \<times> string list \<Rightarrow> (string \<times> string list) list" where
  "peer_update linksMeta ifaceName p =
     (case map_of linksMeta (ifaceName @ '':'' @ fst p) of
        None \<Rightarrow> []
      | Some m \<Rightarrow> (let newIPs = peer_nets m (snd p) in if same_ips newIPs (snd p) then [] else [(fst p, newIPs)]))"

definition buildPeerUpdates ::
  "(string \<times> string list) list \<Rightarrow> (string \<times> props) list \<Rightarrow> string \<Rightarrow> (string \<times> string list) list" where
  "buildPeerUpdates peerMap linksMeta ifaceName = concat (map (peer_update linksMeta ifaceName) peerMap)"

subsection \<open>Generated MASQUERADE rules\<close>

definition strip_prefix :: "string \<Rightarrow> string \<Rightarrow> string option" where
  "strip_prefix p s = (if starts_with p s then Some (drop (length p) s) else None)"

text \<open>\<open>\S+\<close> at the start of a text, and the rest.\<close>

definition take_word :: "string \<Rightarrow> (string \<times> string) option" where
  "take_word s = (let w = takeWhile (\<lambda>c. \<not> js_ws c) s in if w = [] then None else Some (w, drop (length w) s))"

definition silent :: string where "silent = '' 2>/dev/null || true''"

definition masq_cmd :: "bool \<Rightarrow> string \<Rightarrow> string \<Rightarrow> string" where
  "masq_cmd isUp n cidr =
     ''iptables -t nat -'' @ (if isUp then ''A'' else ''D'') @ '' POSTROUTING -o '' @ n @ '' -s '' @ cidr @ '' -j MASQUERADE''"

definition GENERATED_MASQ_RE :: "string \<Rightarrow> (string \<times> string) option" where
  "GENERATED_MASQ_RE cmd =
     (case strip_prefix ''iptables -t nat -'' cmd of None \<Rightarrow> None
      | Some r \<Rightarrow> if r = [] \<or> hd r \<notin> set ''AD'' then None
        else (case strip_prefix '' POSTROUTING -o '' (tl r) of None \<Rightarrow> None
          | Some r \<Rightarrow> (case take_word r of None \<Rightarrow> None
            | Some (n, r) \<Rightarrow> (case strip_prefix '' -s '' r of None \<Rightarrow> None
              | Some r \<Rightarrow> (case take_word r of None \<Rightarrow> None
                | Some (cidr, r) \<Rightarrow> (case strip_prefix '' -j MASQUERADE'' r of None \<Rightarrow> None
                  | Some r \<Rightarrow> if r = [] \<or> r = silent then Some (n, cidr) else None))))))"

definition MASQ_MARKER_PREFIX :: string where "MASQ_MARKER_PREFIX = ''# floppyguard-masq:''"

text \<open>The text after the marker, or nothing when the line is none.\<close>

definition MASQ_MARKER_RE :: "string \<Rightarrow> string option" where
  "MASQ_MARKER_RE t =
     (case strip_prefix ''#'' t of None \<Rightarrow> None
      | Some r \<Rightarrow> (let r = dropWhile js_ws r
          in if to_lower (take 17 r) = ''floppyguard-masq:'' \<and> list_all (\<lambda>c. c \<noteq> LF \<and> c \<noteq> CR) (drop 17 r)
             then Some (drop 17 r) else None))"

definition masqKey :: "string \<Rightarrow> string \<Rightarrow> string" where
  "masqKey n cidr = n @ ''='' @ cidr"

text \<open>\<open>/^\S+=\S+$/\<close>.\<close>

definition is_masq_key :: "string \<Rightarrow> bool" where
  "is_masq_key k \<longleftrightarrow> list_all (\<lambda>c. \<not> js_ws c) k \<and> CHR ''='' \<in> set (butlast (tl k))"

definition marker_keys :: "string \<Rightarrow> string list" where
  "marker_keys l = (case MASQ_MARKER_RE (trim l) of None \<Rightarrow> []
     | Some body \<Rightarrow> filter is_masq_key (map trim (split_on CHR '','' body)))"

definition parseMasqMarker :: "string list \<Rightarrow> string list" where
  "parseMasqMarker ls = uniq (concat (map marker_keys ls))"

text \<open>\<open>/^Post(Up|Down)\s*=/\<close>.\<close>

definition is_hook_line :: "string \<Rightarrow> bool" where
  "is_hook_line t \<longleftrightarrow>
     (case (strip_prefix ''PostUp'' t, strip_prefix ''PostDown'' t) of
        (Some r, _) \<Rightarrow> starts_with ''='' (dropWhile js_ws r)
      | (None, Some r) \<Rightarrow> starts_with ''='' (dropWhile js_ws r)
      | _ \<Rightarrow> False)"

definition hook_keys :: "string \<Rightarrow> string list" where
  "hook_keys l =
     (let t = trim l
      in if \<not> is_hook_line t then []
         else List.map_filter (\<lambda>p. map_option (\<lambda>(n, c). masqKey n c) (GENERATED_MASQ_RE (trim p)))
                (split_on CHR '';'' (tl (dropWhile (\<lambda>c. c \<noteq> CHR ''='') t))))"

definition previousOwnedMasq :: "string list \<Rightarrow> string list" where
  "previousOwnedMasq ls = uniq (parseMasqMarker ls @ concat (map hook_keys ls))"

definition masqMarkerLine :: "nic list \<Rightarrow> string" where
  "masqMarkerLine masq =
     (let ks = sort (uniq (map (\<lambda>n. masqKey (nic_name n) (nic_cidr n)) masq))
      in MASQ_MARKER_PREFIX @ '' '' @ (if ks = [] then ''-'' else join '', '' ks))"

definition isGeneratedMasq :: "string \<Rightarrow> string \<Rightarrow> string list \<Rightarrow> bool" where
  "isGeneratedMasq cmd ifaceName ownedKeys =
     (case GENERATED_MASQ_RE cmd of None \<Rightarrow> False
      | Some (n, c) \<Rightarrow> n \<noteq> ifaceName \<and> masqKey n c \<in> set ownedKeys)"

text \<open>\<open>c.replace(/\s+2>\/dev\/null \|\| true$/, "").trim()\<close>.\<close>

definition hook_norm :: "string \<Rightarrow> string" where
  "hook_norm c =
     (let r = take (length c - length (tl silent)) c
      in if ends_with (tl silent) c \<and> r \<noteq> [] \<and> js_ws (last r) then trim r else trim c)"

fun dedupe_hooks :: "string list \<Rightarrow> string list \<Rightarrow> string list" where
  "dedupe_hooks seen [] = []"
| "dedupe_hooks seen (c # cs) =
     (if hook_norm c \<in> set seen then dedupe_hooks seen cs else c # dedupe_hooks (hook_norm c # seen) cs)"

definition dedupeHookCmds :: "string list \<Rightarrow> string list" where
  "dedupeHookCmds cmds = dedupe_hooks [] cmds"

subsection \<open>The rewrite of the file\<close>

definition route_cmd :: "bool \<Rightarrow> string \<Rightarrow> string \<Rightarrow> string" where
  "route_cmd isUp ifaceName net =
     ''ip route '' @ (if isUp then ''add'' else ''del'') @ '' '' @ net @ '' dev '' @ ifaceName @ silent"

text \<open>\<open>^ip route (?:add|del) \S+ dev <name>\<close>, which is a test of the beginning only.\<close>

definition is_route_cmd :: "string \<Rightarrow> string \<Rightarrow> bool" where
  "is_route_cmd ifaceName p =
     (case (strip_prefix ''ip route add '' p, strip_prefix ''ip route del '' p) of
        (None, None) \<Rightarrow> False
      | (a, b) \<Rightarrow> (case take_word (case a of Some r \<Rightarrow> r | None \<Rightarrow> or_else b []) of
            None \<Rightarrow> False
          | Some (w, r) \<Rightarrow> starts_with ('' dev '' @ ifaceName) r))"

definition hook_routes :: "bool \<Rightarrow> string \<Rightarrow> string list \<Rightarrow> string list" where
  "hook_routes isUp ifaceName nets = map (route_cmd isUp ifaceName) (sort nets)"

definition hook_masq :: "bool \<Rightarrow> nic list \<Rightarrow> string list" where
  "hook_masq isUp masq =
     map (\<lambda>n. masq_cmd isUp (nic_name n) (nic_cidr n) @ (if isUp then [] else silent)) masq"

text \<open>What a rewrite is given, apart from the lines.\<close>

record hub_change =
  hc_iface :: string
  hc_updates :: "(string \<times> string list) list"
  hc_routes :: "string list"
  hc_masq :: "nic list"

definition owned_masq :: "hub_change \<Rightarrow> string list \<Rightarrow> string list" where
  "owned_masq h ls = uniq (map (\<lambda>n. masqKey (nic_name n) (nic_cidr n)) (hc_masq h) @ parseMasqMarker ls)"

definition kept_cmds :: "hub_change \<Rightarrow> string list \<Rightarrow> string \<Rightarrow> string list" where
  "kept_cmds h owned value =
     filter (\<lambda>p. p \<noteq> [] \<and> \<not> is_route_cmd (hc_iface h) p \<and> \<not> isGeneratedMasq p (hc_iface h) owned)
       (map trim (split_on CHR '';'' value))"

definition hook_line :: "hub_change \<Rightarrow> string list \<Rightarrow> bool \<Rightarrow> string \<Rightarrow> string" where
  "hook_line h owned isUp value =
     (if isUp then ''PostUp'' else ''PostDown'') @ '' = ''
     @ join ''; '' (dedupeHookCmds (kept_cmds h owned value @ hook_routes isUp (hc_iface h) (hc_routes h) @ hook_masq isUp (hc_masq h)))"

text \<open>Where the loop is: in a peer or not, the key of the peer, whether the marker is written.\<close>

record rewrite_state =
  rw_inPeer :: bool
  rw_key :: "string option"
  rw_marked :: bool

definition update_for :: "hub_change \<Rightarrow> rewrite_state \<Rightarrow> string list option" where
  "update_for h s = (case rw_key s of None \<Rightarrow> None | Some k \<Rightarrow> if k = [] then None else map_of (hc_updates h) k)"

text \<open>The lines written for one line, and where the loop is then.\<close>

definition rewrite_line :: "hub_change \<Rightarrow> string list \<Rightarrow> rewrite_state \<Rightarrow> string \<Rightarrow> string list \<times> rewrite_state" where
  "rewrite_line h owned s rawLine =
     (let t = trim rawLine
      in if \<not> rw_inPeer s \<and> MASQ_MARKER_RE t \<noteq> None then ([], s)
         else if t = ''[Peer]'' then ([rawLine], s\<lparr>rw_inPeer := True, rw_key := None\<rparr>)
         else if starts_with ''['' t then ([rawLine], s\<lparr>rw_inPeer := False, rw_key := None\<rparr>)
         else if rw_inPeer s \<and> starts_with ''PublicKey'' t then ([rawLine], s\<lparr>rw_key := Some (valOf t)\<rparr>)
         else if rw_inPeer s \<and> starts_with ''AllowedIPs'' t \<and> update_for h s \<noteq> None
         then ([''AllowedIPs = '' @ join '', '' (or_else (update_for h s) [])], s)
         else if \<not> rw_inPeer s \<and> (starts_with ''PostUp'' t \<or> starts_with ''PostDown'' t)
         then (let isUp = starts_with ''PostUp'' t
               in ((if isUp \<and> \<not> rw_marked s then [masqMarkerLine (hc_masq h)] else [])
                     @ [hook_line h owned isUp (valOf rawLine)],
                   s\<lparr>rw_marked := rw_marked s \<or> isUp\<rparr>))
         else ([rawLine], s))"

fun rewrite_pass :: "hub_change \<Rightarrow> string list \<Rightarrow> rewrite_state \<Rightarrow> string list \<Rightarrow> string list \<times> rewrite_state" where
  "rewrite_pass h owned s [] = ([], s)"
| "rewrite_pass h owned s (l # ls) =
     (let (e, s) = rewrite_line h owned s l; (es, s) = rewrite_pass h owned s ls in (e @ es, s))"

definition has_hook :: "string \<Rightarrow> string list \<Rightarrow> bool" where
  "has_hook p ls = list_ex (\<lambda>l. starts_with p (trim l)) ls"

text \<open>\<open>findIndex\<close> of a line that is there.\<close>

definition index_of :: "(string \<Rightarrow> bool) \<Rightarrow> string list \<Rightarrow> nat" where
  "index_of P ls = length (takeWhile (\<lambda>l. \<not> P l) ls)"

definition insert_index :: "bool \<Rightarrow> bool \<Rightarrow> string list \<Rightarrow> nat" where
  "insert_index hasPostUp hasPostDown out =
     (if hasPostDown then index_of (\<lambda>l. starts_with ''PostDown'' (trim l)) out
      else if hasPostUp then index_of (\<lambda>l. starts_with ''PostUp'' (trim l)) out + 1
      else (let i = index_of (\<lambda>l. trim l = ''[Peer]'') out in if 0 < i then i else length out))"

definition missing_hooks :: "hub_change \<Rightarrow> bool \<Rightarrow> bool \<Rightarrow> string list" where
  "missing_hooks h hasPostUp hasPostDown =
     (let up = join ''; '' (hook_routes True (hc_iface h) (hc_routes h) @ hook_masq True (hc_masq h));
          down = join ''; '' (hook_routes False (hc_iface h) (hc_routes h) @ hook_masq False (hc_masq h))
      in (if \<not> hasPostUp \<and> up \<noteq> [] then [masqMarkerLine (hc_masq h), ''PostUp = '' @ up] else [])
         @ (if \<not> hasPostDown \<and> down \<noteq> [] then [''PostDown = '' @ down] else []))"

definition rewrite_start :: rewrite_state where
  "rewrite_start = \<lparr>rw_inPeer = False, rw_key = None, rw_marked = False\<rparr>"

definition rewrite_out :: "hub_change \<Rightarrow> string list \<Rightarrow> string list" where
  "rewrite_out h ls = fst (rewrite_pass h (owned_masq h ls) rewrite_start ls)"

definition rewritten_lines :: "hub_change \<Rightarrow> string list \<Rightarrow> string list" where
  "rewritten_lines h ls =
     (let out = rewrite_out h ls; hasPostUp = has_hook ''PostUp'' ls; hasPostDown = has_hook ''PostDown'' ls
      in if (\<not> hasPostUp \<or> \<not> hasPostDown) \<and> (hc_routes h \<noteq> [] \<or> hc_masq h \<noteq> [])
         then (let i = insert_index hasPostUp hasPostDown out
               in take i out @ missing_hooks h hasPostUp hasPostDown @ drop i out)
         else out)"

definition rewriteHubConf :: "string list \<Rightarrow> hub_change \<Rightarrow> string" where
  "rewriteHubConf ls h = join [LF] (rewritten_lines h ls)"

subsection \<open>Removing a peer\<close>

record removal =
  rm_out :: "string list"
  rm_inPeer :: bool
  rm_skip :: bool
  rm_buffer :: "string list"

definition drop_back :: "('a \<Rightarrow> bool) \<Rightarrow> 'a list \<Rightarrow> 'a list" where
  "drop_back P xs = rev (dropWhile P (rev xs))"

definition is_comment :: "string \<Rightarrow> bool" where "is_comment l = starts_with ''#'' (trim l)"

definition flush_buffer :: "removal \<Rightarrow> removal" where
  "flush_buffer s =
     (if rm_skip s then s\<lparr>rm_out := drop_back (\<lambda>l. trim l = []) (drop_back is_comment (rm_out s)), rm_buffer := []\<rparr>
      else s\<lparr>rm_out := rm_out s @ rm_buffer s, rm_buffer := []\<rparr>)"

definition removal_line :: "string \<Rightarrow> string \<Rightarrow> removal \<Rightarrow> removal" where
  "removal_line target rawLine s =
     (let t = trim rawLine
      in if t = ''[Peer]''
         then (if rm_inPeer s then flush_buffer s else s)\<lparr>rm_inPeer := True, rm_skip := False, rm_buffer := [rawLine]\<rparr>
         else if starts_with ''['' t
         then (let s = (if rm_inPeer s then flush_buffer s else s)
               in s\<lparr>rm_inPeer := False, rm_skip := False, rm_out := rm_out s @ [rawLine]\<rparr>)
         else if rm_inPeer s
         then s\<lparr>rm_buffer := rm_buffer s @ [rawLine],
                rm_skip := rm_skip s \<or> (starts_with ''PublicKey'' t \<and> valOf t = target)\<rparr>
         else s\<lparr>rm_out := rm_out s @ [rawLine]\<rparr>)"

definition removePeerFromConf :: "string \<Rightarrow> string \<Rightarrow> string" where
  "removePeerFromConf confText targetPubKey =
     (let s = fold (removal_line targetPubKey) (split_lines confText) \<lparr>rm_out = [], rm_inPeer = False, rm_skip = False, rm_buffer = []\<rparr>;
          s = (if rm_inPeer s then flush_buffer s else s)
      in join [LF] (drop_back (\<lambda>l. trim l = []) (rm_out s)) @ [LF])"

subsection \<open>Texts of the written lines\<close>

lemma trim_append:
  assumes "p \<noteq> []" "\<not> js_ws (hd p)" "\<not> js_ws (last p)"
  shows "trim (p @ s) = p @ rev (dropWhile js_ws (rev s))"
proof -
  have "dropWhile js_ws (p @ s) = p @ s" using assms by (cases p) auto
  moreover have "dropWhile js_ws (rev p) = rev p" using assms by (cases "rev p") (auto simp: last_rev hd_rev [symmetric])
  ultimately show ?thesis by (simp add: trim_def dropWhile_append)
qed

lemma starts_with_append [simp]: "starts_with p (p @ s)"
  by (simp add: starts_with_def)

lemma strip_prefix_append [simp]: "strip_prefix p (p @ s) = Some s"
  by (simp add: strip_prefix_def)

lemma strip_prefix_Some: "strip_prefix p s = Some r \<longleftrightarrow> s = p @ r"
  by (auto simp: strip_prefix_def starts_with_def split: if_splits) (metis append_take_drop_id)

lemma strip_prefix_None: "strip_prefix p s = None \<longleftrightarrow> \<not> starts_with p s"
  by (simp add: strip_prefix_def)

text \<open>How a line that the rewrite writes itself reads: it begins with \<open>p\<close> and stands outside headers.\<close>

lemma written_prefix:
  assumes "p \<noteq> []" "\<not> js_ws (hd p)" "\<not> js_ws (last p)" "starts_with q p"
  shows "starts_with q (trim (p @ s))"
proof -
  have "length q \<le> length p" using assms(4) by (metis nat_le_linear order.refl starts_with_def take_all)
  with assms show ?thesis by (simp add: trim_append starts_with_def)
qed

lemma hd_ws: "\<not> js_ws CHR ''P''" "\<not> js_ws CHR ''A''" "\<not> js_ws CHR ''#''" "\<not> js_ws CHR '':''" "\<not> js_ws CHR ''=''"
  "\<not> js_ws CHR ''-''" "js_ws CHR '' ''"
  by code_simp+

lemma valOf_written: "CHR ''='' \<notin> set p \<Longrightarrow> valOf (p @ '' = '' @ v) = trim v"
proof -
  assume p: "CHR ''='' \<notin> set p"
  have "dropWhile (\<lambda>c. c \<noteq> CHR ''='') (p @ '' = '' @ v) = ''= '' @ v"
    using p by (induction p) auto
  then have "valOf (p @ '' = '' @ v) = trim ('' '' @ v)" by (simp add: valOf_def)
  then show ?thesis by (simp add: trim_def hd_ws)
qed

definition hook_name :: "bool \<Rightarrow> string" where
  "hook_name isUp = (if isUp then ''PostUp'' else ''PostDown'')"

lemma trim_hook: "\<exists>r. trim (hook_name isUp @ '' = '' @ v) = hook_name isUp @ '' ='' @ r"
  using trim_append [of "hook_name isUp @ '' =''" "'' '' @ v"] by (cases isUp) (simp_all add: hook_name_def hd_ws)

lemma hook_line_reads:
  shows "starts_with ''PostUp'' (trim (hook_name isUp @ '' = '' @ v)) = isUp"
    and "starts_with ''PostDown'' (trim (hook_name isUp @ '' = '' @ v)) = (\<not> isUp)"
    and "\<not> starts_with ''['' (trim (hook_name isUp @ '' = '' @ v))" "trim (hook_name isUp @ '' = '' @ v) \<noteq> ''[Peer]''"
    and "MASQ_MARKER_RE (trim (hook_name isUp @ '' = '' @ v)) = None"
    and "valOf (hook_name isUp @ '' = '' @ v) = trim v"
proof -
  obtain r where r: "trim (hook_name isUp @ '' = '' @ v) = hook_name isUp @ '' ='' @ r" using trim_hook by blast
  show "starts_with ''PostUp'' (trim (hook_name isUp @ '' = '' @ v)) = isUp"
    "starts_with ''PostDown'' (trim (hook_name isUp @ '' = '' @ v)) = (\<not> isUp)"
    "\<not> starts_with ''['' (trim (hook_name isUp @ '' = '' @ v))" "trim (hook_name isUp @ '' = '' @ v) \<noteq> ''[Peer]''"
    "MASQ_MARKER_RE (trim (hook_name isUp @ '' = '' @ v)) = None"
    unfolding r by (cases isUp; simp add: hook_name_def starts_with_def MASQ_MARKER_RE_def strip_prefix_def)+
  have "CHR ''='' \<notin> set (hook_name isUp)" by (simp add: hook_name_def)
  then show "valOf (hook_name isUp @ '' = '' @ v) = trim v" by (rule valOf_written)
qed

text \<open>A word that no separator of a hook, a list or the marker splits.\<close>

definition clean_word :: "string \<Rightarrow> bool" where
  "clean_word w \<longleftrightarrow> w \<noteq> [] \<and> list_all (\<lambda>c. \<not> js_ws c \<and> c \<noteq> CHR '','' \<and> c \<noteq> CHR '';'') w"

lemma clean_wordD:
  assumes "clean_word w"
  shows "w \<noteq> []" "\<forall>c \<in> set w. \<not> js_ws c" "CHR '','' \<notin> set w" "CHR '';'' \<notin> set w" "trim w = w" "LF \<notin> set w" "CR \<notin> set w"
proof -
  have ws: "js_ws LF" "js_ws CR" by code_simp+
  show "w \<noteq> []" "\<forall>c \<in> set w. \<not> js_ws c" "CHR '','' \<notin> set w" "CHR '';'' \<notin> set w"
    using assms by (auto simp: clean_word_def list_all_iff)
  then show "trim w = w" "LF \<notin> set w" "CR \<notin> set w" using ws by (auto simp: trim_no_ws)
qed

lemma clean_key:
  assumes "clean_word n" "clean_word c"
  shows "clean_word (masqKey n c)" "is_masq_key (masqKey n c)"
proof -
  have eq: "\<not> js_ws CHR ''=''" by (rule hd_ws)
  show w: "clean_word (masqKey n c)" using assms eq by (simp add: clean_word_def masqKey_def)
  obtain a n' where n: "n = a # n'" using assms(1) by (cases n) (auto simp: clean_word_def)
  have "butlast (tl (masqKey n c)) = n' @ CHR ''='' # butlast c"
    using assms(2) by (simp add: n masqKey_def butlast_append clean_word_def)
  then show "is_masq_key (masqKey n c)" using w by (simp add: is_masq_key_def clean_word_def list_all_iff)
qed

lemma join_space: "ks \<noteq> [] \<Longrightarrow> CHR '' '' # join [d, CHR '' ''] ks = join [d] (map (Cons CHR '' '') ks)"
  by (induction ks rule: induct_list012) auto

lemma last_join: "ks \<noteq> [] \<Longrightarrow> last ks \<noteq> [] \<Longrightarrow> join sep ks \<noteq> [] \<and> last (join sep ks) = last (last ks)"
  by (induction sep ks rule: join.induct) auto

definition masq_keys :: "nic list \<Rightarrow> string list" where
  "masq_keys masq = map (\<lambda>n. masqKey (nic_name n) (nic_cidr n)) masq"

definition clean_nic :: "nic \<Rightarrow> bool" where
  "clean_nic n \<longleftrightarrow> clean_word (nic_name n) \<and> clean_word (nic_cidr n)"

lemma clean_masq_keys:
  assumes "list_all clean_nic masq"
  shows "k \<in> set (masq_keys masq) \<Longrightarrow> clean_word k \<and> is_masq_key k"
  using assms clean_key by (auto simp: masq_keys_def list_all_iff clean_nic_def)

lemma marker_reads_back:
  assumes "list_all clean_nic masq"
  shows "MASQ_MARKER_RE (trim (masqMarkerLine masq)) \<noteq> None" "set (marker_keys (masqMarkerLine masq)) = set (masq_keys masq)"
    and "LF \<notin> set (masqMarkerLine masq)" "CR \<notin> set (masqMarkerLine masq)" "\<not> is_header (masqMarkerLine masq)"
    and "\<not> starts_with ''PostUp'' (trim (masqMarkerLine masq))" "\<not> starts_with ''PostDown'' (trim (masqMarkerLine masq))"
proof -
  define ks where "ks = sort (uniq (masq_keys masq))"
  define r where "r = (if ks = [] then ''-'' else join '', '' ks)"
  have ks: "k \<in> set ks \<Longrightarrow> clean_word k \<and> is_masq_key k" for k
    using clean_masq_keys [OF assms] by (simp add: ks_def)
  have line: "masqMarkerLine masq = MASQ_MARKER_PREFIX @ '' '' @ r"
    by (simp add: masqMarkerLine_def r_def ks_def masq_keys_def Let_def)
  have r: "r \<noteq> [] \<and> \<not> js_ws (last r)"
  proof (cases "ks = []")
    case False
    then have "clean_word (last ks)" using ks by simp
    then show ?thesis using False last_join [of ks "'', ''"] by (auto simp: r_def clean_word_def list_all_iff)
  qed (simp add: r_def hd_ws)
  have no: "LF \<notin> set r \<and> CR \<notin> set r"
  proof -
    have "set (join sep xs) \<subseteq> set sep \<union> \<Union> (set ` set xs)" for sep :: string and xs
      by (induction sep xs rule: join.induct) auto
    then have "set (join '', '' ks) \<subseteq> set '', '' \<union> \<Union> (set ` set ks)" by blast
    moreover have "LF \<notin> \<Union> (set ` set ks)" "CR \<notin> \<Union> (set ` set ks)" using ks clean_wordD(6,7) by blast+
    moreover have "LF \<notin> set '', ''" "CR \<notin> set '', ''" by simp_all
    ultimately have "LF \<notin> set (join '', '' ks)" "CR \<notin> set (join '', '' ks)" by blast+
    then show ?thesis by (simp add: r_def)
  qed
  have "trim (masqMarkerLine masq) = MASQ_MARKER_PREFIX @ rev (dropWhile js_ws (rev ('' '' @ r)))"
    unfolding line by (rule trim_append) (simp_all add: MASQ_MARKER_PREFIX_def hd_ws)
  moreover have "dropWhile js_ws (rev ('' '' @ r)) = rev ('' '' @ r)"
    using r by (cases r rule: rev_cases) simp_all
  ultimately have t: "trim (masqMarkerLine masq) = MASQ_MARKER_PREFIX @ '' '' @ r" by simp
  have low: "to_lower ''floppyguard-masq:'' = ''floppyguard-masq:''" "\<not> js_ws CHR ''f''" by code_simp+
  have noc: "\<forall>c \<in> set r. c \<noteq> LF \<and> c \<noteq> CR" using no by blast
  have body: "MASQ_MARKER_RE (MASQ_MARKER_PREFIX @ '' '' @ r) = Some ('' '' @ r)"
    using noc low hd_ws(7) by (simp add: MASQ_MARKER_RE_def MASQ_MARKER_PREFIX_def strip_prefix_def starts_with_def list_all_iff)
  then show "MASQ_MARKER_RE (trim (masqMarkerLine masq)) \<noteq> None" by (simp add: t)
  have "marker_keys (masqMarkerLine masq) = ks"
  proof (cases "ks = []")
    case True
    have "filter is_masq_key (map trim (split_on CHR '','' '' -'')) = []" by code_simp
    moreover have "r = ''-''" using True by (simp add: r_def)
    then have "MASQ_MARKER_RE (MASQ_MARKER_PREFIX @ '' -'') = Some '' -''" "trim (masqMarkerLine masq) = MASQ_MARKER_PREFIX @ '' -''"
      using body t by simp_all
    ultimately show ?thesis using True by (simp only: marker_keys_def option.case)
  next
    case False
    have "'' '' @ r = join '','' (map (Cons CHR '' '') ks)" using join_space [OF False, of "CHR '',''"] False by (simp add: r_def)
    moreover have "\<forall>p \<in> set (map (Cons CHR '' '') ks). CHR '','' \<notin> set p" using ks clean_wordD(3) by auto
    ultimately have "split_on CHR '','' ('' '' @ r) = map (Cons CHR '' '') ks"
      using False split_on_join [of "map (Cons CHR '' '') ks" "CHR '',''"] by (simp only: map_is_Nil_conv simp_thms)
    moreover have "trim (CHR '' '' # k) = k" if "k \<in> set ks" for k
      using ks [OF that] clean_wordD(5) hd_ws(7) by (auto simp: trim_def)
    ultimately have "map trim (split_on CHR '','' ('' '' @ r)) = ks" by (simp add: map_idI)
    moreover have "filter is_masq_key ks = ks" using ks by (simp add: filter_id_conv)
    ultimately show ?thesis by (simp only: marker_keys_def t body option.case)
  qed
  then show "set (marker_keys (masqMarkerLine masq)) = set (masq_keys masq)" by (simp add: ks_def)
  show "LF \<notin> set (masqMarkerLine masq)" "CR \<notin> set (masqMarkerLine masq)"
    unfolding line using no by (simp_all add: MASQ_MARKER_PREFIX_def)
  show "\<not> is_header (masqMarkerLine masq)" "\<not> starts_with ''PostUp'' (trim (masqMarkerLine masq))"
    "\<not> starts_with ''PostDown'' (trim (masqMarkerLine masq))"
    unfolding is_header_def t by (simp_all add: MASQ_MARKER_PREFIX_def starts_with_def)
qed

subsection \<open>The generated commands\<close>

lemma take_word_append:
  assumes "w \<noteq> []" "\<forall>c \<in> set w. \<not> js_ws c" "r = [] \<or> js_ws (hd r)"
  shows "take_word (w @ r) = Some (w, r)"
proof -
  have "takeWhile (\<lambda>c. \<not> js_ws c) r = []" using assms(3) by (cases r) auto
  then have "takeWhile (\<lambda>c. \<not> js_ws c) (w @ r) = w" using assms(2) by simp
  then show ?thesis using assms(1) by (simp add: take_word_def Let_def)
qed

lemma masq_cmd_reads:
  assumes "clean_word n" "clean_word c" "s = [] \<or> s = silent"
  shows "GENERATED_MASQ_RE (masq_cmd isUp n c @ s) = Some (n, c)"
proof -
  define v where "v = (if isUp then CHR ''A'' else CHR ''D'')"
  have v: "v = CHR ''A'' \<or> v = CHR ''D''" by (simp add: v_def)
  have cmd: "masq_cmd isUp n c @ s = ''iptables -t nat -'' @ (v # ('' POSTROUTING -o '' @ (n @ ('' -s '' @ (c @ ('' -j MASQUERADE'' @ s))))))"
    by (simp add: masq_cmd_def v_def)
  have ws: "js_ws (hd ('' -s '' @ x))" "js_ws (hd ('' -j MASQUERADE'' @ x))" for x using hd_ws(7) by simp_all
  have w: "take_word (n @ ('' -s '' @ x)) = Some (n, '' -s '' @ x)" "take_word (c @ ('' -j MASQUERADE'' @ x)) = Some (c, '' -j MASQUERADE'' @ x)" for x
    using assms(1,2) clean_wordD(1,2) ws by (simp_all add: take_word_append del: append_Cons append_Nil)
  show ?thesis
    unfolding cmd GENERATED_MASQ_RE_def using v assms(3)
    by (simp only: strip_prefix_append option.case list.sel list.simps if_False w prod.case) auto
qed

lemma route_cmd_reads: "clean_word net \<Longrightarrow> is_route_cmd i (route_cmd isUp i net)"
proof -
  assume net: "clean_word net"
  have ws: "js_ws (hd ('' dev '' @ x))" for x using hd_ws(7) by simp
  have w: "take_word (net @ ('' dev '' @ x)) = Some (net, '' dev '' @ x)" for x
    using net clean_wordD(1,2) ws by (simp add: take_word_append del: append_Cons append_Nil)
  have "strip_prefix ''ip route add '' (''ip route del '' @ x) = None" for x
    by (simp add: strip_prefix_def starts_with_def)
  moreover have "starts_with ('' dev '' @ i) ('' dev '' @ i @ silent)"
    using starts_with_append [of "'' dev '' @ i" silent] by simp
  moreover have "route_cmd True i net = ''ip route add '' @ (net @ ('' dev '' @ (i @ silent)))"
    "route_cmd False i net = ''ip route del '' @ (net @ ('' dev '' @ (i @ silent)))" by (simp_all add: route_cmd_def)
  moreover have "strip_prefix ''ip route del '' (''ip route add '' @ x) = None" for x
    by (simp add: strip_prefix_def starts_with_def)
  ultimately show ?thesis
    by (cases isUp) (simp_all only: is_route_cmd_def strip_prefix_append option.case prod.case or_else_def w)
qed

definition gen_cmds :: "bool \<Rightarrow> hub_change \<Rightarrow> string list" where
  "gen_cmds isUp h = hook_routes isUp (hc_iface h) (hc_routes h) @ hook_masq isUp (hc_masq h)"

definition clean_change :: "hub_change \<Rightarrow> bool" where
  "clean_change h \<longleftrightarrow> clean_word (hc_iface h) \<and> list_all clean_word (hc_routes h) \<and> list_all clean_nic (hc_masq h)
     \<and> list_all (\<lambda>n. nic_name n \<noteq> hc_iface h) (hc_masq h) \<and> distinct (hc_routes h) \<and> distinct (masq_keys (hc_masq h))"

lemma trim_silent: "clean_word w \<Longrightarrow> x \<noteq> [] \<Longrightarrow> \<not> js_ws (hd x) \<Longrightarrow> trim (x @ w @ silent) = x @ w @ silent"
proof -
  assume x: "x \<noteq> []" "\<not> js_ws (hd x)"
  have "last silent = CHR ''e''" "\<not> js_ws CHR ''e''" "silent \<noteq> []" by code_simp+
  then show ?thesis using x by (intro trim_id) simp_all
qed

lemma gen_cmd_cases:
  assumes "clean_change h" "g \<in> set (gen_cmds isUp h)"
  obtains net where "net \<in> set (hc_routes h)" "clean_word net" "g = route_cmd isUp (hc_iface h) net"
  | n where "n \<in> set (hc_masq h)" "clean_nic n" "nic_name n \<noteq> hc_iface h"
      "g = masq_cmd isUp (nic_name n) (nic_cidr n) @ (if isUp then [] else silent)"
  using assms by (auto simp: gen_cmds_def hook_routes_def hook_masq_def clean_change_def list_all_iff)

lemma gen_cmd_dropped:
  assumes "clean_change h" "g \<in> set (gen_cmds isUp h)" "set (masq_keys (hc_masq h)) \<subseteq> set owned"
  shows "is_route_cmd (hc_iface h) g \<or> isGeneratedMasq g (hc_iface h) owned"
  using assms(1,2)
proof (cases rule: gen_cmd_cases)
  case (2 n)
  then have "masqKey (nic_name n) (nic_cidr n) \<in> set owned" using assms(3) by (auto simp: masq_keys_def)
  with 2 show ?thesis by (simp add: isGeneratedMasq_def clean_nic_def masq_cmd_reads)
qed (simp add: route_cmd_reads)

lemma gen_cmd_text:
  assumes "clean_change h" "g \<in> set (gen_cmds isUp h)"
  shows "CHR '';'' \<notin> set g \<and> trim g = g \<and> g \<noteq> [] \<and> LF \<notin> set g \<and> CR \<notin> set g"
  using assms
proof (cases rule: gen_cmd_cases)
  case (1 net)
  have i: "clean_word (hc_iface h)" using assms(1) by (simp add: clean_change_def)
  let ?x = "''ip route '' @ (if isUp then ''add'' else ''del'') @ '' '' @ net @ '' dev ''"
  have g: "g = ?x @ hc_iface h @ silent" using 1 by (simp add: route_cmd_def)
  have "?x \<noteq> []" "\<not> js_ws (hd ?x)" by simp (use js_ws_def in \<open>simp\<close>)
  from trim_silent [OF i this] have "trim g = g" by (simp only: g append_assoc)
  then show ?thesis using i 1(2) clean_wordD(4,6,7) by (auto simp: g silent_def)
next
  case (2 n)
  have i: "\<not> js_ws CHR ''i''" "\<not> js_ws CHR ''E''" "\<not> js_ws CHR ''e''" by code_simp+
  have g: "g = ''iptables -t nat -'' @ (if isUp then ''A'' else ''D'') @ '' POSTROUTING -o '' @ nic_name n @ '' -s '' @ nic_cidr n @ '' -j MASQUERADE'' @ (if isUp then [] else silent)"
    using 2 by (simp add: masq_cmd_def)
  have "trim g = g" by (rule trim_id) (simp_all add: g silent_def i)
  then show ?thesis using 2(2) clean_wordD(4,6,7) by (auto simp: g silent_def clean_nic_def)
qed

text \<open>The text by which repeated commands are recognised.\<close>

definition route_text :: "bool \<Rightarrow> string \<Rightarrow> string \<Rightarrow> string" where
  "route_text isUp i net = ''ip route '' @ (if isUp then ''add'' else ''del'') @ '' '' @ net @ '' dev '' @ i"

lemma silent_tail: "silent = '' '' @ tl silent" "length (tl silent) = 19" "js_ws (hd silent)" "last (tl silent) = CHR ''e''"
  by (simp_all add: silent_def hd_ws)

lemma hook_norm_silent: "x \<noteq> [] \<Longrightarrow> \<not> js_ws (last x) \<Longrightarrow> hook_norm (x @ silent) = trim x"
proof -
  assume x: "x \<noteq> []" "\<not> js_ws (last x)"
  have e: "ends_with (tl silent) (x @ silent)"
    using starts_with_append [of "rev (tl silent)" "rev (x @ '' '')"] silent_tail(1) by (metis append_assoc ends_with_def rev_append)
  have t: "take (length (x @ silent) - length (tl silent)) (x @ silent) = x @ '' ''"
    by (simp add: silent_def)
  have "trim (x @ '' '') = trim x"
    using x hd_ws(7) by (cases "dropWhile js_ws x = []") (auto simp: trim_def dropWhile_append dropWhile_eq_Nil_conv)
  then show ?thesis using e t hd_ws(7) by (simp add: hook_norm_def)
qed

lemma hook_norm_plain: "trim c = c \<Longrightarrow> \<not> ends_with (tl silent) c \<Longrightarrow> hook_norm c = c"
  by (simp add: hook_norm_def)

lemma route_norm: "clean_word net \<Longrightarrow> clean_word i \<Longrightarrow> hook_norm (route_cmd isUp i net) = route_text isUp i net"
proof -
  assume c: "clean_word net" "clean_word i"
  have l: "i \<noteq> []" "\<not> js_ws (last i)" using c(2) clean_wordD(1,2) by auto
  have "hook_norm (route_text isUp i net @ silent) = trim (route_text isUp i net)"
    using l by (intro hook_norm_silent) (simp_all add: route_text_def)
  moreover have "trim (route_text isUp i net) = route_text isUp i net"
    using l by (intro trim_id) (simp_all add: route_text_def js_ws_def)
  ultimately show ?thesis by (simp add: route_cmd_def route_text_def)
qed

lemma masq_norm:
  "hook_norm (masq_cmd isUp n c @ (if isUp then [] else silent)) = masq_cmd isUp n c"
proof -
  have i: "\<not> js_ws CHR ''i''" "\<not> js_ws CHR ''E''" by code_simp+
  have t: "trim (masq_cmd isUp n c) = masq_cmd isUp n c" by (rule trim_id) (simp_all add: masq_cmd_def i)
  have "\<not> ends_with (tl silent) (masq_cmd isUp n c)"
    by (simp add: ends_with_def masq_cmd_def starts_with_def silent_def)
  moreover have "hook_norm (masq_cmd isUp n c @ silent) = trim (masq_cmd isUp n c)"
    by (rule hook_norm_silent) (simp_all add: masq_cmd_def i)
  ultimately show ?thesis using t by (cases isUp) (simp_all add: hook_norm_plain)
qed

lemma gen_norms_distinct:
  assumes "clean_change h"
  shows "distinct (map hook_norm (gen_cmds isUp h))"
proof -
  have c: "clean_word (hc_iface h)" "\<forall>net \<in> set (hc_routes h). clean_word net" "\<forall>n \<in> set (hc_masq h). clean_nic n"
    "distinct (hc_routes h)" "distinct (masq_keys (hc_masq h))"
    using assms by (auto simp: clean_change_def list_all_iff)
  have r: "map hook_norm (hook_routes isUp (hc_iface h) (hc_routes h)) = map (route_text isUp (hc_iface h)) (sort (hc_routes h))"
    using c(1,2) by (simp add: hook_routes_def route_norm)
  have m: "map hook_norm (hook_masq isUp (hc_masq h)) = map (\<lambda>n. masq_cmd isUp (nic_name n) (nic_cidr n)) (hc_masq h)"
    by (simp only: hook_masq_def map_map comp_def masq_norm)
  have "inj (route_text isUp (hc_iface h))" by (auto simp: inj_def route_text_def)
  then have dr: "distinct (map (route_text isUp (hc_iface h)) (sort (hc_routes h)))"
    using c(4) by (simp add: distinct_map) (metis inj_on_subset subset_UNIV)
  have "inj_on (\<lambda>n. masq_cmd isUp (nic_name n) (nic_cidr n)) (set (hc_masq h))"
  proof (rule inj_onI)
    fix a b assume ab: "a \<in> set (hc_masq h)" "b \<in> set (hc_masq h)"
      and eq: "masq_cmd isUp (nic_name a) (nic_cidr a) = masq_cmd isUp (nic_name b) (nic_cidr b)"
    have "GENERATED_MASQ_RE (masq_cmd isUp (nic_name n) (nic_cidr n)) = Some (nic_name n, nic_cidr n)"
      if "n \<in> set (hc_masq h)" for n
      using c(3) that masq_cmd_reads [of "nic_name n" "nic_cidr n" "[]" isUp] by (simp add: clean_nic_def)
    from this [OF ab(1)] this [OF ab(2)] have "(nic_name a, nic_cidr a) = (nic_name b, nic_cidr b)"
      by (simp only: eq option.inject)
    then have "masqKey (nic_name a) (nic_cidr a) = masqKey (nic_name b) (nic_cidr b)" by simp
    then show "a = b" using ab c(5) by (auto simp: masq_keys_def distinct_map dest: inj_onD)
  qed
  moreover have "distinct (hc_masq h)" using c(5) by (auto simp: masq_keys_def distinct_map)
  ultimately have "distinct (map (\<lambda>n. masq_cmd isUp (nic_name n) (nic_cidr n)) (hc_masq h))" by (simp add: distinct_map)
  moreover have "route_text isUp i net \<noteq> masq_cmd isUp n' c'" for i net n' c'
    by (simp add: route_text_def masq_cmd_def)
  ultimately show ?thesis using dr by (auto simp: gen_cmds_def r m)
qed

subsection \<open>Commands of the operator\<close>

lemma dedupe_hooks_append:
  "dedupe_hooks seen (xs @ ys) = dedupe_hooks seen xs @ dedupe_hooks (rev (map hook_norm (dedupe_hooks seen xs)) @ seen) ys"
  by (induction xs arbitrary: seen) simp_all

lemma dedupe_hooks_cong: "set seen = set seen' \<Longrightarrow> dedupe_hooks seen xs = dedupe_hooks seen' xs"
proof (induction xs arbitrary: seen seen')
  case (Cons x xs)
  have a: "dedupe_hooks seen xs = dedupe_hooks seen' xs" by (rule Cons.IH [OF Cons.prems])
  have b: "dedupe_hooks (hook_norm x # seen) xs = dedupe_hooks (hook_norm x # seen') xs"
    by (rule Cons.IH) (simp add: Cons.prems)
  show ?case by (simp only: dedupe_hooks.simps a b Cons.prems)
qed simp

lemma dedupe_hooks_set: "set (dedupe_hooks seen xs) \<subseteq> set xs"
  by (induction xs arbitrary: seen) auto

lemma dedupe_hooks_distinct:
  "distinct (map hook_norm (dedupe_hooks seen xs)) \<and> hook_norm ` set (dedupe_hooks seen xs) \<inter> set seen = {}"
proof (induction xs arbitrary: seen)
  case (Cons x xs)
  then show ?case using Cons.IH [of seen] Cons.IH [of "hook_norm x # seen"] by auto
qed simp

lemma dedupe_hooks_id:
  "distinct (map hook_norm xs) \<Longrightarrow> hook_norm ` set xs \<inter> set seen = {} \<Longrightarrow> dedupe_hooks seen xs = xs"
  by (induction xs arbitrary: seen) auto

text \<open>A hook reads back as the commands that were joined.\<close>

definition plain_item :: "char \<Rightarrow> string \<Rightarrow> bool" where
  "plain_item d c \<longleftrightarrow> c \<noteq> [] \<and> trim c = c \<and> d \<notin> set c"

abbreviation plain_cmd :: "string \<Rightarrow> bool" where
  "plain_cmd \<equiv> plain_item CHR '';''"

lemma join_items: "cs \<noteq> [] \<Longrightarrow> join [d, CHR '' ''] cs = join [d] (hd cs # map (Cons CHR '' '') (tl cs))"
  using join_space [of "tl cs" d] by (cases cs; cases "tl cs") auto

lemma trim_ends:
  assumes "trim s = s" "s \<noteq> []"
  shows "\<not> js_ws (hd s)" "\<not> js_ws (last s)"
proof -
  have "js_ws (hd s) \<Longrightarrow> length (trim s) < length s"
  proof -
    assume "js_ws (hd s)"
    then have "length (dropWhile js_ws s) < length s"
      using assms(2) by (cases s) (auto simp: less_Suc_eq_le length_dropWhile_le)
    moreover have "length (trim s) \<le> length (dropWhile js_ws s)"
      by (simp add: trim_def) (metis length_dropWhile_le length_rev)
    ultimately show ?thesis by simp
  qed
  then show "\<not> js_ws (hd s)" using assms(1) by auto
  show "\<not> js_ws (last s)"
    using assms dropWhile_ends [of js_ws "rev (dropWhile js_ws s)"]
    by (metis hd_rev last_rev rev_is_Nil_conv rev_rev_ident trim_def)
qed

lemma items_read_back:
  assumes "\<forall>c \<in> set cs. plain_item d c" "d \<noteq> CHR '' ''"
  shows "filter (\<lambda>p. p \<noteq> []) (map trim (split_on d (trim (join [d, CHR '' ''] cs)))) = cs"
proof (cases "cs = []")
  case True
  have "trim [] = []" by (simp add: trim_def)
  with True show ?thesis by simp
next
  case False
  let ?ps = "hd cs # map (Cons CHR '' '') (tl cs)"
  have p: "plain_item d (hd cs)" "plain_item d (last cs)" using False assms by simp_all
  have "join [d, CHR '' ''] cs \<noteq> [] \<and> last (join [d, CHR '' ''] cs) = last (last cs)"
    using p(2) by (intro last_join [OF False]) (simp add: plain_item_def)
  moreover have "hd (join [d, CHR '' ''] cs) = hd (hd cs)" using p(1) False
    by (cases cs; cases "tl cs"; cases "hd cs") (auto simp: plain_item_def)
  ultimately have t: "trim (join [d, CHR '' ''] cs) = join [d, CHR '' ''] cs"
    using p trim_ends by (intro trim_id) (auto simp: plain_item_def)
  have "\<forall>p \<in> set ?ps. d \<notin> set p" using False assms by (auto simp: plain_item_def dest: list.set_sel)
  then have s: "split_on d (join [d, CHR '' ''] cs) = ?ps"
    unfolding join_items [OF False] by (intro split_on_join) simp_all
  have "map trim (map (Cons CHR '' '') (tl cs)) = tl cs"
    using False assms hd_ws(7) by (auto simp: plain_item_def trim_def intro!: map_idI dest: list.set_sel(2))
  then have "map trim ?ps = cs" using p(1) False by (simp add: plain_item_def)
  moreover have "filter (\<lambda>p. p \<noteq> []) cs = cs" using assms by (simp add: filter_id_conv plain_item_def)
  ultimately show ?thesis unfolding t s by (simp only:)
qed

lemma commands_read_back:
  "\<forall>c \<in> set cs. plain_cmd c \<Longrightarrow> filter (\<lambda>p. p \<noteq> []) (map trim (split_on CHR '';'' (trim (join ''; '' cs)))) = cs"
  by (rule items_read_back) simp_all

definition hook_body :: "hub_change \<Rightarrow> string list \<Rightarrow> bool \<Rightarrow> string \<Rightarrow> string list" where
  "hook_body h owned isUp v = dedupeHookCmds (kept_cmds h owned v @ gen_cmds isUp h)"

lemma hook_line_body: "hook_line h owned isUp v = hook_name isUp @ '' = '' @ join ''; '' (hook_body h owned isUp v)"
  by (simp add: hook_line_def hook_name_def hook_body_def gen_cmds_def)

lemma kept_cmds_filter:
  "kept_cmds h owned v = filter (\<lambda>p. \<not> is_route_cmd (hc_iface h) p \<and> \<not> isGeneratedMasq p (hc_iface h) owned)
     (filter (\<lambda>p. p \<noteq> []) (map trim (split_on CHR '';'' v)))"
  by (simp add: kept_cmds_def)

lemma kept_plain: "c \<in> set (kept_cmds h owned v) \<Longrightarrow> plain_cmd c"
proof -
  assume c: "c \<in> set (kept_cmds h owned v)"
  then obtain p where p: "p \<in> set (split_on CHR '';'' v)" "c = trim p" "c \<noteq> []" by (auto simp: kept_cmds_def)
  have "CHR '';'' \<notin> set p" using p(1) split_on_eq_iff [of "CHR '';''" v] by blast
  then show ?thesis using p set_trim [of p] by (auto simp: plain_item_def)
qed

lemma hook_body_plain:
  assumes "clean_change h"
  shows "\<forall>c \<in> set (hook_body h owned isUp v). plain_cmd c"
proof
  fix c assume "c \<in> set (hook_body h owned isUp v)"
  then have "c \<in> set (kept_cmds h owned v) \<or> c \<in> set (gen_cmds isUp h)"
    using dedupe_hooks_set [of "[]" "kept_cmds h owned v @ gen_cmds isUp h"] by (auto simp: hook_body_def dedupeHookCmds_def)
  then show "plain_cmd c" using kept_plain [of c h owned v] gen_cmd_text [OF assms, of c isUp] unfolding plain_item_def by blast
qed

text \<open>The hook of the next rewrite is this one.\<close>

lemma hook_body_again:
  assumes "clean_change h" "set (masq_keys (hc_masq h)) \<subseteq> set owned'" "set owned' \<subseteq> set owned"
  shows "hook_body (h\<lparr>hc_updates := U\<rparr>) owned' isUp (trim (join ''; '' (hook_body h owned isUp v))) = hook_body h owned isUp v"
proof -
  let ?h = "h\<lparr>hc_updates := U\<rparr>"
  let ?K = "kept_cmds h owned v" and ?G = "gen_cmds isUp h"
  let ?k = "\<lambda>p. \<not> is_route_cmd (hc_iface h) p \<and> \<not> isGeneratedMasq p (hc_iface h) owned'"
  define DK where "DK = dedupe_hooks [] ?K"
  define DG where "DG = dedupe_hooks (rev (map hook_norm DK)) ?G"
  have D: "hook_body h owned isUp v = DK @ DG"
    by (simp add: hook_body_def dedupeHookCmds_def dedupe_hooks_append DK_def DG_def)
  have "?k p" if "p \<in> set DK" for p
  proof -
    have "p \<in> set ?K" using that dedupe_hooks_set by (auto simp: DK_def)
    then show ?thesis using assms(3) by (auto simp: kept_cmds_def isGeneratedMasq_def split: option.splits)
  qed
  then have k1: "filter ?k DK = DK" by (simp add: filter_id_conv)
  have "\<not> ?k p" if "p \<in> set DG" for p
    using that dedupe_hooks_set gen_cmd_dropped [OF assms(1) _ assms(2)] by (fastforce simp: DG_def)
  then have k2: "filter ?k DG = []" by (simp add: filter_empty_conv)
  have "kept_cmds ?h owned' (trim (join ''; '' (hook_body h owned isUp v))) = filter ?k (hook_body h owned isUp v)"
    unfolding kept_cmds_filter using commands_read_back [OF hook_body_plain [OF assms(1)]] by simp
  also have "\<dots> = DK" by (simp add: D k1 k2)
  finally have K: "kept_cmds ?h owned' (trim (join ''; '' (hook_body h owned isUp v))) = DK" .
  have "dedupe_hooks [] DK = DK"
    using dedupe_hooks_distinct [of "[]" ?K] by (intro dedupe_hooks_id) (simp_all add: DK_def)
  moreover have "gen_cmds isUp ?h = ?G" by (simp add: gen_cmds_def)
  ultimately have "dedupeHookCmds (DK @ gen_cmds isUp ?h) = DK @ DG"
    by (simp add: dedupeHookCmds_def dedupe_hooks_append DG_def)
  then show ?thesis unfolding hook_body_def [of ?h] K by (simp only: D)
qed

end
