(* ===== verification/Wg_Hub_Rewrite.thy ===== *)
theory Wg_Hub_Rewrite
  imports Wg_Hub_Conf
begin

text \<open>
  What the rewrite of a hub configuration guarantees: rewriting the new file again with the same
  networks changes nothing, every line that is not generated stays where it is, and the peers of
  the new file have the networks they were given.
\<close>

subsection \<open>A second rewrite\<close>

lemma rewrite_pass_append:
  "rewrite_pass h owned s (xs @ ys) =
     (let (a, s1) = rewrite_pass h owned s xs; (b, s2) = rewrite_pass h owned s1 ys in (a @ b, s2))"
  by (induction xs arbitrary: s) (simp_all add: Let_def split: prod.split)

lemma rewrite_pass_appendI:
  "rewrite_pass h owned s xs = (a, s1) \<Longrightarrow> rewrite_pass h owned s1 ys = (b, s2) \<Longrightarrow> rewrite_pass h owned s (xs @ ys) = (a @ b, s2)"
  by (simp add: rewrite_pass_append)

abbreviation settled :: "hub_change \<Rightarrow> hub_change" where
  "settled h \<equiv> h\<lparr>hc_updates := []\<rparr>"

lemma update_for_settled [simp]: "update_for (settled h) s = None"
  by (simp add: update_for_def split: option.split)

text \<open>The cases of a line.\<close>

lemma rewrite_line_cases:
  obtains (marker) "\<not> rw_inPeer s" "MASQ_MARKER_RE (trim l) \<noteq> None" "rewrite_line h owned s l = ([], s)"
  | (ips) ips where "rw_inPeer s" "starts_with ''AllowedIPs'' (trim l)" "\<not> is_header l" "update_for h s = Some ips"
      "rewrite_line h owned s l = ([''AllowedIPs = '' @ join '', '' ips], s)"
  | (hook) isUp where "\<not> rw_inPeer s" "MASQ_MARKER_RE (trim l) = None" "\<not> is_header l" "starts_with (hook_name isUp) (trim l)"
      "isUp = starts_with ''PostUp'' (trim l)"
      "rewrite_line h owned s l = ((if isUp \<and> \<not> rw_marked s then [masqMarkerLine (hc_masq h)] else [])
         @ [hook_line h owned isUp (valOf l)], s\<lparr>rw_marked := rw_marked s \<or> isUp\<rparr>)"
  | (same) s' where "rewrite_line h owned s l = ([l], s')" "rewrite_line (settled h) owned' s l = ([l], s')"
      "rw_inPeer s \<or> (MASQ_MARKER_RE (trim l) = None \<and> \<not> starts_with ''PostUp'' (trim l) \<and> \<not> starts_with ''PostDown'' (trim l))
        \<or> is_header l"
      "rw_marked s' = rw_marked s"
proof -
  let ?t = "trim l"
  have peer: "starts_with ''['' ''[Peer]''" by (simp add: starts_with_def)
  consider "\<not> rw_inPeer s \<and> MASQ_MARKER_RE ?t \<noteq> None"
    | "rw_inPeer s \<or> MASQ_MARKER_RE ?t = None" "is_header l"
    | "rw_inPeer s" "\<not> is_header l" "starts_with ''PublicKey'' ?t"
    | ips where "rw_inPeer s" "\<not> is_header l" "\<not> starts_with ''PublicKey'' ?t" "starts_with ''AllowedIPs'' ?t" "update_for h s = Some ips"
    | "rw_inPeer s" "\<not> is_header l" "\<not> starts_with ''PublicKey'' ?t" "starts_with ''AllowedIPs'' ?t \<longrightarrow> update_for h s = None"
    | "\<not> rw_inPeer s" "MASQ_MARKER_RE ?t = None" "\<not> is_header l" "starts_with ''PostUp'' ?t \<or> starts_with ''PostDown'' ?t"
    | "\<not> rw_inPeer s" "MASQ_MARKER_RE ?t = None" "\<not> is_header l" "\<not> starts_with ''PostUp'' ?t" "\<not> starts_with ''PostDown'' ?t"
    by (cases "update_for h s") blast+
  then show thesis
  proof cases
    case 1 then show thesis by (intro marker) (auto simp: rewrite_line_def)
  next
    case 2
    then show thesis
      by (intro same [of "if ?t = ''[Peer]'' then s\<lparr>rw_inPeer := True, rw_key := None\<rparr> else s\<lparr>rw_inPeer := False, rw_key := None\<rparr>"])
        (auto simp: rewrite_line_def is_header_def Let_def)
  next
    case 3 then show thesis by (intro same [of "s\<lparr>rw_key := Some (valOf ?t)\<rparr>"]) (use peer in \<open>auto simp: rewrite_line_def is_header_def Let_def\<close>)
  next
    case 4 then show thesis by (intro ips) (use peer in \<open>auto simp: rewrite_line_def is_header_def Let_def or_else_def\<close>)
  next
    case 5 then show thesis by (intro same [of s]) (use peer in \<open>auto simp: rewrite_line_def is_header_def Let_def\<close>)
  next
    case 6
    then show thesis
      by (intro hook [of "starts_with ''PostUp'' ?t"]) (use peer in \<open>auto simp: rewrite_line_def is_header_def Let_def hook_name_def\<close>)
  next
    case 7 then show thesis by (intro same [of s]) (use peer in \<open>auto simp: rewrite_line_def is_header_def Let_def\<close>)
  qed
qed

lemma ips_line_again:
  assumes "rw_inPeer s"
  shows "rewrite_line (settled h) owned' s (''AllowedIPs = '' @ x) = ([''AllowedIPs = '' @ x], s)"
proof -
  have "\<exists>r. trim (''AllowedIPs ='' @ ('' '' @ x)) = ''AllowedIPs ='' @ r"
    by (subst trim_append) (simp_all add: hd_ws)
  then obtain r where "trim (''AllowedIPs = '' @ x) = ''AllowedIPs ='' @ r" by auto
  then show ?thesis using assms by (simp add: rewrite_line_def starts_with_def Let_def)
qed

lemma marker_line_again:
  assumes "\<not> rw_inPeer s" "list_all clean_nic (hc_masq h)"
  shows "rewrite_line h' owned' s (masqMarkerLine (hc_masq h)) = ([], s)"
  using marker_reads_back(1) [OF assms(2)] assms(1) by (simp add: rewrite_line_def)

lemma hook_line_again:
  assumes "\<not> rw_inPeer s" "clean_change h" "set (masq_keys (hc_masq h)) \<subseteq> set owned'" "set owned' \<subseteq> set owned"
  shows "rewrite_line (settled h) owned' s (hook_line h owned isUp v)
    = ((if isUp \<and> \<not> rw_marked s then [masqMarkerLine (hc_masq h)] else []) @ [hook_line h owned isUp v],
       s\<lparr>rw_marked := rw_marked s \<or> isUp\<rparr>)"
proof -
  let ?b = "hook_body h owned isUp v"
  have b: "hook_line (settled h) owned' isUp (trim (join ''; '' ?b)) = hook_name isUp @ '' = '' @ join ''; '' ?b"
    unfolding hook_line_body [of "settled h"] hook_body_again [OF assms(2-4)] ..
  have n: "starts_with ''PostUp'' (trim (hook_name isUp @ '' = '' @ v)) \<or> starts_with ''PostDown'' (trim (hook_name isUp @ '' = '' @ v))" for v
    using hook_line_reads(1,2) by blast
  show ?thesis
    unfolding hook_line_body [of h]
    using assms(1) hook_line_reads [of isUp "join ''; '' ?b"] n [of "join ''; '' ?b"]
    by (simp add: rewrite_line_def b Let_def del: append_Cons append_Nil)
qed

lemma line_again:
  assumes "rewrite_line h owned s l = (e, s1)" "clean_change h"
    and "set (masq_keys (hc_masq h)) \<subseteq> set owned'" "set owned' \<subseteq> set owned"
  shows "rewrite_pass (settled h) owned' s e = (e, s1)"
proof (cases rule: rewrite_line_cases [where s = s and l = l and h = h and owned = owned and owned' = owned'])
  case marker
  then show ?thesis using assms(1) by simp
next
  case (ips as)
  then show ?thesis using assms(1) ips_line_again [of s h owned' "join '', '' as"] by auto
next
  case (same s')
  then show ?thesis using assms(1) by auto
next
  case (hook isUp)
  have c: "list_all clean_nic (hc_masq h)" using assms(2) by (simp add: clean_change_def)
  note m = marker_line_again [OF hook(1) c, of "settled h" owned']
  note k = hook_line_again [OF hook(1) assms(2-4), of isUp "valOf l"]
  have "rewrite_pass (settled h) owned' s ((if isUp \<and> \<not> rw_marked s then [masqMarkerLine (hc_masq h)] else []) @ [hook_line h owned isUp (valOf l)])
      = ((if isUp \<and> \<not> rw_marked s then [masqMarkerLine (hc_masq h)] else []) @ [hook_line h owned isUp (valOf l)],
         s\<lparr>rw_marked := rw_marked s \<or> isUp\<rparr>)"
    using k by (cases isUp; cases "rw_marked s") (simp_all add: m)
  then show ?thesis using assms(1) hook by simp
qed

lemma pass_again:
  assumes "clean_change h" "set (masq_keys (hc_masq h)) \<subseteq> set owned'" "set owned' \<subseteq> set owned"
  shows "rewrite_pass h owned s ls = (e, s1) \<Longrightarrow> rewrite_pass (settled h) owned' s e = (e, s1)"
proof (induction ls arbitrary: s e s1)
  case (Cons l ls)
  obtain a s2 where a: "rewrite_line h owned s l = (a, s2)" by fastforce
  obtain b s3 where b: "rewrite_pass h owned s2 ls = (b, s3)" by fastforce
  have "e = a @ b" "s1 = s3" using Cons.prems by (simp_all add: a b)
  then show ?case using rewrite_pass_appendI [OF line_again [OF a assms] Cons.IH [OF b]] by simp
qed simp

text \<open>Without a PostUp it does not matter whether the marker is written.\<close>

lemma pass_marked:
  "\<not> has_hook ''PostUp'' ls \<Longrightarrow> rewrite_pass h owned s ls = (e, s1) \<Longrightarrow>
    rewrite_pass h owned (s\<lparr>rw_marked := b\<rparr>) ls = (e, s1\<lparr>rw_marked := b\<rparr>)"
proof (induction ls arbitrary: s e s1)
  case (Cons l ls)
  obtain a s2 where a: "rewrite_line h owned s l = (a, s2)" by fastforce
  obtain c s3 where c: "rewrite_pass h owned s2 ls = (c, s3)" by fastforce
  have l: "\<not> starts_with ''PostUp'' (trim l)" "\<not> has_hook ''PostUp'' ls" using Cons.prems(1) by (simp_all add: has_hook_def)
  have "rewrite_line h owned (s\<lparr>rw_marked := b\<rparr>) l = (a, s2\<lparr>rw_marked := b\<rparr>)"
    using a l(1)
    by (cases "rw_inPeer s"; cases "MASQ_MARKER_RE (trim l)"; cases "trim l = ''[Peer]''"; cases "starts_with ''['' (trim l)")
      (auto simp: rewrite_line_def update_for_def Let_def split: if_splits)
  with Cons.IH [OF l(2) c] a c Cons.prems(2) show ?case by simp
qed simp

subsection \<open>Where hooks stand\<close>

definition peer_line :: "string \<Rightarrow> bool \<Rightarrow> bool" where
  "peer_line l p = (if is_header l then trim l = ''[Peer]'' else p)"

text \<open>No hook stands in a peer, and the first section is no peer.\<close>

fun hooks_outside :: "bool \<Rightarrow> string list \<Rightarrow> bool" where
  "hooks_outside p [] = True"
| "hooks_outside p (l # ls) =
     (\<not> (p \<and> (starts_with ''PostUp'' (trim l) \<or> starts_with ''PostDown'' (trim l))) \<and> hooks_outside (peer_line l p) ls)"

definition first_section_ok :: "string list \<Rightarrow> bool" where
  "first_section_ok ls = (case find is_header ls of None \<Rightarrow> True | Some l \<Rightarrow> trim l \<noteq> ''[Peer]'')"

lemma hooks_outside_split:
  "hooks_outside p (xs @ l # ys) \<Longrightarrow> starts_with (hook_name b) (trim l) \<Longrightarrow> \<not> fold peer_line xs p"
  by (induction xs arbitrary: p) (auto simp: hook_name_def split: if_splits)

lemma peer_is_header: "trim l = ''[Peer]'' \<Longrightarrow> is_header l"
  by (simp add: is_header_def starts_with_def)

lemma rewrite_line_state:
  "rewrite_line h owned s l = (e, s1) \<Longrightarrow> rw_inPeer s1 = peer_line l (rw_inPeer s)
    \<and> (\<not> starts_with ''PostUp'' (trim l) \<longrightarrow> rw_marked s1 = rw_marked s)"
proof -
  assume l: "rewrite_line h owned s l = (e, s1)"
  have m: "MASQ_MARKER_RE t = None" if "starts_with ''['' t" for t
    using that by (cases t) (auto simp: MASQ_MARKER_RE_def strip_prefix_def starts_with_def)
  show ?thesis
    using l m [of "trim l"] peer_is_header [of l]
    by (cases "is_header l"; cases "trim l = ''[Peer]''"; cases "rw_inPeer s"; cases "MASQ_MARKER_RE (trim l)")
      (auto simp: rewrite_line_def peer_line_def is_header_def Let_def split: if_splits)
qed

lemma pass_state:
  "rewrite_pass h owned s ls = (e, s1) \<Longrightarrow> rw_inPeer s1 = fold peer_line ls (rw_inPeer s)
    \<and> (\<not> has_hook ''PostUp'' ls \<longrightarrow> rw_marked s1 = rw_marked s)"
proof (induction ls arbitrary: s e)
  case (Cons l ls)
  obtain a s2 where a: "rewrite_line h owned s l = (a, s2)" by fastforce
  obtain b s3 where b: "rewrite_pass h owned s2 ls = (b, s3)" by fastforce
  show ?case using Cons.IH [of s2 b] rewrite_line_state [OF a] Cons.prems by (simp add: a b has_hook_def)
qed simp

lemma trim_marker_not_hook: "MASQ_MARKER_RE t \<noteq> None \<Longrightarrow> \<not> starts_with (hook_name b) t \<and> t \<noteq> ''[Peer]''"
  by (cases t) (auto simp: MASQ_MARKER_RE_def strip_prefix_def starts_with_def hook_name_def)

lemma ips_line_reads: "\<not> starts_with (hook_name b) (trim (''AllowedIPs = '' @ x)) \<and> MASQ_MARKER_RE (trim (''AllowedIPs = '' @ x)) = None
    \<and> trim (''AllowedIPs = '' @ x) \<noteq> ''[Peer]''"
proof -
  have "\<exists>r. trim (''AllowedIPs ='' @ ('' '' @ x)) = ''AllowedIPs ='' @ r"
    by (subst trim_append) (simp_all add: hd_ws)
  then obtain r where "trim (''AllowedIPs = '' @ x) = ''AllowedIPs ='' @ r" by auto
  then show ?thesis by (simp add: starts_with_def hook_name_def MASQ_MARKER_RE_def strip_prefix_def)
qed

lemma hook_line_reads':
  "starts_with (hook_name b) (trim (hook_line h owned isUp v)) = (b = isUp)" "trim (hook_line h owned isUp v) \<noteq> ''[Peer]''"
  "MASQ_MARKER_RE (trim (hook_line h owned isUp v)) = None"
  using hook_line_reads [of isUp "join ''; '' (hook_body h owned isUp v)"]
  unfolding hook_line_body by (cases b; simp add: hook_name_def)+

lemma hook_start_unique: "starts_with (hook_name a) t \<Longrightarrow> starts_with (hook_name b) t \<Longrightarrow> a = b"
proof -
  have "starts_with p t \<Longrightarrow> 4 < length p \<Longrightarrow> t ! 4 = p ! 4" for p by (metis nth_take starts_with_def)
  moreover assume "starts_with (hook_name a) t" "starts_with (hook_name b) t"
  moreover have "4 < length (hook_name a)" "4 < length (hook_name b)" by (simp_all add: hook_name_def)
  ultimately have "hook_name a ! 4 = hook_name b ! 4" by metis
  then show "a = b" by (cases a; cases b) (simp_all add: hook_name_def)
qed

lemma marker_not_hook: "list_all clean_nic masq \<Longrightarrow> \<not> starts_with (hook_name b) (trim (masqMarkerLine masq))"
  using marker_reads_back(6,7) [of masq] by (simp add: hook_name_def)

text \<open>A pass leaves the kind of every line, and adds no key to the markers.\<close>

lemma line_kind:
  assumes "rewrite_line h owned s l = (e, s1)" "clean_change h"
  shows "has_hook (hook_name b) e = starts_with (hook_name b) (trim l)"
    and "list_ex (\<lambda>l. trim l = ''[Peer]'') e = (trim l = ''[Peer]'')"
    and "(\<Union>x \<in> set e. set (marker_keys x)) \<subseteq> set (marker_keys l) \<union> set (masq_keys (hc_masq h))"
proof -
  have c: "list_all clean_nic (hc_masq h)" using assms(2) by (simp add: clean_change_def)
  have m: "trim (masqMarkerLine (hc_masq h)) \<noteq> ''[Peer]''"
    using marker_reads_back(5) [OF c] peer_is_header by blast
  have ips: "\<not> starts_with (hook_name b) (trim l) \<and> trim l \<noteq> ''[Peer]''" if "starts_with ''AllowedIPs'' (trim l)"
    using that by (cases "trim l") (auto simp: starts_with_def hook_name_def)
  have hk: "trim l \<noteq> ''[Peer]''" if "starts_with (hook_name isUp) (trim l)" for isUp
    using that by (cases "trim l"; cases isUp) (auto simp: starts_with_def hook_name_def)
  have "has_hook (hook_name b) e = starts_with (hook_name b) (trim l)
    \<and> list_ex (\<lambda>l. trim l = ''[Peer]'') e = (trim l = ''[Peer]'')
    \<and> (\<Union>x \<in> set e. set (marker_keys x)) \<subseteq> set (marker_keys l) \<union> set (masq_keys (hc_masq h))"
  proof (cases rule: rewrite_line_cases [where s = s and l = l and h = h and owned = owned and owned' = owned])
    case marker
    then show ?thesis using assms(1) trim_marker_not_hook [of "trim l" b] by (auto simp: has_hook_def)
  next
    case (ips as)
    then show ?thesis using assms(1) ips_line_reads [of b "join '', '' as"] \<open>starts_with ''AllowedIPs'' (trim l) \<Longrightarrow> _\<close>
      by (auto simp: has_hook_def marker_keys_def simp del: append_Cons append_Nil)
  next
    case (hook isUp)
    have "e = (if isUp \<and> \<not> rw_marked s then [masqMarkerLine (hc_masq h)] else []) @ [hook_line h owned isUp (valOf l)]"
      using assms(1) hook by simp
    then show ?thesis
      using hook(4) hook_line_reads'(1) [of b h owned isUp "valOf l"] hook_line_reads'(2,3) [of h owned isUp "valOf l"] marker_not_hook [OF c, of b] m hk hook_start_unique [OF hook(4), of b]
        marker_reads_back(2) [OF c]
      by (cases "isUp \<and> \<not> rw_marked s") (auto simp: has_hook_def marker_keys_def)
  next
    case (same s')
    then show ?thesis using assms(1) by (auto simp: has_hook_def)
  qed
  then show "has_hook (hook_name b) e = starts_with (hook_name b) (trim l)"
    "list_ex (\<lambda>l. trim l = ''[Peer]'') e = (trim l = ''[Peer]'')"
    "(\<Union>x \<in> set e. set (marker_keys x)) \<subseteq> set (marker_keys l) \<union> set (masq_keys (hc_masq h))" by blast+
qed

lemma pass_kind:
  assumes "clean_change h"
  shows "rewrite_pass h owned s ls = (e, s1) \<Longrightarrow> has_hook (hook_name b) e = has_hook (hook_name b) ls
    \<and> list_ex (\<lambda>l. trim l = ''[Peer]'') e = list_ex (\<lambda>l. trim l = ''[Peer]'') ls
    \<and> (\<Union>x \<in> set e. set (marker_keys x)) \<subseteq> (\<Union>x \<in> set ls. set (marker_keys x)) \<union> set (masq_keys (hc_masq h))"
proof (induction ls arbitrary: s e s1)
  case (Cons l ls)
  obtain a s2 where a: "rewrite_line h owned s l = (a, s2)" by fastforce
  obtain c s3 where c: "rewrite_pass h owned s2 ls = (c, s3)" by fastforce
  have e: "e = a @ c" "s1 = s3" using Cons.prems by (simp_all add: a c)
  note k = line_kind [OF a assms]
  note r = Cons.IH [OF c [unfolded e(2) [symmetric]]]
  show ?case
  proof (intro conjI)
    show "has_hook (hook_name b) e = has_hook (hook_name b) (l # ls)"
      using r k(1) by (simp add: e(1) has_hook_def)
    show "list_ex (\<lambda>l. trim l = ''[Peer]'') e = list_ex (\<lambda>l. trim l = ''[Peer]'') (l # ls)"
      using r k(2) by (simp add: e(1))
    show "(\<Union>x \<in> set e. set (marker_keys x)) \<subseteq> (\<Union>x \<in> set (l # ls). set (marker_keys x)) \<union> set (masq_keys (hc_masq h))"
      using r k(3) unfolding e(1) set_append UN_Un list.set UN_insert by blast
  qed
qed (simp add: has_hook_def)

subsection \<open>The hooks that were missing\<close>

lemma owned_set: "set (owned_masq h ls) = set (masq_keys (hc_masq h)) \<union> (\<Union>x \<in> set ls. set (marker_keys x))"
  by (simp add: owned_masq_def masq_keys_def parseMasqMarker_def)

lemma gen_cmds_Nil: "gen_cmds b h = [] \<longleftrightarrow> hc_routes h = [] \<and> hc_masq h = []"
proof -
  have "sort (hc_routes h) = [] \<longleftrightarrow> hc_routes h = []" by (metis length_0_conv length_sort)
  then show ?thesis by (simp add: gen_cmds_def hook_routes_def hook_masq_def)
qed

lemma hook_line_empty: "clean_change h \<Longrightarrow> hook_line h owned b [] = hook_name b @ '' = '' @ join ''; '' (gen_cmds b h)"
proof -
  assume c: "clean_change h"
  have "kept_cmds h owned [] = []" by (simp add: kept_cmds_def trim_def)
  moreover have "dedupeHookCmds (gen_cmds b h) = gen_cmds b h"
    using gen_norms_distinct [OF c] by (simp add: dedupeHookCmds_def dedupe_hooks_id)
  ultimately show ?thesis by (simp add: hook_line_body hook_body_def)
qed

lemma missing_lines:
  assumes "clean_change h"
  shows "missing_hooks h hasUp hasDown =
     (if \<not> hasUp \<and> gen_cmds True h \<noteq> [] then [masqMarkerLine (hc_masq h), hook_line h owned True []] else [])
     @ (if \<not> hasDown \<and> gen_cmds False h \<noteq> [] then [hook_line h owned False []] else [])"
proof -
  have j: "join ''; '' (gen_cmds b h) \<noteq> [] \<longleftrightarrow> gen_cmds b h \<noteq> []" for b
  proof (cases "gen_cmds b h = []")
    case False
    then have "last (gen_cmds b h) \<noteq> []" using gen_cmd_text [OF assms, of _ b] last_in_set by blast
    then show ?thesis using last_join [OF False] False by blast
  qed simp
  show ?thesis
    by (simp only: missing_hooks_def Let_def gen_cmds_def [symmetric] j hook_line_empty [OF assms] hook_name_def if_True if_False)
      simp
qed

text \<open>Lines put in between two parts of the file that a rewrite leaves alone.\<close>

lemma missing_again:
  assumes "\<not> rw_inPeer s" "clean_change h" "set (masq_keys (hc_masq h)) \<subseteq> set owned'" "set owned' \<subseteq> set owned"
    and "\<not> hasUp \<Longrightarrow> \<not> rw_marked s"
  shows "rewrite_pass (settled h) owned' s (missing_hooks h hasUp hasDown)
    = (missing_hooks h hasUp hasDown, s\<lparr>rw_marked := rw_marked s \<or> (\<not> hasUp \<and> gen_cmds True h \<noteq> [])\<rparr>)"
proof -
  have c: "list_all clean_nic (hc_masq h)" using assms(2) by (simp add: clean_change_def)
  note m = marker_line_again [OF assms(1) c, of "settled h" owned']
  have k: "rewrite_line (settled h) owned' t (hook_line h owned b []) =
      ((if b \<and> \<not> rw_marked t then [masqMarkerLine (hc_masq h)] else []) @ [hook_line h owned b []], t\<lparr>rw_marked := rw_marked t \<or> b\<rparr>)"
    if "rw_inPeer t = rw_inPeer s" for t b
    using hook_line_again [OF _ assms(2-4), of t b "[]"] assms(1) that by simp
  have up: "rewrite_line (settled h) owned' s (hook_line h owned True []) = ([masqMarkerLine (hc_masq h), hook_line h owned True []], s\<lparr>rw_marked := True\<rparr>)"
    if "\<not> rw_marked s"
    using k [of s True] that by simp
  have down: "rewrite_line (settled h) owned' t (hook_line h owned False []) = ([hook_line h owned False []], t)" if "rw_inPeer t = rw_inPeer s" for t
    using k [of t False] that by simp
  show ?thesis
    unfolding missing_lines [OF assms(2), of _ _ owned]
    using assms(5) by (cases hasUp; cases hasDown) (auto simp: m up down)
qed

lemma insertion_again:
  assumes "clean_change h" "set (masq_keys (hc_masq h)) \<subseteq> set owned'" "set owned' \<subseteq> set owned"
    and "rewrite_pass h owned rewrite_start l1 = (e1, s1)" "rewrite_pass h owned s1 l2 = (e2, s2)" "\<not> rw_inPeer s1"
    and "\<not> hasUp \<Longrightarrow> \<not> has_hook ''PostUp'' (l1 @ l2)"
  shows "fst (rewrite_pass (settled h) owned' rewrite_start (e1 @ missing_hooks h hasUp hasDown @ e2))
    = e1 @ missing_hooks h hasUp hasDown @ e2"
proof -
  let ?M = "missing_hooks h hasUp hasDown"
  define s1' where "s1' = s1\<lparr>rw_marked := rw_marked s1 \<or> (\<not> hasUp \<and> gen_cmds True h \<noteq> [])\<rparr>"
  have nm: "\<not> hasUp \<Longrightarrow> \<not> rw_marked s1"
    using pass_state [OF assms(4)] assms(7) by (auto simp: has_hook_def rewrite_start_def)
  have a: "rewrite_pass (settled h) owned' rewrite_start e1 = (e1, s1)" by (rule pass_again [OF assms(1-4)])
  have m: "rewrite_pass (settled h) owned' s1 ?M = (?M, s1')"
    unfolding s1'_def by (rule missing_again [OF assms(6,1-3) nm])
  have b: "rewrite_pass (settled h) owned' s1 e2 = (e2, s2)" by (rule pass_again [OF assms(1-3,5)])
  have "\<exists>s3. rewrite_pass (settled h) owned' s1' e2 = (e2, s3)"
  proof (cases hasUp)
    case True
    with b show ?thesis by (simp add: s1'_def)
  next
    case False
    have "\<not> has_hook ''PostUp'' e2"
      using assms(7) [OF False] pass_kind [OF assms(1,5), of True] by (simp add: has_hook_def hook_name_def)
    from pass_marked [OF this b] show ?thesis by (auto simp: s1'_def)
  qed
  then obtain s3 where c: "rewrite_pass (settled h) owned' s1' e2 = (e2, s3)" ..
  show ?thesis using rewrite_pass_appendI [OF a rewrite_pass_appendI [OF m c]] by simp
qed

lemma index_of_append: "list_all (\<lambda>x. \<not> P x) xs \<Longrightarrow> P y \<Longrightarrow> index_of P (xs @ y # zs) = length xs"
  by (induction xs) (simp_all add: index_of_def)

lemma index_of_none: "list_all (\<lambda>x. \<not> P x) xs \<Longrightarrow> index_of P xs = length xs"
  by (induction xs) (simp_all add: index_of_def)

lemma find_first: "\<not> list_ex P xs \<Longrightarrow> P y \<Longrightarrow> find P (xs @ y # zs) = Some y"
  by (induction xs) auto

lemma header_line: "is_header l \<Longrightarrow> fst (rewrite_line h owned s l) = [l]"
proof -
  assume l: "is_header l"
  then have "MASQ_MARKER_RE (trim l) = None"
    by (cases "trim l") (auto simp: is_header_def MASQ_MARKER_RE_def strip_prefix_def starts_with_def)
  with l show ?thesis by (simp add: rewrite_line_def is_header_def Let_def)
qed

lemma pass_header: "list_ex is_header ls \<Longrightarrow> fst (rewrite_pass h owned s ls) \<noteq> []"
proof (induction ls arbitrary: s)
  case (Cons l ls)
  obtain a s2 where a: "rewrite_line h owned s l = (a, s2)" by fastforce
  show ?case using Cons header_line [of l h owned s] by (cases "is_header l") (auto simp: a split: prod.splits, metis fst_conv)
qed simp

lemma has_hook_split: "has_hook p ls \<Longrightarrow> \<exists>xs l ys. ls = xs @ l # ys \<and> starts_with p (trim l) \<and> \<not> has_hook p xs"
proof -
  assume "has_hook p ls"
  then have "\<exists>l \<in> set ls. starts_with p (trim l)" by (simp add: has_hook_def list_ex_iff)
  from split_list_first_prop [OF this] show ?thesis by (fastforce simp: has_hook_def list_ex_iff)
qed

lemma no_hook_all: "\<not> has_hook p ls \<longleftrightarrow> list_all (\<lambda>l. \<not> starts_with p (trim l)) ls"
  by (induction ls) (simp_all add: has_hook_def)

text \<open>The place of the missing hooks: outside peers, between what two parts of the file become.\<close>

lemma insert_place:
  assumes c: "clean_change h" and o: "hooks_outside False ls" "first_section_ok ls"
    and miss: "\<not> has_hook ''PostUp'' ls \<or> \<not> has_hook ''PostDown'' ls"
    and out: "rewrite_pass h owned rewrite_start ls = (out, s)"
  shows "\<exists>l1 l2 e1 e2 s1. ls = l1 @ l2 \<and> out = e1 @ e2
    \<and> insert_index (has_hook ''PostUp'' ls) (has_hook ''PostDown'' ls) out = length e1
    \<and> rewrite_pass h owned rewrite_start l1 = (e1, s1) \<and> rewrite_pass h owned s1 l2 = (e2, s) \<and> \<not> rw_inPeer s1"
proof -
  have split: "\<exists>e1 e2 s1. out = e1 @ e2 \<and> rewrite_pass h owned rewrite_start l1 = (e1, s1) \<and> rewrite_pass h owned s1 l2 = (e2, s)
      \<and> rw_inPeer s1 = fold peer_line l1 False" if "ls = l1 @ l2" for l1 l2
  proof -
    obtain e1 s1 where a: "rewrite_pass h owned rewrite_start l1 = (e1, s1)" by fastforce
    obtain e2 s2 where b: "rewrite_pass h owned s1 l2 = (e2, s2)" by fastforce
    from rewrite_pass_appendI [OF a b] out that pass_state [OF a] a b show ?thesis by (auto simp: rewrite_start_def)
  qed
  have nm: "list_all clean_nic (hc_masq h)" using c by (simp add: clean_change_def)
  consider "has_hook ''PostDown'' ls" | "has_hook ''PostUp'' ls" "\<not> has_hook ''PostDown'' ls"
    | "\<not> has_hook ''PostUp'' ls" "\<not> has_hook ''PostDown'' ls" by blast
  then show ?thesis
  proof cases
    case 1
    then obtain l1 d l2 where ls: "ls = l1 @ d # l2" "starts_with ''PostDown'' (trim d)" "\<not> has_hook ''PostDown'' l1"
      using has_hook_split by blast
    obtain e1 e2 s1 where e: "out = e1 @ e2" "rewrite_pass h owned rewrite_start l1 = (e1, s1)"
      "rewrite_pass h owned s1 (d # l2) = (e2, s)" "rw_inPeer s1 = fold peer_line l1 False" using split [OF ls(1)] by blast
    have np: "\<not> rw_inPeer s1" using e(4) hooks_outside_split [of False l1 d l2 False] o(1) ls by (simp add: hook_name_def)
    obtain a s2 where a: "rewrite_line h owned s1 d = (a, s2)" by fastforce
    have up: "\<not> starts_with ''PostUp'' (trim d)" using hook_start_unique [of True "trim d" False] ls(2) by (auto simp: hook_name_def)
    have "\<exists>x. a = [x] \<and> starts_with ''PostDown'' (trim x)"
      using line_kind(1) [OF a c, of False] ls(2)
    proof (cases rule: rewrite_line_cases [where s = s1 and l = d and h = h and owned = owned and owned' = owned])
      case (hook isUp)
      then show ?thesis using a up line_kind(1) [OF a c, of False] ls(2) by (auto simp: has_hook_def hook_name_def)
    qed (use a line_kind(1) [OF a c, of False] ls(2) in \<open>auto simp: has_hook_def hook_name_def\<close>)
    then obtain x where x: "a = [x]" "starts_with ''PostDown'' (trim x)" by blast
    obtain r where r: "e2 = x # r" using e(3) a x by (auto split: prod.splits)
    have "list_all (\<lambda>l. \<not> starts_with ''PostDown'' (trim l)) e1"
      using pass_kind [OF c e(2), of False] ls(3) no_hook_all [of "''PostDown''" e1] by (simp add: hook_name_def)
    then have "index_of (\<lambda>l. starts_with ''PostDown'' (trim l)) out = length e1"
      unfolding e(1) r by (rule index_of_append) (rule x)
    then have "insert_index (has_hook ''PostUp'' ls) (has_hook ''PostDown'' ls) out = length e1" using 1 by (simp add: insert_index_def)
    then show ?thesis using ls(1) e(1-3) np by blast
  next
    case 2
    then obtain l1 u l2 where ls: "ls = l1 @ u # l2" "starts_with ''PostUp'' (trim u)" "\<not> has_hook ''PostUp'' l1"
      using has_hook_split by blast
    obtain e1 e2 s1 where e: "out = e1 @ e2" "rewrite_pass h owned rewrite_start (l1 @ [u]) = (e1, s1)"
      "rewrite_pass h owned s1 l2 = (e2, s)" "rw_inPeer s1 = fold peer_line (l1 @ [u]) False" using split [of "l1 @ [u]" l2] ls(1) by auto
    have u: "\<not> is_header u" using ls(2) by (cases "trim u") (auto simp: is_header_def starts_with_def)
    have np0: "\<not> fold peer_line l1 False" using hooks_outside_split [of False l1 u l2 True] o(1) ls by (simp add: hook_name_def)
    then have np: "\<not> rw_inPeer s1" using e(4) u by (simp add: peer_line_def)
    obtain e0 s0 where e0: "rewrite_pass h owned rewrite_start l1 = (e0, s0)" by fastforce
    have s0: "\<not> rw_inPeer s0" "\<not> rw_marked s0" using pass_state [OF e0] np0 ls(3) by (simp_all add: rewrite_start_def)
    have m: "MASQ_MARKER_RE (trim u) = None"
      using trim_marker_not_hook [of "trim u" True] ls(2) by (cases "MASQ_MARKER_RE (trim u)") (auto simp: hook_name_def)
    have p: "trim u \<noteq> ''[Peer]''" using u peer_is_header by blast
    have "rewrite_line h owned s0 u = ([masqMarkerLine (hc_masq h), hook_line h owned True (valOf u)], s0\<lparr>rw_marked := True\<rparr>)"
      using s0 m p u ls(2) by (simp add: rewrite_line_def is_header_def Let_def)
    then have e1: "e1 = e0 @ [masqMarkerLine (hc_masq h), hook_line h owned True (valOf u)]"
      using e(2) e0 by (simp add: rewrite_pass_append)
    have "list_all (\<lambda>l. \<not> starts_with ''PostUp'' (trim l)) (e0 @ [masqMarkerLine (hc_masq h)])"
      using pass_kind [OF c e0, of True] ls(3) no_hook_all [of "''PostUp''" e0] marker_not_hook [OF nm, of True] by (simp add: hook_name_def)
    moreover have "starts_with ''PostUp'' (trim (hook_line h owned True (valOf u)))"
      using hook_line_reads'(1) [of True h owned True "valOf u"] by (simp add: hook_name_def)
    ultimately have "index_of (\<lambda>l. starts_with ''PostUp'' (trim l)) ((e0 @ [masqMarkerLine (hc_masq h)]) @ hook_line h owned True (valOf u) # e2) = length (e0 @ [masqMarkerLine (hc_masq h)])"
      by (rule index_of_append)
    then have "insert_index (has_hook ''PostUp'' ls) (has_hook ''PostDown'' ls) out = length e1"
      using 2 by (simp add: insert_index_def e(1) e1)
    moreover have "ls = (l1 @ [u]) @ l2" by (simp add: ls(1))
    ultimately show ?thesis using e(1-3) np by blast
  next
    case 3
    show ?thesis
    proof (cases "list_ex (\<lambda>l. trim l = ''[Peer]'') ls")
      case False
      then have "list_all (\<lambda>l. \<not> trim l = ''[Peer]'') out"
        using pass_kind [OF c out, of True] by (auto simp: list_all_iff list_ex_iff)
      then have "index_of (\<lambda>l. trim l = ''[Peer]'') out = length out" by (rule index_of_none)
      then have i: "insert_index (has_hook ''PostUp'' ls) (has_hook ''PostDown'' ls) out = length out"
        using 3 by (simp add: insert_index_def Let_def)
      have "\<not> fold peer_line ls p" if "\<not> p" for p
        using False that by (induction ls arbitrary: p) (auto simp: peer_line_def)
      from this [of False] have np: "\<not> rw_inPeer s" using pass_state [OF out] by (simp add: rewrite_start_def)
      have "ls = ls @ []" "out = out @ []" "rewrite_pass h owned s [] = ([], s)" by simp_all
      then show ?thesis using i out np by blast
    next
      case True
      then obtain l1 p l2 where ls: "ls = l1 @ p # l2" "trim p = ''[Peer]''" "\<not> list_ex (\<lambda>l. trim l = ''[Peer]'') l1"
        using split_list_first_prop [of ls "\<lambda>l. trim l = ''[Peer]''"] by (fastforce simp: list_ex_iff)
      obtain e1 e2 s1 where e: "out = e1 @ e2" "rewrite_pass h owned rewrite_start l1 = (e1, s1)"
        "rewrite_pass h owned s1 (p # l2) = (e2, s)" "rw_inPeer s1 = fold peer_line l1 False" using split [OF ls(1)] by blast
      have fq: "\<not> fold peer_line l1 q" if "\<not> q" for q
        using ls(3) that by (induction l1 arbitrary: q) (auto simp: peer_line_def)
      from fq [of False] have np: "\<not> rw_inPeer s1" using e(4) by simp
      have "list_ex is_header l1"
      proof (rule ccontr)
        assume "\<not> list_ex is_header l1"
        then have "find is_header ls = Some p" unfolding ls(1) using peer_is_header [OF ls(2)] by (rule find_first)
        with o(2) ls(2) show False by (simp add: first_section_ok_def)
      qed
      from pass_header [OF this, of h owned rewrite_start] have ne: "e1 \<noteq> []" by (simp add: e(2))
      have "fst (rewrite_line h owned s1 p) = [p]" by (rule header_line [OF peer_is_header [OF ls(2)]])
      then obtain r where r: "e2 = p # r" using e(3) by (auto split: prod.splits)
      have "list_all (\<lambda>l. \<not> trim l = ''[Peer]'') e1"
        using pass_kind [OF c e(2), of True] ls(3) by (auto simp: list_all_iff list_ex_iff)
      then have "index_of (\<lambda>l. trim l = ''[Peer]'') out = length e1" unfolding e(1) r using ls(2) by (rule index_of_append)
      then have "insert_index (has_hook ''PostUp'' ls) (has_hook ''PostDown'' ls) out = length e1"
        using 3 ne by (simp add: insert_index_def Let_def)
      then show ?thesis using ls(1) e(1-3) np by blast
    qed
  qed
qed

subsection \<open>Rewriting again changes nothing\<close>

lemma rewritten_again:
  assumes c: "clean_change h" and o: "hooks_outside False ls" "first_section_ok ls"
  shows "rewritten_lines (settled h) (rewritten_lines h ls) = rewritten_lines h ls"
proof -
  let ?owned = "owned_masq h ls" and ?L = "rewritten_lines h ls"
  let ?owned' = "owned_masq (settled h) ?L"
  let ?up = "has_hook ''PostUp'' ls" and ?down = "has_hook ''PostDown'' ls"
  let ?M = "missing_hooks h ?up ?down"
  have nm: "list_all clean_nic (hc_masq h)" using c by (simp add: clean_change_def)
  obtain out s where out: "rewrite_pass h ?owned rewrite_start ls = (out, s)" by fastforce
  have kind: "has_hook (hook_name b) out = has_hook (hook_name b) ls"
    "(\<Union>x \<in> set out. set (marker_keys x)) \<subseteq> (\<Union>x \<in> set ls. set (marker_keys x)) \<union> set (masq_keys (hc_masq h))" for b
    using pass_kind [OF c out] by blast+
  have ro: "rewrite_out h ls = out" by (simp add: rewrite_out_def out)
  have hk: "marker_keys (hook_line h ?owned b []) = []" for b
    using hook_line_reads'(3) by (simp add: marker_keys_def)
  have M: "(\<Union>x \<in> set ?M. set (marker_keys x)) \<subseteq> set (masq_keys (hc_masq h))"
  proof -
    have "set ?M \<subseteq> {masqMarkerLine (hc_masq h), hook_line h ?owned True [], hook_line h ?owned False []}"
      unfolding missing_lines [OF c, of _ _ ?owned] by (simp only: set_append list.set split: if_split) simp
    moreover have "set (marker_keys x) \<subseteq> set (masq_keys (hc_masq h))"
      if "x \<in> {masqMarkerLine (hc_masq h), hook_line h ?owned True [], hook_line h ?owned False []}" for x
      using that marker_reads_back(2) [OF nm] hk by auto
    ultimately show ?thesis by blast
  qed
  have sub: "set (masq_keys (hc_masq h)) \<subseteq> set ?owned'" by (simp add: owned_set)
  have two: "rewritten_lines (settled h) ?L = ?L"
    if "fst (rewrite_pass (settled h) ?owned' rewrite_start ?L) = ?L"
      "(has_hook ''PostUp'' ?L \<and> has_hook ''PostDown'' ?L) \<or> (hc_routes h = [] \<and> hc_masq h = [])"
    using that by (auto simp: rewritten_lines_def [of "settled h" ?L] rewrite_out_def Let_def)
  show ?thesis
  proof (cases "(\<not> ?up \<or> \<not> ?down) \<and> (hc_routes h \<noteq> [] \<or> hc_masq h \<noteq> [])")
    case True
    then have miss: "\<not> ?up \<or> \<not> ?down" and nets: "hc_routes h \<noteq> [] \<or> hc_masq h \<noteq> []" by blast+
    obtain l1 l2 e1 e2 s1 where p: "ls = l1 @ l2" "out = e1 @ e2" "insert_index ?up ?down out = length e1"
      "rewrite_pass h ?owned rewrite_start l1 = (e1, s1)" "rewrite_pass h ?owned s1 l2 = (e2, s)" "\<not> rw_inPeer s1"
      using insert_place [OF c o miss out] by blast
    have L: "?L = e1 @ ?M @ e2"
      using miss nets p(2,3) by (simp add: rewritten_lines_def ro Let_def)
    have "set ?owned' \<subseteq> set ?owned"
      unfolding owned_set L using kind(2) [unfolded p(2)] M by auto
    then have "fst (rewrite_pass (settled h) ?owned' rewrite_start ?L) = ?L"
      unfolding L [symmetric] using p(1,4-6) sub insertion_again [OF c, of ?owned' ?owned l1 e1 s1 l2 e2 s ?up ?down] L by simp
    moreover have "has_hook ''PostUp'' ?L \<and> has_hook ''PostDown'' ?L"
    proof -
      have app: "has_hook q (xs @ ys) = (has_hook q xs \<or> has_hook q ys)" for q xs ys by (simp add: has_hook_def)
      have g: "gen_cmds b h \<noteq> []" for b using nets by (simp add: gen_cmds_Nil)
      have "?up \<or> has_hook ''PostUp'' ?M" "?down \<or> has_hook ''PostDown'' ?M"
        using hook_line_reads'(1) [of True h ?owned True "[]"] hook_line_reads'(1) [of False h ?owned False "[]"]
        unfolding missing_lines [OF c, of _ _ ?owned] by (auto simp: has_hook_def g hook_name_def)
      moreover have "?up = (has_hook ''PostUp'' e1 \<or> has_hook ''PostUp'' e2)" "?down = (has_hook ''PostDown'' e1 \<or> has_hook ''PostDown'' e2)"
        using kind(1) [of True] kind(1) [of False] by (simp_all add: p(2) app hook_name_def)
      ultimately show ?thesis unfolding L app by blast
    qed
    ultimately show ?thesis using two by blast
  next
    case False
    then have L: "?L = out" by (auto simp: rewritten_lines_def ro Let_def)
    have "set ?owned' \<subseteq> set ?owned" unfolding owned_set L using kind(2) by auto
    then have "fst (rewrite_pass (settled h) ?owned' rewrite_start ?L) = ?L"
      using pass_again [OF c sub _ out] by (simp add: L)
    moreover have "(has_hook ''PostUp'' ?L \<and> has_hook ''PostDown'' ?L) \<or> (hc_routes h = [] \<and> hc_masq h = [])"
      using False kind(1) [of True] kind(1) [of False] by (auto simp: L hook_name_def)
    ultimately show ?thesis using two by blast
  qed
qed

subsection \<open>The text of the file\<close>

lemma split_lines_join:
  assumes "ls \<noteq> []" "\<forall>l \<in> set ls. LF \<notin> set l \<and> CR \<notin> set l"
  shows "split_lines (join [LF] ls) = ls"
proof -
  have s: "split_on LF (join [LF] ls) = ls" using assms by (intro split_on_join) auto
  have "strip_cr l = l" if "l \<in> set ls" for l
    using assms(2) that by (cases l rule: rev_cases) (auto simp: strip_cr_def)
  then have "map strip_cr (butlast ls) = butlast ls" by (intro map_idI) (auto dest: in_set_butlastD)
  then show ?thesis using assms(1) by (simp add: split_lines_def s)
qed

lemma split_lines_no_CR: "CR \<notin> set s \<Longrightarrow> l \<in> set (split_lines s) \<Longrightarrow> CR \<notin> set l"
proof -
  assume s: "CR \<notin> set s" and l: "l \<in> set (split_lines s)"
  have "set (join d xs) \<supseteq> set x" if "x \<in> set xs" for d :: string and x xs
    using that by (induction d xs rule: join.induct) auto
  then have "CR \<notin> set p" if "p \<in> set (split_on LF s)" for p
    using s that join_split_on [of LF s] by (metis subsetD)
  moreover have "l \<in> set (split_on LF s) \<or> (\<exists>p \<in> set (split_on LF s). l = strip_cr p)"
    using l last_in_set [OF split_on_not_Nil [of LF s]] by (auto simp: split_lines_def Let_def dest!: in_set_butlastD)
  moreover have "set (strip_cr p) \<subseteq> set p" for p by (auto simp: strip_cr_def dest: in_set_butlastD)
  ultimately show ?thesis by blast
qed

definition clean_updates :: "hub_change \<Rightarrow> bool" where
  "clean_updates h \<longleftrightarrow> list_all (\<lambda>(k, ips). list_all (\<lambda>i. LF \<notin> set i \<and> CR \<notin> set i) ips) (hc_updates h)"

definition one_line :: "string \<Rightarrow> bool" where
  "one_line l \<longleftrightarrow> LF \<notin> set l \<and> CR \<notin> set l"

lemma one_line_parts: "list_all one_line xs \<Longrightarrow> one_line sep \<Longrightarrow> one_line (join sep xs)"
  by (induction sep xs rule: join.induct) (auto simp: one_line_def)

lemma hook_line_one:
  assumes "clean_change h" "one_line v"
  shows "one_line (hook_line h owned b v)"
proof -
  have "one_line c" if "c \<in> set (hook_body h owned b v)" for c
  proof -
    have "c \<in> set (kept_cmds h owned v @ gen_cmds b h)"
      using that dedupe_hooks_set [of "[]" "kept_cmds h owned v @ gen_cmds b h"] by (auto simp: hook_body_def dedupeHookCmds_def)
    then consider "c \<in> set (kept_cmds h owned v)" | "c \<in> set (gen_cmds b h)" by auto
    then show ?thesis
    proof cases
      case 1
      then obtain p where p: "p \<in> set (split_on CHR '';'' v)" "c = trim p" by (auto simp: kept_cmds_def)
      have "set x \<subseteq> set (join d xs)" if "x \<in> set xs" for d :: string and x xs
        using that by (induction d xs rule: join.induct) auto
      then have "set p \<subseteq> set v" using p(1) join_split_on [of "CHR '';''" v] by metis
      then show ?thesis using assms(2) set_trim [of p] p(2) by (auto simp: one_line_def)
    qed (use gen_cmd_text [OF assms(1)] in \<open>auto simp: one_line_def\<close>)
  qed
  then have "one_line (join ''; '' (hook_body h owned b v))"
    by (intro one_line_parts) (auto simp: list_all_iff one_line_def)
  then show ?thesis unfolding hook_line_body by (cases b) (simp_all add: one_line_def hook_name_def)
qed

lemma rewrite_line_one:
  assumes "clean_change h" "clean_updates h" "one_line l" "rewrite_line h owned s l = (e, s1)"
  shows "list_all one_line e"
proof (cases rule: rewrite_line_cases [where s = s and l = l and h = h and owned = owned and owned' = owned])
  case (ips as)
  obtain k where "map_of (hc_updates h) k = Some as" using ips(4) by (auto simp: update_for_def split: option.splits if_splits)
  then have "list_all one_line as" using assms(2) map_of_SomeD by (fastforce simp: clean_updates_def list_all_iff one_line_def)
  then have "one_line (join '', '' as)" by (intro one_line_parts) (simp_all add: one_line_def)
  then show ?thesis using ips(5) assms(4) by (simp add: one_line_def)
next
  case (hook isUp)
  have nm: "list_all clean_nic (hc_masq h)" using assms(1) by (simp add: clean_change_def)
  have "set (valOf l) \<subseteq> set l"
  proof -
    have "set (tl (dropWhile P l)) \<subseteq> set l" for P
      by (metis list.set_sel(2) set_dropWhileD subsetI tl_Nil)
    then show ?thesis using set_trim [of l] set_trim [of "tl (dropWhile (\<lambda>c. c \<noteq> CHR ''='') l)"] by (auto simp: valOf_def)
  qed
  then have "one_line (hook_line h owned isUp (valOf l))" using assms(3) by (intro hook_line_one [OF assms(1)]) (auto simp: one_line_def)
  then show ?thesis using hook(6) assms(4) marker_reads_back(3,4) [OF nm] by (auto simp: one_line_def)
qed (use assms(3,4) in auto)

lemma pass_one:
  assumes "clean_change h" "clean_updates h"
  shows "list_all one_line ls \<Longrightarrow> rewrite_pass h owned s ls = (e, s1) \<Longrightarrow> list_all one_line e"
proof (induction ls arbitrary: s e s1)
  case (Cons l ls)
  obtain a s2 where a: "rewrite_line h owned s l = (a, s2)" by fastforce
  obtain c s3 where c: "rewrite_pass h owned s2 ls = (c, s3)" by fastforce
  have "list_all one_line a" "list_all one_line c"
    using rewrite_line_one [OF assms _ a] Cons.IH [OF _ c] Cons.prems(1) by simp_all
  then show ?case using Cons.prems(2) by (auto simp: a c)
qed simp

lemma rewritten_one:
  assumes "clean_change h" "clean_updates h" "list_all one_line ls"
  shows "list_all one_line (rewritten_lines h ls)"
proof -
  have nm: "list_all clean_nic (hc_masq h)" using assms(1) by (simp add: clean_change_def)
  obtain out s where out: "rewrite_pass h (owned_masq h ls) rewrite_start ls = (out, s)" by fastforce
  have o: "list_all one_line out" by (rule pass_one [OF assms(1,2,3) out])
  have e: "one_line []" by (simp add: one_line_def)
  have "list_all one_line (missing_hooks h a b)" for a b
    using hook_line_one [OF assms(1) e] marker_reads_back(3,4) [OF nm]
    unfolding missing_lines [OF assms(1), of a b "[]"] by (simp add: one_line_def)
  then show ?thesis
    using o by (auto simp: rewritten_lines_def rewrite_out_def out Let_def list_all_iff dest: in_set_takeD in_set_dropD)
qed

lemma split_lines_one: "CR \<notin> set conf \<Longrightarrow> list_all one_line (split_lines conf)"
  using split_lines_no_LF split_lines_no_CR by (auto simp: list_all_iff one_line_def)

text \<open>C17: Writing the configuration of the hub settles: reading the new text and rewriting it for the
  same routes and MASQUERADE rules, with no peer left to change, gives the same text, so that a
  synchronisation without a change writes nothing and hooks do not grow. The hooks stand outside
  the peers, the first section is no peer, and names and networks have no separators in them.\<close>

theorem rewriteHubConf_stable:
  assumes "CR \<notin> set conf" "clean_change h" "clean_updates h"
    and "hooks_outside False (split_lines conf)" "first_section_ok (split_lines conf)"
  shows "rewriteHubConf (split_lines (rewriteHubConf (split_lines conf) h)) (h\<lparr>hc_updates := []\<rparr>)
    = rewriteHubConf (split_lines conf) h"
proof -
  let ?L = "rewritten_lines h (split_lines conf)"
  have one: "\<forall>l \<in> set ?L. LF \<notin> set l \<and> CR \<notin> set l"
    using rewritten_one [OF assms(2,3) split_lines_one [OF assms(1)]] by (simp add: list_all_iff one_line_def)
  show ?thesis
  proof (cases "?L = []")
    case False
    then have "split_lines (rewriteHubConf (split_lines conf) h) = ?L"
      unfolding rewriteHubConf_def using one by (rule split_lines_join)
    then show ?thesis by (simp add: rewriteHubConf_def rewritten_again [OF assms(2,4,5)])
  next
    case True
    have "rewritten_lines (settled h) [] = []" using rewritten_again [OF assms(2,4,5)] by (simp add: True)
    have cs: "clean_change (settled h)" using assms(2) by (simp add: clean_change_def)
    have "hc_routes h = [] \<and> hc_masq h = []"
    proof (rule ccontr)
      assume ne: "\<not> (hc_routes h = [] \<and> hc_masq h = [])"
      then have "gen_cmds True (settled h) \<noteq> []" by (simp add: gen_cmds_Nil)
      then have "missing_hooks (settled h) False False \<noteq> []" using missing_lines [OF cs, of False False "[]"] by simp
      moreover have "rewritten_lines (settled h) [] = missing_hooks (settled h) False False"
        using ne by (auto simp: rewritten_lines_def rewrite_out_def has_hook_def Let_def)
      ultimately show False using \<open>rewritten_lines (settled h) [] = []\<close> by simp
    qed
    then have "rewritten_lines (settled h) [[]] = [[]]"
      by (simp add: rewritten_lines_def rewrite_out_def rewrite_line_def MASQ_MARKER_RE_def strip_prefix_def starts_with_def Let_def trim_def)
    moreover have "split_lines [] = [[]]" by (simp add: split_lines_def)
    ultimately show ?thesis by (simp add: rewriteHubConf_def True)
  qed
qed

definition ex_hub_lines :: "string list" where
  "ex_hub_lines = [''[Interface]'', ''Address = 10.8.0.1/24'', ''PostUp = sysctl -w a=1; ip route add 10.9.0.0/16 dev wg0'', [],
     ''# office'', ''[Peer]'', ''PublicKey = A='', ''AllowedIPs = 10.8.0.2/32'']"

definition ex_hub_change :: hub_change where
  "ex_hub_change = \<lparr>hc_iface = ''wg0'', hc_updates = [(''A='', [''10.8.0.2/32'', ''192.168.7.0/24''])],
     hc_routes = [''192.168.7.0/24''], hc_masq = [\<lparr>nic_name = ''eth1'', nic_address = ''10.1.1.4'', nic_cidr = ''10.8.0.0/24''\<rparr>]\<rparr>"

lemma ex_hub_ok:
  "clean_change ex_hub_change" "clean_updates ex_hub_change" "hooks_outside False ex_hub_lines" "first_section_ok ex_hub_lines"
  "list_all one_line ex_hub_lines" "ex_hub_lines \<noteq> []"
  by code_simp+

lemma ex_hub_split: "split_lines (join [LF] ex_hub_lines) = ex_hub_lines"
  using ex_hub_ok(5,6) by (intro split_lines_join) (auto simp: list_all_iff one_line_def)

theorem rewriteHubConf_stable_witness:
  "rewriteHubConf (split_lines (rewriteHubConf ex_hub_lines ex_hub_change)) (ex_hub_change\<lparr>hc_updates := []\<rparr>)
    = rewriteHubConf ex_hub_lines ex_hub_change
   \<and> ''AllowedIPs = 10.8.0.2/32, 192.168.7.0/24'' \<in> set (rewritten_lines ex_hub_change ex_hub_lines)"
proof
  have "CR \<notin> set (join [LF] ex_hub_lines)" by code_simp
  from rewriteHubConf_stable [OF this ex_hub_ok(1,2)] ex_hub_ok(3,4)
  show "rewriteHubConf (split_lines (rewriteHubConf ex_hub_lines ex_hub_change)) (ex_hub_change\<lparr>hc_updates := []\<rparr>)
    = rewriteHubConf ex_hub_lines ex_hub_change"
    unfolding ex_hub_split by blast
  show "''AllowedIPs = 10.8.0.2/32, 192.168.7.0/24'' \<in> set (rewritten_lines ex_hub_change ex_hub_lines)" by code_simp
qed

subsection \<open>What a rewrite keeps\<close>

text \<open>Lines that are neither hooks nor markers nor networks of a peer.\<close>

definition kept_line :: "string \<Rightarrow> bool" where
  "kept_line l \<longleftrightarrow> \<not> starts_with ''PostUp'' (trim l) \<and> \<not> starts_with ''PostDown'' (trim l)
     \<and> MASQ_MARKER_RE (trim l) = None \<and> \<not> starts_with ''AllowedIPs'' (trim l)"

definition commands :: "string \<Rightarrow> string list" where
  "commands v = filter (\<lambda>p. p \<noteq> []) (map trim (split_on CHR '';'' v))"

text \<open>The commands the panel counts as its own, by their text: one that adds or deletes a route for a
  device whose name begins with the one of the interface, and a MASQUERADE rule for another card, as
  the generator writes it, that is written now or stands in the marker. Every other command is an
  operator's.\<close>

definition own_route :: "string \<Rightarrow> string \<Rightarrow> bool" where
  "own_route i c \<longleftrightarrow> (\<exists>isUp net rest. net \<noteq> [] \<and> list_all (\<lambda>x. \<not> js_ws x) net
     \<and> c = ''ip route '' @ (if isUp then ''add'' else ''del'') @ '' '' @ net @ '' dev '' @ i @ rest)"

definition own_rule :: "hub_change \<Rightarrow> string list \<Rightarrow> string \<Rightarrow> bool" where
  "own_rule h ls c \<longleftrightarrow> (\<exists>isUp n net rest. c = masq_cmd isUp n net @ rest \<and> rest \<in> {[], silent} \<and> n \<noteq> hc_iface h
     \<and> (n @ ''='' @ net \<in> set (parseMasqMarker ls) \<or> (\<exists>m \<in> set (hc_masq h). n @ ''='' @ net = nic_name m @ ''='' @ nic_cidr m)))"

definition operator_cmd :: "hub_change \<Rightarrow> string list \<Rightarrow> string \<Rightarrow> bool" where
  "operator_cmd h ls c \<longleftrightarrow> \<not> own_route (hc_iface h) c \<and> \<not> own_rule h ls c"

lemma take_word_Some: "take_word s = Some (w, r) \<longleftrightarrow> s = w @ r \<and> w \<noteq> [] \<and> list_all (\<lambda>x. \<not> js_ws x) w \<and> (r = [] \<or> js_ws (hd r))"
proof
  assume a: "take_word s = Some (w, r)"
  then have w: "w = takeWhile (\<lambda>c. \<not> js_ws c) s" "r = drop (length w) s" "w \<noteq> []" by (auto simp: take_word_def Let_def split: if_split_asm)
  then have r: "r = dropWhile (\<lambda>c. \<not> js_ws c) s" by (simp add: dropWhile_eq_drop)
  then have "r = [] \<or> js_ws (hd r)" using hd_dropWhile [of "\<lambda>c. \<not> js_ws c" s] by blast
  then show "s = w @ r \<and> w \<noteq> [] \<and> list_all (\<lambda>x. \<not> js_ws x) w \<and> (r = [] \<or> js_ws (hd r))"
    using w(1,3) r by (auto simp: list_all_iff dest: set_takeWhileD)
qed (auto simp: list_all_iff intro: take_word_append)

lemma own_route_read: "is_route_cmd i c \<Longrightarrow> own_route i c"
proof -
  assume a: "is_route_cmd i c"
  obtain isUp t where c: "c = ''ip route '' @ (if isUp then ''add'' else ''del'') @ '' '' @ t"
    and t: "case take_word t of None \<Rightarrow> False | Some (w, r) \<Rightarrow> starts_with ('' dev '' @ i) r"
  proof (cases "strip_prefix ''ip route add '' c")
    case (Some r)
    then show thesis using that [of True r] a by (simp add: is_route_cmd_def strip_prefix_Some or_else_def split: option.split_asm)
  next
    case None
    then obtain r where "strip_prefix ''ip route del '' c = Some r" using a by (auto simp: is_route_cmd_def split: option.split_asm)
    then show thesis using that [of False r] a None by (simp add: is_route_cmd_def strip_prefix_Some or_else_def split: option.split_asm)
  qed
  obtain w r where w: "take_word t = Some (w, r)" "starts_with ('' dev '' @ i) r" using t by (auto split: option.split_asm)
  obtain rest where "r = '' dev '' @ i @ rest" using w(2) unfolding starts_with_def by (metis append_assoc append_take_drop_id)
  then show ?thesis using w(1) c unfolding own_route_def take_word_Some by blast
qed

lemma own_rule_read: "isGeneratedMasq c (hc_iface h) (owned_masq h ls) \<Longrightarrow> own_rule h ls c"
proof -
  assume a: "isGeneratedMasq c (hc_iface h) (owned_masq h ls)"
  then obtain n net where g: "GENERATED_MASQ_RE c = Some (n, net)" and k: "n \<noteq> hc_iface h" "masqKey n net \<in> set (owned_masq h ls)"
    by (auto simp: isGeneratedMasq_def split: option.split_asm)
  obtain isUp rest where "c = masq_cmd isUp n net @ rest" "rest \<in> {[], silent}"
  proof -
    obtain r where r: "c = ''iptables -t nat -'' @ r" "r \<noteq> []" "hd r \<in> set ''AD''"
      "(case strip_prefix '' POSTROUTING -o '' (tl r) of None \<Rightarrow> None
          | Some r \<Rightarrow> (case take_word r of None \<Rightarrow> None
            | Some (n, r) \<Rightarrow> (case strip_prefix '' -s '' r of None \<Rightarrow> None
              | Some r \<Rightarrow> (case take_word r of None \<Rightarrow> None
                | Some (cidr, r) \<Rightarrow> (case strip_prefix '' -j MASQUERADE'' r of None \<Rightarrow> None
                  | Some r \<Rightarrow> if r = [] \<or> r = silent then Some (n, cidr) else None))))) = Some (n, net)"
      using g unfolding GENERATED_MASQ_RE_def by (auto simp: strip_prefix_Some split: option.split_asm if_split_asm)
    then obtain rest where "tl r = '' POSTROUTING -o '' @ n @ '' -s '' @ net @ '' -j MASQUERADE'' @ rest" "rest = [] \<or> rest = silent"
      by (auto simp: strip_prefix_Some take_word_Some split: option.split_asm prod.split_asm if_split_asm)
    moreover have "r = hd r # tl r" using r(2) by simp
    ultimately have "c = masq_cmd (hd r = CHR ''A'') n net @ rest" using r(1,3) by (auto simp: masq_cmd_def)
    then show thesis using that \<open>rest = [] \<or> rest = silent\<close> by blast
  qed
  moreover have "n @ ''='' @ net \<in> set (parseMasqMarker ls) \<or> (\<exists>m \<in> set (hc_masq h). n @ ''='' @ net = nic_name m @ ''='' @ nic_cidr m)"
    using k(2) by (auto simp: owned_masq_def masqKey_def)
  ultimately show ?thesis using k(1) unfolding own_rule_def by blast
qed

definition hook_has :: "string list \<Rightarrow> bool \<Rightarrow> string \<Rightarrow> bool" where
  "hook_has ls isUp c \<longleftrightarrow> (\<exists>l \<in> set ls. starts_with (hook_name isUp) (trim l) \<and> hook_norm c \<in> hook_norm ` set (commands (valOf l)))"

lemma commands_hook_line: "clean_change h \<Longrightarrow> commands (valOf (hook_line h owned b v)) = hook_body h owned b v"
  using commands_read_back [OF hook_body_plain] hook_line_reads(6) by (simp add: commands_def hook_line_body)

lemma dedupe_norms: "hook_norm ` set (dedupe_hooks seen xs) \<union> set seen = hook_norm ` set xs \<union> set seen"
proof (induction xs arbitrary: seen)
  case (Cons x xs)
  show ?case using Cons.IH [of seen] Cons.IH [of "hook_norm x # seen"]
    by (cases "hook_norm x \<in> set seen") (simp_all add: insert_absorb)
qed simp

lemma hook_body_norms:
  "hook_norm ` set (hook_body h owned b v) = hook_norm ` (set (kept_cmds h owned v) \<union> set (gen_cmds b h))"
  using dedupe_norms [of "[]" "kept_cmds h owned v @ gen_cmds b h"] by (simp add: hook_body_def dedupeHookCmds_def)

lemma pass_hook_lines:
  "hooks_outside (rw_inPeer s) ls \<Longrightarrow> l \<in> set ls \<Longrightarrow> starts_with (hook_name b) (trim l) \<Longrightarrow>
    hook_line h owned b (valOf l) \<in> set (fst (rewrite_pass h owned s ls))"
proof (induction ls arbitrary: s)
  case (Cons k ls)
  obtain a s2 where a: "rewrite_line h owned s k = (a, s2)" by fastforce
  have o: "hooks_outside (rw_inPeer s2) ls" using Cons.prems(1) rewrite_line_state [OF a] by simp
  show ?case
  proof (cases "l = k")
    case True
    have np: "\<not> rw_inPeer s" using Cons.prems(1,3) True by (cases b) (auto simp: hook_name_def)
    have h: "\<not> is_header k" using Cons.prems(3) True by (cases "trim k"; cases b) (auto simp: is_header_def starts_with_def hook_name_def)
    have m: "MASQ_MARKER_RE (trim k) = None"
      using trim_marker_not_hook [of "trim k" b] Cons.prems(3) True by (cases "MASQ_MARKER_RE (trim k)") auto
    have "starts_with ''PostUp'' (trim k) = b" "starts_with ''PostUp'' (trim k) \<or> starts_with ''PostDown'' (trim k)"
      using Cons.prems(3) True hook_start_unique [of True "trim k" b] by (cases b; auto simp: hook_name_def)+
    moreover have "trim k \<noteq> ''[Peer]''" using h peer_is_header by blast
    ultimately have "hook_line h owned b (valOf k) \<in> set a"
      using a np h m by (auto simp: rewrite_line_def is_header_def Let_def)
    then show ?thesis using True by (auto simp: a split: prod.split)
  next
    case False
    then show ?thesis using Cons.IH [OF o _ Cons.prems(3)] Cons.prems(2) by (auto simp: a split: prod.split)
  qed
qed simp

lemma pass_kept:
  assumes "clean_change h"
  shows "rewrite_pass h owned s ls = (e, s1) \<Longrightarrow> filter kept_line e = filter kept_line ls"
proof (induction ls arbitrary: s e)
  case (Cons l ls)
  obtain a s2 where a: "rewrite_line h owned s l = (a, s2)" by fastforce
  obtain c s3 where c: "rewrite_pass h owned s2 ls = (c, s3)" by fastforce
  have nm: "list_all clean_nic (hc_masq h)" using assms by (simp add: clean_change_def)
  have m: "\<not> kept_line (masqMarkerLine (hc_masq h))" using marker_reads_back(1) [OF nm] by (simp add: kept_line_def)
  have k: "\<not> kept_line (hook_line h owned b v)" for b v
    using hook_line_reads'(1) [of b h owned b v] by (cases b) (auto simp: kept_line_def hook_name_def)
  have "filter kept_line a = (if kept_line l then [l] else [])"
  proof (cases rule: rewrite_line_cases [where s = s and l = l and h = h and owned = owned and owned' = owned])
    case (ips as)
    have "starts_with ''AllowedIPs'' (trim (''AllowedIPs = '' @ x))" for x
      using written_prefix [of "''AllowedIPs =''" "''AllowedIPs''" "'' '' @ x"] by (simp add: hd_ws starts_with_def)
    then show ?thesis using ips a by (simp add: kept_line_def del: append_Cons append_Nil)
  next
    case (hook isUp)
    then have "\<not> kept_line l" by (cases isUp) (auto simp: kept_line_def hook_name_def)
    then show ?thesis using hook(6) a m k by auto
  qed (use a in \<open>auto simp: kept_line_def\<close>)
  moreover have "filter kept_line c = filter kept_line ls" using Cons.IH [of s2 c] Cons.prems c by (simp add: a)
  ultimately show ?case using Cons.prems by (auto simp: a c)
qed simp

lemma missing_not_kept:
  assumes "clean_change h"
  shows "filter kept_line (missing_hooks h a b) = []"
proof -
  have nm: "list_all clean_nic (hc_masq h)" using assms by (simp add: clean_change_def)
  have m: "\<not> kept_line (masqMarkerLine (hc_masq h))" using marker_reads_back(1) [OF nm] by (simp add: kept_line_def)
  have k: "\<not> kept_line (hook_line h owned b v)" for owned b v
    using hook_line_reads'(1) [of b h owned b v] by (cases b) (auto simp: kept_line_def hook_name_def)
  show ?thesis unfolding missing_lines [OF assms, of a b "[]"] by (simp add: m k)
qed

lemma rewritten_out:
  assumes "rewrite_pass h (owned_masq h ls) rewrite_start ls = (out, s)"
  shows "set out \<subseteq> set (rewritten_lines h ls)"
    and "rewritten_lines h ls = out \<or> (\<exists>i. rewritten_lines h ls
        = take i out @ missing_hooks h (has_hook ''PostUp'' ls) (has_hook ''PostDown'' ls) @ drop i out)"
    and "\<not> has_hook (hook_name b) ls \<Longrightarrow> hc_routes h \<noteq> [] \<or> hc_masq h \<noteq> [] \<Longrightarrow>
      set (missing_hooks h (has_hook ''PostUp'' ls) (has_hook ''PostDown'' ls)) \<subseteq> set (rewritten_lines h ls)"
proof -
  have ro: "rewrite_out h ls = out" by (simp add: rewrite_out_def assms)
  show e: "rewritten_lines h ls = out \<or> (\<exists>i. rewritten_lines h ls
        = take i out @ missing_hooks h (has_hook ''PostUp'' ls) (has_hook ''PostDown'' ls) @ drop i out)"
    by (auto simp: rewritten_lines_def ro Let_def)
  have t: "set (take i out) \<union> set (drop i out) = set out" for i by (metis append_take_drop_id set_append)
  then show "set out \<subseteq> set (rewritten_lines h ls)" using e by fastforce
  assume "\<not> has_hook (hook_name b) ls" "hc_routes h \<noteq> [] \<or> hc_masq h \<noteq> []"
  then show "set (missing_hooks h (has_hook ''PostUp'' ls) (has_hook ''PostDown'' ls)) \<subseteq> set (rewritten_lines h ls)"
    by (cases b) (auto simp: rewritten_lines_def ro Let_def hook_name_def)
qed

lemma rewritten_kept:
  assumes "clean_change h"
  shows "filter kept_line (rewritten_lines h ls) = filter kept_line ls"
proof -
  let ?L = "rewritten_lines h ls"
  obtain out s where out: "rewrite_pass h (owned_masq h ls) rewrite_start ls = (out, s)" by fastforce
  have "filter kept_line ?L = filter kept_line out"
    using rewritten_out(2) [OF out]
  proof
    assume "\<exists>i. ?L = take i out @ missing_hooks h (has_hook ''PostUp'' ls) (has_hook ''PostDown'' ls) @ drop i out"
    then obtain i where "?L = take i out @ missing_hooks h (has_hook ''PostUp'' ls) (has_hook ''PostDown'' ls) @ drop i out" by blast
    then have "filter kept_line ?L = filter kept_line (take i out) @ filter kept_line (drop i out)"
      by (simp only: filter_append missing_not_kept [OF assms] append_Nil)
    then show ?thesis by (simp flip: filter_append)
  qed simp
  also have "\<dots> = filter kept_line ls" by (rule pass_kept [OF assms out])
  finally show ?thesis .
qed

text \<open>C10: A rewrite of the hub configuration keeps what is not its own. Every line that is no hook, no
  marker and no line of networks stays, in order. Every command of a hook is still in a hook of that
  kind unless its text is that of a command of the panel: one that adds or deletes a route for a
  device whose name begins with the one of the interface (so an operator's own such route goes), or a
  MASQUERADE rule for another card, as the generator writes it, that is written now or stands in the
  marker. And both hooks hold the command for every route and every MASQUERADE rule, so that a
  restart of the interface sets up and takes down what the running one has. Commands count as the
  same when they differ only in the ending that silences errors. (The hooks of the file stand outside
  the peers, and the written names and networks hold no separators.)\<close>

theorem rewriteHubConf_keeps:
  assumes "clean_change h" "hooks_outside False ls" "L = rewritten_lines h ls"
  shows "filter kept_line L = filter kept_line ls
    \<and> (\<forall>b. \<forall>l \<in> set ls. starts_with (hook_name b) (trim l)
         \<longrightarrow> (\<forall>c \<in> set (commands (valOf l)). operator_cmd h ls c \<longrightarrow> hook_has L b c))
    \<and> (\<forall>b. \<forall>g \<in> set (gen_cmds b h). hook_has L b g)"
proof -
  let ?owned = "owned_masq h ls"
  obtain out s where out: "rewrite_pass h ?owned rewrite_start ls = (out, s)" by fastforce
  note L = rewritten_out [OF out, folded assms(3)]
  have line: "hook_line h ?owned b (valOf l) \<in> set L" if "l \<in> set ls" "starts_with (hook_name b) (trim l)" for b l
  proof -
    have "rw_inPeer rewrite_start = False" by (simp add: rewrite_start_def)
    then have "hook_line h ?owned b (valOf l) \<in> set out"
      using pass_hook_lines [of rewrite_start ls l b h ?owned] assms(2) that by (simp only: out fst_conv)
    then show ?thesis using L(1) by blast
  qed
  have has: "hook_has L b c" if "hook_line h ?owned b v \<in> set L" "c \<in> set (kept_cmds h ?owned v) \<union> set (gen_cmds b h)" for b v c
  proof -
    have "hook_norm c \<in> hook_norm ` set (commands (valOf (hook_line h ?owned b v)))"
      unfolding commands_hook_line [OF assms(1)] hook_body_norms using that(2) by blast
    then show ?thesis using that(1) hook_line_reads'(1) [of b h ?owned b v] unfolding hook_has_def by blast
  qed
  have "filter kept_line L = filter kept_line ls" unfolding assms(3) by (rule rewritten_kept [OF assms(1)])
  moreover have "hook_has L b c" if "l \<in> set ls" "starts_with (hook_name b) (trim l)" "c \<in> set (commands (valOf l))" "operator_cmd h ls c" for b l c
  proof (rule has [OF line [OF that(1,2)]])
    show "c \<in> set (kept_cmds h ?owned (valOf l)) \<union> set (gen_cmds b h)"
      using that(3,4) own_route_read own_rule_read by (auto simp: kept_cmds_filter commands_def operator_cmd_def)
  qed
  moreover have "hook_has L b g" if g: "g \<in> set (gen_cmds b h)" for b g
  proof (cases "has_hook (hook_name b) ls")
    case True
    then obtain l where "l \<in> set ls" "starts_with (hook_name b) (trim l)" by (auto simp: has_hook_def list_ex_iff)
    from has [OF line [OF this]] g show ?thesis by blast
  next
    case False
    have "gen_cmds b h \<noteq> []" using g by auto
    then have nets: "hc_routes h \<noteq> [] \<or> hc_masq h \<noteq> []" and ne: "gen_cmds True h \<noteq> []" "gen_cmds False h \<noteq> []"
      using gen_cmds_Nil by auto
    have "hook_line h ?owned b [] \<in> set (missing_hooks h (has_hook ''PostUp'' ls) (has_hook ''PostDown'' ls))"
      unfolding missing_lines [OF assms(1), of _ _ ?owned] using False ne by (cases b) (auto simp: hook_name_def)
    then have "hook_line h ?owned b [] \<in> set L" using L(3) [OF False nets] by blast
    from has [OF this] g show ?thesis by blast
  qed
  ultimately show ?thesis by simp
qed

theorem rewriteHubConf_keeps_witness:
  "operator_cmd ex_hub_change ex_hub_lines ''sysctl -w a=1''
   \<and> hook_has (rewritten_lines ex_hub_change ex_hub_lines) True ''sysctl -w a=1''
   \<and> hook_has (rewritten_lines ex_hub_change ex_hub_lines) False (route_cmd False ''wg0'' ''192.168.7.0/24'')"
proof -
  have a: "operator_cmd ex_hub_change ex_hub_lines ''sysctl -w a=1''" by (simp add: operator_cmd_def own_route_def own_rule_def masq_cmd_def)
  have l: "ex_hub_lines ! 2 \<in> set ex_hub_lines" "starts_with (hook_name True) (trim (ex_hub_lines ! 2))"
    "''sysctl -w a=1'' \<in> set (commands (valOf (ex_hub_lines ! 2)))"
    "route_cmd False ''wg0'' ''192.168.7.0/24'' \<in> set (gen_cmds False ex_hub_change)"
    by code_simp+
  from a l show ?thesis using rewriteHubConf_keeps [OF ex_hub_ok(1,3) refl] by blast
qed

text \<open>The test for the panel's own routes looks at the beginning of the device's name only, so that an
  operator's route for another interface is lost.\<close>

lemma foreign_route_lost:
  "rewritten_lines \<lparr>hc_iface = ''wg0'', hc_updates = [], hc_routes = [], hc_masq = []\<rparr>
     [''[Interface]'', ''PostUp = ip route add 10.9.0.0/16 dev wg01; true'', ''PostDown = true'']
   = [''[Interface]'', ''# floppyguard-masq: -'', ''PostUp = true'', ''PostDown = true'']"
  by code_simp

end
