(* ===== verification/Wg_Hub_Peers.thy ===== *)
theory Wg_Hub_Peers
  imports Wg_Hub_Rewrite
begin

text \<open>
  The peers of a hub configuration: a rewrite gives every peer the networks it was meant to have
  and no other, which networks these are, and the removal of a peer.
\<close>

subsection \<open>Regular files\<close>

text \<open>In every peer one key, then one list of networks; the flags tell where the check is.\<close>

fun regular_peers :: "bool \<Rightarrow> bool \<Rightarrow> bool \<Rightarrow> string list \<Rightarrow> bool" where
  "regular_peers p k a [] \<longleftrightarrow> (p \<and> k \<longrightarrow> a)"
| "regular_peers p k a (l # ls) \<longleftrightarrow>
     (if is_header l then (p \<and> k \<longrightarrow> a) \<and> regular_peers (trim l = ''[Peer]'') False False ls
      else if \<not> p then regular_peers p k a ls
      else if starts_with ''PublicKey'' (trim l)
      then \<not> k \<and> key_text (trim l) = ''PublicKey'' \<and> CHR ''='' \<in> set (trim l) \<and> valOf (trim l) \<noteq> [] \<and> regular_peers p True a ls
      else if starts_with ''AllowedIPs'' (trim l)
      then k \<and> \<not> a \<and> key_text (trim l) = ''AllowedIPs'' \<and> CHR ''='' \<in> set (trim l) \<and> regular_peers p k True ls
      else regular_peers p k a ls)"

lemma trim_prefix:
  assumes "s = [] \<or> \<not> js_ws (hd s)"
  shows "starts_with (trim s) s"
proof -
  have "dropWhile js_ws s = s" using assms by (cases s) auto
  then have "s = trim s @ rev (takeWhile js_ws (rev s))"
    by (metis rev_append rev_rev_ident takeWhile_dropWhile_id trim_def)
  then show ?thesis by (metis starts_with_append)
qed

lemma starts_with_trans: "starts_with a b \<Longrightarrow> starts_with b c \<Longrightarrow> starts_with a c"
proof -
  assume a: "starts_with a b" and b: "starts_with b c"
  have "length a \<le> length b" using a by (metis nat_le_linear order.refl starts_with_def take_all)
  then have "min (length a) (length b) = length a" by simp
  then have "take (length a) c = take (length a) (take (length b) c)" by (simp only: take_take)
  also have "\<dots> = a" using a b unfolding starts_with_def by simp
  finally show "starts_with a c" unfolding starts_with_def .
qed

lemma key_text_starts: "starts_with (key_text (trim l)) (trim l)"
proof -
  let ?t = "trim l" and ?w = "takeWhile (\<lambda>c. c \<noteq> CHR ''='') (trim l)"
  have "?t \<noteq> [] \<Longrightarrow> \<not> js_ws (hd ?t)" using trim_ends(1) [of ?t] by simp
  then have "?w = [] \<or> \<not> js_ws (hd ?w)" by (cases ?t) auto
  then have "starts_with (trim ?w) ?w" by (rule trim_prefix)
  moreover have "starts_with ?w ?t" using starts_with_append takeWhile_dropWhile_id by metis
  ultimately show ?thesis unfolding key_text_def by (rule starts_with_trans)
qed

text \<open>What a line of a regular file means to the scan.\<close>

lemma scan_header:
  "is_header l \<Longrightarrow> scan_line l s = (if trim l = ''[Peer]'' then (flush_peer s)\<lparr>ps_inPeer := True, ps_key := None, ps_ips := []\<rparr>
     else (flush_peer s)\<lparr>ps_inPeer := False, ps_key := None\<rparr>)"
  by (simp add: scan_line_def is_header_def Let_def)

lemma scan_outside: "\<not> is_header l \<Longrightarrow> \<not> ps_inPeer s \<Longrightarrow> scan_line l s = s"
  using peer_is_header [of l] by (auto simp: scan_line_def is_header_def Let_def)

lemma scan_key:
  assumes "\<not> is_header l" "ps_inPeer s" "starts_with ''PublicKey'' (trim l)" "key_text (trim l) = ''PublicKey''" "CHR ''='' \<in> set (trim l)"
  shows "scan_line l s = s\<lparr>ps_key := Some (valOf (trim l))\<rparr>"
proof -
  have "trim l \<noteq> []" "\<not> starts_with ''#'' (trim l)" using assms(3) by (cases "trim l"; simp add: starts_with_def)+
  then show ?thesis using assms peer_is_header [of l] by (auto simp: scan_line_def is_header_def Let_def)
qed

lemma scan_ips:
  assumes "\<not> is_header l" "ps_inPeer s" "starts_with ''AllowedIPs'' (trim l)" "key_text (trim l) = ''AllowedIPs''" "CHR ''='' \<in> set (trim l)"
  shows "scan_line l s = s\<lparr>ps_ips := comma_list (valOf (trim l))\<rparr>"
proof -
  have "trim l \<noteq> []" "\<not> starts_with ''#'' (trim l)" using assms(3) by (cases "trim l"; simp add: starts_with_def)+
  then show ?thesis using assms peer_is_header [of l] by (auto simp: scan_line_def is_header_def Let_def)
qed

lemma scan_other:
  assumes "\<not> is_header l" "ps_inPeer s" "\<not> starts_with ''PublicKey'' (trim l)" "\<not> starts_with ''AllowedIPs'' (trim l)"
  shows "scan_line l s = s"
proof -
  have "key_text (trim l) \<noteq> ''PublicKey''" "key_text (trim l) \<noteq> ''AllowedIPs''" using assms(3,4) key_text_starts [of l] by metis+
  then show ?thesis using assms(1,2) peer_is_header [of l] by (auto simp: scan_line_def is_header_def Let_def)
qed

subsection \<open>Networks written into a peer\<close>

definition clean_ips :: "hub_change \<Rightarrow> bool" where
  "clean_ips h \<longleftrightarrow> list_all (\<lambda>(k, ips). list_all (plain_item CHR '','') ips) (hc_updates h)"

lemma written_ips:
  assumes "list_all (plain_item CHR '','') ips" "l = ''AllowedIPs = '' @ join '', '' ips"
  shows "\<not> is_header l" "starts_with ''AllowedIPs'' (trim l)" "key_text (trim l) = ''AllowedIPs''" "CHR ''='' \<in> set (trim l)"
    "comma_list (valOf (trim l)) = ips"
proof -
  let ?v = "join '', '' ips"
  have t: "trim l = ''AllowedIPs ='' @ rev (dropWhile js_ws (rev ('' '' @ ?v)))"
    using trim_append [of "''AllowedIPs =''" "'' '' @ ?v"] by (simp add: assms(2) hd_ws)
  show "\<not> is_header l" "starts_with ''AllowedIPs'' (trim l)" "CHR ''='' \<in> set (trim l)"
    unfolding is_header_def t by (simp_all add: starts_with_def)
  have "trim ''AllowedIPs '' = ''AllowedIPs''" by code_simp
  then show "key_text (trim l) = ''AllowedIPs''" unfolding key_text_def t by simp
  have r: "trim (rev (dropWhile js_ws (rev x))) = trim x" for x
  proof -
    have "x = rev (dropWhile js_ws (rev x)) @ rev (takeWhile js_ws (rev x))"
      by (metis rev_append rev_rev_ident takeWhile_dropWhile_id)
    moreover have "trim (c @ w) = trim c" if "\<forall>x \<in> set w. js_ws x" for c w
    proof (cases "\<forall>x \<in> set c. js_ws x")
      case True
      then have "dropWhile js_ws (c @ w) = []" "dropWhile js_ws c = []" using that by simp_all
      then show ?thesis unfolding trim_def by (simp only:)
    next
      case False
      then have "dropWhile js_ws (c @ w) = dropWhile js_ws c @ w" by (metis dropWhile_append1)
      then show ?thesis using that by (simp add: trim_def dropWhile_append)
    qed
    ultimately show ?thesis by (metis set_rev set_takeWhileD)
  qed
  have "valOf (trim l) = trim (rev (dropWhile js_ws (rev ('' '' @ ?v))))" unfolding t valOf_def by simp
  also have "\<dots> = trim ('' '' @ ?v)" by (rule r)
  also have "\<dots> = trim ?v" by (simp add: trim_def hd_ws)
  finally have "comma_list (valOf (trim l)) = filter (\<lambda>p. p \<noteq> []) (map trim (split_on CHR '','' (trim ?v)))" by (simp add: comma_list_def)
  then show "comma_list (valOf (trim l)) = ips" using items_read_back [of ips "CHR '',''"] assms(1) by (simp add: list_all_iff)
qed

lemma hook_lines_scan:
  assumes "clean_change h" "\<not> ps_inPeer s" "set e \<subseteq> {masqMarkerLine (hc_masq h), hook_line h owned True v, hook_line h owned False v'}"
  shows "fold scan_line e s = s"
proof -
  have c: "list_all clean_nic (hc_masq h)" using assms(1) by (simp add: clean_change_def)
  have "\<not> is_header (hook_line h owned b v)" for b v
    unfolding hook_line_body is_header_def by (rule hook_line_reads(3))
  then have "scan_line x s = s" if "x \<in> set e" for x
    using that assms(3) scan_outside [OF _ assms(2), of x] marker_reads_back(5) [OF c] by auto
  then show ?thesis by (induction e) simp_all
qed

subsection \<open>The peers of a rewritten file\<close>

text \<open>The networks of a peer after the changes.\<close>

definition effective_ips :: "(string \<times> string list) list \<Rightarrow> string \<times> string list \<Rightarrow> string list" where
  "effective_ips updates p = or_else (map_of updates (fst p)) (snd p)"

abbreviation effective :: "hub_change \<Rightarrow> string \<times> string list \<Rightarrow> string \<times> string list" where
  "effective h p \<equiv> (fst p, effective_ips (hc_updates h) p)"

lemma update_effective: "map (effective h) (AList.update k v xs) = AList.update k (effective_ips (hc_updates h) (k, v)) (map (effective h) xs)"
  by (induction xs) auto

text \<open>How the scan of a file and the scan of what the rewrite makes of it go together.\<close>

definition scans_agree :: "hub_change \<Rightarrow> bool \<Rightarrow> bool \<Rightarrow> rewrite_state \<Rightarrow> peer_scan \<Rightarrow> peer_scan \<Rightarrow> bool" where
  "scans_agree h k a w s s' \<longleftrightarrow>
     ps_inPeer s = rw_inPeer w \<and> ps_inPeer s' = rw_inPeer w \<and> ps_key s' = ps_key s
     \<and> ps_peers s' = map (effective h) (ps_peers s)
     \<and> (rw_inPeer w \<longrightarrow> ps_key s = rw_key w \<and> (k \<longleftrightarrow> ps_key s \<noteq> None) \<and> ps_key s \<noteq> Some [] \<and> (a \<longrightarrow> k)
          \<and> ps_ips s' = (if a then effective_ips (hc_updates h) (the (ps_key s), ps_ips s) else ps_ips s))"

lemma flush_agree:
  assumes "scans_agree h k a w s s'" "rw_inPeer w \<and> k \<longrightarrow> a"
  shows "ps_peers (flush_peer s') = map (effective h) (ps_peers (flush_peer s))"
    "ps_inPeer (flush_peer s) = ps_inPeer s" "ps_key (flush_peer s) = ps_key s"
    "ps_inPeer (flush_peer s') = ps_inPeer s'" "ps_key (flush_peer s') = ps_key s'"
  using assms by (auto simp: flush_peer_def scans_agree_def update_effective split: option.split)

lemma header_agree:
  assumes "is_header l" "scans_agree h k a w s s'" "rw_inPeer w \<and> k \<longrightarrow> a" "rewrite_line h owned w l = (e, w')"
  shows "scans_agree h False False w' (scan_line l s) (fold scan_line e s') \<and> rw_inPeer w' = (trim l = ''[Peer]'')"
proof -
  have m: "MASQ_MARKER_RE (trim l) = None"
    using assms(1) by (cases "trim l") (auto simp: is_header_def MASQ_MARKER_RE_def strip_prefix_def starts_with_def)
  have e: "e = [l]" using header_line [OF assms(1), of h owned w] assms(4) by simp
  have w: "w' = (if trim l = ''[Peer]'' then w\<lparr>rw_inPeer := True, rw_key := None\<rparr> else w\<lparr>rw_inPeer := False, rw_key := None\<rparr>)"
    using assms(1,4) m by (auto simp: rewrite_line_def is_header_def Let_def)
  show ?thesis unfolding e using flush_agree [OF assms(2,3)]
    by (simp add: scan_header [OF assms(1)] w scans_agree_def)
qed

lemma outside_agree:
  assumes "\<not> is_header l" "\<not> rw_inPeer w" "clean_change h" "scans_agree h k a w s s'" "rewrite_line h owned w l = (e, w')"
  shows "scans_agree h k a w' (scan_line l s) (fold scan_line e s') \<and> \<not> rw_inPeer w'"
proof -
  have np: "\<not> ps_inPeer s" "\<not> ps_inPeer s'" using assms(2,4) by (simp_all add: scans_agree_def)
  have w: "\<not> rw_inPeer w'" using rewrite_line_state [OF assms(5)] assms(1,2) by (simp add: peer_line_def)
  have "fold scan_line e s' = s'"
  proof (cases rule: rewrite_line_cases [where s = w and l = l and h = h and owned = owned and owned' = owned])
    case (hook isUp)
    then show ?thesis using assms(5) by (intro hook_lines_scan [OF assms(3) np(2), of e owned "valOf l" "valOf l"]) auto
  qed (use assms(2,5) scan_outside [OF assms(1) np(2)] in auto)
  then show ?thesis using scan_outside [OF assms(1) np(1)] w assms(2,4) by (simp add: scans_agree_def)
qed

lemma prefix_not: "starts_with ''PublicKey'' t \<Longrightarrow> \<not> starts_with ''AllowedIPs'' t"
  by (cases t) (auto simp: starts_with_def)

lemma inside_agree:
  assumes "\<not> is_header l" "rw_inPeer w" "clean_ips h" "scans_agree h k a w s s'" "rewrite_line h owned w l = (e, w')"
    and "regular_peers True k a (l # ls)"
  shows "\<exists>k' a'. scans_agree h k' a' w' (scan_line l s) (fold scan_line e s') \<and> regular_peers True k' a' ls \<and> rw_inPeer w'"
proof -
  have p: "ps_inPeer s" "ps_inPeer s'" using assms(2,4) by (simp_all add: scans_agree_def)
  have np: "trim l \<noteq> ''[Peer]''" "\<not> starts_with ''['' (trim l)" using assms(1) peer_is_header [of l] by (auto simp: is_header_def)
  consider (key) "starts_with ''PublicKey'' (trim l)" | (nets) "starts_with ''AllowedIPs'' (trim l)" "\<not> starts_with ''PublicKey'' (trim l)"
    | (other) "\<not> starts_with ''PublicKey'' (trim l)" "\<not> starts_with ''AllowedIPs'' (trim l)" by blast
  then show ?thesis
  proof cases
    case key
    then have r: "\<not> k" "key_text (trim l) = ''PublicKey''" "CHR ''='' \<in> set (trim l)" "valOf (trim l) \<noteq> []" "regular_peers True True a ls"
      using assms(1,6) by auto
    have e: "e = [l]" "w' = w\<lparr>rw_key := Some (valOf (trim l))\<rparr>" using assms(2,5) np key by (simp_all add: rewrite_line_def Let_def)
    have "scans_agree h True a w' (scan_line l s) (fold scan_line e s')"
      using assms(2,4) r(1,4) scan_key [OF assms(1) p(1) key r(2,3)] scan_key [OF assms(1) p(2) key r(2,3)]
      by (auto simp: scans_agree_def e)
    then show ?thesis using r(5) e assms(2) by auto
  next
    case nets
    then have r: "k" "\<not> a" "key_text (trim l) = ''AllowedIPs''" "CHR ''='' \<in> set (trim l)" "regular_peers True k True ls"
      using assms(1,6) by auto
    obtain key where key: "ps_key s = Some key" "rw_key w = Some key" "key \<noteq> []" "ps_ips s' = ps_ips s" "ps_key s' = Some key"
      using assms(2,4) r(1,2) by (cases "ps_key s") (auto simp: scans_agree_def)
    note sl = scan_ips [OF assms(1) _ nets(1) r(3,4)]
    have "scans_agree h k True w' (scan_line l s) (fold scan_line e s') \<and> rw_inPeer w'"
    proof (cases "map_of (hc_updates h) key")
      case None
      then have "e = [l]" "w' = w"
        using assms(2,5) np nets key by (auto simp: rewrite_line_def Let_def update_for_def)
      then show ?thesis using assms(2,4) r(1) key None sl [OF p(1)] sl [OF p(2)]
        by (auto simp: scans_agree_def effective_ips_def or_else_def)
    next
      case (Some ips)
      then have e: "e = [''AllowedIPs = '' @ join '', '' ips]" "w' = w"
        using assms(2,5) np nets key by (auto simp: rewrite_line_def Let_def update_for_def or_else_def)
      have "list_all (plain_item CHR '','') ips"
        using assms(3) map_of_SomeD [OF Some] by (auto simp: clean_ips_def list_all_iff)
      note wr = written_ips [OF this refl]
      have "fold scan_line e s' = s'\<lparr>ps_ips := ips\<rparr>"
        unfolding e using scan_ips [OF wr(1) p(2) wr(2-4)] wr(5) by simp
      then show ?thesis using assms(2,4) r(1) key Some sl [OF p(1)] e(2)
        by (auto simp: scans_agree_def effective_ips_def or_else_def)
    qed
    then show ?thesis using r(5) by blast
  next
    case other
    then have e: "e = [l]" "w' = w" using assms(2,5) np by (auto simp: rewrite_line_def Let_def)
    have r: "regular_peers True k a ls" using assms(1,6) other by simp
    show ?thesis using scan_other [OF assms(1) p(1) other] scan_other [OF assms(1) p(2) other] assms(2,4) r e by auto
  qed
qed

lemma pass_agree:
  assumes "clean_change h" "clean_ips h"
  shows "rewrite_pass h owned w ls = (e, w') \<Longrightarrow> scans_agree h k a w s s' \<Longrightarrow> regular_peers (rw_inPeer w) k a (ls @ rest) \<Longrightarrow>
    \<exists>k' a'. scans_agree h k' a' w' (fold scan_line ls s) (fold scan_line e s') \<and> regular_peers (rw_inPeer w') k' a' rest"
proof (induction ls arbitrary: w s s' e k a)
  case (Cons l ls)
  obtain b w2 where b: "rewrite_line h owned w l = (b, w2)" by fastforce
  obtain c w3 where c: "rewrite_pass h owned w2 ls = (c, w3)" by fastforce
  have e: "e = b @ c" "w3 = w'" using Cons.prems(1) by (simp_all add: b c)
  have "\<exists>k' a'. scans_agree h k' a' w2 (scan_line l s) (fold scan_line b s') \<and> regular_peers (rw_inPeer w2) k' a' (ls @ rest)"
  proof -
    consider "is_header l" | "\<not> is_header l" "rw_inPeer w" | "\<not> is_header l" "\<not> rw_inPeer w" by blast
    then show ?thesis
    proof cases
      case 1
      with Cons.prems(3) header_agree [OF 1 Cons.prems(2) _ b] show ?thesis by auto
    next
      case 2
      have "regular_peers True k a (l # ls @ rest)" using Cons.prems(3) 2(2) by simp
      from inside_agree [OF 2 assms(2) Cons.prems(2) b this] show ?thesis by force
    next
      case 3
      with Cons.prems(3) outside_agree [OF 3 assms(1) Cons.prems(2) b] show ?thesis by auto
    qed
  qed
  then obtain k' a' where "scans_agree h k' a' w2 (scan_line l s) (fold scan_line b s')" "regular_peers (rw_inPeer w2) k' a' (ls @ rest)"
    by blast
  from Cons.IH [OF c [unfolded e(2)] this] show ?case by (simp add: e(1))
qed auto

abbreviation scan_start :: peer_scan where
  "scan_start \<equiv> \<lparr>ps_inPeer = False, ps_key = None, ps_ips = [], ps_peers = []\<rparr>"

text \<open>The peers of a new file are the ones it had, each with the networks it was given.\<close>

lemma rewrite_sets_networks:
  assumes "clean_change h" "clean_ips h" "hooks_outside False ls" "first_section_ok ls" "regular_peers False False False ls"
  shows "parsePeersFromConf (rewritten_lines h ls) = map (\<lambda>p. (fst p, effective_ips (hc_updates h) p)) (parsePeersFromConf ls)"
proof -
  let ?owned = "owned_masq h ls"
  obtain out w where out: "rewrite_pass h ?owned rewrite_start ls = (out, w)" by fastforce
  have start: "scans_agree h False False rewrite_start scan_start scan_start" by (simp add: scans_agree_def rewrite_start_def)
  have reg: "regular_peers (rw_inPeer rewrite_start) False False ls" using assms(5) by (simp add: rewrite_start_def)
  have fin: "ps_peers (flush_peer (fold scan_line out scan_start)) = map (effective h) (parsePeersFromConf ls)"
  proof -
    from pass_agree [OF assms(1,2) out start, of "[]"] reg obtain k a where
      "scans_agree h k a w (fold scan_line ls scan_start) (fold scan_line out scan_start)" "rw_inPeer w \<and> k \<longrightarrow> a" by auto
    from flush_agree(1) [OF this] show ?thesis by (simp add: parsePeersFromConf_def)
  qed
  have ro: "rewrite_out h ls = out" by (simp add: rewrite_out_def out)
  have nohook: "fold scan_line (missing_hooks h a b) s = s" if "\<not> ps_inPeer s" for a b s
    by (rule hook_lines_scan [OF assms(1) that, of _ ?owned "[]" "[]"]) (auto simp: missing_lines [OF assms(1), of a b ?owned])
  have "fold scan_line (rewritten_lines h ls) scan_start = fold scan_line out scan_start"
  proof (cases "(\<not> has_hook ''PostUp'' ls \<or> \<not> has_hook ''PostDown'' ls) \<and> (hc_routes h \<noteq> [] \<or> hc_masq h \<noteq> [])")
    case True
    from insert_place [OF assms(1,3,4) _ out] True obtain l1 l2 e1 e2 s1 where i: "ls = l1 @ l2" "out = e1 @ e2"
      "insert_index (has_hook ''PostUp'' ls) (has_hook ''PostDown'' ls) out = length e1"
      "rewrite_pass h ?owned rewrite_start l1 = (e1, s1)" "\<not> rw_inPeer s1" by blast
    from pass_agree [OF assms(1,2) i(4) start, of l2] reg i(1,5) have "\<not> ps_inPeer (fold scan_line e1 scan_start)"
      by (auto simp: scans_agree_def)
    from nohook [OF this] have "fold scan_line (e1 @ missing_hooks h (has_hook ''PostUp'' ls) (has_hook ''PostDown'' ls) @ e2) scan_start
       = fold scan_line out scan_start" by (simp add: i(2))
    moreover have "rewritten_lines h ls = e1 @ missing_hooks h (has_hook ''PostUp'' ls) (has_hook ''PostDown'' ls) @ e2"
      using True i(3) by (simp add: rewritten_lines_def ro Let_def i(2))
    ultimately show ?thesis by (simp only:)
  next
    case False
    then have "rewritten_lines h ls = out" by (auto simp: rewritten_lines_def ro Let_def)
    then show ?thesis by simp
  qed
  then show ?thesis using fin by (simp add: parsePeersFromConf_def)
qed

subsection \<open>Lines and text\<close>

lemma set_split_on: "p \<in> set (split_on d s) \<Longrightarrow> set p \<subseteq> set s"
proof -
  assume p: "p \<in> set (split_on d s)"
  have "x \<in> set xs \<Longrightarrow> set x \<subseteq> set (join e xs)" for x xs and e :: string
    by (induction e xs rule: join.induct) auto
  from this [OF p, of "[d]"] show ?thesis by simp
qed

lemma join_split_lines:
  assumes "CR \<notin> set conf"
  shows "join [LF] (split_lines conf) = conf"
proof -
  have cr: "CR \<notin> set p" if "p \<in> set (split_on LF conf)" for p using assms set_split_on [OF that] by auto
  have "strip_cr p = p" if "p \<in> set (split_on LF conf)" for p
    using cr [OF that] by (cases p rule: rev_cases) (auto simp: strip_cr_def)
  then have "map strip_cr (butlast (split_on LF conf)) = butlast (split_on LF conf)"
    by (intro map_idI) (auto dest: in_set_butlastD)
  then have "split_lines conf = split_on LF conf" by (simp add: split_lines_def Let_def)
  then show ?thesis by simp
qed

subsection \<open>Which networks a peer gets\<close>

lemma same_ips_set:
  assumes "same_ips a b" "list_all (plain_item CHR '','') a" "list_all (plain_item CHR '','') b"
  shows "set a = set b"
proof -
  have s: "split_on CHR '','' (join '','' (sort x)) = (if x = [] then [[]] else sort x)" if "list_all (plain_item CHR '','') x" for x
  proof (cases "x = []")
    case False
    then have "sort x \<noteq> []" by (metis length_0_conv length_sort)
    moreover have "\<forall>c \<in> set (sort x). CHR '','' \<notin> set c" using that by (auto simp: list_all_iff plain_item_def)
    ultimately show ?thesis using False by (simp add: split_on_join)
  qed simp
  have ne: "[] \<notin> set x" if "list_all (plain_item CHR '','') x" for x using that by (auto simp: list_all_iff plain_item_def)
  have "(if a = [] then [[]] else sort a) = (if b = [] then [[]] else sort b)"
    using s [OF assms(2)] s [OF assms(3)] assms(1) by (simp add: same_ips_def)
  then have "sort a = sort b" using ne [OF assms(2)] ne [OF assms(3)] by (metis list.set_intros(1) set_sort)
  then show ?thesis by (metis set_sort)
qed

text \<open>The networks a peer is meant to have: its host routes, and, unless it is declared a client, the
  networks the operator listed for it, or else those it had.\<close>

definition wanted_net :: "props option \<Rightarrow> string list \<Rightarrow> string \<Rightarrow> bool" where
  "wanted_net m current c \<longleftrightarrow>
     (case m of
        None \<Rightarrow> c \<in> set current
      | Some m \<Rightarrow>
          if isHostRoute c then c \<in> set current
          else normalizeLinkType (meta_text m ''type'') \<noteq> Some ''client''
            \<and> (if ''importedNetworks'' \<in> fst ` set m
               then c \<in> set (or_else (meta_list m ''importedNetworks'') []) \<and> isAcceptableNetworkPrefix c
               else c \<in> set current))"

definition plain_link :: "props \<Rightarrow> bool" where
  "plain_link m \<longleftrightarrow> list_all (plain_item CHR '','') (or_else (meta_list m ''importedNetworks'') [])"

lemma peer_nets_set: "c \<in> set (peer_nets m current) \<longleftrightarrow> wanted_net (Some m) current c"
  by (auto simp: peer_nets_def wanted_net_def Let_def)

lemma peer_nets_plain: "plain_link m \<Longrightarrow> list_all (plain_item CHR '','') current \<Longrightarrow> list_all (plain_item CHR '','') (peer_nets m current)"
  using peer_nets_set [of _ m current] by (auto simp: list_all_iff plain_link_def wanted_net_def split: if_splits)

lemma update_lookup:
  assumes "distinct (map fst peers)" "(k, ips) \<in> set peers"
  shows "map_of (buildPeerUpdates peers links iface) k = map_of (peer_update links iface (k, ips)) k"
  using assms
proof (induction peers)
  case (Cons p ps)
  have other: "map_of (peer_update links iface q) k = None" if "fst q \<noteq> k" for q
    using that by (auto simp: peer_update_def Let_def split: option.split)
  have later: "map_of (buildPeerUpdates qs links iface) k = None" if "k \<notin> fst ` set qs" for qs
    using that other by (induction qs) (auto simp: buildPeerUpdates_def map_add_def)
  show ?case
  proof (cases "p = (k, ips)")
    case True
    then have "k \<notin> fst ` set ps" using Cons.prems(1) by simp
    from later [OF this] True show ?thesis by (simp add: buildPeerUpdates_def map_add_def split: option.split)
  next
    case False
    then have m: "(k, ips) \<in> set ps" using Cons.prems(2) by auto
    then have "k \<in> fst ` set ps" by force
    then have "fst p \<noteq> k" using Cons.prems(1) by auto
    with other [of p] Cons.IH m Cons.prems(1) show ?thesis by (simp add: buildPeerUpdates_def map_add_def split: option.split)
  qed
qed simp

lemma effective_wanted:
  assumes "distinct (map fst peers)" "(k, ips) \<in> set peers" "\<forall>m. map_of links (iface @ '':'' @ k) = Some m \<longrightarrow> plain_link m"
    and "list_all (plain_item CHR '','') ips"
  shows "c \<in> set (effective_ips (buildPeerUpdates peers links iface) (k, ips)) \<longleftrightarrow> wanted_net (map_of links (iface @ '':'' @ k)) ips c"
proof (cases "map_of links (iface @ '':'' @ k)")
  case None
  then show ?thesis by (simp add: effective_ips_def update_lookup [OF assms(1,2)] peer_update_def or_else_def wanted_net_def)
next
  case (Some m)
  show ?thesis
  proof (cases "same_ips (peer_nets m ips) ips")
    case True
    have "set (peer_nets m ips) = set ips"
      using same_ips_set [OF True peer_nets_plain assms(4)] assms(3,4) Some by simp
    then show ?thesis using True Some peer_nets_set [of c m ips]
      by (simp add: effective_ips_def update_lookup [OF assms(1,2)] peer_update_def or_else_def)
  next
    case False
    then show ?thesis using Some peer_nets_set [of c m ips]
      by (simp add: effective_ips_def update_lookup [OF assms(1,2)] peer_update_def or_else_def Let_def)
  qed
qed

lemma comma_list_plain: "list_all (plain_item CHR '','') (comma_list s)"
proof -
  have "CHR '','' \<notin> set p" if "p \<in> set (split_on CHR '','' s)" for p using that split_on_eq_iff by blast
  then have "CHR '','' \<notin> set (trim p)" if "p \<in> set (split_on CHR '','' s)" for p using that set_trim by blast
  then show ?thesis by (auto simp: comma_list_def list_all_iff plain_item_def)
qed

lemma distinct_update: "distinct (map fst xs) \<Longrightarrow> distinct (map fst (AList.update k v xs))"
  by (rule distinct_update)

text \<open>The scan keeps its entries apart and free of commas.\<close>

definition scan_ok :: "peer_scan \<Rightarrow> bool" where
  "scan_ok s \<longleftrightarrow> distinct (map fst (ps_peers s)) \<and> list_all (plain_item CHR '','') (ps_ips s)
     \<and> (\<forall>p \<in> set (ps_peers s). list_all (plain_item CHR '','') (snd p))"

lemma flush_ok: "scan_ok s \<Longrightarrow> scan_ok (flush_peer s)"
proof -
  assume s: "scan_ok s"
  have "snd p = v \<or> p \<in> set xs" if "p \<in> set (AList.update k v xs)" for p k v and xs :: "(string \<times> string list) list"
    using that by (induction xs) (auto split: if_splits)
  from this [of _ _ "ps_ips s" "ps_peers s"] s show ?thesis
    by (fastforce simp: flush_peer_def scan_ok_def distinct_update split: option.split)
qed

lemma scan_line_ok: "scan_ok s \<Longrightarrow> scan_ok (scan_line l s)"
  using flush_ok [of s] by (auto simp: scan_line_def scan_ok_def comma_list_plain Let_def)

lemma parse_ok:
  "distinct (map fst (parsePeersFromConf ls))" "(k, ips) \<in> set (parsePeersFromConf ls) \<Longrightarrow> list_all (plain_item CHR '','') ips"
proof -
  have "scan_ok (fold scan_line ls s)" if "scan_ok s" for s using that by (induction ls arbitrary: s) (simp_all add: scan_line_ok)
  moreover have "scan_ok scan_start" by (simp add: scan_ok_def)
  ultimately have "scan_ok (flush_peer (fold scan_line ls scan_start))" by (blast intro: flush_ok)
  then show "distinct (map fst (parsePeersFromConf ls))" "(k, ips) \<in> set (parsePeersFromConf ls) \<Longrightarrow> list_all (plain_item CHR '','') ips"
    by (auto simp: scan_ok_def parsePeersFromConf_def)
qed

lemma updates_clean:
  assumes "hc_updates h = buildPeerUpdates (parsePeersFromConf ls) links iface" "\<forall>(k, m) \<in> set links. plain_link m"
  shows "clean_ips h"
proof -
  have "list_all (plain_item CHR '','') ips" if "(k, ips) \<in> set (buildPeerUpdates (parsePeersFromConf ls) links iface)" for k ips
  proof -
    from that obtain p where q: "p \<in> set (parsePeersFromConf ls)" "(k, ips) \<in> set (peer_update links iface p)"
      unfolding buildPeerUpdates_def by auto
    then obtain m where "map_of links (iface @ '':'' @ fst p) = Some m" "ips = peer_nets m (snd p)"
      unfolding peer_update_def by (cases "map_of links (iface @ '':'' @ fst p)") (auto simp: Let_def split: if_splits)
    note p = q(1) this
    have "plain_link m" using assms(2) map_of_SomeD [OF p(2)] by auto
    moreover have "list_all (plain_item CHR '','') (snd p)" using parse_ok(2) [of "fst p" "snd p" ls] p(1) by simp
    ultimately show ?thesis unfolding p(3) by (rule peer_nets_plain)
  qed
  then show ?thesis by (auto simp: clean_ips_def list_all_iff assms(1))
qed

text \<open>C9: A rewrite with the changes the metadata asks for leaves exactly the wanted networks in the
  file: the same peers in the same order; a peer keeps its host routes and gets the networks the
  operator listed for it (those it had when none are listed), a peer declared a client gets no
  network besides its host routes, and no listed network shorter than the shortest accepted prefix.
  (The file lists one key and then one line of networks in every peer, its hooks stand outside the
  peers, and the listed networks are texts without commas.)\<close>

theorem hub_networks_follow_metadata:
  assumes "hc_updates h = buildPeerUpdates (parsePeersFromConf ls) links (hc_iface h)" "\<forall>(k, m) \<in> set links. plain_link m"
    and "clean_change h" "hooks_outside False ls" "first_section_ok ls" "regular_peers False False False ls"
  shows "map fst (parsePeersFromConf (rewritten_lines h ls)) = map fst (parsePeersFromConf ls)
    \<and> (\<forall>(k, ips) \<in> set (parsePeersFromConf ls). \<exists>new. (k, new) \<in> set (parsePeersFromConf (rewritten_lines h ls))
        \<and> (\<forall>c. c \<in> set new \<longleftrightarrow> wanted_net (map_of links (hc_iface h @ '':'' @ k)) ips c))"
proof -
  note r = rewrite_sets_networks [OF assms(3) updates_clean [OF assms(1,2)] assms(4-6)]
  have "map fst (parsePeersFromConf (rewritten_lines h ls)) = map fst (parsePeersFromConf ls)" unfolding r by simp
  moreover have "(k, effective_ips (hc_updates h) (k, ips)) \<in> set (parsePeersFromConf (rewritten_lines h ls))
      \<and> (\<forall>c. c \<in> set (effective_ips (hc_updates h) (k, ips)) \<longleftrightarrow> wanted_net (map_of links (hc_iface h @ '':'' @ k)) ips c)"
    if p: "(k, ips) \<in> set (parsePeersFromConf ls)" for k ips
  proof -
    have "\<forall>m. map_of links (hc_iface h @ '':'' @ k) = Some m \<longrightarrow> plain_link m"
      using assms(2) by (auto dest: map_of_SomeD)
    note w = effective_wanted [OF parse_ok(1) p this parse_ok(2) [OF p]]
    show ?thesis unfolding r assms(1) using p w by force
  qed
  ultimately show ?thesis by blast
qed

definition ex_hub_links :: "(string \<times> props) list" where
  "ex_hub_links = [(''wg0:A='', [(''type'', JStr ''site''), (''importedNetworks'', JArr [JStr ''192.168.7.0/24'', JStr ''0.0.0.0/0''])])]"

theorem hub_networks_follow_metadata_witness:
  "\<exists>new. (''A='', new) \<in> set (parsePeersFromConf (rewritten_lines ex_hub_change ex_hub_lines))
    \<and> (\<forall>c. c \<in> set new \<longleftrightarrow> wanted_net (map_of ex_hub_links ''wg0:A='') [''10.8.0.2/32''] c)"
proof -
  have "hc_updates ex_hub_change = buildPeerUpdates (parsePeersFromConf ex_hub_lines) ex_hub_links (hc_iface ex_hub_change)"
    "\<forall>(k, m) \<in> set ex_hub_links. plain_link m" "regular_peers False False False ex_hub_lines"
    "(''A='', [''10.8.0.2/32'']) \<in> set (parsePeersFromConf ex_hub_lines)" "hc_iface ex_hub_change @ '':'' @ ''A='' = ''wg0:A=''"
    by code_simp+
  then show ?thesis
    using hub_networks_follow_metadata [of ex_hub_change ex_hub_lines ex_hub_links] ex_hub_ok(1,3,4) by fastforce
qed

subsection \<open>Removing a peer\<close>

lemma silent_lines: "\<forall>l \<in> set ls. is_comment l \<or> trim l = [] \<Longrightarrow> fold scan_line ls s = s"
proof (induction ls arbitrary: s)
  case (Cons l ls)
  have "\<not> is_header l" "trim l \<noteq> ''[Peer]''"
    using Cons.prems by (cases "trim l"; auto simp: is_comment_def is_header_def starts_with_def)+
  then have "scan_line l s = s" using Cons.prems by (auto simp: scan_line_def is_header_def is_comment_def Let_def)
  with Cons show ?case by simp
qed simp

lemma drop_back_split: "\<exists>w. xs = drop_back P xs @ w \<and> (\<forall>x \<in> set w. P x)"
proof -
  have "xs = rev (dropWhile P (rev xs)) @ rev (takeWhile P (rev xs))" by (metis rev_append rev_rev_ident takeWhile_dropWhile_id)
  then show ?thesis unfolding drop_back_def by (metis set_rev set_takeWhileD)
qed

lemma drop_back_scan:
  assumes "\<And>l. P l \<Longrightarrow> is_comment l \<or> trim l = []"
  shows "fold scan_line (drop_back P ls) s = fold scan_line ls s"
proof -
  obtain w where w: "ls = drop_back P ls @ w" "\<forall>l \<in> set w. P l" using drop_back_split [of ls P] by blast
  then have "\<forall>l \<in> set w. is_comment l \<or> trim l = []" using assms by blast
  from silent_lines [OF this] show ?thesis using w(1) by (metis comp_apply fold_append)
qed

text \<open>The peers so far, the one being read included.\<close>

definition pending :: "peer_scan \<Rightarrow> (string \<times> string list) list" where
  "pending s = ps_peers (flush_peer s)"

definition others :: "string \<Rightarrow> (string \<times> string list) list \<Rightarrow> (string \<times> string list) list" where
  "others target ps = filter (\<lambda>p. fst p \<noteq> target) ps"

lemma others_update: "others target (AList.update k v ps) = (if k = target then others target ps else AList.update k v (others target ps))"
  by (induction ps) (auto simp: others_def)

lemma body_peers:
  fixes s :: peer_scan
  assumes "\<not> is_header l"
  shows "scan_line l (s\<lparr>ps_peers := x\<rparr>) = (scan_line l s)\<lparr>ps_peers := x\<rparr>"
    "ps_inPeer (scan_line l s) = ps_inPeer s \<and> ps_peers (scan_line l s) = ps_peers s"
proof -
  have "trim l \<noteq> ''[Peer]''" "\<not> starts_with ''['' (trim l)" using assms peer_is_header [of l] by (auto simp: is_header_def)
  then show "scan_line l (s\<lparr>ps_peers := x\<rparr>) = (scan_line l s)\<lparr>ps_peers := x\<rparr>"
    "ps_inPeer (scan_line l s) = ps_inPeer s \<and> ps_peers (scan_line l s) = ps_peers s"
    unfolding scan_line_def Let_def by (simp_all split del: if_split) (simp_all split: if_split)
qed

lemma bodies_peers:
  fixes s :: peer_scan
  shows "list_all (\<lambda>l. \<not> is_header l) ls \<Longrightarrow> fold scan_line ls (s\<lparr>ps_peers := x\<rparr>) = (fold scan_line ls s)\<lparr>ps_peers := x\<rparr>
     \<and> ps_inPeer (fold scan_line ls s) = ps_inPeer s \<and> ps_peers (fold scan_line ls s) = ps_peers s"
  by (induction ls arbitrary: s) (simp_all add: body_peers)

definition fresh_peer :: "peer_scan \<Rightarrow> peer_scan" where
  "fresh_peer s = (flush_peer s)\<lparr>ps_inPeer := True, ps_key := None, ps_ips := []\<rparr>"

lemma fresh_peers: "fresh_peer s = \<lparr>ps_inPeer = True, ps_key = None, ps_ips = [], ps_peers = pending s\<rparr>"
  by (simp add: fresh_peer_def pending_def)

text \<open>How the removal and the two scans go together.\<close>

definition removal_ok :: "string \<Rightarrow> bool \<Rightarrow> removal \<Rightarrow> peer_scan \<Rightarrow> bool" where
  "removal_ok target k r s \<longleftrightarrow>
     (if rm_inPeer r
      then \<exists>s0 b bs. rm_buffer r = b # bs \<and> trim b = ''[Peer]'' \<and> list_all (\<lambda>l. \<not> is_header l) bs
        \<and> pending (fold scan_line (rm_out r) scan_start) = others target (pending s0)
        \<and> s = fold scan_line bs (fresh_peer s0)
        \<and> (k \<longleftrightarrow> ps_key s \<noteq> None) \<and> ps_key s \<noteq> Some [] \<and> (rm_skip r \<longleftrightarrow> ps_key s = Some target)
      else \<not> ps_inPeer s \<and> \<not> ps_inPeer (fold scan_line (rm_out r) scan_start)
        \<and> pending (fold scan_line (rm_out r) scan_start) = others target (pending s))"

lemma flush_buffer_ok:
  assumes "removal_ok target k r s" "rm_inPeer r"
  shows "pending (fold scan_line (rm_out (flush_buffer r)) scan_start) = others target (pending s)"
proof -
  obtain s0 b bs where b: "rm_buffer r = b # bs" "trim b = ''[Peer]''" "list_all (\<lambda>l. \<not> is_header l) bs"
    "pending (fold scan_line (rm_out r) scan_start) = others target (pending s0)" "s = fold scan_line bs (fresh_peer s0)"
    "ps_key s \<noteq> Some []" "rm_skip r \<longleftrightarrow> ps_key s = Some target"
    using assms by (auto simp: removal_ok_def)
  have p: "ps_peers s = pending s0" "ps_inPeer s" using conjunct2 [OF bodies_peers [OF b(3), where s = "fresh_peer s0"]] unfolding b(5) by (simp_all add: fresh_peers)
  have pend: "pending s = (case ps_key s of None \<Rightarrow> pending s0 | Some k \<Rightarrow> AList.update k (ps_ips s) (pending s0))"
    unfolding pending_def flush_peer_def using p b(6) by (cases "ps_key s") (simp_all add: pending_def flush_peer_def)
  show ?thesis
  proof (cases "rm_skip r")
    case True
    have "fold scan_line (rm_out (flush_buffer r)) scan_start = fold scan_line (rm_out r) scan_start"
      using True by (simp add: flush_buffer_def drop_back_scan)
    then show ?thesis using b(4,7) True pend by (simp add: others_update)
  next
    case False
    let ?o = "fold scan_line (rm_out r) scan_start"
    have "fold scan_line (rm_out (flush_buffer r)) scan_start = fold scan_line bs (fresh_peer ?o)"
      using False b(1,2) scan_header [OF peer_is_header [OF b(2)]] by (simp add: flush_buffer_def fresh_peer_def)
    also have "\<dots> = s\<lparr>ps_peers := others target (pending s0)\<rparr>"
    proof -
      have "fresh_peer ?o = (fresh_peer s0)\<lparr>ps_peers := others target (pending s0)\<rparr>" by (simp add: fresh_peers b(4))
      then have "fold scan_line bs (fresh_peer ?o) = fold scan_line bs ((fresh_peer s0)\<lparr>ps_peers := others target (pending s0)\<rparr>)" by (simp only:)
      also have "\<dots> = (fold scan_line bs (fresh_peer s0))\<lparr>ps_peers := others target (pending s0)\<rparr>"
        by (rule conjunct1 [OF bodies_peers [OF b(3)]])
      finally show ?thesis unfolding b(5) .
    qed
    finally have f: "fold scan_line (rm_out (flush_buffer r)) scan_start = s\<lparr>ps_peers := others target (pending s0)\<rparr>" .
    show ?thesis unfolding pend f using False b(6,7) p(2)
      by (cases "ps_key s") (simp_all add: pending_def flush_peer_def others_update)
  qed
qed

lemma removal_header:
  assumes "is_header l" "removal_ok target k r s"
  shows "removal_ok target False (removal_line target l r) (scan_line l s) \<and> rm_inPeer (removal_line target l r) = (trim l = ''[Peer]'')"
proof -
  let ?r = "if rm_inPeer r then flush_buffer r else r"
  have f: "pending (fold scan_line (rm_out ?r) scan_start) = others target (pending s)"
    using flush_buffer_ok [OF assms(2)] assms(2) by (auto simp: removal_ok_def)
  show ?thesis
  proof (cases "trim l = ''[Peer]''")
    case True
    have r: "removal_line target l r = ?r\<lparr>rm_inPeer := True, rm_skip := False, rm_buffer := [l]\<rparr>"
      by (simp add: removal_line_def True)
    have s: "scan_line l s = fresh_peer s" by (simp add: scan_header [OF assms(1)] True fresh_peer_def)
    show ?thesis unfolding r s removal_ok_def using f True by (auto simp: fresh_peers intro!: exI [of _ s])
  next
    case False
    have r: "removal_line target l r = ?r\<lparr>rm_inPeer := False, rm_skip := False, rm_out := rm_out ?r @ [l]\<rparr>"
      using assms(1) False by (simp add: removal_line_def is_header_def Let_def)
    have h: "scan_line l x = \<lparr>ps_inPeer = False, ps_key = None, ps_ips = ps_ips (flush_peer x), ps_peers = pending x\<rparr>" for x
      by (simp add: scan_header [OF assms(1)] False pending_def)
    show ?thesis unfolding r removal_ok_def using f False by (simp add: h) (simp add: pending_def flush_peer_def)
  qed
qed

lemma removal_outside:
  assumes "\<not> is_header l" "removal_ok target k r s" "\<not> rm_inPeer r"
  shows "removal_ok target k (removal_line target l r) (scan_line l s) \<and> \<not> rm_inPeer (removal_line target l r)"
proof -
  have "trim l \<noteq> ''[Peer]''" "\<not> starts_with ''['' (trim l)" using assms(1) peer_is_header [of l] by (auto simp: is_header_def)
  then have r: "removal_line target l r = r\<lparr>rm_out := rm_out r @ [l]\<rparr>" using assms(3) by (simp add: removal_line_def Let_def)
  have "scan_line l s = s" "scan_line l (fold scan_line (rm_out r) scan_start) = fold scan_line (rm_out r) scan_start"
    using assms(2,3) scan_outside [OF assms(1)] by (simp_all add: removal_ok_def)
  then show ?thesis unfolding r using assms(2,3) by (simp add: removal_ok_def)
qed

lemma removal_inside:
  assumes "\<not> is_header l" "removal_ok target k r s" "rm_inPeer r" "regular_peers True k a (l # ls)"
  shows "\<exists>k' a'. removal_ok target k' (removal_line target l r) (scan_line l s) \<and> regular_peers True k' a' ls
    \<and> rm_inPeer (removal_line target l r)"
proof -
  have np: "trim l \<noteq> ''[Peer]''" "\<not> starts_with ''['' (trim l)" using assms(1) peer_is_header [of l] by (auto simp: is_header_def)
  have r: "removal_line target l r = r\<lparr>rm_buffer := rm_buffer r @ [l],
      rm_skip := rm_skip r \<or> (starts_with ''PublicKey'' (trim l) \<and> valOf (trim l) = target)\<rparr>"
    using np assms(3) by (simp add: removal_line_def Let_def)
  obtain s0 b bs where b: "rm_buffer r = b # bs" "trim b = ''[Peer]''" "list_all (\<lambda>l. \<not> is_header l) bs"
    "pending (fold scan_line (rm_out r) scan_start) = others target (pending s0)" "s = fold scan_line bs (fresh_peer s0)"
    "k \<longleftrightarrow> ps_key s \<noteq> None" "ps_key s \<noteq> Some []" "rm_skip r \<longleftrightarrow> ps_key s = Some target"
    using assms(2,3) by (auto simp: removal_ok_def)
  have p: "ps_inPeer s" using conjunct2 [OF bodies_peers [OF b(3), where s = "fresh_peer s0"]] unfolding b(5) by (simp add: fresh_peers)
  have ok: "removal_ok target k' (removal_line target l r) (scan_line l s)"
    if "k' \<longleftrightarrow> ps_key (scan_line l s) \<noteq> None" "ps_key (scan_line l s) \<noteq> Some []"
      "rm_skip r \<or> (starts_with ''PublicKey'' (trim l) \<and> valOf (trim l) = target) \<longleftrightarrow> ps_key (scan_line l s) = Some target" for k'
  proof -
    have "scan_line l s = fold scan_line (bs @ [l]) (fresh_peer s0)" by (simp add: b(5))
    moreover have "rm_buffer r @ [l] = b # (bs @ [l])" "list_all (\<lambda>l. \<not> is_header l) (bs @ [l])" using b(1,3) assms(1) by simp_all
    ultimately show ?thesis unfolding r removal_ok_def using b(2,4) assms(3) that by auto
  qed
  have in': "rm_inPeer (removal_line target l r)" unfolding r using assms(3) by simp
  consider (key) "starts_with ''PublicKey'' (trim l)" | (nets) "starts_with ''AllowedIPs'' (trim l)" "\<not> starts_with ''PublicKey'' (trim l)"
    | (other) "\<not> starts_with ''PublicKey'' (trim l)" "\<not> starts_with ''AllowedIPs'' (trim l)" by blast
  then show ?thesis
  proof cases
    case key
    then have q: "\<not> k" "key_text (trim l) = ''PublicKey''" "CHR ''='' \<in> set (trim l)" "valOf (trim l) \<noteq> []" "regular_peers True True a ls"
      using assms(1,4) by auto
    have "ps_key (scan_line l s) = Some (valOf (trim l))" using scan_key [OF assms(1) p key q(2,3)] by simp
    then have "removal_ok target True (removal_line target l r) (scan_line l s)"
      using b(6,8) q(1,4) key by (intro ok) auto
    then show ?thesis using q(5) in' by blast
  next
    case nets
    then have q: "key_text (trim l) = ''AllowedIPs''" "CHR ''='' \<in> set (trim l)" "regular_peers True k True ls" using assms(1,4) by auto
    have "ps_key (scan_line l s) = ps_key s" using scan_ips [OF assms(1) p nets(1) q(1,2)] by simp
    then have "removal_ok target k (removal_line target l r) (scan_line l s)" using b(6-8) nets by (intro ok) auto
    then show ?thesis using q(3) in' by blast
  next
    case other
    have "regular_peers True k a ls" using assms(1,4) other by simp
    moreover have "removal_ok target k (removal_line target l r) (scan_line l s)"
      using b(6-8) other scan_other [OF assms(1) p other] by (intro ok) auto
    ultimately show ?thesis using in' by blast
  qed
qed

lemma removal_pass:
  "removal_ok target k r s \<Longrightarrow> regular_peers (rm_inPeer r) k a ls \<Longrightarrow> \<exists>k'. removal_ok target k' (fold (removal_line target) ls r) (fold scan_line ls s)"
proof (induction ls arbitrary: k a r s)
  case (Cons l ls)
  have "\<exists>k' a'. removal_ok target k' (removal_line target l r) (scan_line l s) \<and> regular_peers (rm_inPeer (removal_line target l r)) k' a' ls"
  proof -
    consider "is_header l" | "\<not> is_header l" "rm_inPeer r" | "\<not> is_header l" "\<not> rm_inPeer r" by blast
    then show ?thesis
    proof cases
      case 1
      with Cons.prems(2) removal_header [OF 1 Cons.prems(1)] show ?thesis by auto
    next
      case 2
      have "regular_peers True k a (l # ls)" using Cons.prems(2) 2(2) by simp
      from removal_inside [OF 2(1) Cons.prems(1) 2(2) this] show ?thesis by force
    next
      case 3
      with Cons.prems(2) removal_outside [OF 3(1) Cons.prems(1) 3(2)] show ?thesis by auto
    qed
  qed
  then obtain k' a' where "removal_ok target k' (removal_line target l r) (scan_line l s)"
    "regular_peers (rm_inPeer (removal_line target l r)) k' a' ls" by blast
  from Cons.IH [OF this] show ?case by simp
qed auto

lemma removal_lines: "set (rm_out (removal_line target l r)) \<union> set (rm_buffer (removal_line target l r)) \<subseteq> insert l (set (rm_out r) \<union> set (rm_buffer r))"
proof -
  have d: "set (drop_back P xs) \<subseteq> set xs" for P :: "string \<Rightarrow> bool" and xs
    using set_dropWhileD [of _ P "rev xs"] by (auto simp: drop_back_def)
  have "set (rm_out (flush_buffer r)) \<subseteq> set (rm_out r) \<union> set (rm_buffer r)" "rm_buffer (flush_buffer r) = []"
    using d [of "\<lambda>l. trim l = []" "drop_back is_comment (rm_out r)"] d [of is_comment "rm_out r"] by (auto simp: flush_buffer_def)
  then show ?thesis by (auto simp: removal_line_def Let_def)
qed

lemma join_last_empty: "xs \<noteq> [] \<Longrightarrow> join d xs @ d = join d (xs @ [[]])"
  by (induction xs rule: induct_list012) simp_all

abbreviation removal_start :: removal where
  "removal_start \<equiv> \<lparr>rm_out = [], rm_inPeer = False, rm_skip = False, rm_buffer = []\<rparr>"

text \<open>C15: Removing a peer from the configuration takes exactly that peer out of it: reading the new text
  gives the other peers, in the order they had and with the networks they had, and of the removed
  key no entry is left, however often it was listed. (The file lists one key in every peer, in
  front of its networks, and has no carriage returns.)\<close>

theorem removePeerFromConf_exact:
  assumes "CR \<notin> set conf" "regular_peers False False False (split_lines conf)"
  shows "parsePeersFromConf (split_lines (removePeerFromConf conf target))
    = filter (\<lambda>p. fst p \<noteq> target) (parsePeersFromConf (split_lines conf))"
proof -
  let ?ls = "split_lines conf"
  define r where r: "r = fold (removal_line target) ?ls removal_start"
  let ?r = "if rm_inPeer r then flush_buffer r else r"
  let ?out = "drop_back (\<lambda>l. trim l = []) (rm_out ?r)"
  have "removal_ok target False removal_start scan_start"
    by (simp add: removal_ok_def pending_def flush_peer_def others_def)
  then obtain k where ok: "removal_ok target k r (fold scan_line ?ls scan_start)"
    using removal_pass [of target False removal_start scan_start False ?ls] assms(2) r by auto
  then have "pending (fold scan_line (rm_out ?r) scan_start) = others target (parsePeersFromConf ?ls)"
    using flush_buffer_ok [OF ok] unfolding parsePeersFromConf_def pending_def [symmetric] by (auto simp: removal_ok_def)
  then have parsed: "parsePeersFromConf ?out = others target (parsePeersFromConf ?ls)"
    by (simp add: parsePeersFromConf_def pending_def drop_back_scan)
  have tx: "removePeerFromConf conf target = join [LF] ?out @ [LF]"
    unfolding removePeerFromConf_def Let_def r ..
  have one: "list_all one_line ?out"
  proof -
    have "set (rm_out (fold (removal_line target) ls q)) \<union> set (rm_buffer (fold (removal_line target) ls q)) \<subseteq> set ls \<union> set (rm_out q) \<union> set (rm_buffer q)" for ls q
      using removal_lines by (induction ls arbitrary: q) fastforce+
    from this [of ?ls removal_start] have "set (rm_out r) \<union> set (rm_buffer r) \<subseteq> set ?ls" unfolding r by simp
    moreover have "set ?out \<subseteq> set (rm_out ?r)" using set_dropWhileD [of _ _ "rev (rm_out ?r)"] by (auto simp: drop_back_def)
    moreover have "set (rm_out (flush_buffer r)) \<subseteq> set (rm_out r) \<union> set (rm_buffer r)"
      by (auto simp: flush_buffer_def drop_back_def dest!: set_dropWhileD)
    ultimately have "set ?out \<subseteq> set ?ls" by (auto split: if_splits)
    then show ?thesis using split_lines_one [OF assms(1)] by (auto simp: list_all_iff)
  qed
  have empty: "fold scan_line [[]] s = s" for s by (rule silent_lines) (simp add: trim_def)
  have "parsePeersFromConf (split_lines (join [LF] ?out @ [LF])) = parsePeersFromConf ?out"
  proof (cases "?out = []")
    case True
    have "split_lines [LF] = [[], []]" by code_simp
    then show ?thesis unfolding True using empty by (simp add: parsePeersFromConf_def)
  next
    case False
    have "join [LF] ?out @ [LF] = join [LF] (?out @ [[]])" using False by (rule join_last_empty)
    moreover have "split_lines (join [LF] (?out @ [[]])) = ?out @ [[]]"
      using one by (intro split_lines_join) (auto simp: list_all_iff one_line_def)
    ultimately have "split_lines (join [LF] ?out @ [LF]) = ?out @ [[]]" by simp
    then show ?thesis using empty by (simp add: parsePeersFromConf_def)
  qed
  then show ?thesis by (simp only: tx parsed others_def)
qed

definition ex_two_peers :: string where
  "ex_two_peers = join [LF] [''[Interface]'', ''Address = 10.8.0.1/24'', ''# office'', ''[Peer]'', ''PublicKey = A='', ''AllowedIPs = 10.8.0.2/32'',
     ''# home'', ''[Peer]'', ''PublicKey = B='', ''AllowedIPs = 10.8.0.3/32'']"

theorem removePeerFromConf_exact_witness:
  "parsePeersFromConf (split_lines (removePeerFromConf ex_two_peers ''A='')) = [(''B='', [''10.8.0.3/32''])]"
proof -
  have "CR \<notin> set ex_two_peers" "regular_peers False False False (split_lines ex_two_peers)"
    "filter (\<lambda>p. fst p \<noteq> ''A='') (parsePeersFromConf (split_lines ex_two_peers)) = [(''B='', [''10.8.0.3/32''])]"
    by code_simp+
  with removePeerFromConf_exact [of ex_two_peers "''A=''"] show ?thesis by simp
qed

text \<open>The comment of the next peer is part of what is removed: it stands behind the lines of the
  peer, before the next header.\<close>

lemma removal_drops_next_comment:
  "''# home'' \<in> set (split_lines ex_two_peers)"
  "''# home'' \<notin> set (split_lines (removePeerFromConf ex_two_peers ''A=''))"
  by code_simp+

text \<open>The networks of a peer that lists them before its key are not rewritten.\<close>

lemma networks_before_key_stay:
  "rewritten_lines \<lparr>hc_iface = ''wg0'', hc_updates = [(''A='', [''10.8.0.9/32''])], hc_routes = [], hc_masq = []\<rparr>
     [''[Interface]'', ''[Peer]'', ''AllowedIPs = 10.8.0.2/32'', ''PublicKey = A='']
   = [''[Interface]'', ''[Peer]'', ''AllowedIPs = 10.8.0.2/32'', ''PublicKey = A='']"
  by code_simp

end
