(* ===== verification/Wg_Hub_Sync.thy ===== *)
theory Wg_Hub_Sync
  imports Wg_Hub_Peers
begin

text \<open>
  The synchronisation of the hub in backend/internal/wireguard.js: what \<open>_syncHubConfCore\<close>
  writes to the file of an interface and which commands it runs for the NAT rules
  (\<open>_reconcileMasqLive\<close>), the peers and the routes. The output and the success of the commands
  are arguments.
\<close>

subsection \<open>Synchronising the hub\<close>

text \<open>\<open>/(\d{1,3}(\.\d{1,3}){3}\/\d{1,2})/\<close>: the match at the start of a text, and the first one.\<close>

definition octet_at :: "string \<Rightarrow> (string \<times> string) option" where
  "octet_at s = (let d = takeWhile is_digit s in if d = [] \<or> 3 < length d then None else Some (d, drop (length d) s))"

fun v4_cidr_at :: "nat \<Rightarrow> string \<Rightarrow> string option" where
  "v4_cidr_at n s =
     (case octet_at s of None \<Rightarrow> None
      | Some (d, r) \<Rightarrow>
         (case n of
            0 \<Rightarrow> (let p = take 2 (takeWhile is_digit (tl r))
                  in if starts_with ''/'' r \<and> p \<noteq> [] then Some (d @ ''/'' @ p) else None)
          | Suc k \<Rightarrow> if starts_with ''.'' r then map_option (\<lambda>m. d @ ''.'' @ m) (v4_cidr_at k (tl r)) else None))"

fun find_v4_cidr :: "string \<Rightarrow> string option" where
  "find_v4_cidr [] = None"
| "find_v4_cidr (c # cs) = (case v4_cidr_at 3 (c # cs) of Some m \<Rightarrow> Some m | None \<Rightarrow> find_v4_cidr cs)"

text \<open>\<open>/^\s*Address\s*=/i\<close>.\<close>

definition is_address_line :: "string \<Rightarrow> bool" where
  "is_address_line l =
     (let r = dropWhile js_ws l
      in to_lower (take 7 r) = ''address'' \<and> starts_with ''='' (dropWhile js_ws (drop 7 r)))"

definition tunnelSubnetFromConfLines :: "string list \<Rightarrow> string" where
  "tunnelSubnetFromConfLines ls =
     (case find is_address_line ls of None \<Rightarrow> ''10.10.0.0/24''
      | Some l \<Rightarrow> (case find_v4_cidr l of None \<Rightarrow> ''10.10.0.0/24''
          | Some m \<Rightarrow> or_else (canonicalizeIpv4Network m) ''10.10.0.0/24''))"

definition has_drifted :: "dump_iface option \<Rightarrow> string \<times> string list \<Rightarrow> bool" where
  "has_drifted live p =
     (case live of None \<Rightarrow> False
      | Some d \<Rightarrow> (case find (\<lambda>q. dp_publicKey q = Some (fst p)) (di_peers d) of
            None \<Rightarrow> False | Some q \<Rightarrow> \<not> same_ips (dp_allowedIps q) (snd p)))"

definition with_drift ::
  "(string \<times> string list) list \<Rightarrow> dump_iface option \<Rightarrow> (string \<times> string list) list \<Rightarrow> (string \<times> string list) list" where
  "with_drift peerMap live updates =
     updates @ filter (\<lambda>p. fst p \<notin> fst ` set updates \<and> has_drifted live p) peerMap"

definition route_nets :: "(string \<times> string list) list \<Rightarrow> (string \<times> string list) list \<Rightarrow> string list" where
  "route_nets peerMap updates =
     uniq (filter (\<lambda>c. \<not> isHostRoute c \<and> isValidNetwork (JStr c)) (concat (map (effective_ips updates) peerMap)))"

definition push_masq :: "nic \<Rightarrow> string \<Rightarrow> string list \<times> nic list \<Rightarrow> string list \<times> nic list" where
  "push_masq n cidr st =
     (let (seen, out) = st; k = nic_name n @ '':'' @ cidr
      in if k \<in> set seen then st else (k # seen, out @ [n\<lparr>nic_cidr := cidr\<rparr>]))"

definition masq_ifaces :: "string \<Rightarrow> string list \<Rightarrow> nic list \<Rightarrow> nic list" where
  "masq_ifaces tunnelSubnet routeNets nics =
     snd (fold (\<lambda>n st. fold (push_masq n)
            (nic_cidr n # tunnelSubnet # filter (\<lambda>net. CHR '':'' \<notin> set net) (sort routeNets)) st) nics ([], []))"

datatype hub_action =
    PeerSet string "string list"
  | RouteRemoved string
  | MasqAdded string
  | MasqRemoved string

text \<open>The commands that are run, in their order, and the changes that are reported; \<open>ok\<close> tells
  which commands succeed.\<close>

type_synonym hub_run = "string list list \<times> hub_action list"

definition then_run :: "hub_run \<Rightarrow> hub_run \<Rightarrow> hub_run" where
  "then_run a b = (fst a @ fst b, snd a @ snd b)"

definition run_cmd :: "(string list \<Rightarrow> bool) \<Rightarrow> string list \<Rightarrow> hub_action list \<Rightarrow> hub_run" where
  "run_cmd ok cmd acts = ([cmd], if ok cmd then acts else [])"

definition ipt_args :: "string \<Rightarrow> string \<Rightarrow> string \<Rightarrow> string \<Rightarrow> string list" where
  "ipt_args bin verb n cidr = [bin, ''-t'', ''nat'', verb, ''POSTROUTING'', ''-o'', n, ''-s'', cidr, ''-j'', ''MASQUERADE'']"

definition wanted_masq :: "string \<Rightarrow> nic list \<Rightarrow> (string \<times> string \<times> string) list" where
  "wanted_masq ifaceName masq =
     fold (\<lambda>n. AList.update (masqKey (nic_name n) (nic_cidr n)) (nic_name n, nic_cidr n))
       (filter (\<lambda>n. nic_name n \<noteq> ifaceName \<and> isValidNetwork (JStr (nic_cidr n))) masq) []"

definition add_masq :: "(string list \<Rightarrow> bool) \<Rightarrow> string \<Rightarrow> string list \<Rightarrow> string \<times> string \<times> string \<Rightarrow> hub_run" where
  "add_masq ok bin previous w =
     (let (key, n, c) = w; check = ipt_args bin ''-C'' n c; add = run_cmd ok (ipt_args bin ''-A'' n c) [MasqAdded key]
      in if key \<in> set previous then then_run ([check], []) (if ok check then ([], []) else add) else add)"

text \<open>\<open>/^(\S+)=(\S+)$/\<close>: the first group is greedy, so it ends at the last equals sign that leaves
  something behind it.\<close>

definition split_masq_key :: "string \<Rightarrow> (string \<times> string) option" where
  "split_masq_key k =
     (if \<not> is_masq_key k then None
      else (let b = rev (dropWhile (\<lambda>c. c \<noteq> CHR ''='') (rev (butlast k))) in Some (butlast b, drop (length b) k)))"

definition drop_masq :: "(string list \<Rightarrow> bool) \<Rightarrow> string \<Rightarrow> string \<Rightarrow> string \<Rightarrow> hub_run" where
  "drop_masq ok bin ifaceName key =
     (case split_masq_key key of None \<Rightarrow> ([], [])
      | Some (n, c) \<Rightarrow> if n = ifaceName \<or> \<not> isValidNetwork (JStr c) then ([], [])
                     else run_cmd ok (ipt_args bin ''-D'' n c) [MasqRemoved key])"

definition run_all_of :: "hub_run list \<Rightarrow> hub_run" where
  "run_all_of rs = foldr then_run rs ([], [])"

definition reconcileMasqLive ::
  "(string list \<Rightarrow> bool) \<Rightarrow> string option \<Rightarrow> string \<Rightarrow> nic list \<Rightarrow> string list \<Rightarrow> hub_run" where
  "reconcileMasqLive ok bin ifaceName masq previousOwned =
     (case bin of None \<Rightarrow> ([], [])
      | Some b \<Rightarrow> (let want = wanted_masq ifaceName masq
          in then_run (run_all_of (map (add_masq ok b previousOwned) want))
               (run_all_of (map (drop_masq ok b ifaceName) (filter (\<lambda>k. k \<notin> fst ` set want) previousOwned)))))"

definition masqIptablesBin :: "string option \<Rightarrow> string \<Rightarrow> string option" where
  "masqIptablesBin iptablesBin confDir =
     (case iptablesBin of
        Some b \<Rightarrow> if b \<noteq> [] then Some b else if confDir = ''/etc/wireguard'' then Some ''iptables'' else None
      | None \<Rightarrow> if confDir = ''/etc/wireguard'' then Some ''iptables'' else None)"

text \<open>What the synchronisation reads from the machine; unavailable output is \<open>None\<close>.\<close>

record hub_env =
  he_iptables :: "string option"
  he_wg :: string
  he_ip :: string
  he_nics :: "nic list"
  he_dump :: "(string \<times> dump_iface) list"
  he_routes :: "string option"

definition first_word :: "string \<Rightarrow> string" where
  "first_word l = takeWhile (\<lambda>c. \<not> js_ws c) l"

definition route_lines :: "string \<Rightarrow> string list" where
  "route_lines stdout = filter (\<lambda>l. l \<noteq> []) (map trim (split_on LF stdout))"

text \<open>A live route that no peer needs any more.\<close>

definition stale_route :: "string \<Rightarrow> string list \<Rightarrow> string \<Rightarrow> bool" where
  "stale_route tunnelSubnet routeNets l =
     (let p = first_word l
      in CHR ''/'' \<in> set p \<and> \<not> isHostRoute p \<and> \<not> str_includes ''proto kernel'' l \<and> p \<noteq> tunnelSubnet \<and> p \<notin> set routeNets)"

definition sync_routes :: "(string list \<Rightarrow> bool) \<Rightarrow> hub_env \<Rightarrow> string \<Rightarrow> string \<Rightarrow> string list \<Rightarrow> hub_run" where
  "sync_routes ok env ifaceName tunnelSubnet routeNets =
     (case he_routes env of None \<Rightarrow> ([], [])
      | Some stdout \<Rightarrow>
         (let ls = route_lines stdout; existing = map first_word ls
          in then_run
               (run_all_of (map (\<lambda>net. run_cmd ok [he_ip env, ''route'', ''add'', net, ''dev'', ifaceName] [])
                  (filter (\<lambda>net. net \<notin> set existing) routeNets)))
               (run_all_of (map (\<lambda>l. run_cmd ok [he_ip env, ''route'', ''del'', first_word l, ''dev'', ifaceName]
                     [RouteRemoved (first_word l)])
                  (filter (stale_route tunnelSubnet routeNets) ls)))))"

record hub_sync =
  hs_conf :: string
  hs_written :: bool
  hs_run :: hub_run

definition sync_change :: "hub_env \<Rightarrow> string list \<Rightarrow> (string \<times> props) list \<Rightarrow> string \<Rightarrow> hub_change" where
  "sync_change env ls links ifaceName =
     (let peerMap = parsePeersFromConf ls;
          updates = with_drift peerMap (map_of (he_dump env) ifaceName) (buildPeerUpdates peerMap links ifaceName);
          routeNets = excludeConnectedNets (route_nets peerMap updates) (he_nics env)
      in \<lparr>hc_iface = ifaceName, hc_updates = updates, hc_routes = routeNets,
          hc_masq = masq_ifaces (tunnelSubnetFromConfLines ls) routeNets (he_nics env)\<rparr>)"

text \<open>\<open>None\<close> when there is no file.\<close>

definition syncHubConfCore ::
  "(string list \<Rightarrow> bool) \<Rightarrow> hub_env \<Rightarrow> string option \<Rightarrow> (string \<times> props) list \<Rightarrow> string \<Rightarrow> hub_sync option" where
  "syncHubConfCore ok env confText links ifaceName =
     (case confText of None \<Rightarrow> None
      | Some conf \<Rightarrow>
         (let ls = split_lines conf; h = sync_change env ls links ifaceName;
              newText = rewriteHubConf ls h; changed = (newText \<noteq> join [LF] ls)
          in Some \<lparr>hs_conf = (if changed then newText else conf), hs_written = changed,
               hs_run = then_run (reconcileMasqLive ok (he_iptables env) ifaceName (hc_masq h) (previousOwnedMasq ls))
                 (then_run
                   (run_all_of (map (\<lambda>(k, ips). run_cmd ok [he_wg env, ''set'', ifaceName, ''peer'', k, ''allowed-ips'', join '','' ips]
                       [PeerSet (take 8 k) ips]) (hc_updates h)))
                   (sync_routes ok env ifaceName (tunnelSubnetFromConfLines ls) (hc_routes h)))\<rparr>))"

subsection \<open>Texts of networks\<close>

definition net_char :: "char \<Rightarrow> bool" where
  "net_char c \<longleftrightarrow> is_hex c \<or> c = CHR ''.'' \<or> c = CHR ''/'' \<or> c = CHR '':''"

lemma net_char_plain: "net_char c \<Longrightarrow> \<not> js_ws c \<and> c \<noteq> CHR '','' \<and> c \<noteq> CHR '';'' \<and> c \<noteq> CHR ''=''"
  by (auto simp: net_char_def is_hex_def is_digit_def js_ws_def)

lemma digit_net_char: "is_digit c \<Longrightarrow> net_char c"
  by (simp add: net_char_def is_hex_def)

lemma split_two: "split_on d s = [a, b] \<Longrightarrow> c \<in> set s \<Longrightarrow> c = d \<or> c \<in> set a \<or> c \<in> set b"
  using split_on_chars [of c s d] by auto

lemma v4_net_chars: "IPV4_NET_RE s \<Longrightarrow> c \<in> set s \<Longrightarrow> net_char c"
proof -
  assume s: "IPV4_NET_RE s" and c: "c \<in> set s"
  then consider a where "split_on CHR ''/'' s = [a]" "ipv4_groups a \<noteq> None"
    | a p where "split_on CHR ''/'' s = [a, p]" "ipv4_groups a \<noteq> None" "decimal_upto 32 p"
    by (auto simp: IPV4_NET_RE_def split: list.split_asm)
  then show ?thesis
  proof cases
    case 1
    then have "s = a" using split_on_eq_iff by auto
    then show ?thesis using groups_chars [OF 1(2)] c digit_net_char by (auto simp: net_char_def)
  next
    case 2
    from split_two [OF 2(1) c] groups_chars [OF 2(2), of c] 2(3) show ?thesis
      by (auto simp: net_char_def is_hex_def decimal_upto_def all_digits_def list_all_iff)
  qed
qed

lemma v6_net_chars: "IPV6_NET_RE s \<Longrightarrow> c \<in> set s \<Longrightarrow> net_char c"
proof -
  assume s: "IPV6_NET_RE s" and c: "c \<in> set s"
  then consider a where "split_on CHR ''/'' s = [a]" "hex_colons a"
    | a p where "split_on CHR ''/'' s = [a, p]" "hex_colons a" "decimal_upto 128 p"
    by (auto simp: IPV6_NET_RE_def split: list.split_asm)
  then show ?thesis
  proof cases
    case 1
    then have "s = a" using split_on_eq_iff by auto
    then show ?thesis using 1(2) c by (auto simp: net_char_def hex_colons_def list_all_iff)
  next
    case 2
    from split_two [OF 2(1) c] 2(2,3) show ?thesis
      by (auto simp: net_char_def is_hex_def decimal_upto_def all_digits_def hex_colons_def list_all_iff)
  qed
qed

lemma valid_net_clean:
  assumes "isValidNetwork (JStr s)" "trim s = s"
  shows "clean_word s" "CHR ''='' \<notin> set s"
proof -
  have s: "s \<noteq> []" "IPV4_NET_RE s \<or> IPV6_NET_RE s"
    using assms by (auto simp: isValidNetwork_def Let_def split: if_split_asm)
  then have "\<forall>c \<in> set s. net_char c" using v4_net_chars v6_net_chars by blast
  then show "clean_word s" "CHR ''='' \<notin> set s" using s(1) net_char_plain by (auto simp: clean_word_def list_all_iff)
qed

lemma cidr_text_clean: "clean_word (cidr_text n p)" "CHR ''='' \<notin> set (cidr_text n p)"
proof -
  have d: "is_digit c" if "c \<in> set (str_of_nat k)" for c k using that str_of_nat_digits [of k] by (simp add: list_all_iff)
  have "\<forall>c \<in> set (cidr_text n p). net_char c" using d digit_net_char
    by (auto simp: cidr_text_def intToIp_def net_char_def)
  then show "clean_word (cidr_text n p)" "CHR ''='' \<notin> set (cidr_text n p)"
    using net_char_plain by (auto simp: clean_word_def list_all_iff cidr_text_def)
qed

lemma tunnel_clean: "clean_word (tunnelSubnetFromConfLines ls)" "CHR ''='' \<notin> set (tunnelSubnetFromConfLines ls)"
proof -
  have d: "clean_word ''10.10.0.0/24''" "CHR ''='' \<notin> set ''10.10.0.0/24''" by code_simp+
  have "clean_word c \<and> CHR ''='' \<notin> set c" if "canonicalizeIpv4Network m = Some c" for m c
  proof -
    have "\<exists>n p. c = cidr_text n p"
      using that unfolding canonicalizeIpv4Network_def Let_def by (auto split: list.split_asm option.split_asm prod.split_asm if_split_asm)
    then obtain n p where "c = cidr_text n p" by blast
    then show ?thesis using cidr_text_clean by simp
  qed
  then have "clean_word (tunnelSubnetFromConfLines ls) \<and> CHR ''='' \<notin> set (tunnelSubnetFromConfLines ls)"
    using d unfolding tunnelSubnetFromConfLines_def or_else_def by (auto split: option.split)
  then show "clean_word (tunnelSubnetFromConfLines ls)" "CHR ''='' \<notin> set (tunnelSubnetFromConfLines ls)" by blast+
qed

subsection \<open>What is written is clean\<close>

text \<open>A pass that collects NAT entries: they come from the given pairs, and no pair comes twice.\<close>

definition masq_seen :: "string list \<times> nic list \<Rightarrow> bool" where
  "masq_seen st \<longleftrightarrow> distinct (map (\<lambda>n. nic_name n @ '':'' @ nic_cidr n) (snd st))
     \<and> set (fst st) = (\<lambda>n. nic_name n @ '':'' @ nic_cidr n) ` set (snd st)"

lemma push_masq_seen: "masq_seen st \<Longrightarrow> masq_seen (push_masq n c st)"
  by (auto simp: masq_seen_def push_masq_def Let_def split: prod.splits)

lemma push_masq_from: "x \<in> set (snd (push_masq n c st)) \<Longrightarrow> x \<in> set (snd st) \<or> x = n\<lparr>nic_cidr := c\<rparr>"
  by (auto simp: push_masq_def Let_def split: prod.splits if_splits)

lemma push_masq_has:
  "nic_name n @ '':'' @ c \<in> set (fst (push_masq n c st))" "set (fst st) \<subseteq> set (fst (push_masq n c st))"
  by (auto simp: push_masq_def Let_def split: prod.splits)

definition nic_nets :: "string \<Rightarrow> string list \<Rightarrow> nic \<Rightarrow> string list" where
  "nic_nets tunnel nets n = nic_cidr n # tunnel # filter (\<lambda>net. CHR '':'' \<notin> set net) (sort nets)"

lemma masq_inner:
  "masq_seen st \<Longrightarrow> masq_seen (fold (push_masq n) cs st)"
  "x \<in> set (snd (fold (push_masq n) cs st)) \<Longrightarrow> x \<in> set (snd st) \<or> (\<exists>c \<in> set cs. x = n\<lparr>nic_cidr := c\<rparr>)"
  "set (fst st) \<subseteq> set (fst (fold (push_masq n) cs st))"
  "c \<in> set cs \<Longrightarrow> nic_name n @ '':'' @ c \<in> set (fst (fold (push_masq n) cs st))"
proof (induction cs arbitrary: st)
  case (Cons d ds)
  { case 1 then show ?case using Cons.IH(1) push_masq_seen by simp }
  { case 2 then show ?case using Cons.IH(2) push_masq_from by fastforce }
  { case 3 then show ?case using Cons.IH(3) [of "push_masq n d st"] push_masq_has(2) [of st n d] by auto }
  { case 4 then show ?case
      using Cons.IH(4) [of "push_masq n d st"] Cons.IH(3) [of "push_masq n d st"] push_masq_has(1) [of n d st] by auto }
qed simp_all

definition push_nic :: "string \<Rightarrow> string list \<Rightarrow> nic \<Rightarrow> string list \<times> nic list \<Rightarrow> string list \<times> nic list" where
  "push_nic t nets n st = fold (push_masq n) (nic_nets t nets n) st"

lemma masq_outer:
  "masq_seen st \<Longrightarrow> masq_seen (fold (push_nic t nets) nics st)"
  "x \<in> set (snd (fold (push_nic t nets) nics st)) \<Longrightarrow> x \<in> set (snd st) \<or> (\<exists>n \<in> set nics. \<exists>c \<in> set (nic_nets t nets n). x = n\<lparr>nic_cidr := c\<rparr>)"
  "set (fst st) \<subseteq> set (fst (fold (push_nic t nets) nics st))"
  "n \<in> set nics \<Longrightarrow> c \<in> set (nic_nets t nets n) \<Longrightarrow> nic_name n @ '':'' @ c \<in> set (fst (fold (push_nic t nets) nics st))"
proof (induction nics arbitrary: st)
  case (Cons d ds)
  { case (1 st)
    let ?st = "push_nic t nets d st"
    have "masq_seen ?st" unfolding push_nic_def by (rule masq_inner(1) [OF 1])
    from Cons.IH(1) [OF this] show ?case by simp }
  { case (2 st)
    let ?st = "push_nic t nets d st"
    from 2 consider "x \<in> set (snd ?st)" | "\<exists>n \<in> set ds. \<exists>c \<in> set (nic_nets t nets n). x = n\<lparr>nic_cidr := c\<rparr>"
      using Cons.IH(2) [of ?st] by auto
    then show ?case
    proof cases
      case 1
      from masq_inner(2) [OF this [unfolded push_nic_def]] show ?thesis by auto
    qed auto }
  { case (3 st)
    let ?st = "push_nic t nets d st"
    have up: "set (fst ?st) \<subseteq> set (fst (fold (push_nic t nets) ds ?st))" by (rule Cons.IH(3))
    have "set (fst st) \<subseteq> set (fst ?st)" unfolding push_nic_def by (rule masq_inner(3))
    with up show ?case by auto }
  { case (4 st)
    let ?st = "push_nic t nets d st"
    have up: "set (fst ?st) \<subseteq> set (fst (fold (push_nic t nets) ds ?st))" by (rule Cons.IH(3))
    show ?case
    proof (cases "n = d")
      case True
      have "nic_name n @ '':'' @ c \<in> set (fst ?st)" unfolding True push_nic_def
        by (rule masq_inner(4)) (use 4 True in simp)
      with up show ?thesis by auto
    next
      case False
      with 4 have "n \<in> set ds" by simp
      from Cons.IH(4) [OF this 4(2), of ?st] show ?thesis by simp
    qed }
qed simp_all

lemma masq_ifaces_alt: "masq_ifaces t nets nics = snd (fold (push_nic t nets) nics ([], []))"
  by (simp add: masq_ifaces_def nic_nets_def push_nic_def [abs_def])

lemma masq_ifaces_from:
  "x \<in> set (masq_ifaces t nets nics) \<Longrightarrow> \<exists>n \<in> set nics. \<exists>c \<in> set (nic_nets t nets n). x = n\<lparr>nic_cidr := c\<rparr>"
  using masq_outer(2) [of x t nets nics "([], [])"] by (simp add: masq_ifaces_alt)

lemma masq_ifaces_has:
  assumes "n \<in> set nics" "c \<in> set (nic_nets t nets n)"
  shows "\<exists>x \<in> set (masq_ifaces t nets nics). nic_name x @ '':'' @ nic_cidr x = nic_name n @ '':'' @ c"
proof -
  have "masq_seen (fold (push_nic t nets) nics ([], []))"
    by (rule masq_outer(1)) (simp add: masq_seen_def)
  then show ?thesis using masq_outer(4) [OF assms, of "([], [])"] by (auto simp: masq_seen_def masq_ifaces_alt)
qed

lemma masq_ifaces_distinct: "distinct (map (\<lambda>n. nic_name n @ '':'' @ nic_cidr n) (masq_ifaces t nets nics))"
  using masq_outer(1) [of "([], [])" t nets nics] by (simp add: masq_seen_def masq_ifaces_alt)

text \<open>The last equals sign separates a network from the name in front of it.\<close>

lemma masqKey_inject:
  assumes "CHR ''='' \<notin> set c" "CHR ''='' \<notin> set c'"
  shows "masqKey n c = masqKey n' c' \<longleftrightarrow> n = n' \<and> c = c'"
proof -
  have "takeWhile (\<lambda>x. x \<noteq> CHR ''='') (rev (masqKey m d)) = rev d" if "CHR ''='' \<notin> set d" for m d
    using that by (simp add: masqKey_def takeWhile_append)
  then have "masqKey n c = masqKey n' c' \<Longrightarrow> c = c'" using assms by (metis rev_rev_ident)
  then show ?thesis by (auto simp: masqKey_def)
qed

definition clean_env :: "hub_env \<Rightarrow> string \<Rightarrow> bool" where
  "clean_env env ifaceName \<longleftrightarrow> clean_word ifaceName
     \<and> list_all (\<lambda>n. clean_nic n \<and> CHR ''='' \<notin> set (nic_cidr n) \<and> nic_name n \<noteq> ifaceName) (he_nics env)"

lemma exclude_subset: "set (excludeConnectedNets nets nics) \<subseteq> set nets" "distinct nets \<Longrightarrow> distinct (excludeConnectedNets nets nics)"
  unfolding excludeConnectedNets_def by (induction nics arbitrary: nets) (simp_all, force)

lemma exclude_iff: "c \<in> set (excludeConnectedNets nets nics) \<longleftrightarrow> c \<in> set nets \<and> (\<forall>n \<in> set nics. \<not> cidrContains (nic_cidr n) c)"
  unfolding excludeConnectedNets_def by (induction nics arbitrary: nets) auto

text \<open>The changes of a synchronisation, drift included.\<close>

definition sync_updates :: "hub_env \<Rightarrow> string list \<Rightarrow> (string \<times> props) list \<Rightarrow> string \<Rightarrow> (string \<times> string list) list" where
  "sync_updates env ls links i =
     with_drift (parsePeersFromConf ls) (map_of (he_dump env) i) (buildPeerUpdates (parsePeersFromConf ls) links i)"

lemma sync_change_parts [simp]:
  "hc_iface (sync_change env ls links i) = i"
  "hc_updates (sync_change env ls links i) = sync_updates env ls links i"
  "hc_routes (sync_change env ls links i) = excludeConnectedNets (route_nets (parsePeersFromConf ls) (sync_updates env ls links i)) (he_nics env)"
  "hc_masq (sync_change env ls links i) = masq_ifaces (tunnelSubnetFromConfLines ls) (hc_routes (sync_change env ls links i)) (he_nics env)"
  by (simp_all add: sync_change_def sync_updates_def Let_def)

lemma drift_lookup:
  assumes "distinct (map fst peers)" "p \<in> set peers"
  shows "effective_ips (with_drift peers live ups) p = effective_ips ups p"
proof (cases "map_of ups (fst p)")
  case None
  let ?d = "filter (\<lambda>p. fst p \<notin> fst ` set ups \<and> has_drifted live p) peers"
  have "map_of ?d (fst p) = None \<or> map_of ?d (fst p) = Some (snd p)"
  proof (cases "map_of ?d (fst p)")
    case (Some v)
    have "(fst p, v) \<in> set peers" using map_of_SomeD [OF Some] by simp
    then have "v = snd p" using assms by (metis eq_key_imp_eq_value prod.collapse)
    then show ?thesis using Some by simp
  qed simp
  then show ?thesis using None by (auto simp: effective_ips_def with_drift_def map_add_def or_else_def)
next
  case (Some v)
  then show ?thesis by (simp add: effective_ips_def with_drift_def map_add_def or_else_def split: option.split)
qed

lemma sync_effective:
  assumes "p \<in> set (parsePeersFromConf ls)"
  shows "effective_ips (sync_updates env ls links i) p = effective_ips (buildPeerUpdates (parsePeersFromConf ls) links i) p"
  unfolding sync_updates_def by (rule drift_lookup [OF parse_ok(1) assms])

lemma built_plain:
  assumes "\<forall>(k, m) \<in> set links. plain_link m" "(k, ips) \<in> set (buildPeerUpdates (parsePeersFromConf ls) links i)"
  shows "list_all (plain_item CHR '','') ips"
proof -
  have "clean_ips \<lparr>hc_iface = i, hc_updates = buildPeerUpdates (parsePeersFromConf ls) links i, hc_routes = [], hc_masq = []\<rparr>"
    by (rule updates_clean [OF _ assms(1)]) simp
  then show ?thesis using assms(2) by (auto simp: clean_ips_def list_all_iff)
qed

lemma sync_clean_ips:
  assumes "\<forall>(k, m) \<in> set links. plain_link m"
  shows "clean_ips (sync_change env ls links i)"
proof -
  have "list_all (plain_item CHR '','') ips" if "(k, ips) \<in> set (sync_updates env ls links i)" for k ips
    using that built_plain [OF assms] parse_ok(2) unfolding sync_updates_def with_drift_def by auto
  then show ?thesis by (auto simp: clean_ips_def list_all_iff)
qed

lemma effective_plain:
  assumes "\<forall>(k, m) \<in> set links. plain_link m" "p \<in> set (parsePeersFromConf ls)"
  shows "list_all (plain_item CHR '','') (effective_ips (sync_updates env ls links i) p)"
  unfolding sync_effective [OF assms(2)]
proof (cases "map_of (buildPeerUpdates (parsePeersFromConf ls) links i) (fst p)")
  case None
  then show "list_all (plain_item CHR '','') (effective_ips (buildPeerUpdates (parsePeersFromConf ls) links i) p)"
    using parse_ok(2) [of "fst p" "snd p" ls] assms(2) by (simp add: effective_ips_def or_else_def)
next
  case (Some v)
  then show "list_all (plain_item CHR '','') (effective_ips (buildPeerUpdates (parsePeersFromConf ls) links i) p)"
    using built_plain [OF assms(1) map_of_SomeD [OF Some]] by (simp add: effective_ips_def or_else_def)
qed

lemma route_net_clean:
  assumes "\<forall>(k, m) \<in> set links. plain_link m" "c \<in> set (hc_routes (sync_change env ls links i))"
  shows "clean_word c" "CHR ''='' \<notin> set c" "\<not> isHostRoute c" "isValidNetwork (JStr c)"
    "\<forall>n \<in> set (he_nics env). \<not> cidrContains (nic_cidr n) c"
    "\<exists>p \<in> set (parsePeersFromConf ls). c \<in> set (effective_ips (sync_updates env ls links i) p)"
proof -
  have c: "c \<in> set (route_nets (parsePeersFromConf ls) (sync_updates env ls links i))"
    and n: "\<forall>n \<in> set (he_nics env). \<not> cidrContains (nic_cidr n) c"
    using assms(2) by (simp_all add: exclude_iff)
  from c obtain p where p: "p \<in> set (parsePeersFromConf ls)" "c \<in> set (effective_ips (sync_updates env ls links i) p)"
    "\<not> isHostRoute c" "isValidNetwork (JStr c)" by (auto simp: route_nets_def)
  have "trim c = c" using effective_plain [OF assms(1) p(1)] p(2) by (auto simp: list_all_iff plain_item_def)
  with valid_net_clean [OF p(4)] p n show "clean_word c" "CHR ''='' \<notin> set c" "\<not> isHostRoute c" "isValidNetwork (JStr c)"
    "\<forall>n \<in> set (he_nics env). \<not> cidrContains (nic_cidr n) c"
    "\<exists>p \<in> set (parsePeersFromConf ls). c \<in> set (effective_ips (sync_updates env ls links i) p)" by blast+
qed

lemma sync_masq_clean:
  assumes "\<forall>(k, m) \<in> set links. plain_link m" "clean_env env i" "x \<in> set (hc_masq (sync_change env ls links i))"
  shows "clean_nic x" "CHR ''='' \<notin> set (nic_cidr x)" "nic_name x \<noteq> i"
proof -
  obtain n c where n: "n \<in> set (he_nics env)" "x = n\<lparr>nic_cidr := c\<rparr>"
    "c \<in> set (nic_nets (tunnelSubnetFromConfLines ls) (hc_routes (sync_change env ls links i)) n)"
    using masq_ifaces_from [OF assms(3) [unfolded sync_change_parts(4)]] by blast
  have e: "clean_nic n" "CHR ''='' \<notin> set (nic_cidr n)" "nic_name n \<noteq> i" using assms(2) n(1) by (auto simp: clean_env_def list_all_iff)
  consider "c = nic_cidr n" | "c = tunnelSubnetFromConfLines ls" | "c \<in> set (hc_routes (sync_change env ls links i))"
    using n(3) by (auto simp: nic_nets_def)
  then have "clean_word c \<and> CHR ''='' \<notin> set c"
    using e(1,2) tunnel_clean route_net_clean(1,2) [OF assms(1)] by cases (auto simp: clean_nic_def)
  then show "clean_nic x" "CHR ''='' \<notin> set (nic_cidr x)" "nic_name x \<noteq> i" using e(1,3) by (simp_all add: n(2) clean_nic_def)
qed

lemma sync_change_clean:
  assumes "\<forall>(k, m) \<in> set links. plain_link m" "clean_env env i"
  shows "clean_change (sync_change env ls links i)"
proof -
  let ?h = "sync_change env ls links i"
  have "inj_on (\<lambda>n. masqKey (nic_name n) (nic_cidr n)) (set (hc_masq ?h))"
  proof (rule inj_onI)
    fix x y assume x: "x \<in> set (hc_masq ?h)" and y: "y \<in> set (hc_masq ?h)"
      and k: "masqKey (nic_name x) (nic_cidr x) = masqKey (nic_name y) (nic_cidr y)"
    then have "nic_name x = nic_name y \<and> nic_cidr x = nic_cidr y"
      using masqKey_inject sync_masq_clean(2) [OF assms] by blast
    then have "nic_name x @ '':'' @ nic_cidr x = nic_name y @ '':'' @ nic_cidr y" by simp
    with masq_ifaces_distinct x y show "x = y"
      unfolding sync_change_parts(4) by (auto simp: distinct_map dest!: inj_onD)
  qed
  moreover have "distinct (hc_masq ?h)" using masq_ifaces_distinct unfolding sync_change_parts(4) distinct_map by blast
  ultimately have "distinct (masq_keys (hc_masq ?h))" by (simp add: masq_keys_def distinct_map del: sync_change_parts(4))
  moreover have "distinct (hc_routes ?h)" by (simp add: exclude_subset(2) route_nets_def)
  moreover have "list_all clean_word (hc_routes ?h)" using route_net_clean(1) [OF assms(1)] by (auto simp only: list_all_iff)
  moreover have "list_all clean_nic (hc_masq ?h) \<and> list_all (\<lambda>n. nic_name n \<noteq> i) (hc_masq ?h)"
    using sync_masq_clean(1,3) [OF assms] by (auto simp only: list_all_iff)
  ultimately show ?thesis using assms(2) by (simp add: clean_change_def clean_env_def del: sync_change_parts(3,4))
qed

subsection \<open>A second synchronisation\<close>

lemma filter_uniq: "filter P (uniq xs) = uniq (filter P xs)"
  by (simp add: uniq_def rev_filter remdups_filter)

lemma uniq_append: "uniq (xs @ ys) = uniq xs @ filter (\<lambda>y. y \<notin> set xs) (uniq ys)"
proof -
  have "remdups (as @ bs) = filter (\<lambda>y. y \<notin> set bs) (remdups as) @ remdups bs" for as bs :: "'a list"
    by (induction as) auto
  then show ?thesis by (simp add: uniq_def rev_filter)
qed

lemma uniq_uniq_append: "uniq (uniq xs @ ys) = uniq (xs @ ys)" "uniq (xs @ uniq ys) = uniq (xs @ ys)"
  by (simp_all add: uniq_append uniq_id)

lemma peer_nets_again: "peer_nets m (peer_nets m cur) = peer_nets m cur"
proof -
  define H where "H = filter isHostRoute cur"
  define N where "N = filter (\<lambda>c. \<not> isHostRoute c) cur"
  define I where "I = filter (\<lambda>c. \<not> isHostRoute c \<and> isAcceptableNetworkPrefix c) (or_else (meta_list m ''importedNetworks'') [])"
  have hH: "filter isHostRoute (uniq (H @ X)) = uniq H" if "\<forall>c \<in> set X. \<not> isHostRoute c" for X
    using that by (simp add: filter_uniq H_def filter_empty_conv)
  have hN: "filter (\<lambda>c. \<not> isHostRoute c) (uniq (H @ N)) = uniq N"
    by (simp add: filter_uniq H_def N_def filter_empty_conv)
  have IN: "\<forall>c \<in> set I. \<not> isHostRoute c" "\<forall>c \<in> set N. \<not> isHostRoute c" by (simp_all add: I_def N_def)
  have pn: "peer_nets m c = (if normalizeLinkType (meta_text m ''type'') = Some ''client'' then uniq (filter isHostRoute c)
     else uniq (filter isHostRoute c @ (if ''importedNetworks'' \<in> fst ` set m then I else filter (\<lambda>c. \<not> isHostRoute c) c)))" for c
    by (simp add: peer_nets_def Let_def I_def)
  have cur: "peer_nets m cur = (if normalizeLinkType (meta_text m ''type'') = Some ''client'' then uniq H
     else uniq (H @ (if ''importedNetworks'' \<in> fst ` set m then I else N)))"
    unfolding pn H_def N_def ..
  consider "normalizeLinkType (meta_text m ''type'') = Some ''client''"
    | "normalizeLinkType (meta_text m ''type'') \<noteq> Some ''client''" "''importedNetworks'' \<in> fst ` set m"
    | "normalizeLinkType (meta_text m ''type'') \<noteq> Some ''client''" "''importedNetworks'' \<notin> fst ` set m" by blast
  then show ?thesis
  proof cases
    case 1
    then show ?thesis using hH [of "[]"] unfolding cur by (simp add: pn uniq_id)
  next
    case 2
    then show ?thesis unfolding cur by (simp only: pn if_True if_False hH [OF IN(1)] uniq_uniq_append)
  next
    case 3
    then show ?thesis unfolding cur by (simp only: pn if_True if_False hH [OF IN(2)] hN uniq_uniq_append)
  qed
qed

lemma built_again:
  assumes "distinct (map fst peers)"
  shows "buildPeerUpdates (map (\<lambda>p. (fst p, effective_ips (buildPeerUpdates peers links i) p)) peers) links i = []"
proof -
  have "peer_update links i (fst p, effective_ips (buildPeerUpdates peers links i) p) = []" if p: "p \<in> set peers" for p
  proof (cases "map_of links (i @ '':'' @ fst p)")
    case None
    then show ?thesis by (simp add: peer_update_def)
  next
    case (Some m)
    have l: "map_of (buildPeerUpdates peers links i) (fst p) = map_of (peer_update links i p) (fst p)"
      using update_lookup [OF assms, of "fst p" "snd p"] p by simp
    show ?thesis
    proof (cases "same_ips (peer_nets m (snd p)) (snd p)")
      case True
      then show ?thesis using Some by (simp add: effective_ips_def l peer_update_def or_else_def Let_def)
    next
      case False
      then have "effective_ips (buildPeerUpdates peers links i) p = peer_nets m (snd p)"
        using Some by (simp add: effective_ips_def l peer_update_def or_else_def Let_def)
      then show ?thesis using Some by (simp add: peer_update_def peer_nets_again same_ips_def)
    qed
  qed
  then show ?thesis by (auto simp: buildPeerUpdates_def)
qed

text \<open>The networks of the peers are parts of the lines.\<close>

definition scan_from :: "char set \<Rightarrow> peer_scan \<Rightarrow> bool" where
  "scan_from C s \<longleftrightarrow> (\<forall>c \<in> set (ps_ips s). set c \<subseteq> C) \<and> (\<forall>p \<in> set (ps_peers s). \<forall>c \<in> set (snd p). set c \<subseteq> C)"

lemma comma_list_chars: "c \<in> set (comma_list s) \<Longrightarrow> set c \<subseteq> set s"
  using set_trim set_split_on by (fastforce simp: comma_list_def)

lemma flush_from: "scan_from C s \<Longrightarrow> scan_from C (flush_peer s)"
proof -
  assume s: "scan_from C s"
  have "snd p = v \<or> p \<in> set xs" if "p \<in> set (AList.update k v xs)" for p k v and xs :: "(string \<times> string list) list"
    using that by (induction xs) (auto split: if_splits)
  from this [of _ _ "ps_ips s" "ps_peers s"] s show ?thesis
    by (fastforce simp: flush_peer_def scan_from_def split: option.split)
qed

lemma valOf_chars: "set (valOf t) \<subseteq> set t"
proof -
  have "set (tl xs) \<subseteq> set xs" for xs :: string by (cases xs) auto
  moreover have "set (dropWhile P xs) \<subseteq> set xs" for P and xs :: string by (auto dest: set_dropWhileD)
  ultimately have "set (tl (dropWhile P t)) \<subseteq> set t" for P by blast
  then show ?thesis using set_trim by (auto simp: valOf_def dest!: subsetD [OF set_trim])
qed

lemma scan_line_from: "scan_from C s \<Longrightarrow> set l \<subseteq> C \<Longrightarrow> scan_from C (scan_line l s)"
proof -
  assume s: "scan_from C s" and l: "set l \<subseteq> C"
  have "set (valOf (trim l)) \<subseteq> C" using l valOf_chars [of "trim l"] set_trim [of l] by blast
  then have "\<forall>c \<in> set (comma_list (valOf (trim l))). set c \<subseteq> C" using comma_list_chars by blast
  then show ?thesis using s flush_from [OF s] by (auto simp: scan_line_def scan_from_def Let_def)
qed

lemma parse_one_line:
  assumes "list_all one_line ls" "p \<in> set (parsePeersFromConf ls)" "c \<in> set (snd p)"
  shows "one_line c"
proof -
  let ?C = "- {LF, CR}"
  have "scan_from ?C (fold scan_line ls s)" if "scan_from ?C s" for s
    using assms(1) that by (induction ls arbitrary: s) (auto simp: one_line_def intro!: scan_line_from)
  moreover have "scan_from ?C scan_start" by (simp add: scan_from_def)
  ultimately have "scan_from ?C (flush_peer (fold scan_line ls scan_start))" by (blast intro: flush_from)
  then show ?thesis using assms(2,3) by (auto simp: scan_from_def parsePeersFromConf_def one_line_def)
qed

lemma find_filter: "(\<And>x. P x \<Longrightarrow> Q x) \<Longrightarrow> find P (filter Q xs) = find P xs"
  by (induction xs) auto

lemma address_kept: "is_address_line l \<Longrightarrow> kept_line l"
proof -
  assume l: "is_address_line l"
  define r where "r = dropWhile js_ws l"
  have a: "to_lower (take 7 r) = ''address''" using l by (simp add: is_address_line_def Let_def r_def)
  have pre: "starts_with p r" if "starts_with p (trim l)" for p
  proof -
    have "r = [] \<or> \<not> js_ws (hd r)" using dropWhile_ends unfolding r_def by blast
    moreover have "trim r = trim l" by (simp add: trim_def r_def dropWhile_idem)
    ultimately show ?thesis using starts_with_trans [OF that] trim_prefix [of r] by simp
  qed
  have no: "\<not> starts_with (c # p) r" if "to_lower [c] \<noteq> ''a''" for c p
  proof
    assume "starts_with (c # p) r"
    then obtain r' where "r = c # r'" by (cases r) (auto simp: starts_with_def)
    then show False using a that by (simp add: to_lower_def)
  qed
  have "to_lower ''P'' \<noteq> ''a''" "to_lower ''#'' \<noteq> ''a''" by code_simp+
  then have "\<not> starts_with ''PostUp'' (trim l)" "\<not> starts_with ''PostDown'' (trim l)" "\<not> starts_with ''#'' (trim l)"
    using no pre by blast+
  moreover have "\<not> starts_with ''AllowedIPs'' (trim l)"
  proof
    assume "starts_with ''AllowedIPs'' (trim l)"
    from pre [OF this] have "take (length ''AllowedIPs'') r = ''AllowedIPs''" unfolding starts_with_def .
    moreover have "length ''AllowedIPs'' = 10" by simp
    ultimately have "take 10 r = ''AllowedIPs''" by (simp only:)
    then have "take 7 (take 10 r) = take 7 ''AllowedIPs''" by (simp only:)
    then have "take 7 r = ''Allowed''" by simp
    moreover have "to_lower ''Allowed'' \<noteq> ''address''" by code_simp
    ultimately show False using a by simp
  qed
  ultimately show ?thesis by (auto simp: kept_line_def MASQ_MARKER_RE_def strip_prefix_def)
qed

lemma tunnel_rewritten:
  assumes "clean_change h"
  shows "tunnelSubnetFromConfLines (rewritten_lines h ls) = tunnelSubnetFromConfLines ls"
proof -
  have f: "find is_address_line (filter kept_line xs) = find is_address_line xs" for xs
    by (rule find_filter) (rule address_kept)
  have "find is_address_line (rewritten_lines h ls) = find is_address_line ls"
    using f [of "rewritten_lines h ls"] f [of ls] rewritten_kept [OF assms, of ls] by simp
  then show ?thesis by (simp add: tunnelSubnetFromConfLines_def)
qed

definition plain_links :: "(string \<times> props) list \<Rightarrow> bool" where
  "plain_links links \<longleftrightarrow> list_all (\<lambda>(k, m). plain_link m \<and> list_all one_line (or_else (meta_list m ''importedNetworks'') [])) links"

definition regular_file :: "string \<Rightarrow> bool" where
  "regular_file conf \<longleftrightarrow> CR \<notin> set conf \<and> hooks_outside False (split_lines conf) \<and> first_section_ok (split_lines conf)
     \<and> regular_peers False False False (split_lines conf) \<and> list_ex is_header (split_lines conf)"

lemma sync_clean_updates:
  assumes "plain_links links" "list_all one_line ls"
  shows "clean_updates (sync_change env ls links i)"
proof -
  have built: "one_line c" if b: "(k, ips) \<in> set (buildPeerUpdates (parsePeersFromConf ls) links i)" "c \<in> set ips" for k ips c
  proof -
    from b(1) obtain p where q: "p \<in> set (parsePeersFromConf ls)" "(k, ips) \<in> set (peer_update links i p)"
      unfolding buildPeerUpdates_def by auto
    then obtain m where m: "map_of links (i @ '':'' @ fst p) = Some m" "ips = peer_nets m (snd p)"
      unfolding peer_update_def by (cases "map_of links (i @ '':'' @ fst p)") (auto simp: Let_def split: if_splits)
    have "list_all one_line (or_else (meta_list m ''importedNetworks'') [])"
      using assms(1) map_of_SomeD [OF m(1)] by (auto simp: plain_links_def list_all_iff)
    moreover have "wanted_net (Some m) (snd p) c" using b(2) peer_nets_set unfolding m(2) by blast
    ultimately show ?thesis using parse_one_line [OF assms(2) q(1)]
      by (auto simp: wanted_net_def list_all_iff split: if_splits)
  qed
  have "one_line c" if "(k, ips) \<in> set (sync_updates env ls links i)" "c \<in> set ips" for k ips c
  proof -
    have "(k, ips) \<in> set (buildPeerUpdates (parsePeersFromConf ls) links i) \<or> (k, ips) \<in> set (parsePeersFromConf ls)"
      using that(1) by (auto simp: sync_updates_def with_drift_def)
    then show ?thesis using built that(2) parse_one_line [OF assms(2), of "(k, ips)"] by auto
  qed
  then show ?thesis by (fastforce simp: clean_updates_def list_all_iff one_line_def)
qed

lemma plain_linksD: "plain_links links \<Longrightarrow> \<forall>(k, m) \<in> set links. plain_link m"
  by (auto simp: plain_links_def list_all_iff)

lemma new_lines:
  assumes "regular_file conf" "plain_links links" "clean_env env i"
    and "h = sync_change env (split_lines conf) links i" "L = rewritten_lines h (split_lines conf)"
  shows "split_lines (rewriteHubConf (split_lines conf) h) = L" "clean_change h" "rewritten_lines (settled h) L = L"
    "parsePeersFromConf L = map (\<lambda>p. (fst p, effective_ips (hc_updates h) p)) (parsePeersFromConf (split_lines conf))"
proof -
  have one: "list_all one_line (split_lines conf)" using assms(1) split_lines_one by (simp add: regular_file_def)
  note pl = plain_linksD [OF assms(2)]
  show c: "clean_change h" unfolding assms(4) by (rule sync_change_clean [OF pl assms(3)])
  have u: "clean_updates h" unfolding assms(4) by (rule sync_clean_updates [OF assms(2) one])
  have i: "clean_ips h" unfolding assms(4) by (rule sync_clean_ips [OF pl])
  have reg: "hooks_outside False (split_lines conf)" "first_section_ok (split_lines conf)" "regular_peers False False False (split_lines conf)"
    using assms(1) by (simp_all add: regular_file_def)
  have "\<forall>l \<in> set L. LF \<notin> set l \<and> CR \<notin> set l"
    using rewritten_one [OF c u one] by (simp add: assms(5) list_all_iff one_line_def)
  then have "L \<noteq> [] \<Longrightarrow> split_lines (join [LF] L) = L" by (intro split_lines_join)
  moreover have "L \<noteq> []"
  proof -
    obtain out s where out: "rewrite_pass h (owned_masq h (split_lines conf)) rewrite_start (split_lines conf) = (out, s)" by fastforce
    have "list_ex is_header (split_lines conf)" using assms(1) by (simp add: regular_file_def)
    from pass_header [OF this, of h "owned_masq h (split_lines conf)" rewrite_start] have "out \<noteq> []" by (simp add: out)
    then show ?thesis using rewritten_out(1) [OF out] unfolding assms(5) by auto
  qed
  ultimately show "split_lines (rewriteHubConf (split_lines conf) h) = L"
    unfolding rewriteHubConf_def assms(5) [symmetric] by simp
  show "rewritten_lines (settled h) L = L" unfolding assms(5) by (rule rewritten_again [OF c reg(1,2)])
  show "parsePeersFromConf L = map (\<lambda>p. (fst p, effective_ips (hc_updates h) p)) (parsePeersFromConf (split_lines conf))"
    unfolding assms(5) by (rule rewrite_sets_networks [OF c i reg])
qed

text \<open>C11: A synchronisation settles. When the hub is synchronised again with the same metadata and the same
  network cards, and the running interface has the networks of the file, the file is not written
  again, and no networks of a peer are set, whatever commands succeed. (The file is in the regular
  form the panel writes, the names and networks hold no separators.)\<close>

theorem sync_settles:
  assumes "regular_file conf" "plain_links links" "clean_env env i"
    and "syncHubConfCore ok env (Some conf) links i = Some s1"
    and "he_nics env' = he_nics env"
    and "\<forall>p \<in> set (parsePeersFromConf (split_lines (hs_conf s1))). \<not> has_drifted (map_of (he_dump env') i) p"
  shows "\<exists>s2. syncHubConfCore ok' env' (Some (hs_conf s1)) links i = Some s2
    \<and> \<not> hs_written s2 \<and> hs_conf s2 = hs_conf s1 \<and> sync_updates env' (split_lines (hs_conf s1)) links i = []"
proof -
  define ls where "ls = split_lines conf"
  define h where "h = sync_change env ls links i"
  define L where "L = rewritten_lines h ls"
  note n = new_lines [OF assms(1-3) h_def [unfolded ls_def] L_def [unfolded ls_def]]
  have jl: "join [LF] ls = conf" unfolding ls_def by (rule join_split_lines) (use assms(1) in \<open>simp add: regular_file_def\<close>)
  have conf1: "hs_conf s1 = rewriteHubConf ls h"
    using assms(4) jl by (auto simp: syncHubConfCore_def Let_def ls_def h_def)
  have L: "split_lines (hs_conf s1) = L" unfolding conf1 using n(1) by (simp add: ls_def)
  have peers: "parsePeersFromConf L = map (\<lambda>p. (fst p, effective_ips (buildPeerUpdates (parsePeersFromConf ls) links i) p)) (parsePeersFromConf ls)"
    using n(4) sync_effective [of _ ls env links i] by (auto simp: h_def ls_def)
  have "buildPeerUpdates (parsePeersFromConf L) links i = []" unfolding peers by (rule built_again [OF parse_ok(1)])
  moreover have "\<not> has_drifted (map_of (he_dump env') i) p" if "p \<in> set (parsePeersFromConf L)" for p using assms(6) that L by simp
  ultimately have u: "sync_updates env' L links i = []"
    by (auto simp: sync_updates_def with_drift_def filter_empty_conv)
  have eff: "effective_ips [] p = snd p" for p by (simp add: effective_ips_def or_else_def)
  have "map (effective_ips []) (parsePeersFromConf L) = map (effective_ips (sync_updates env ls links i)) (parsePeersFromConf ls)"
    unfolding peers using sync_effective [of _ ls env links i] by (auto simp: eff)
  then have "route_nets (parsePeersFromConf L) [] = route_nets (parsePeersFromConf ls) (sync_updates env ls links i)"
    by (simp only: route_nets_def)
  then have r: "hc_routes (sync_change env' L links i) = hc_routes h" by (simp add: u h_def assms(5))
  moreover have "hc_masq (sync_change env' L links i) = hc_masq h"
    using r tunnel_rewritten [OF n(2), of ls] unfolding sync_change_parts(4) h_def L_def assms(5) by simp
  ultimately have h2: "sync_change env' L links i = settled h"
    by (intro hub_change.equality) (simp_all add: u h_def del: sync_change_parts(3,4))
  have same: "rewriteHubConf L (sync_change env' L links i) = hs_conf s1"
    unfolding h2 rewriteHubConf_def n(3) unfolding conf1 rewriteHubConf_def L_def ..
  have "join [LF] L = hs_conf s1" unfolding conf1 rewriteHubConf_def L_def ..
  then show ?thesis using same u by (simp add: syncHubConfCore_def Let_def L)
qed


definition ex_env :: hub_env where
  "ex_env = \<lparr>he_iptables = Some ''iptables'', he_wg = ''wg'', he_ip = ''ip'',
     he_nics = [\<lparr>nic_name = ''eth1'', nic_address = ''10.1.1.4'', nic_cidr = ''10.1.1.4/24''\<rparr>], he_dump = [],
     he_routes = Some ''10.8.0.0/24 proto kernel scope link src 10.8.0.1''\<rparr>"

definition ex_conf :: string where "ex_conf = join [LF] ex_hub_lines"

definition ex_plain_links :: "(string \<times> props) list" where
  "ex_plain_links = [(''wg0:A='', [(''type'', JStr ''site''), (''importedNetworks'', JArr [JStr ''192.168.7.0/24''])])]"

lemma ex_sync_ok: "regular_file ex_conf" "plain_links ex_plain_links" "clean_env ex_env ''wg0''"
  by code_simp+

theorem sync_settles_witness:
  "\<exists>s1 s2. syncHubConfCore (\<lambda>c. True) ex_env (Some ex_conf) ex_plain_links ''wg0'' = Some s1 \<and> hs_written s1
    \<and> syncHubConfCore (\<lambda>c. False) ex_env (Some (hs_conf s1)) ex_plain_links ''wg0'' = Some s2 \<and> \<not> hs_written s2"
proof -
  obtain s1 where s1: "syncHubConfCore (\<lambda>c. True) ex_env (Some ex_conf) ex_plain_links ''wg0'' = Some s1"
    by (simp add: syncHubConfCore_def Let_def)
  have "map_option hs_written (syncHubConfCore (\<lambda>c. True) ex_env (Some ex_conf) ex_plain_links ''wg0'') = Some True" by code_simp
  then have "hs_written s1" by (simp add: s1)
  moreover have "map_of (he_dump ex_env) ''wg0'' = None" by (simp add: ex_env_def)
  then have "\<forall>p \<in> set (parsePeersFromConf (split_lines (hs_conf s1))). \<not> has_drifted (map_of (he_dump ex_env) ''wg0'') p"
    by (simp add: has_drifted_def)
  from sync_settles [OF ex_sync_ok s1 refl this, of "\<lambda>c. False"]
  obtain s2 where "syncHubConfCore (\<lambda>c. False) ex_env (Some (hs_conf s1)) ex_plain_links ''wg0'' = Some s2" "\<not> hs_written s2" by blast
  ultimately show ?thesis using s1 by blast
qed

end
