(* ===== verification/Wg_Hub_Live.thy ===== *)
theory Wg_Hub_Live
  imports Wg_Hub_Sync
begin

text \<open>
  What the commands of a synchronisation do to the running system: the NAT rules that
  \<open>_reconcileMasqLive\<close> of backend/internal/wireguard.js adds and deletes, seen as a table that counts
  the copies of every rule, and the commands a synchronisation can run at all.
\<close>

subsection \<open>The NAT table\<close>

text \<open>How often a MASQUERADE rule for a network card and a source network is in the table.\<close>

type_synonym nat_table = "string \<times> string \<Rightarrow> nat"

fun rule_of :: "string list \<Rightarrow> string \<times> string" where
  "rule_of [_, _, _, verb, _, _, n, _, c, _, _] = (n, c)"
| "rule_of _ = ([], [])"

definition verb_of :: "string list \<Rightarrow> string" where
  "verb_of cmd = cmd ! 3"

text \<open>\<open>iptables -C\<close> and \<open>-D\<close> succeed when there is a copy, \<open>-A\<close> always does.\<close>

definition nat_ok :: "nat_table \<Rightarrow> string list \<Rightarrow> bool" where
  "nat_ok T cmd \<longleftrightarrow> verb_of cmd = ''-A'' \<or> 0 < T (rule_of cmd)"

definition nat_step :: "string list \<Rightarrow> nat_table \<Rightarrow> nat_table" where
  "nat_step cmd T =
     (if verb_of cmd = ''-A'' then T(rule_of cmd := T (rule_of cmd) + 1)
      else if verb_of cmd = ''-D'' then T(rule_of cmd := T (rule_of cmd) - 1)
      else T)"

lemma ipt_args_simps [simp]:
  "rule_of (ipt_args b v n c) = (n, c)" "verb_of (ipt_args b v n c) = v"
  by (simp_all add: ipt_args_def verb_of_def)

lemma run_all_fst: "fst (run_all_of rs) = concat (map fst rs)"
  by (induction rs) (simp_all add: run_all_of_def then_run_def)

text \<open>The rules this configuration had, and those it wants.\<close>

definition owned_rules :: "string \<Rightarrow> string list \<Rightarrow> (string \<times> string) set" where
  "owned_rules i keys = {(n, c). masqKey n c \<in> set keys \<and> split_masq_key (masqKey n c) = Some (n, c)
     \<and> n \<noteq> i \<and> isValidNetwork (JStr c)}"

definition wanted_rules :: "string \<Rightarrow> nic list \<Rightarrow> (string \<times> string) set" where
  "wanted_rules i masq = {(nic_name x, nic_cidr x) | x. x \<in> set masq \<and> nic_name x \<noteq> i \<and> isValidNetwork (JStr (nic_cidr x))}"

lemma split_key_masq:
  assumes "clean_word n" "clean_word c" "CHR ''='' \<notin> set c"
  shows "split_masq_key (masqKey n c) = Some (n, c)"
proof -
  have c: "c \<noteq> []" using assms(2) by (simp add: clean_word_def)
  have b: "butlast (masqKey n c) = n @ CHR ''='' # butlast c" using c by (simp add: masqKey_def butlast_append)
  have nb: "\<forall>x \<in> set (rev (butlast c)). x \<noteq> CHR ''=''" using assms(3) by (auto dest: in_set_butlastD)
  then have "dropWhile (\<lambda>x. x \<noteq> CHR ''='') (rev (butlast c) @ CHR ''='' # rev n) = CHR ''='' # rev n"
    by (subst dropWhile_append2) auto
  then have d: "rev (dropWhile (\<lambda>x. x \<noteq> CHR ''='') (rev (butlast (masqKey n c)))) = n @ ''=''" by (simp add: b)
  show ?thesis using clean_key(2) [OF assms(1,2)] d by (simp add: split_masq_key_def masqKey_def Let_def)
qed

lemma split_key_text: "split_masq_key k = Some (n, c) \<Longrightarrow> k = masqKey n c"
proof -
  assume s: "split_masq_key k = Some (n, c)"
  define b where "b = rev (dropWhile (\<lambda>c. c \<noteq> CHR ''='') (rev (butlast k)))"
  have k: "is_masq_key k" "n = butlast b" "c = drop (length b) k" using s by (auto simp: split_masq_key_def b_def Let_def split: if_splits)
  have "CHR ''='' \<in> set (butlast k)" using k(1) by (cases k) (auto simp: is_masq_key_def split: if_splits)
  then have ne: "dropWhile (\<lambda>c. c \<noteq> CHR ''='') (rev (butlast k)) \<noteq> []" by (simp add: dropWhile_eq_Nil_conv)
  then have "hd (dropWhile (\<lambda>c. c \<noteq> CHR ''='') (rev (butlast k))) = CHR ''=''" using hd_dropWhile by blast
  then have l: "b \<noteq> []" "last b = CHR ''=''" using ne by (simp_all add: b_def last_rev)
  obtain w where "butlast k = b @ w" unfolding b_def by (metis rev_append rev_rev_ident takeWhile_dropWhile_id)
  moreover have "k \<noteq> []" using k(1) by (auto simp: is_masq_key_def)
  ultimately obtain r where r: "k = b @ r" by (metis append_assoc append_butlast_last_id)
  then have "c = r" using k(3) by simp
  moreover have "b = n @ ''=''" using l k(2) by (metis append_butlast_last_id)
  ultimately show ?thesis using r by (simp add: masqKey_def)
qed

subsection \<open>The pass over the wanted rules\<close>

lemma update_set: "distinct (map fst xs) \<Longrightarrow> set (AList.update k v xs) = insert (k, v) {p \<in> set xs. fst p \<noteq> k}"
  by (induction xs) (auto simp: image_iff)

definition keyed :: "string \<times> string \<Rightarrow> string \<times> string \<times> string" where
  "keyed r = (masqKey (fst r) (snd r), fst r, snd r)"

lemma wanted_masq_set:
  assumes "list_all (\<lambda>n. CHR ''='' \<notin> set (nic_cidr n)) masq"
  shows "set (wanted_masq i masq) = keyed ` wanted_rules i masq" "distinct (map fst (wanted_masq i masq))"
proof -
  let ?up = "\<lambda>n. AList.update (masqKey (nic_name n) (nic_cidr n)) (nic_name n, nic_cidr n)"
  have pass: "distinct (map fst (fold ?up ns acc)) \<and> set (fold ?up ns acc) = set acc \<union> (\<lambda>n. keyed (nic_name n, nic_cidr n)) ` set ns"
    if "list_all (\<lambda>n. CHR ''='' \<notin> set (nic_cidr n)) ns" "distinct (map fst acc)" "\<forall>p \<in> set acc. \<exists>n c. CHR ''='' \<notin> set c \<and> p = keyed (n, c)"
    for ns acc
    using that
  proof (induction ns arbitrary: acc)
    case (Cons n ns)
    let ?k = "masqKey (nic_name n) (nic_cidr n)" and ?v = "(nic_name n, nic_cidr n)"
    have s: "set (?up n acc) = insert (keyed ?v) (set acc)"
    proof -
      have "p = keyed ?v" if p: "p \<in> set acc" "fst p = ?k" for p
      proof -
        obtain m c where "CHR ''='' \<notin> set c" "p = keyed (m, c)" using Cons.prems(3) p(1) by blast
        then show ?thesis using p(2) Cons.prems(1) masqKey_inject [of c "nic_cidr n" m "nic_name n"] by (simp add: keyed_def)
      qed
      then show ?thesis using update_set [OF Cons.prems(2), of ?k ?v] by (auto simp: keyed_def)
    qed
    have "distinct (map fst (?up n acc))" by (rule distinct_update) (rule Cons.prems(2))
    moreover have "\<forall>p \<in> set (?up n acc). \<exists>n c. CHR ''='' \<notin> set c \<and> p = keyed (n, c)"
      unfolding s using Cons.prems(1,3) by auto
    moreover have "list_all (\<lambda>n. CHR ''='' \<notin> set (nic_cidr n)) ns" using Cons.prems(1) by simp
    ultimately show ?case using Cons.IH [of "?up n acc"] s by auto
  qed simp
  have f: "list_all (\<lambda>n. CHR ''='' \<notin> set (nic_cidr n)) (filter P masq)" for P using assms by (auto simp: list_all_iff)
  from pass [OF f, of "[]"] show "distinct (map fst (wanted_masq i masq))" by (simp add: wanted_masq_def)
  from pass [OF f, of "[]" "\<lambda>n. nic_name n \<noteq> i \<and> isValidNetwork (JStr (nic_cidr n))"]
  show "set (wanted_masq i masq) = keyed ` wanted_rules i masq" by (auto simp: wanted_masq_def wanted_rules_def)
qed

lemma add_effect:
  "fold nat_step (fst (add_masq (nat_ok T0) b prev (k, n, c))) T
    = T((n, c) := T (n, c) + (if k \<in> set prev \<and> 0 < T0 (n, c) then 0 else 1))"
  by (simp add: add_masq_def run_cmd_def then_run_def nat_ok_def nat_step_def Let_def)

lemma add_pass:
  assumes "distinct (map snd ws)"
  shows "fold nat_step (concat (map (fst \<circ> add_masq (nat_ok T0) b prev) ws)) T r
    = T r + (if \<exists>k. (k, r) \<in> set ws \<and> \<not> (k \<in> set prev \<and> 0 < T0 r) then 1 else 0)"
  using assms
proof (induction ws arbitrary: T)
  case (Cons w ws)
  obtain k n c where w: "w = (k, n, c)" by (cases w) auto
  have "(n, c) \<notin> snd ` set ws" using Cons.prems by (simp add: w)
  then have "\<not> (\<exists>k. (k, n, c) \<in> set ws)" by force
  then show ?case using Cons.IH Cons.prems by (auto simp: w add_effect)
qed simp

lemma drop_effect:
  "fold nat_step (fst (drop_masq ok b i k)) T =
     (case split_masq_key k of None \<Rightarrow> T
      | Some (n, c) \<Rightarrow> if n = i \<or> \<not> isValidNetwork (JStr c) then T else T((n, c) := T (n, c) - 1))"
  by (auto simp: drop_masq_def run_cmd_def nat_step_def split: option.split)

lemma drop_pass:
  assumes "distinct ks"
  shows "fold nat_step (concat (map (fst \<circ> drop_masq ok b i) ks)) T r
    = T r - (if masqKey (fst r) (snd r) \<in> set ks \<and> split_masq_key (masqKey (fst r) (snd r)) = Some r
        \<and> fst r \<noteq> i \<and> isValidNetwork (JStr (snd r)) then 1 else 0)"
  using assms
proof (induction ks arbitrary: T)
  case (Cons k ks)
  obtain n c where r: "r = (n, c)" by (cases r)
  have k: "k = masqKey n c" if "split_masq_key k = Some (n, c)" using split_key_text [OF that] .
  let ?T = "fold nat_step (fst (drop_masq ok b i k)) T"
  have step: "?T r = T r - (if split_masq_key k = Some r \<and> n \<noteq> i \<and> isValidNetwork (JStr c) then 1 else 0)"
    unfolding drop_effect r by (auto split: option.split)
  have "fold nat_step (concat (map (fst \<circ> drop_masq ok b i) (k # ks))) T r
    = ?T r - (if masqKey n c \<in> set ks \<and> split_masq_key (masqKey n c) = Some r \<and> n \<noteq> i \<and> isValidNetwork (JStr c) then 1 else 0)"
    using Cons.IH [of ?T] Cons.prems by (simp add: r comp_def)
  also have "\<dots> = T r - (if masqKey n c \<in> set (k # ks) \<and> split_masq_key (masqKey n c) = Some r \<and> n \<noteq> i \<and> isValidNetwork (JStr c) then 1 else 0)"
    unfolding step using k Cons.prems by (auto simp: r)
  finally show ?case unfolding r fst_conv snd_conv .
qed simp

text \<open>C12: The live NAT rules follow the configuration and nothing else. When the table holds one copy of
  every rule this configuration carried (and besides them whatever other interfaces and the
  operator put there), then after the pass it holds one copy of every rule the configuration wants
  now, and what others put there is untouched, also where they have a copy of the very same rule.\<close>

theorem nat_follows_conf:
  assumes "list_all (\<lambda>n. clean_nic n \<and> CHR ''='' \<notin> set (nic_cidr n)) masq" "distinct previous"
    and "\<forall>r. T r = others_rules r + (if r \<in> owned_rules i previous then 1 else 0)"
  shows "fold nat_step (fst (reconcileMasqLive (nat_ok T) (Some b) i masq previous)) T r
    = others_rules r + (if r \<in> wanted_rules i masq then 1 else 0)"
proof -
  obtain n c where r: "r = (n, c)" by (cases r)
  let ?want = "wanted_masq i masq" and ?k = "masqKey n c"
  have neq: "list_all (\<lambda>n. CHR ''='' \<notin> set (nic_cidr n)) masq" using assms(1) by (auto simp: list_all_iff)
  note w = wanted_masq_set [OF neq, of i]
  have inj: "inj_on keyed (wanted_rules i masq)"
    by (auto simp: inj_on_def keyed_def)
  have ds: "distinct (map snd ?want)"
  proof -
    have "inj_on snd (set ?want)" unfolding w(1) by (auto simp: inj_on_def keyed_def)
    then show ?thesis using w(2) by (simp add: distinct_map)
  qed
  let ?ks = "filter (\<lambda>k. k \<notin> fst ` set ?want) previous"
  let ?A = "fold nat_step (concat (map (fst \<circ> add_masq (nat_ok T) b previous) ?want)) T"
  have cmds: "fst (reconcileMasqLive (nat_ok T) (Some b) i masq previous)
    = concat (map (fst \<circ> add_masq (nat_ok T) b previous) ?want) @ concat (map (fst \<circ> drop_masq (nat_ok T) b i) ?ks)"
    by (simp add: reconcileMasqLive_def then_run_def run_all_fst Let_def)
  have wk: "(k, r) \<in> set ?want \<longleftrightarrow> k = ?k \<and> r \<in> wanted_rules i masq" for k by (auto simp: w(1) keyed_def r intro: rev_image_eqI)
  have a: "?A r = T r + (if r \<in> wanted_rules i masq \<and> \<not> (?k \<in> set previous \<and> 0 < T r) then 1 else 0)"
    using add_pass [OF ds, of T b previous T r] by (auto simp: wk)
  have d: "fold nat_step (fst (reconcileMasqLive (nat_ok T) (Some b) i masq previous)) T r
    = ?A r - (if ?k \<in> set ?ks \<and> split_masq_key ?k = Some r \<and> n \<noteq> i \<and> isValidNetwork (JStr c) then 1 else 0)"
    unfolding cmds using drop_pass [of ?ks "nat_ok T" b i ?A r] assms(2) by (simp add: r)
  show ?thesis
  proof (cases "r \<in> wanted_rules i masq")
    case True
    then obtain x where x: "x \<in> set masq" "n = nic_name x" "c = nic_cidr x" "n \<noteq> i" "isValidNetwork (JStr c)"
      by (auto simp: wanted_rules_def r)
    then have "split_masq_key ?k = Some (n, c)" using assms(1) by (auto simp: list_all_iff clean_nic_def intro!: split_key_masq)
    then have o: "r \<in> owned_rules i previous \<longleftrightarrow> ?k \<in> set previous" using x(4,5) by (auto simp: owned_rules_def r)
    have "(?k, r) \<in> set ?want" using True by (simp add: wk)
    then have "?k \<in> fst ` set ?want" by force
    then show ?thesis unfolding d a using True o spec [OF assms(3), of r] by auto
  next
    case False
    have "?k \<notin> fst ` set ?want" if s: "split_masq_key ?k = Some r" "isValidNetwork (JStr c)"
    proof
      assume "?k \<in> fst ` set ?want"
      then obtain m e where m: "(m, e) \<in> wanted_rules i masq" "?k = masqKey m e" unfolding w(1) by (auto simp: keyed_def)
      have "\<forall>x \<in> set ?k. \<not> js_ws x" using s(1) by (auto simp: split_masq_key_def is_masq_key_def list_all_iff split: if_splits)
      then have "trim c = c" by (intro trim_no_ws) (auto simp: masqKey_def)
      then have "CHR ''='' \<notin> set c" using valid_net_clean(2) [OF s(2)] by simp
      moreover have "CHR ''='' \<notin> set e" using m(1) neq by (auto simp: wanted_rules_def list_all_iff)
      ultimately have "(n, c) = (m, e)" using m(2) masqKey_inject by blast
      then show False using m(1) False by (simp add: r)
    qed
    then have "(?k \<in> set ?ks \<and> split_masq_key ?k = Some r \<and> n \<noteq> i \<and> isValidNetwork (JStr c)) \<longleftrightarrow> r \<in> owned_rules i previous"
      by (auto simp: owned_rules_def r)
    then show ?thesis unfolding d a using False spec [OF assms(3), of r] by auto
  qed
qed

theorem nat_follows_conf_witness:
  "fold nat_step (fst (reconcileMasqLive (nat_ok (\<lambda>r. if r = (''eth1'', ''10.8.0.0/24'') then 2 else 0)) (Some ''iptables'') ''wg0''
      [\<lparr>nic_name = ''eth1'', nic_address = ''10.1.1.4'', nic_cidr = ''10.9.0.0/24''\<rparr>] [''eth1=10.8.0.0/24'']))
    (\<lambda>r. if r = (''eth1'', ''10.8.0.0/24'') then 2 else 0) (''eth1'', ''10.8.0.0/24'') = 1"
proof -
  let ?masq = "[\<lparr>nic_name = ''eth1'', nic_address = ''10.1.1.4'', nic_cidr = ''10.9.0.0/24''\<rparr>]" and ?prev = "[''eth1=10.8.0.0/24'']"
  let ?T = "\<lambda>r. if r = (''eth1'', ''10.8.0.0/24'') then 2 else (0 :: nat)"
  let ?F = "\<lambda>r. if r = (''eth1'', ''10.8.0.0/24'') then 1 else (0 :: nat)"
  have a: "list_all (\<lambda>n. clean_nic n \<and> CHR ''='' \<notin> set (nic_cidr n)) ?masq" by code_simp
  have s: "split_masq_key ''eth1=10.8.0.0/24'' = Some (''eth1'', ''10.8.0.0/24'')" "isValidNetwork (JStr ''10.8.0.0/24'')"
    "masqKey ''eth1'' ''10.8.0.0/24'' = ''eth1=10.8.0.0/24''" by code_simp+
  have "(n, c) \<in> owned_rules ''wg0'' ?prev \<longleftrightarrow> (n, c) = (''eth1'', ''10.8.0.0/24'')" for n c
  proof
    assume "(n, c) \<in> owned_rules ''wg0'' ?prev"
    then have "masqKey n c = ''eth1=10.8.0.0/24''" "split_masq_key (masqKey n c) = Some (n, c)" unfolding owned_rules_def by auto
    then have "Some (n, c) = Some (''eth1'', ''10.8.0.0/24'')" using s(1) by (simp only:)
    then show "(n, c) = (''eth1'', ''10.8.0.0/24'')" by blast
  qed (use s in \<open>simp add: owned_rules_def\<close>)
  then have t: "\<forall>r. ?T r = ?F r + (if r \<in> owned_rules ''wg0'' ?prev then 1 else 0)" by (simp add: split_paired_all)
  have "(''eth1'', ''10.8.0.0/24'') \<notin> wanted_rules ''wg0'' ?masq" by (auto simp: wanted_rules_def)
  then show ?thesis using nat_follows_conf [OF a _ t, of "''iptables''" "(''eth1'', ''10.8.0.0/24'')"] by simp
qed

text \<open>A rule of the generator's form that the operator put into a hook is kept in the file, but every
  synchronisation deletes it from the running table: \<open>_previousOwnedMasq\<close> takes it for generated.\<close>

definition ex_operator_lines :: "string list" where
  "ex_operator_lines = [''[Interface]'', ''Address = 10.8.0.1/24'', ''# floppyguard-masq: -'',
     ''PostUp = iptables -t nat -A POSTROUTING -o eth9 -s 172.16.0.0/16 -j MASQUERADE'', ''PostDown = true'']"

lemma operator_rule_deleted_live:
  "operator_cmd \<lparr>hc_iface = ''wg0'', hc_updates = [], hc_routes = [], hc_masq = []\<rparr> ex_operator_lines
     ''iptables -t nat -A POSTROUTING -o eth9 -s 172.16.0.0/16 -j MASQUERADE''"
  "snd (reconcileMasqLive (\<lambda>c. True) (Some ''iptables'') ''wg0'' [] (previousOwnedMasq ex_operator_lines))
     = [MasqRemoved ''eth9=172.16.0.0/16'']"
proof -
  have "parseMasqMarker ex_operator_lines = []" by code_simp
  then show "operator_cmd \<lparr>hc_iface = ''wg0'', hc_updates = [], hc_routes = [], hc_masq = []\<rparr> ex_operator_lines
     ''iptables -t nat -A POSTROUTING -o eth9 -s 172.16.0.0/16 -j MASQUERADE''"
    by (simp add: operator_cmd_def own_route_def own_rule_def)
qed code_simp

subsection \<open>The commands of a synchronisation\<close>

lemma update_of_peer:
  assumes "(k, ips) \<in> set (sync_updates env ls links i)"
  shows "\<exists>p \<in> set (parsePeersFromConf ls). fst p = k \<and> ips = effective_ips (buildPeerUpdates (parsePeersFromConf ls) links i) p"
proof -
  let ?ps = "parsePeersFromConf ls" and ?b = "buildPeerUpdates (parsePeersFromConf ls) links i"
  consider "(k, ips) \<in> set ?b" | "(k, ips) \<in> set ?ps" "k \<notin> fst ` set ?b"
    using assms by (auto simp: sync_updates_def with_drift_def)
  then show ?thesis
  proof cases
    case 1
    then obtain p where p: "p \<in> set ?ps" "(k, ips) \<in> set (peer_update links i p)" unfolding buildPeerUpdates_def by auto
    then have u: "peer_update links i p = [(k, ips)]" "fst p = k"
      by (cases "map_of links (i @ '':'' @ fst p)"; auto simp: peer_update_def Let_def split: if_splits)+
    have "map_of ?b (fst p) = map_of (peer_update links i p) (fst p)"
      using update_lookup [OF parse_ok(1), of "fst p" "snd p"] p(1) by simp
    then show ?thesis using p(1) u by (auto simp: effective_ips_def or_else_def)
  next
    case 2
    then have "map_of ?b k = None" by (simp add: map_of_eq_None_iff)
    then show ?thesis using 2(1) by (force simp: effective_ips_def or_else_def)
  qed
qed

definition wanted_by :: "(string \<times> props) list \<Rightarrow> string \<Rightarrow> string \<times> string list \<Rightarrow> string \<Rightarrow> bool" where
  "wanted_by links i p c = wanted_net (map_of links (i @ '':'' @ fst p)) (snd p) c"

lemma effective_wanted_by:
  assumes "\<forall>(k, m) \<in> set links. plain_link m" "p \<in> set (parsePeersFromConf ls)"
  shows "c \<in> set (effective_ips (buildPeerUpdates (parsePeersFromConf ls) links i) p) \<longleftrightarrow> wanted_by links i p c"
proof -
  have m: "\<forall>m. map_of links (i @ '':'' @ fst p) = Some m \<longrightarrow> plain_link m" using assms(1) by (auto dest: map_of_SomeD)
  have "(fst p, snd p) \<in> set (parsePeersFromConf ls)" using assms(2) by simp
  from effective_wanted [OF parse_ok(1) this m parse_ok(2) [OF this]] show ?thesis by (simp add: wanted_by_def)
qed

lemma run_cmd_fst [simp]: "fst (run_cmd ok cmd acts) = [cmd]"
  by (simp add: run_cmd_def)

lemma then_run_fst [simp]: "fst (then_run a b) = fst a @ fst b"
  by (simp add: then_run_def)

text \<open>The commands that may run on the hub for an interface.\<close>

inductive hub_cmd :: "hub_env \<Rightarrow> string list \<Rightarrow> (string \<times> props) list \<Rightarrow> string \<Rightarrow> string list \<Rightarrow> bool"
  for env ls links i where
  nat_cmd: "he_iptables env = Some b \<Longrightarrow> v \<in> {''-C'', ''-A'', ''-D''} \<Longrightarrow> n \<noteq> i \<Longrightarrow> isValidNetwork (JStr c)
    \<Longrightarrow> v = ''-D'' \<longrightarrow> masqKey n c \<in> set (previousOwnedMasq ls) \<Longrightarrow> hub_cmd env ls links i (ipt_args b v n c)"
| set_cmd: "p \<in> set (parsePeersFromConf ls) \<Longrightarrow> (\<And>c. c \<in> set ips \<longleftrightarrow> wanted_by links i p c)
    \<Longrightarrow> hub_cmd env ls links i [he_wg env, ''set'', i, ''peer'', fst p, ''allowed-ips'', join '','' ips]"
| add_cmd: "p \<in> set (parsePeersFromConf ls) \<Longrightarrow> wanted_by links i p net \<Longrightarrow> clean_word net \<Longrightarrow> isValidNetwork (JStr net)
    \<Longrightarrow> \<not> isHostRoute net \<Longrightarrow> \<forall>n \<in> set (he_nics env). \<not> cidrContains (nic_cidr n) net
    \<Longrightarrow> hub_cmd env ls links i [he_ip env, ''route'', ''add'', net, ''dev'', i]"
| del_cmd: "he_routes env = Some out \<Longrightarrow> l \<in> set (route_lines out) \<Longrightarrow> CHR ''/'' \<in> set (first_word l) \<Longrightarrow> \<not> isHostRoute (first_word l)
    \<Longrightarrow> \<not> str_includes ''proto kernel'' l \<Longrightarrow> first_word l \<noteq> tunnelSubnetFromConfLines ls
    \<Longrightarrow> (\<And>p. p \<in> set (parsePeersFromConf ls) \<Longrightarrow> wanted_by links i p (first_word l) \<Longrightarrow>
          \<not> isValidNetwork (JStr (first_word l)) \<or> (\<exists>n \<in> set (he_nics env). cidrContains (nic_cidr n) (first_word l)))
    \<Longrightarrow> hub_cmd env ls links i [he_ip env, ''route'', ''del'', first_word l, ''dev'', i]"

lemma masq_cmds_allowed:
  assumes "cmd \<in> set (fst (reconcileMasqLive ok (he_iptables env) i masq (previousOwnedMasq ls)))"
  shows "hub_cmd env ls links i cmd"
proof -
  obtain b where b: "he_iptables env = Some b" using assms by (auto simp: reconcileMasqLive_def split: option.splits)
  let ?want = "wanted_masq i masq"
  have w: "n \<noteq> i \<and> isValidNetwork (JStr c)" if "(k, n, c) \<in> set ?want" for k n c
  proof -
    have "\<forall>(k, n, c) \<in> set (fold (\<lambda>n. AList.update (masqKey (nic_name n) (nic_cidr n)) (nic_name n, nic_cidr n)) ns acc). n \<noteq> i \<and> isValidNetwork (JStr c)"
      if "\<forall>x \<in> set ns. nic_name x \<noteq> i \<and> isValidNetwork (JStr (nic_cidr x))" "\<forall>(k, n, c) \<in> set acc. n \<noteq> i \<and> isValidNetwork (JStr c)"
      for ns :: "nic list" and acc
      using that
    proof (induction ns arbitrary: acc)
      case (Cons x ns)
      have "p = (masqKey (nic_name x) (nic_cidr x), nic_name x, nic_cidr x) \<or> p \<in> set xs \<or> snd p = (nic_name x, nic_cidr x)"
        if "p \<in> set (AList.update (masqKey (nic_name x) (nic_cidr x)) (nic_name x, nic_cidr x) xs)" for p xs
        using that by (induction xs) (auto split: if_splits)
      then have "\<forall>(k, n, c) \<in> set (AList.update (masqKey (nic_name x) (nic_cidr x)) (nic_name x, nic_cidr x) acc). n \<noteq> i \<and> isValidNetwork (JStr c)"
        using Cons.prems by fastforce
      from Cons.IH [OF _ this] Cons.prems(1) show ?case by simp
    qed simp
    from this [of "filter (\<lambda>n. nic_name n \<noteq> i \<and> isValidNetwork (JStr (nic_cidr n))) masq" "[]"] that show ?thesis
      by (auto simp: wanted_masq_def)
  qed
  consider k n c where "(k, n, c) \<in> set ?want" "cmd \<in> set (fst (add_masq ok b (previousOwnedMasq ls) (k, n, c)))"
    | k where "k \<in> set (previousOwnedMasq ls)" "cmd \<in> set (fst (drop_masq ok b i k))"
    using assms by (auto simp: reconcileMasqLive_def b run_all_fst Let_def)
  then show ?thesis
  proof cases
    case 1
    then have "cmd = ipt_args b ''-C'' n c \<or> cmd = ipt_args b ''-A'' n c"
      by (auto simp: add_masq_def Let_def split: if_splits)
    then show ?thesis using nat_cmd [OF b, of _ n i c] w [OF 1(1)] by auto
  next
    case 2
    then obtain n c where s: "split_masq_key k = Some (n, c)" "n \<noteq> i" "isValidNetwork (JStr c)" "cmd = ipt_args b ''-D'' n c"
      by (auto simp: drop_masq_def split: option.splits if_splits)
    then show ?thesis using nat_cmd [OF b, of "''-D''" n i c] split_key_text [OF s(1)] 2(1) by simp
  qed
qed

text \<open>C13: A synchronisation runs no command but these: iptables commands for MASQUERADE rules on other
  cards with a valid network, deletions only of rules the file carried; the setting of a peer of
  the file to exactly its wanted networks; a route for a network that some peer is to have, in the
  form of an address, no host route, and not inside a network the hub is directly connected to;
  and the deletion of a live route that is no host route, not the kernel's, not the tunnel's own,
  and needed by no peer, unless the hub reaches the network directly.\<close>

theorem hub_commands_allowed:
  assumes "plain_links links" "syncHubConfCore ok env (Some conf) links i = Some s" "cmd \<in> set (fst (hs_run s))"
  shows "hub_cmd env (split_lines conf) links i cmd"
proof -
  let ?ls = "split_lines conf"
  let ?h = "sync_change env ?ls links i"
  note pl = plain_linksD [OF assms(1)]
  have eff: "c \<in> set (effective_ips (sync_updates env ?ls links i) p) \<longleftrightarrow> wanted_by links i p c" if "p \<in> set (parsePeersFromConf ?ls)" for p c
    unfolding sync_effective [OF that] by (rule effective_wanted_by [OF pl that])
  have run: "hs_run s = then_run (reconcileMasqLive ok (he_iptables env) i (hc_masq ?h) (previousOwnedMasq ?ls))
     (then_run (run_all_of (map (\<lambda>(k, ips). run_cmd ok [he_wg env, ''set'', i, ''peer'', k, ''allowed-ips'', join '','' ips]
          [PeerSet (take 8 k) ips]) (hc_updates ?h)))
        (sync_routes ok env i (tunnelSubnetFromConfLines ?ls) (hc_routes ?h)))"
    using assms(2) by (auto simp: syncHubConfCore_def Let_def)
  consider "cmd \<in> set (fst (reconcileMasqLive ok (he_iptables env) i (hc_masq ?h) (previousOwnedMasq ?ls)))"
    | k ips where "(k, ips) \<in> set (sync_updates env ?ls links i)" "cmd = [he_wg env, ''set'', i, ''peer'', k, ''allowed-ips'', join '','' ips]"
    | "cmd \<in> set (fst (sync_routes ok env i (tunnelSubnetFromConfLines ?ls) (hc_routes ?h)))"
    using assms(3) by (auto simp: run run_all_fst simp del: sync_change_parts(3,4))
  then show ?thesis
  proof cases
    case 1
    then show ?thesis by (rule masq_cmds_allowed)
  next
    case 2
    from update_of_peer [OF 2(1)] obtain p where p: "p \<in> set (parsePeersFromConf ?ls)" "fst p = k"
      "ips = effective_ips (buildPeerUpdates (parsePeersFromConf ?ls) links i) p" by blast
    show ?thesis using set_cmd [OF p(1), of ips links i env] effective_wanted_by [OF pl p(1)] 2(2) p(2,3) by simp
  next
    case 3
    then obtain out where out: "he_routes env = Some out" by (auto simp: sync_routes_def split: option.splits)
    consider net where "net \<in> set (hc_routes ?h)" "cmd = [he_ip env, ''route'', ''add'', net, ''dev'', i]"
      | l where "l \<in> set (route_lines out)" "stale_route (tunnelSubnetFromConfLines ?ls) (hc_routes ?h) l"
          "cmd = [he_ip env, ''route'', ''del'', first_word l, ''dev'', i]"
      using 3 by (auto simp: sync_routes_def out run_all_fst Let_def simp del: sync_change_parts(3))
    then show ?thesis
    proof cases
      case 1
      note r = route_net_clean [OF pl 1(1)]
      from r(6) obtain p where "p \<in> set (parsePeersFromConf ?ls)" "wanted_by links i p net" using eff by blast
      from add_cmd [OF this r(1,4,3,5)] show ?thesis unfolding 1(2) .
    next
      case 2
      then have s: "CHR ''/'' \<in> set (first_word l)" "\<not> isHostRoute (first_word l)" "\<not> str_includes ''proto kernel'' l"
        "first_word l \<noteq> tunnelSubnetFromConfLines ?ls" "first_word l \<notin> set (hc_routes ?h)"
        by (simp_all add: stale_route_def Let_def)
      have n: "\<not> isValidNetwork (JStr (first_word l)) \<or> (\<exists>n \<in> set (he_nics env). cidrContains (nic_cidr n) (first_word l))"
        if "p \<in> set (parsePeersFromConf ?ls)" "wanted_by links i p (first_word l)" for p
        using s(2,5) that eff [OF that(1)] by (auto simp: exclude_iff route_nets_def)
      show ?thesis unfolding 2(3) by (rule del_cmd [OF out 2(1) s(1-4)]) (rule n)
    qed
  qed
qed

theorem hub_commands_allowed_witness:
  "hub_cmd ex_env (split_lines ex_conf) ex_plain_links ''wg0'' [''ip'', ''route'', ''add'', ''192.168.7.0/24'', ''dev'', ''wg0'']"
proof -
  obtain s where s: "syncHubConfCore (\<lambda>c. True) ex_env (Some ex_conf) ex_plain_links ''wg0'' = Some s"
    by (simp add: syncHubConfCore_def Let_def)
  have "map_option (\<lambda>s. [''ip'', ''route'', ''add'', ''192.168.7.0/24'', ''dev'', ''wg0''] \<in> set (fst (hs_run s)))
      (syncHubConfCore (\<lambda>c. True) ex_env (Some ex_conf) ex_plain_links ''wg0'') = Some True" by code_simp
  then have "[''ip'', ''route'', ''add'', ''192.168.7.0/24'', ''dev'', ''wg0''] \<in> set (fst (hs_run s))" by (simp add: s)
  then show ?thesis by (rule hub_commands_allowed [OF ex_sync_ok(2) s])
qed

end
