(* ===== verification/Agent_Nets.thy ===== *)
theory Agent_Nets
  imports Wg_Hub_Peers
begin

text \<open>
  Which networks an agent may reach through the tunnel, in backend/internal/agent.js: the networks
  of the sites (\<open>_collectSiteNetworks\<close>), the index of the links by name (\<open>_meshIndex\<close>), the access
  lists of an agent and the networks of the other sites that remain (\<open>_computeOtherSiteNets\<close>).
  JSON.parse is an argument. A set of the code is the list of its elements in their order.
\<close>

subsection \<open>Access lists\<close>

datatype agent_error =
    AclNotArray | AclInvalidCidr string | AclShortPrefix string
  | InvalidCidr string | BadInterface

definition acl_entry :: "string \<Rightarrow> string list \<Rightarrow> agent_error + string list" where
  "acl_entry net out =
     (case canonicalizeIpv4Network net of
        None \<Rightarrow> Inl (AclInvalidCidr net)
      | Some canon \<Rightarrow> if \<not> isAcceptableNetworkPrefix canon then Inl (AclShortPrefix net) else Inr (push_new canon out))"

text \<open>\<open>String(x || "").trim()\<close>, without the empty ones.\<close>

definition trimmed_texts :: "jsval list \<Rightarrow> string list" where
  "trimmed_texts vs = filter (\<lambda>s. s \<noteq> []) (map (\<lambda>v. trim (str_or_empty v)) vs)"

definition sanitizeAclNetworks :: "jsval \<Rightarrow> agent_error + string list option" where
  "sanitizeAclNetworks value =
     (if is_nullish value then Inr None
      else case value of
        JArr vs \<Rightarrow> (let nets = uniq (trimmed_texts vs)
                    in if nets = [] then Inr None
                       else (case fold_res acl_entry nets [] of Inl e \<Rightarrow> Inl e | Inr out \<Rightarrow> Inr (Some out)))
      | _ \<Rightarrow> Inl AclNotArray)"

definition sanitizeAclSites :: "jsval \<Rightarrow> string list option" where
  "sanitizeAclSites value =
     (case value of
        JArr vs \<Rightarrow> (let sites = trimmed_texts vs in if sites = [] then None else Some sites)
      | _ \<Rightarrow> None)"

definition parseAllowedSites :: "(string \<Rightarrow> jsval option) \<Rightarrow> string option \<Rightarrow> string list option" where
  "parseAllowedSites json raw =
     (case raw of
        None \<Rightarrow> None
      | Some t \<Rightarrow>
          if t = [] then None
          else (case json t of
             Some (JArr vs) \<Rightarrow> if vs = [] then None else Some (uniq (filter (\<lambda>s. s \<noteq> []) (map (\<lambda>v. trim (js_string v)) vs)))
           | _ \<Rightarrow> None))"

subsection \<open>The mesh\<close>

type_synonym links = "(string \<times> props) list"

definition is_client_link :: "props \<Rightarrow> bool" where
  "is_client_link m \<longleftrightarrow> getp (JObj m) ''type'' = JStr ''client''"

definition imported_nets :: "props \<Rightarrow> string list" where
  "imported_nets m = or_else (meta_list m ''importedNetworks'') []"

definition collectSiteNetworks :: "links \<Rightarrow> string list" where
  "collectSiteNetworks links =
     uniq (filter isAcceptableNetworkPrefix
       (concat (map imported_nets (filter (\<lambda>m. \<not> is_client_link m) (map snd links)))))"

record mesh =
  mi_linksByName :: "(string \<times> props) list"
  mi_allSiteNets :: "string list"
  mi_ambiguous :: "string list"

definition name_count :: "links \<Rightarrow> string \<Rightarrow> nat" where
  "name_count links n = length (filter (\<lambda>l. meta_text (snd l) ''name'' = Some n) links)"

definition link_names :: "links \<Rightarrow> string list" where
  "link_names links = List.map_filter (\<lambda>l. meta_text (snd l) ''name'') links"

definition add_named :: "string list \<Rightarrow> string \<times> props \<Rightarrow> (string \<times> props) list \<Rightarrow> (string \<times> props) list" where
  "add_named ambiguous l out =
     (case meta_text (snd l) ''name'' of
        None \<Rightarrow> out
      | Some n \<Rightarrow> if n \<in> set ambiguous then out else AList.update n (snd l) out)"

definition meshIndex :: "links \<Rightarrow> mesh" where
  "meshIndex links =
     (let ambiguous = filter (\<lambda>n. 1 < name_count links n) (uniq (link_names links))
      in \<lparr>mi_linksByName = fold (add_named ambiguous) links [],
          mi_allSiteNets = collectSiteNetworks links,
          mi_ambiguous = ambiguous\<rparr>)"

subsection \<open>The networks of the other sites\<close>

record other_nets =
  on_nets :: "string list"
  on_orphans :: "string list"
  on_overlaps :: "string list"
  on_supernets :: "string list"

record net_request =
  nr_allowedNetworks :: "string list option"
  nr_allowedSites :: "string list option"
  nr_allSiteNets :: "string list"
  nr_own :: "string list"
  nr_linksByName :: "(string \<times> props) list"
  nr_dropOverlaps :: bool

definition insideOwn :: "net_request \<Rightarrow> string \<Rightarrow> bool" where
  "insideOwn q n \<longleftrightarrow> nr_dropOverlaps q \<and> list_ex (\<lambda>own. cidrContains own n) (nr_own q)"

definition coversOwn :: "net_request \<Rightarrow> string \<Rightarrow> bool" where
  "coversOwn q n \<longleftrightarrow> nr_dropOverlaps q \<and> \<not> insideOwn q n \<and> list_ex (\<lambda>own. cidrContains n own) (nr_own q)"

definition split_nets :: "net_request \<Rightarrow> string list \<Rightarrow> string list \<Rightarrow> other_nets" where
  "split_nets q nets orphans =
     \<lparr>on_nets = filter (\<lambda>n. \<not> insideOwn q n) nets, on_orphans = orphans,
      on_overlaps = filter (insideOwn q) nets, on_supernets = filter (coversOwn q) nets\<rparr>"

text \<open>A link name has to be there for \<open>allowedSites.has(lm.name)\<close>, which it is for the links of the index.\<close>

definition site_allows :: "net_request \<Rightarrow> string list \<Rightarrow> string \<Rightarrow> bool" where
  "site_allows q sites n \<longleftrightarrow>
     list_ex (\<lambda>(k, m). \<not> is_client_link m \<and> (case meta_text m ''name'' of None \<Rightarrow> False | Some x \<Rightarrow> x \<in> set sites)
        \<and> n \<in> set (imported_nets m)) (nr_linksByName q)"

definition computeOtherSiteNets :: "net_request \<Rightarrow> other_nets" where
  "computeOtherSiteNets q =
     (case nr_allowedNetworks q of
        Some acl \<Rightarrow>
          split_nets q (filter (\<lambda>n. n \<notin> set (nr_own q) \<and> n \<in> set (nr_allSiteNets q)) acl)
            (filter (\<lambda>n. n \<notin> set (nr_own q) \<and> n \<notin> set (nr_allSiteNets q)) acl)
      | None \<Rightarrow>
          split_nets q (filter (\<lambda>n. n \<notin> set (nr_own q)
              \<and> (case nr_allowedSites q of None \<Rightarrow> True | Some sites \<Rightarrow> site_allows q sites n)) (nr_allSiteNets q)) [])"

record agent_acl =
  aa_networks :: "string option"
  aa_sites :: "string option"

definition agentOtherSiteNets :: "(string \<Rightarrow> jsval option) \<Rightarrow> agent_acl \<Rightarrow> props \<Rightarrow> mesh \<Rightarrow> other_nets" where
  "agentOtherSiteNets json agent linkMeta mesh =
     computeOtherSiteNets \<lparr>nr_allowedNetworks = parseAllowedSites json (aa_networks agent),
       nr_allowedSites = parseAllowedSites json (aa_sites agent),
       nr_allSiteNets = mi_allSiteNets mesh,
       nr_own = uniq (imported_nets linkMeta),
       nr_linksByName = mi_linksByName mesh,
       nr_dropOverlaps = (\<not> is_client_link linkMeta)\<rparr>"

definition computeHubPeerAllowedIPs :: "string \<Rightarrow> string list \<Rightarrow> string list" where
  "computeHubPeerAllowedIPs tunnelSubnet otherSiteNets = sort (uniq (tunnelSubnet # otherSiteNets))"

subsection \<open>What the index holds\<close>

lemma name_count_pos: "(lid, m) \<in> set links \<Longrightarrow> meta_text m ''name'' = Some n \<Longrightarrow> 0 < name_count links n"
  by (induction links) (auto simp: name_count_def)

lemma name_count_one:
  assumes "name_count links n = 1" "l \<in> set links" "l' \<in> set links" "meta_text (snd l) ''name'' = Some n" "meta_text (snd l') ''name'' = Some n"
  shows "l = l'"
proof -
  obtain x where x: "filter (\<lambda>l. meta_text (snd l) ''name'' = Some n) links = [x]"
    using assms(1) by (auto simp: name_count_def length_Suc_conv)
  moreover have "l \<in> set (filter (\<lambda>l. meta_text (snd l) ''name'' = Some n) links)"
    "l' \<in> set (filter (\<lambda>l. meta_text (snd l) ''name'' = Some n) links)" using assms(2-5) by auto
  ultimately show ?thesis by simp
qed

lemma ambiguous_iff: "n \<in> set (mi_ambiguous (meshIndex links)) \<longleftrightarrow> 1 < name_count links n"
proof -
  have "1 < name_count links n \<Longrightarrow> n \<in> set (link_names links)"
  proof -
    assume "1 < name_count links n"
    then have "filter (\<lambda>l. meta_text (snd l) ''name'' = Some n) links \<noteq> []" by (auto simp: name_count_def)
    then obtain l where "l \<in> set links" "meta_text (snd l) ''name'' = Some n" by (auto simp: filter_empty_conv)
    then have "(fst l, snd l) \<in> set links" "meta_text (snd l) ''name'' = Some n" by simp_all
    then show ?thesis by (force simp: link_names_def List.map_filter_def)
  qed
  then show ?thesis by (auto simp: meshIndex_def Let_def)
qed

lemma add_named_pass:
  assumes "distinct (map fst out)" "\<forall>n. n \<notin> set amb \<longrightarrow> n \<notin> fst ` set out \<or> name_count ls n = 0"
    and "\<forall>n. n \<notin> set amb \<longrightarrow> name_count ls n \<le> 1"
  shows "distinct (map fst (fold (add_named amb) ls out)) \<and> set (fold (add_named amb) ls out)
    = set out \<union> {(n, m). \<exists>lid. (lid, m) \<in> set ls \<and> meta_text m ''name'' = Some n \<and> n \<notin> set amb}"
  using assms
proof (induction ls arbitrary: out)
  case (Cons l ls)
  obtain lid m where l: "l = (lid, m)" by (cases l)
  have cnt: "name_count (l # ls) n = (if meta_text m ''name'' = Some n then 1 else 0) + name_count ls n" for n
    by (simp add: name_count_def l)
  consider "add_named amb l out = out" "meta_text m ''name'' = None \<or> the (meta_text m ''name'') \<in> set amb"
    | n where "meta_text m ''name'' = Some n" "n \<notin> set amb" "add_named amb l out = AList.update n m out"
    by (cases "meta_text m ''name''") (auto simp: add_named_def l)
  then show ?case
  proof cases
    case 1
    have "\<forall>n. n \<notin> set amb \<longrightarrow> n \<notin> fst ` set out \<or> name_count ls n = 0" "\<forall>n. n \<notin> set amb \<longrightarrow> name_count ls n \<le> 1"
      using Cons.prems(2,3) by (force simp: cnt)+
    from Cons.IH [OF Cons.prems(1) this] show ?thesis using 1 by (auto simp: l)
  next
    case 2
    have "n \<notin> fst ` set out" using Cons.prems(2) 2(1,2) cnt [of n] by force
    then have u: "AList.update n m out = out @ [(n, m)]" by (induction out) auto
    have z: "name_count ls n = 0" using Cons.prems(3) 2(1,2) cnt [of n] by force
    have "distinct (map fst (out @ [(n, m)]))" using Cons.prems(1) \<open>n \<notin> fst ` set out\<close> by simp
    moreover have "\<forall>k. k \<notin> set amb \<longrightarrow> k \<notin> fst ` set (out @ [(n, m)]) \<or> name_count ls k = 0"
      using Cons.prems(2) z by (force simp: cnt)
    moreover have "\<forall>k. k \<notin> set amb \<longrightarrow> name_count ls k \<le> 1" using Cons.prems(3) by (force simp: cnt)
    ultimately show ?thesis using Cons.IH [of "out @ [(n, m)]"] 2 by (auto simp: l u)
  qed
qed simp

lemma linksByName_iff:
  "(n, m) \<in> set (mi_linksByName (meshIndex links)) \<longleftrightarrow>
     (\<exists>lid. (lid, m) \<in> set links) \<and> meta_text m ''name'' = Some n \<and> name_count links n = 1"
  "distinct (map fst (mi_linksByName (meshIndex links)))"
proof -
  let ?amb = "mi_ambiguous (meshIndex links)"
  have m: "mi_linksByName (meshIndex links) = fold (add_named ?amb) links []" by (simp add: meshIndex_def Let_def)
  have a: "\<forall>n. n \<notin> set ?amb \<longrightarrow> name_count links n \<le> 1" by (auto simp: ambiguous_iff)
  note p = add_named_pass [of "[]" ?amb links, OF _ _ a]
  then show "distinct (map fst (mi_linksByName (meshIndex links)))" unfolding m by simp
  from p show "(n, m) \<in> set (mi_linksByName (meshIndex links)) \<longleftrightarrow>
     (\<exists>lid. (lid, m) \<in> set links) \<and> meta_text m ''name'' = Some n \<and> name_count links n = 1"
  proof -
    have "name_count links n = 1 \<longleftrightarrow> n \<notin> set ?amb" if "(i, m) \<in> set links" "meta_text m ''name'' = Some n" for i
      using name_count_pos [OF that] unfolding ambiguous_iff by linarith
    then show ?thesis using p unfolding m by auto
  qed
qed

lemma siteNets_iff:
  "n \<in> set (mi_allSiteNets (meshIndex links)) \<longleftrightarrow>
     isAcceptableNetworkPrefix n \<and> (\<exists>lid m. (lid, m) \<in> set links \<and> \<not> is_client_link m \<and> n \<in> set (imported_nets m))"
proof -
  have "(\<exists>m \<in> snd ` set links. \<not> is_client_link m \<and> n \<in> set (imported_nets m))
    \<longleftrightarrow> (\<exists>lid m. (lid, m) \<in> set links \<and> \<not> is_client_link m \<and> n \<in> set (imported_nets m))" by force
  then show ?thesis by (auto simp: meshIndex_def Let_def collectSiteNetworks_def)
qed

subsection \<open>What an agent may reach\<close>

text \<open>What the access lists of an agent say about a network.\<close>

definition acl_allows :: "(string \<Rightarrow> jsval option) \<Rightarrow> links \<Rightarrow> agent_acl \<Rightarrow> string \<Rightarrow> bool" where
  "acl_allows json links agent n \<longleftrightarrow>
     (case parseAllowedSites json (aa_networks agent) of
        Some nets \<Rightarrow> n \<in> set nets
      | None \<Rightarrow> (case parseAllowedSites json (aa_sites agent) of
            None \<Rightarrow> True
          | Some sites \<Rightarrow> \<exists>lid m x. (lid, m) \<in> set links \<and> \<not> is_client_link m \<and> n \<in> set (imported_nets m)
                \<and> meta_text m ''name'' = Some x \<and> name_count links x = 1 \<and> x \<in> set sites))"

lemma site_allows_iff:
  "nr_linksByName q = mi_linksByName (meshIndex links) \<Longrightarrow> site_allows q sites n \<longleftrightarrow>
     (\<exists>lid m x. (lid, m) \<in> set links \<and> \<not> is_client_link m \<and> n \<in> set (imported_nets m)
        \<and> meta_text m ''name'' = Some x \<and> name_count links x = 1 \<and> x \<in> set sites)"
proof -
  assume q: "nr_linksByName q = mi_linksByName (meshIndex links)"
  have "site_allows q sites n \<longleftrightarrow> (\<exists>x m. (x, m) \<in> set (mi_linksByName (meshIndex links)) \<and> \<not> is_client_link m
      \<and> n \<in> set (imported_nets m) \<and> (case meta_text m ''name'' of None \<Rightarrow> False | Some x \<Rightarrow> x \<in> set sites))"
    unfolding site_allows_def q list_ex_iff by force
  also have "\<dots> \<longleftrightarrow> (\<exists>x m. (x, m) \<in> set (mi_linksByName (meshIndex links)) \<and> \<not> is_client_link m
      \<and> n \<in> set (imported_nets m) \<and> x \<in> set sites)"
  proof -
    have "meta_text m ''name'' = Some x" if "(x, m) \<in> set (mi_linksByName (meshIndex links))" for x m
      using that linksByName_iff(1) [of x m links] by blast
    then have "((x, m) \<in> set (mi_linksByName (meshIndex links)) \<and> \<not> is_client_link m \<and> n \<in> set (imported_nets m)
        \<and> (case meta_text m ''name'' of None \<Rightarrow> False | Some x \<Rightarrow> x \<in> set sites))
      \<longleftrightarrow> ((x, m) \<in> set (mi_linksByName (meshIndex links)) \<and> \<not> is_client_link m \<and> n \<in> set (imported_nets m) \<and> x \<in> set sites)" for x m
      by (cases "(x, m) \<in> set (mi_linksByName (meshIndex links))") simp_all
    then show ?thesis by (simp only:)
  qed
  finally show ?thesis unfolding linksByName_iff(1) by blast
qed

lemma other_nets_iff:
  "n \<in> set (on_nets (agentOtherSiteNets json agent own (meshIndex links))) \<longleftrightarrow>
     (\<exists>lid m. (lid, m) \<in> set links \<and> \<not> is_client_link m \<and> n \<in> set (imported_nets m))
     \<and> isAcceptableNetworkPrefix n \<and> acl_allows json links agent n \<and> n \<notin> set (imported_nets own)
     \<and> (is_client_link own \<or> \<not> (\<exists>net \<in> set (imported_nets own). \<exists>A B. cidr_set net = Some A \<and> cidr_set n = Some B \<and> B \<subseteq> A))"
  (is "?l \<longleftrightarrow> ?r")
proof -
  define q where "q = \<lparr>nr_allowedNetworks = parseAllowedSites json (aa_networks agent),
       nr_allowedSites = parseAllowedSites json (aa_sites agent), nr_allSiteNets = mi_allSiteNets (meshIndex links),
       nr_own = uniq (imported_nets own), nr_linksByName = mi_linksByName (meshIndex links), nr_dropOverlaps = (\<not> is_client_link own)\<rparr>"
  have l: "nr_linksByName q = mi_linksByName (meshIndex links)" by (simp add: q_def)
  have own: "insideOwn q n \<longleftrightarrow> \<not> is_client_link own \<and> (\<exists>net \<in> set (imported_nets own). \<exists>A B. cidr_set net = Some A \<and> cidr_set n = Some B \<and> B \<subseteq> A)"
    by (simp add: insideOwn_def q_def list_ex_iff cidrContains_iff_subset)
  have acl: "n \<in> set (on_nets (computeOtherSiteNets q)) \<longleftrightarrow> n \<in> set (nr_allSiteNets q) \<and> n \<notin> set (nr_own q) \<and> \<not> insideOwn q n
      \<and> (case nr_allowedNetworks q of Some nets \<Rightarrow> n \<in> set nets
          | None \<Rightarrow> (case nr_allowedSites q of None \<Rightarrow> True | Some sites \<Rightarrow> site_allows q sites n))"
    by (cases "nr_allowedNetworks q"; cases "nr_allowedSites q") (auto simp: computeOtherSiteNets_def split_nets_def)
  have "acl_allows json links agent n \<longleftrightarrow> (case nr_allowedNetworks q of Some nets \<Rightarrow> n \<in> set nets
          | None \<Rightarrow> (case nr_allowedSites q of None \<Rightarrow> True | Some sites \<Rightarrow> site_allows q sites n))"
    unfolding acl_allows_def site_allows_iff [OF l] by (simp add: q_def cong: option.case_cong)
  moreover have "agentOtherSiteNets json agent own (meshIndex links) = computeOtherSiteNets q"
    by (simp add: agentOtherSiteNets_def q_def)
  moreover have "nr_allSiteNets q = mi_allSiteNets (meshIndex links)" "set (nr_own q) = set (imported_nets own)" by (simp_all add: q_def)
  ultimately show ?thesis using acl siteNets_iff [of n links] own by auto
qed

text \<open>C14: The networks the hub routes to an agent are exactly these: a site (no client link) lists the
  network, its prefix is not shorter than the shortest accepted one, the agent's access list allows
  it (its networks before its sites, everything without either; a site counts by its name only when
  no other link has that name), it is none of the agent's own networks, and, for the agent of a
  site, it does not lie inside one of them, address for address, so that no part of the agent's own
  network is routed into the tunnel.\<close>

theorem agent_reach_exact:
  "n \<in> set (on_nets (agentOtherSiteNets json agent own (meshIndex links))) \<longleftrightarrow>
     (\<exists>lid m. (lid, m) \<in> set links \<and> \<not> is_client_link m \<and> n \<in> set (imported_nets m))
     \<and> isAcceptableNetworkPrefix n \<and> acl_allows json links agent n \<and> n \<notin> set (imported_nets own)
     \<and> (is_client_link own \<or> \<not> (\<exists>net \<in> set (imported_nets own). \<exists>A B. cidr_set net = Some A \<and> cidr_set n = Some B \<and> B \<subseteq> A))"
  by (rule other_nets_iff)

text \<open>C18: The access list of networks is stored clean: every entry is a canonical IPv4 network with host
  bits cleared and a prefix of at least eight bits, none comes twice, it is one of the given texts
  in canonical form, and an empty list is never stored, since that would mean no network at all.
  Storing fails exactly when the value is no list or some text is no such network.\<close>

theorem sanitizeAclNetworks_bounds:
  "(case sanitizeAclNetworks value of
      Inr None \<Rightarrow> is_nullish value \<or> (\<exists>vs. value = JArr vs \<and> trimmed_texts vs = [])
    | Inr (Some out) \<Rightarrow> \<exists>vs. value = JArr vs \<and> out \<noteq> [] \<and> distinct out
        \<and> (\<forall>n \<in> set out. \<exists>a p. p \<in> {8..32} \<and> n = cidr_text a p \<and> a AND prefix_mask p = a)
        \<and> set out = {c. \<exists>t \<in> set (trimmed_texts vs). canonicalizeIpv4Network t = Some c}
        \<and> (\<forall>t \<in> set (trimmed_texts vs). \<exists>c. canonicalizeIpv4Network t = Some c \<and> isAcceptableNetworkPrefix c)
    | Inl e \<Rightarrow> (\<forall>vs. value \<noteq> JArr vs) \<or> (\<exists>vs. value = JArr vs \<and> (\<exists>t \<in> set (trimmed_texts vs).
        canonicalizeIpv4Network t = None \<or> (\<exists>c. canonicalizeIpv4Network t = Some c \<and> \<not> isAcceptableNetworkPrefix c))))"
proof (cases "\<exists>vs. value = JArr vs \<and> trimmed_texts vs \<noteq> []")
  case False
  then show ?thesis by (auto simp: sanitizeAclNetworks_def uniq_def split: jsval.split)
next
  case True
  then obtain vs where v: "value = JArr vs" "trimmed_texts vs \<noteq> []" by blast
  let ?ts = "uniq (trimmed_texts vs)"
  have run: "case fold_res acl_entry ts out of
      Inr r \<Rightarrow> set r = set out \<union> {c. \<exists>t \<in> set ts. canonicalizeIpv4Network t = Some c} \<and> (distinct out \<longrightarrow> distinct r)
        \<and> (\<forall>t \<in> set ts. \<exists>c. canonicalizeIpv4Network t = Some c \<and> isAcceptableNetworkPrefix c)
    | Inl e \<Rightarrow> \<exists>t \<in> set ts. canonicalizeIpv4Network t = None \<or> (\<exists>c. canonicalizeIpv4Network t = Some c \<and> \<not> isAcceptableNetworkPrefix c)"
    for ts out
  proof (induction ts arbitrary: out)
    case (Cons t ts)
    show ?case
    proof (cases "canonicalizeIpv4Network t")
      case None
      then show ?thesis by (simp add: acl_entry_def)
    next
      case (Some c)
      show ?thesis
      proof (cases "isAcceptableNetworkPrefix c")
        case True
        then have "acl_entry t out = Inr (push_new c out)" by (simp add: acl_entry_def Some)
        moreover have "set (push_new c out) = insert c (set out)" "distinct out \<Longrightarrow> distinct (push_new c out)" by (auto simp: push_new_def)
        ultimately show ?thesis using Cons.IH [of "push_new c out"] Some True
          by (cases "fold_res acl_entry ts (push_new c out)") auto
      qed (use Some in \<open>auto simp: acl_entry_def\<close>)
    qed
  qed simp
  have shape: "\<exists>a p. p \<in> {8..32} \<and> c = cidr_text a p \<and> a AND prefix_mask p = a"
    if c: "canonicalizeIpv4Network t = Some c" "isAcceptableNetworkPrefix c" for t c
  proof -
    have "CHR ''/'' \<in> set (trim t)" "canonicalCidr t = Some c" using c(1) canonicalizeIpv4Network_eq [of t] by (simp_all split: if_splits)
    then obtain a p where p: "p \<le> 32" "a AND prefix_mask p = a" "c = cidr_text a p" by (auto elim: canonicalCidr_cases)
    have "8 \<le> p" using c(2) acceptable_text [OF p(1)] unfolding p(3) by simp
    then show ?thesis using p by auto
  qed
  have ne: "?ts \<noteq> []" using v(2) by (metis set_empty set_uniq)
  show ?thesis
  proof (cases "fold_res acl_entry ?ts []")
    case (Inl e)
    then show ?thesis using run [of ?ts "[]"] v ne by (simp add: sanitizeAclNetworks_def)
  next
    case (Inr r)
    then have r: "set r = {c. \<exists>t \<in> set (trimmed_texts vs). canonicalizeIpv4Network t = Some c}" "distinct r"
      "\<forall>t \<in> set (trimmed_texts vs). \<exists>c. canonicalizeIpv4Network t = Some c \<and> isAcceptableNetworkPrefix c"
      using run [of ?ts "[]"] by auto
    have "\<forall>n \<in> set r. \<exists>a p. p \<in> {8..32} \<and> n = cidr_text a p \<and> a AND prefix_mask p = a"
      using r shape by fastforce
    moreover have "r \<noteq> []" using r(1,3) v(2) by (metis (mono_tags, lifting) empty_iff list.set(1) mem_Collect_eq list.set_sel(1))
    ultimately show ?thesis using Inr r v ne by (simp add: sanitizeAclNetworks_def)
  qed
qed

definition ex_mesh :: links where
  "ex_mesh = [(''wg0:A'', [(''name'', JStr ''muc''), (''importedNetworks'', JArr [JStr ''10.1.0.0/16''])]),
     (''wg0:B'', [(''name'', JStr ''ber''), (''importedNetworks'', JArr [JStr ''10.2.0.0/16'', JStr ''10.1.9.0/24'', JStr ''0.0.0.0/1''])]),
     (''wg0:C'', [(''name'', JStr ''phone''), (''type'', JStr ''client''), (''importedNetworks'', JArr [JStr ''10.9.0.0/16''])])]"

theorem agent_reach_exact_witness:
  "''10.2.0.0/16'' \<in> set (on_nets (agentOtherSiteNets (\<lambda>t. None) \<lparr>aa_networks = None, aa_sites = None\<rparr> (snd (ex_mesh ! 0)) (meshIndex ex_mesh)))
   \<and> (\<exists>lid m. (lid, m) \<in> set ex_mesh \<and> \<not> is_client_link m \<and> ''10.2.0.0/16'' \<in> set (imported_nets m))"
proof -
  have m: "''10.2.0.0/16'' \<in> set (on_nets (agentOtherSiteNets (\<lambda>t. None) \<lparr>aa_networks = None, aa_sites = None\<rparr> (snd (ex_mesh ! 0)) (meshIndex ex_mesh)))"
    by code_simp
  with agent_reach_exact [of "''10.2.0.0/16''" "\<lambda>t. None" "\<lparr>aa_networks = None, aa_sites = None\<rparr>" "snd (ex_mesh ! 0)" ex_mesh]
  show ?thesis by blast
qed

theorem sanitizeAclNetworks_bounds_witness:
  "\<exists>out. sanitizeAclNetworks (JArr [JStr '' 10.1.2.3/16'', JStr ''10.1.0.0/16'', JStr '''']) = Inr (Some out)
    \<and> distinct out \<and> set out = {c. \<exists>t \<in> set [''10.1.2.3/16'', ''10.1.0.0/16'']. canonicalizeIpv4Network t = Some c}"
proof -
  let ?v = "JArr [JStr '' 10.1.2.3/16'', JStr ''10.1.0.0/16'', JStr '''']"
  have r: "sanitizeAclNetworks ?v = Inr (Some [''10.1.0.0/16''])" by code_simp
  have t: "trimmed_texts [JStr '' 10.1.2.3/16'', JStr ''10.1.0.0/16'', JStr ''''] = [''10.1.2.3/16'', ''10.1.0.0/16'']" by code_simp
  from sanitizeAclNetworks_bounds [of ?v] obtain vs where vs: "?v = JArr vs" "distinct [''10.1.0.0/16'']"
    "set [''10.1.0.0/16''] = {c. \<exists>t \<in> set (trimmed_texts vs). canonicalizeIpv4Network t = Some c}"
    unfolding r sum.case option.case by blast
  have "vs = [JStr '' 10.1.2.3/16'', JStr ''10.1.0.0/16'', JStr '''']" using vs(1) by (simp only: jsval.inject)
  from vs(3) [unfolded this t] r vs(2) show ?thesis by blast
qed

text \<open>The agent's own networks are taken as they are stored: a stored network shorter than the shortest
  accepted prefix, which is never routed anywhere, still counts as the agent's own and keeps
  every network inside it away from the agent.\<close>

lemma short_own_net_blocks_others:
  "on_nets (agentOtherSiteNets (\<lambda>t. None) \<lparr>aa_networks = None, aa_sites = None\<rparr> (snd (ex_mesh ! 1)) (meshIndex ex_mesh)) = []"
  "on_overlaps (agentOtherSiteNets (\<lambda>t. None) \<lparr>aa_networks = None, aa_sites = None\<rparr> (snd (ex_mesh ! 1)) (meshIndex ex_mesh)) = [''10.1.0.0/16'']"
  "\<not> isAcceptableNetworkPrefix ''0.0.0.0/1''"
  by code_simp+

end
