(* ===== verification/Agent_Conf.thy ===== *)
theory Agent_Conf
  imports Agent_Nets
begin

text \<open>
  The configuration text the hub keeps for an agent, in backend/internal/agent.js: reading and
  rewriting the networks and the endpoint of the hub peer, the hooks the hub generates and
  \<open>normalizeAgentConfig\<close>, which puts them into the text and takes the key out. An exception is the left
  side of a sum.
\<close>

subsection \<open>The hub peer\<close>

text \<open>The number of peers begun so far, and whether the line stands in one.\<close>

type_synonym zone = "nat \<times> bool"

definition next_zone :: "string \<Rightarrow> zone \<Rightarrow> zone" where
  "next_zone raw z =
     (if trim raw = ''[Peer]'' then (Suc (fst z), True) else if starts_with ''['' (trim raw) then (fst z, False) else z)"

definition hub_line :: "string \<Rightarrow> zone \<Rightarrow> string \<Rightarrow> bool" where
  "hub_line key z raw \<longleftrightarrow>
     trim raw \<noteq> ''[Peer]'' \<and> \<not> starts_with ''['' (trim raw) \<and> snd z \<and> fst z = 1 \<and> starts_with key (trim raw)"

fun hub_ips :: "zone \<Rightarrow> string list \<Rightarrow> string list" where
  "hub_ips z [] = []"
| "hub_ips z (raw # rest) =
     (if hub_line ''AllowedIPs'' z raw then comma_list (valOf (trim raw)) else []) @ hub_ips (next_zone raw z) rest"

definition parseHubPeerAllowedIPs :: "string \<Rightarrow> string list" where
  "parseHubPeerAllowedIPs configText = hub_ips (0, False) (split_lines configText)"

fun set_hub_ips :: "string list \<Rightarrow> zone \<Rightarrow> bool \<Rightarrow> string list \<Rightarrow> string list" where
  "set_hub_ips ips z replaced [] = []"
| "set_hub_ips ips z replaced (raw # rest) =
     (if hub_line ''AllowedIPs'' z raw
      then (if replaced then [] else [''AllowedIPs = '' @ join '', '' ips]) @ set_hub_ips ips (next_zone raw z) True rest
      else raw # set_hub_ips ips (next_zone raw z) replaced rest)"

definition rewriteHubPeerAllowedIPs :: "string \<Rightarrow> string list \<Rightarrow> string" where
  "rewriteHubPeerAllowedIPs configText ips = join [LF] (set_hub_ips ips (0, False) False (split_lines configText))"

subsection \<open>The endpoint of the hub\<close>

text \<open>\<open>:\s*(\d+)\s*(#.*)?$\<close> after white space: the port and the comment.\<close>

definition endpoint_tail :: "string \<Rightarrow> (string \<times> string option) option" where
  "endpoint_tail s =
     (case dropWhile js_ws s of
        c # r \<Rightarrow>
          if c \<noteq> CHR '':'' then None
          else (let r = dropWhile js_ws r; p = takeWhile is_digit r; r = dropWhile js_ws (dropWhile is_digit r)
                in if p = [] then None
                   else if r = [] then Some (p, None)
                   else if starts_with ''#'' r \<and> list_all (\<lambda>c. c \<noteq> LF \<and> c \<noteq> CR) r then Some (p, Some r)
                   else None)
      | [] \<Rightarrow> None)"

text \<open>\<open>([^#]*?)\<close> in front of it: the shortest host.\<close>

fun endpoint_parts :: "string \<Rightarrow> string \<Rightarrow> (string \<times> string \<times> string option) option" where
  "endpoint_parts host [] = None"
| "endpoint_parts host (c # r) =
     (case endpoint_tail (c # r) of
        Some (p, com) \<Rightarrow> Some (host, p, com)
      | None \<Rightarrow> if c = CHR ''#'' then None else endpoint_parts (host @ [c]) r)"

definition endpoint_match :: "string \<Rightarrow> (string \<times> string \<times> string option) option" where
  "endpoint_match t =
     (case strip_prefix ''Endpoint'' t of None \<Rightarrow> None
      | Some r \<Rightarrow> (case dropWhile js_ws r of
            c # r \<Rightarrow> if c = CHR ''='' then endpoint_parts [] (dropWhile js_ws r) else None
          | [] \<Rightarrow> None))"

definition is_ip_host :: "string \<Rightarrow> bool" where
  "is_ip_host h \<longleftrightarrow> ipv4_groups h \<noteq> None \<or> starts_with ''['' h"

definition new_endpoint :: "string \<Rightarrow> string \<Rightarrow> string \<times> string \<times> string option \<Rightarrow> string" where
  "new_endpoint hubHost raw m =
     (let (host, p, com) = m
      in if is_ip_host host \<and> \<not> is_ip_host hubHost then raw
         else if to_lower host = to_lower hubHost then raw
         else ''Endpoint = '' @ hubHost @ '':'' @ p @ (case com of None \<Rightarrow> [] | Some c \<Rightarrow> '' '' @ c))"

fun set_endpoint :: "string \<Rightarrow> zone \<Rightarrow> bool \<Rightarrow> string list \<Rightarrow> string list" where
  "set_endpoint hubHost z replaced [] = []"
| "set_endpoint hubHost z replaced (raw # rest) =
     (if hub_line ''Endpoint'' z raw \<and> \<not> replaced
      then (case endpoint_match (trim raw) of
              None \<Rightarrow> raw # set_endpoint hubHost (next_zone raw z) replaced rest
            | Some m \<Rightarrow> new_endpoint hubHost raw m # set_endpoint hubHost (next_zone raw z) True rest)
      else raw # set_endpoint hubHost (next_zone raw z) replaced rest)"

definition rewriteHubPeerEndpoint :: "string \<Rightarrow> string option \<Rightarrow> string" where
  "rewriteHubPeerEndpoint configText hubHost =
     (case hubHost of None \<Rightarrow> configText
      | Some host \<Rightarrow> if configText = [] \<or> host = [] then configText
                     else join [LF] (set_endpoint host (0, False) False (split_lines configText)))"

subsection \<open>The tunnel network\<close>

text \<open>\<open>\s*Address\s*=\s*([\d.]+)\/(\d+)\<close> at the start of a text, in any case of letters.\<close>

definition address_at :: "string \<Rightarrow> (string \<times> string) option" where
  "address_at s =
     (let r = dropWhile js_ws s; r2 = dropWhile js_ws (drop 7 r)
      in if to_lower (take 7 r) \<noteq> ''address'' \<or> \<not> starts_with ''='' r2 then None
         else (let v = dropWhile js_ws (tl r2);
                   a = takeWhile (\<lambda>c. is_digit c \<or> c = CHR ''.'') v;
                   r3 = dropWhile (\<lambda>c. is_digit c \<or> c = CHR ''.'') v;
                   m = takeWhile is_digit (tl r3)
               in if a = [] \<or> \<not> starts_with ''/'' r3 \<or> m = [] then None else Some (a, m)))"

text \<open>The first match at the beginning of a line.\<close>

fun find_address :: "bool \<Rightarrow> string \<Rightarrow> (string \<times> string) option" where
  "find_address lineStart [] = None"
| "find_address lineStart (c # cs) =
     (case (if lineStart then address_at (c # cs) else None) of
        Some m \<Rightarrow> Some m
      | None \<Rightarrow> find_address (c = LF \<or> c = CR) cs)"

definition subnet_of_address :: "(string \<times> string) option \<Rightarrow> string" where
  "subnet_of_address m =
     (case m of None \<Rightarrow> ''10.10.0.0/24''
      | Some (a, t) \<Rightarrow>
          (let mask = nat_of_digits t
           in if mask < 1 \<or> 32 < mask then ''10.10.0.0/24''
              else or_else (canonicalizeIpv4Network (a @ ''/'' @ (if mask = 32 then ''24'' else str_of_nat mask))) ''10.10.0.0/24''))"

definition deriveTunnelSubnet :: "string \<Rightarrow> string" where
  "deriveTunnelSubnet configText = subnet_of_address (find_address True configText)"

subsection \<open>The hooks\<close>

definition CIDR_RE :: "string \<Rightarrow> bool" where
  "CIDR_RE value = (case split_on CHR ''/'' value of [a, p] \<Rightarrow> ipv4_groups a \<noteq> None \<and> digits_upto 2 p | _ \<Rightarrow> False)"

definition assertCIDR :: "string \<Rightarrow> agent_error + unit" where
  "assertCIDR value = (if CIDR_RE value then Inr () else Inl (InvalidCidr value))"

definition VALID_WG_INTERFACE_RE :: "string \<Rightarrow> bool" where
  "VALID_WG_INTERFACE_RE s = (case strip_prefix ''wg'' s of None \<Rightarrow> False | Some d \<Rightarrow> digits_upto 3 d)"

definition sanitizeWgInterface :: "jsval \<Rightarrow> agent_error + string" where
  "sanitizeWgInterface name =
     (case (if js_truthy name then name else JStr ''wg0'') of
        JStr n \<Rightarrow> if VALID_WG_INTERFACE_RE n then Inr n else Inl BadInterface
      | _ \<Rightarrow> Inl BadInterface)"

text \<open>The options of the hooks: the interface and the networks that keep their source address.\<close>

record hook_opts =
  ho_iface :: jsval
  ho_localNets :: "string list"

definition checked :: "(string \<Rightarrow> string) \<Rightarrow> string \<Rightarrow> string \<Rightarrow> agent_error + string" where
  "checked cmd net rules = bind_res (assertCIDR net) (\<lambda>_. Inr (rules @ cmd net))"

definition masq_out :: "bool \<Rightarrow> string \<Rightarrow> string \<Rightarrow> string" where
  "masq_out isUp iface net =
     ''; iptables -t nat -'' @ (if isUp then ''A'' else ''D'') @ '' POSTROUTING ! -o '' @ iface @ '' -s '' @ net @ '' -j MASQUERADE''"

definition keep_source :: "bool \<Rightarrow> string \<Rightarrow> string \<Rightarrow> string" where
  "keep_source isUp tunnel net =
     ''; iptables -t nat -'' @ (if isUp then ''A'' else ''D'') @ '' POSTROUTING -s '' @ tunnel @ '' -d '' @ net @ '' -j RETURN''"

definition peer_route :: "bool \<Rightarrow> string \<Rightarrow> string \<Rightarrow> string" where
  "peer_route isUp iface net =
     ''; ip route '' @ (if isUp then ''add'' else ''del'') @ '' '' @ net @ '' dev '' @ iface @ silent"

definition forward_rules :: "bool \<Rightarrow> string \<Rightarrow> string" where
  "forward_rules isUp iface =
     (if isUp then ''sysctl -w net.ipv4.ip_forward=1; '' else [])
     @ ''iptables -'' @ (if isUp then ''A'' else ''D'') @ '' FORWARD -i '' @ iface @ '' -j ACCEPT; iptables -''
     @ (if isUp then ''A'' else ''D'') @ '' FORWARD -o '' @ iface @ '' -j ACCEPT''"

text \<open>\<open>buildHubPostUp\<close> and \<open>buildHubPostDown\<close>, which differ in the verbs and in the first command.\<close>

definition build_hook :: "bool \<Rightarrow> string \<Rightarrow> string list \<Rightarrow> string list \<Rightarrow> hook_opts \<Rightarrow> agent_error + string" where
  "build_hook isUp tunnelSubnet remoteSiteNets peerNets opts =
     bind_res (sanitizeWgInterface (ho_iface opts)) (\<lambda>iface.
     bind_res (assertCIDR tunnelSubnet) (\<lambda>_.
     bind_res (fold_res (checked (keep_source isUp tunnelSubnet)) (ho_localNets opts) (forward_rules isUp iface)) (\<lambda>rules.
     bind_res (fold_res (checked (masq_out isUp iface)) remoteSiteNets (rules @ masq_out isUp iface tunnelSubnet)) (\<lambda>rules.
     fold_res (checked (peer_route isUp iface)) peerNets rules))))"

definition buildHubPostUp :: "string \<Rightarrow> string list \<Rightarrow> string list \<Rightarrow> hook_opts \<Rightarrow> agent_error + string" where
  "buildHubPostUp = build_hook True"

definition buildHubPostDown :: "string \<Rightarrow> string list \<Rightarrow> string list \<Rightarrow> hook_opts \<Rightarrow> agent_error + string" where
  "buildHubPostDown = build_hook False"

subsection \<open>Normalising a configuration\<close>

record norm_state =
  nm_inInterface :: bool
  nm_hasTable :: bool
  nm_out :: "string list"

definition now_in_interface :: "string \<Rightarrow> bool \<Rightarrow> bool" where
  "now_in_interface raw b = (if trim raw = ''[Interface]'' then True else if starts_with ''['' (trim raw) then False else b)"

definition norm_line :: "string \<Rightarrow> norm_state \<Rightarrow> norm_state" where
  "norm_line raw s =
     (let t = trim raw; s = s\<lparr>nm_inInterface := now_in_interface raw (nm_inInterface s)\<rparr>;
          s = (if nm_inInterface s \<and> starts_with ''Table'' t then s\<lparr>nm_hasTable := True\<rparr> else s)
      in if nm_inInterface s \<and> starts_with ''PrivateKey'' t \<and> \<not> str_includes ''(hidden)'' t
         then s\<lparr>nm_out := nm_out s @ [''PrivateKey = (hidden)'']\<rparr>
         else if starts_with ''PostUp'' t \<or> starts_with ''PostDown'' t then s
         else s\<lparr>nm_out := nm_out s @ [raw]\<rparr>)"

definition norm_start :: norm_state where
  "norm_start = \<lparr>nm_inInterface = False, nm_hasTable = False, nm_out = []\<rparr>"

definition norm_insert :: "string list \<Rightarrow> nat" where
  "norm_insert out = (let i = index_of (\<lambda>l. trim l = ''[Peer]'') out in if 0 < i then i else length out)"

definition normalizeAgentConfig :: "string \<Rightarrow> string list \<Rightarrow> hook_opts \<Rightarrow> agent_error + string" where
  "normalizeAgentConfig configText remoteSiteNets opts =
     (if configText = [] then Inr []
      else (let s = fold norm_line (split_lines configText) norm_start;
                tunnelSubnet = deriveTunnelSubnet configText;
                i = norm_insert (nm_out s);
                peerNets = filter (\<lambda>c. \<not> isHostRoute c) (parseHubPeerAllowedIPs configText)
            in bind_res (buildHubPostUp tunnelSubnet remoteSiteNets peerNets opts) (\<lambda>up.
               bind_res (buildHubPostDown tunnelSubnet remoteSiteNets peerNets opts) (\<lambda>down.
               Inr (join [LF] (take i (nm_out s)
                 @ (if nm_hasTable s then [] else [''Table = off'']) @ [''PostUp = '' @ up, ''PostDown = '' @ down]
                 @ drop i (nm_out s)))))))"

definition stripToTunnelOnly :: "string \<Rightarrow> jsval \<Rightarrow> agent_error + string" where
  "stripToTunnelOnly configText iface =
     (let tunnelSubnet = deriveTunnelSubnet configText;
          hostRoutes = filter isHostRoute (parseHubPeerAllowedIPs configText);
          safe = sort (uniq (tunnelSubnet # hostRoutes))
      in normalizeAgentConfig (rewriteHubPeerAllowedIPs configText safe) [] \<lparr>ho_iface = iface, ho_localNets = []\<rparr>)"

subsection \<open>When the hooks are built\<close>

definition hook_text :: "bool \<Rightarrow> string \<Rightarrow> string list \<Rightarrow> string \<Rightarrow> string list \<Rightarrow> string list \<Rightarrow> string" where
  "hook_text isUp iface localNets tunnel remote peers =
     forward_rules isUp iface @ concat (map (keep_source isUp tunnel) localNets) @ masq_out isUp iface tunnel
     @ concat (map (masq_out isUp iface) remote) @ concat (map (peer_route isUp iface) peers)"

lemma checked_run:
  "fold_res (checked cmd) nets rules = Inr r \<longleftrightarrow> list_all CIDR_RE nets \<and> r = rules @ concat (map cmd nets)"
proof (induction nets arbitrary: rules)
  case (Cons n nets)
  have "fold_res (checked cmd) (n # nets) rules = (if CIDR_RE n then fold_res (checked cmd) nets (rules @ cmd n) else Inl (InvalidCidr n))"
    by (simp add: checked_def assertCIDR_def)
  then show ?case using Cons.IH [of "rules @ cmd n"] by auto
qed auto

lemma build_hook_Inr:
  "build_hook isUp tunnel remote peers opts = Inr t \<longleftrightarrow>
     (\<exists>iface. sanitizeWgInterface (ho_iface opts) = Inr iface \<and> t = hook_text isUp iface (ho_localNets opts) tunnel remote peers)
     \<and> list_all CIDR_RE (ho_localNets opts @ tunnel # remote @ peers)"
proof -
  have a: "assertCIDR n = Inr u \<longleftrightarrow> CIDR_RE n" for n u by (simp add: assertCIDR_def)
  show ?thesis unfolding build_hook_def bind_res_iff checked_run a hook_text_def by auto
qed

text \<open>Words that cannot end a command.\<close>

definition shell_word :: "string \<Rightarrow> bool" where
  "shell_word w \<longleftrightarrow> w \<noteq> [] \<and> list_all (\<lambda>c. is_digit c \<or> c \<in> set ''wg./'') w"

lemma CIDR_word: "CIDR_RE n \<Longrightarrow> shell_word n"
proof -
  assume "CIDR_RE n"
  then obtain a p where s: "split_on CHR ''/'' n = [a, p]" "ipv4_groups a \<noteq> None" "digits_upto 2 p"
    by (auto simp: CIDR_RE_def split: list.split_asm)
  have "is_digit c \<or> c \<in> set ''wg./''" if "c \<in> set n" for c
    using split_on_chars [OF that, of "CHR ''/''"] s(1) groups_chars [OF s(2), of c] s(3) by (auto simp: digits_upto_def list_all_iff)
  moreover have "n \<noteq> []" using s(1) by (cases n) auto
  ultimately show ?thesis by (simp add: shell_word_def list_all_iff)
qed

lemma iface_word: "sanitizeWgInterface v = Inr i \<Longrightarrow> shell_word i"
proof -
  assume "sanitizeWgInterface v = Inr i"
  then have "VALID_WG_INTERFACE_RE i" by (auto simp: sanitizeWgInterface_def split: jsval.split_asm if_split_asm)
  then obtain d where "i = ''wg'' @ d" "digits_upto 3 d" by (auto simp: VALID_WG_INTERFACE_RE_def strip_prefix_Some split: option.split_asm)
  then show ?thesis by (auto simp: shell_word_def digits_upto_def list_all_iff)
qed

lemma shell_word_one: "shell_word w \<Longrightarrow> one_line w"
proof -
  have "\<not> is_digit LF" "\<not> is_digit CR" by code_simp+
  then show "shell_word w \<Longrightarrow> one_line w" by (auto simp: shell_word_def one_line_def list_all_iff)
qed

lemma one_line_append: "one_line (a @ b) \<longleftrightarrow> one_line a \<and> one_line b"
  by (auto simp: one_line_def)

lemma one_line_literals:
  "one_line []" "one_line ''sysctl -w net.ipv4.ip_forward=1; ''" "one_line ''iptables -''" "one_line '' FORWARD -i ''"
  "one_line '' -j ACCEPT; iptables -''" "one_line '' FORWARD -o ''" "one_line '' -j ACCEPT''" "one_line ''; iptables -t nat -''"
  "one_line '' POSTROUTING ! -o ''" "one_line '' -s ''" "one_line '' -j MASQUERADE''" "one_line '' POSTROUTING -s ''" "one_line '' -d ''"
  "one_line '' -j RETURN''" "one_line ''; ip route ''" "one_line ''add''" "one_line ''del''" "one_line '' ''" "one_line '' dev ''" "one_line silent"
  "one_line ''A''" "one_line ''D''"
  by code_simp+

lemma hook_one_line:
  assumes "build_hook isUp tunnel remote peers opts = Inr t"
  shows "one_line t"
proof -
  obtain i where i: "sanitizeWgInterface (ho_iface opts) = Inr i" "t = hook_text isUp i (ho_localNets opts) tunnel remote peers"
    and n: "list_all CIDR_RE (ho_localNets opts @ tunnel # remote @ peers)" using assms by (auto simp: build_hook_Inr)
  have w: "one_line i" "one_line tunnel" using iface_word [OF i(1)] CIDR_word n shell_word_one by auto
  have cc: "one_line (concat (map f ns))" if "\<And>n. one_line n \<Longrightarrow> one_line (f n)" "list_all CIDR_RE ns" for f ns
    using that(2) CIDR_word shell_word_one that(1) by (induction ns) (auto simp: one_line_append one_line_literals)
  have f: "one_line (keep_source isUp tunnel n)" "one_line (masq_out isUp i n)" "one_line (peer_route isUp i n)" if "one_line n" for n
    using that w by (cases isUp; simp only: keep_source_def masq_out_def peer_route_def one_line_append one_line_literals if_True if_False)+
  have "one_line (forward_rules isUp i)" using w
    by (cases isUp; simp only: forward_rules_def one_line_append one_line_literals if_True if_False)
  then show ?thesis unfolding i(2) hook_text_def one_line_append using cc f w n by simp
qed

subsection \<open>The pass over the lines\<close>

definition shows_key :: "bool \<Rightarrow> string \<Rightarrow> bool" where
  "shows_key b raw \<longleftrightarrow> b \<and> starts_with ''PrivateKey'' (trim raw) \<and> \<not> str_includes ''(hidden)'' (trim raw)"

definition is_hook :: "string \<Rightarrow> bool" where
  "is_hook raw \<longleftrightarrow> starts_with ''PostUp'' (trim raw) \<or> starts_with ''PostDown'' (trim raw)"

definition kept_line_of :: "bool \<Rightarrow> string \<Rightarrow> string list" where
  "kept_line_of b raw = (if shows_key b raw then [''PrivateKey = (hidden)''] else if is_hook raw then [] else [raw])"

fun kept_lines :: "bool \<Rightarrow> string list \<Rightarrow> string list" where
  "kept_lines b [] = []"
| "kept_lines b (raw # rest) =
     (let b = now_in_interface raw b in kept_line_of b raw @ kept_lines b rest)"

fun table_in :: "bool \<Rightarrow> string list \<Rightarrow> bool" where
  "table_in b [] = False"
| "table_in b (raw # rest) =
     (let b = now_in_interface raw b in (b \<and> starts_with ''Table'' (trim raw)) \<or> table_in b rest)"

lemma norm_fold:
  "fold norm_line ls s = \<lparr>nm_inInterface = fold now_in_interface ls (nm_inInterface s),
     nm_hasTable = (nm_hasTable s \<or> table_in (nm_inInterface s) ls), nm_out = nm_out s @ kept_lines (nm_inInterface s) ls\<rparr>"
  by (induction ls arbitrary: s) (auto simp: norm_line_def kept_line_of_def shows_key_def is_hook_def Let_def)

text \<open>A line of its own kind: neither a header nor a key, a hook, a table or networks.\<close>

lemma written_lines:
  "trim ''PrivateKey = (hidden)'' = ''PrivateKey = (hidden)''" "trim ''Table = off'' = ''Table = off''"
  "str_includes ''(hidden)'' ''PrivateKey = (hidden)''"
  by code_simp+

lemma header_unlike: "is_header raw \<Longrightarrow> \<not> is_hook raw \<and> \<not> shows_key b raw \<and> \<not> starts_with ''Table'' (trim raw)"
  by (cases "trim raw") (auto simp: is_header_def is_hook_def shows_key_def starts_with_def)

lemma not_header: "\<not> is_header raw \<Longrightarrow> now_in_interface raw b = b \<and> next_zone raw z = z"
  by (auto simp: now_in_interface_def next_zone_def is_header_def starts_with_def)

lemma key_line: "shows_key b raw \<Longrightarrow> \<not> is_header raw"
  by (cases "trim raw") (auto simp: is_header_def shows_key_def starts_with_def)

lemma hook_not_header: "is_hook raw \<Longrightarrow> \<not> is_header raw"
  by (cases "trim raw") (auto simp: is_header_def is_hook_def starts_with_def)

lemma hidden_line:
  "\<not> is_header ''PrivateKey = (hidden)''" "\<not> shows_key b ''PrivateKey = (hidden)''" "\<not> is_hook ''PrivateKey = (hidden)''"
  "\<not> starts_with ''AllowedIPs'' (trim ''PrivateKey = (hidden)'')" "\<not> starts_with ''Table'' (trim ''PrivateKey = (hidden)'')"
  "\<not> starts_with ''Endpoint'' (trim ''PrivateKey = (hidden)'')"
  by (simp_all add: is_header_def shows_key_def is_hook_def written_lines starts_with_def)

lemma table_line:
  "\<not> is_header ''Table = off''" "\<not> shows_key b ''Table = off''" "\<not> is_hook ''Table = off''" "starts_with ''Table'' (trim ''Table = off'')"
  "\<not> starts_with ''AllowedIPs'' (trim ''Table = off'')" "\<not> starts_with ''Endpoint'' (trim ''Table = off'')"
  by (simp_all add: is_header_def shows_key_def is_hook_def written_lines starts_with_def)

lemma kept_append: "kept_lines b (xs @ ys) = kept_lines b xs @ kept_lines (fold now_in_interface xs b) ys"
  by (induction xs arbitrary: b) (simp_all add: Let_def)

lemma table_append: "table_in b (xs @ ys) \<longleftrightarrow> table_in b xs \<or> table_in (fold now_in_interface xs b) ys"
  by (induction xs arbitrary: b) (auto simp: Let_def)

lemma kept_state: "fold now_in_interface (kept_lines b ls) b = fold now_in_interface ls b"
proof (induction ls arbitrary: b)
  case (Cons raw ls)
  let ?b = "now_in_interface raw b"
  have "fold now_in_interface (kept_line_of ?b raw) b = ?b"
    using key_line [of ?b raw] hook_not_header [of raw] not_header [of raw b] not_header [OF hidden_line(1)]
    by (auto simp: kept_line_of_def)
  then show ?case using Cons.IH [of ?b] by (simp add: Let_def)
qed simp

lemma kept_again: "kept_lines b (kept_lines b ls) = kept_lines b ls"
proof (induction ls arbitrary: b)
  case (Cons raw ls)
  let ?b = "now_in_interface raw b"
  have s: "fold now_in_interface (kept_line_of ?b raw) b = ?b"
    using key_line [of ?b raw] hook_not_header [of raw] not_header [of raw b] not_header [OF hidden_line(1)]
    by (auto simp: kept_line_of_def)
  have "kept_lines b (kept_line_of ?b raw) = kept_line_of ?b raw"
    using not_header [OF hidden_line(1), of b] hidden_line(2,3) by (auto simp: kept_line_of_def)
  then show ?case using Cons.IH [of ?b] by (simp add: Let_def kept_append s)
qed simp

lemma table_kept: "table_in b (kept_lines b ls) \<longleftrightarrow> table_in b ls"
proof (induction ls arbitrary: b)
  case (Cons raw ls)
  let ?b = "now_in_interface raw b"
  have s: "fold now_in_interface (kept_line_of ?b raw) b = ?b"
    using key_line [of ?b raw] hook_not_header [of raw] not_header [of raw b] not_header [OF hidden_line(1)]
    by (auto simp: kept_line_of_def)
  have t: "\<not> starts_with ''Table'' (trim raw)" if "shows_key ?b raw \<or> is_hook raw"
    using that by (cases "trim raw") (auto simp: shows_key_def is_hook_def starts_with_def)
  have "table_in b (kept_line_of ?b raw) \<longleftrightarrow> ?b \<and> starts_with ''Table'' (trim raw)"
    using t hidden_line(5) by (auto simp: kept_line_of_def)
  then show ?case using Cons.IH [of ?b] by (simp add: Let_def table_append s)
qed simp

lemma kept_takeWhile: "takeWhile (\<lambda>l. trim l \<noteq> ''[Peer]'') (kept_lines b ls) = kept_lines b (takeWhile (\<lambda>l. trim l \<noteq> ''[Peer]'') ls)"
proof (induction ls arbitrary: b)
  case (Cons raw ls)
  let ?b = "now_in_interface raw b"
  show ?case
  proof (cases "trim raw = ''[Peer]''")
    case True
    then have "kept_line_of ?b raw = [raw]"
      using header_unlike [OF peer_is_header [OF True], of ?b] by (simp add: kept_line_of_def)
    then show ?thesis using True by (simp add: Let_def)
  next
    case False
    have "trim ''PrivateKey = (hidden)'' \<noteq> ''[Peer]''" by (simp add: written_lines)
    then have "\<forall>l \<in> set (kept_line_of ?b raw). trim l \<noteq> ''[Peer]''" using False by (simp add: kept_line_of_def)
    then show ?thesis using False Cons.IH [of ?b] by (simp add: Let_def takeWhile_append)
  qed
qed simp

text \<open>Lines that mean nothing to the networks of the hub peer.\<close>

definition neutral :: "string \<Rightarrow> string \<Rightarrow> bool" where
  "neutral key l \<longleftrightarrow> \<not> is_header l \<and> \<not> starts_with key (trim l)"

text \<open>The lines of the hub peer that set a key: the networks are read from these lines alone.\<close>

fun hub_lines :: "string \<Rightarrow> zone \<Rightarrow> string list \<Rightarrow> string list" where
  "hub_lines key z [] = []"
| "hub_lines key z (raw # rest) = (if hub_line key z raw then [raw] else []) @ hub_lines key (next_zone raw z) rest"

definition hub_key :: "string \<Rightarrow> bool" where
  "hub_key key \<longleftrightarrow> key = ''AllowedIPs'' \<or> key = ''Endpoint''"

lemma hub_ips_lines: "hub_ips z ls = concat (map (\<lambda>l. comma_list (valOf (trim l))) (hub_lines ''AllowedIPs'' z ls))"
  by (induction ls arbitrary: z) simp_all

lemma hub_lines_append: "hub_lines key z (xs @ ys) = hub_lines key z xs @ hub_lines key (fold next_zone xs z) ys"
  by (induction xs arbitrary: z) simp_all

lemma hub_lines_neutral: "list_all (neutral key) xs \<Longrightarrow> hub_lines key z xs = [] \<and> fold next_zone xs z = z"
proof (induction xs arbitrary: z)
  case (Cons x xs)
  have "next_zone x z = z" using Cons.prems not_header [of x] by (simp add: neutral_def)
  then show ?case using Cons by (simp add: hub_line_def neutral_def)
qed simp

lemma hub_lines_kept:
  assumes "hub_key key"
  shows "hub_lines key z (kept_lines b ls) = hub_lines key z ls"
proof (induction ls arbitrary: b z)
  case (Cons raw ls)
  let ?b = "now_in_interface raw b"
  have n: "neutral key raw" if "shows_key ?b raw \<or> is_hook raw"
    using that key_line hook_not_header assms
    by (cases "trim raw") (auto simp: neutral_def shows_key_def is_hook_def starts_with_def hub_key_def)
  have "hub_lines key z (kept_line_of ?b raw) = hub_lines key z [raw] \<and> fold next_zone (kept_line_of ?b raw) z = next_zone raw z"
  proof (cases "shows_key ?b raw \<or> is_hook raw")
    case True
    have "neutral key ''PrivateKey = (hidden)''" using hidden_line assms by (auto simp: neutral_def hub_key_def)
    then have "list_all (neutral key) (kept_line_of ?b raw)" using True by (auto simp: kept_line_of_def)
    from hub_lines_neutral [OF this, of z] hub_lines_neutral [of key "[raw]" z] n [OF True] show ?thesis by simp
  qed (simp add: kept_line_of_def)
  then show ?case using Cons.IH [of "next_zone raw z" ?b] by (simp add: Let_def hub_lines_append)
qed simp

subsection \<open>The address, line by line\<close>

definition address_start :: "string \<Rightarrow> bool" where
  "address_start l \<longleftrightarrow> to_lower (take 7 (dropWhile js_ws l)) = ''address''"

text \<open>A line that sets the address has something after the equals sign: an IPv4 or an IPv6 address, or a list.\<close>

definition address_ok :: "string \<Rightarrow> bool" where
  "address_ok l \<longleftrightarrow> (address_start l \<longrightarrow>
     (let r = dropWhile js_ws (drop 7 (dropWhile js_ws l)) in r \<noteq> [] \<and> (starts_with ''='' r \<longrightarrow> dropWhile js_ws (tl r) \<noteq> [])))"

fun first_address :: "string list \<Rightarrow> (string \<times> string) option" where
  "first_address [] = None"
| "first_address (l # ls) = (case address_at l of Some m \<Rightarrow> Some m | None \<Rightarrow> first_address ls)"

lemma address_at_start: "address_at l \<noteq> None \<Longrightarrow> address_start l"
  by (auto simp: address_at_def address_start_def Let_def split: if_splits)

lemma address_at_ws: "address_at (dropWhile js_ws s) = address_at s"
  by (simp add: address_at_def dropWhile_idem)

lemma address_at_Nil: "address_at [] = None"
  by (simp add: address_at_def to_lower_def)

lemma ws_LF: "js_ws LF" "\<not> is_digit LF" "LF \<noteq> CHR ''.''"
  by code_simp+

lemma dropWhile_end: "dropWhile P s \<noteq> [] \<Longrightarrow> dropWhile P (s @ t) = dropWhile P s @ t"
  by (auto simp: dropWhile_append)

lemma find_address_line:
  "LF \<notin> set l \<Longrightarrow> CR \<notin> set l \<Longrightarrow> find_address False (l @ LF # rest) = find_address True rest"
proof (induction l)
  case (Cons c l)
  then have "c \<noteq> LF" "c \<noteq> CR" by auto
  with Cons show ?case by simp
qed simp

lemma find_address_end: "LF \<notin> set l \<Longrightarrow> CR \<notin> set l \<Longrightarrow> find_address False l = None"
  by (induction l) auto

lemma find_address_True: "find_address True s = (case address_at s of Some m \<Rightarrow> Some m | None \<Rightarrow> find_address False s)"
  by (cases s) (simp_all add: address_at_Nil split: option.split)

lemma address_at_more:
  assumes "address_at l = Some m"
  shows "address_at (l @ LF # rest) = Some m"
proof -
  define r where "r = dropWhile js_ws l"
  define r2 where "r2 = dropWhile js_ws (drop 7 r)"
  define v where "v = dropWhile js_ws (tl r2)"
  let ?P = "\<lambda>c. is_digit c \<or> c = CHR ''.''"
  define r3 where "r3 = dropWhile ?P v"
  have a: "to_lower (take 7 r) = ''address''" "starts_with ''='' r2" "takeWhile ?P v \<noteq> []" "starts_with ''/'' r3" "takeWhile is_digit (tl r3) \<noteq> []"
    "m = (takeWhile ?P v, takeWhile is_digit (tl r3))"
    using assms by (auto simp: address_at_def r_def r2_def v_def r3_def Let_def split: if_splits)
  have "length (to_lower (take 7 r)) = 7" unfolding a(1) by simp
  then have len: "7 \<le> length r" by (simp add: to_lower_def)
  have ne: "r \<noteq> []" "r2 \<noteq> []" "v \<noteq> []" "r3 \<noteq> []" using len a(2,3,4) by (auto simp: starts_with_def)
  have 1: "dropWhile js_ws (l @ LF # rest) = r @ LF # rest" using ne(1) unfolding r_def by (rule dropWhile_end)
  have 2: "dropWhile js_ws (drop 7 (r @ LF # rest)) = r2 @ LF # rest" using ne(2) len dropWhile_end [of js_ws "drop 7 r"] by (simp add: r2_def)
  have 3: "dropWhile js_ws (tl (r2 @ LF # rest)) = v @ LF # rest" using ne(2,3) dropWhile_end [of js_ws "tl r2"] by (simp add: v_def)
  have 4: "dropWhile ?P (v @ LF # rest) = r3 @ LF # rest" using ne(4) dropWhile_end [of ?P v] by (simp add: r3_def)
  have tw: "takeWhile P (x @ LF # rest) = takeWhile P x" if "\<not> P LF" for P x using that by (induction x) simp_all
  have 5: "takeWhile ?P (v @ LF # rest) = takeWhile ?P v" "takeWhile is_digit (tl (r3 @ LF # rest)) = takeWhile is_digit (tl r3)"
    using tw [of ?P v] tw [of is_digit "tl r3"] ws_LF ne(4) by simp_all
  have 6: "take 7 (r @ LF # rest) = take 7 r" "starts_with ''='' (r2 @ LF # rest)" "starts_with ''/'' (r3 @ LF # rest)"
    using len ne a(2,4) by (cases r2; cases r3; simp add: starts_with_def)+
  show ?thesis unfolding address_at_def Let_def 1 2 3 4 5 6(1) using a 6(2,3) by simp
qed

lemma address_none_more:
  assumes "address_at l = None" "address_start l" "address_ok l"
  shows "address_at (l @ LF # rest) = None"
proof -
  define r where "r = dropWhile js_ws l"
  define r2 where "r2 = dropWhile js_ws (drop 7 r)"
  define v where "v = dropWhile js_ws (tl r2)"
  let ?P = "\<lambda>c. is_digit c \<or> c = CHR ''.''"
  define r3 where "r3 = dropWhile ?P v"
  have a: "to_lower (take 7 r) = ''address''" "r2 \<noteq> []" "starts_with ''='' r2 \<longrightarrow> v \<noteq> []"
    using assms(2,3) by (simp_all add: address_start_def address_ok_def r_def r2_def v_def Let_def)
  have "length (to_lower (take 7 r)) = 7" unfolding a(1) by simp
  then have len: "7 \<le> length r" by (simp add: to_lower_def)
  then have "r \<noteq> []" by auto
  then have 1: "dropWhile js_ws (l @ LF # rest) = r @ LF # rest" unfolding r_def by (rule dropWhile_end)
  have 2: "dropWhile js_ws (drop 7 (r @ LF # rest)) = r2 @ LF # rest" using a(2) len dropWhile_end [of js_ws "drop 7 r"] by (simp add: r2_def)
  show ?thesis
  proof (cases "starts_with ''='' r2")
    case False
    then have "\<not> starts_with ''='' (r2 @ LF # rest)" using a(2) by (cases r2) (auto simp: starts_with_def)
    then show ?thesis unfolding address_at_def Let_def 1 2 by simp
  next
    case True
    then have v: "v \<noteq> []" using a(3) by blast
    have 3: "dropWhile js_ws (tl (r2 @ LF # rest)) = v @ LF # rest" using a(2) v dropWhile_end [of js_ws "tl r2"] by (simp add: v_def)
    have tw: "takeWhile P (x @ LF # rest) = takeWhile P x \<and> dropWhile P (x @ LF # rest) = dropWhile P x @ LF # rest" if "\<not> P LF" for P x
      using that by (induction x) simp_all
    have 4: "takeWhile ?P (v @ LF # rest) = takeWhile ?P v" "dropWhile ?P (v @ LF # rest) = r3 @ LF # rest"
      using tw [of ?P v] ws_LF unfolding r3_def by blast+
    have n: "takeWhile ?P v = [] \<or> \<not> starts_with ''/'' r3 \<or> takeWhile is_digit (tl r3) = []"
      using assms(1) True a(1) unfolding address_at_def Let_def r_def [symmetric] r2_def [symmetric] v_def [symmetric] r3_def [symmetric]
      by (auto split: if_splits)
    have 5: "starts_with ''/'' (r3 @ LF # rest) \<longleftrightarrow> starts_with ''/'' r3" by (cases r3) (simp_all add: starts_with_def)
    have 6: "takeWhile is_digit (tl (r3 @ LF # rest)) = takeWhile is_digit (tl r3)" if "starts_with ''/'' r3"
      using that tw [of is_digit "tl r3"] ws_LF(2) by (cases r3) (simp_all add: starts_with_def)
    show ?thesis unfolding address_at_def Let_def 1 2 3 4 5 using n 6 by auto
  qed
qed

lemma find_address_step:
  assumes "LF \<notin> set l" "CR \<notin> set l" "address_ok l"
  shows "find_address True (l @ LF # rest) = (case address_at l of Some m \<Rightarrow> Some m | None \<Rightarrow> find_address True rest)"
proof (cases "address_at l")
  case (Some m)
  then show ?thesis using address_at_more [OF Some] by (simp add: find_address_True)
next
  case None
  have rest: "find_address False (l @ LF # rest) = find_address True rest" by (rule find_address_line) (use assms in auto)
  show ?thesis
  proof (cases "dropWhile js_ws l = []")
    case True
    then have "dropWhile js_ws (l @ LF # rest) = dropWhile js_ws rest" using ws_LF(1) by (auto simp: dropWhile_append)
    then have "address_at (l @ LF # rest) = address_at rest" by (metis address_at_ws)
    then show ?thesis using None rest by (simp add: find_address_True [of "l @ LF # rest"] find_address_True [of rest] split: option.split)
  next
    case False
    have "address_at (l @ LF # rest) = None"
    proof (cases "address_start l")
      case True
      then show ?thesis using assms(3) None by (intro address_none_more) auto
    next
      case no: False
      have "\<not> address_start (l @ LF # rest)"
      proof
        assume s: "address_start (l @ LF # rest)"
        let ?r = "dropWhile js_ws l"
        have t: "to_lower (take 7 (?r @ LF # rest)) = ''address''" using s dropWhile_end [OF False] by (simp add: address_start_def)
        show False
        proof (cases "7 \<le> length ?r")
          case True
          then show ?thesis using t no by (simp add: address_start_def)
        next
          case short: False
          then obtain k where "7 - length ?r = Suc k" by (metis Suc_diff_Suc not_le)
          then have "LF \<in> set (take 7 (?r @ LF # rest))" by simp
          then have "lower_char LF \<in> set (to_lower (take 7 (?r @ LF # rest)))" unfolding to_lower_def set_map by (rule imageI)
          moreover have "lower_char LF \<notin> set ''address''" by code_simp
          ultimately show False unfolding t by blast
        qed
      qed
      then show ?thesis using address_at_start by blast
    qed
    then show ?thesis using None rest by (simp add: find_address_True [of "l @ LF # rest"])
  qed
qed

lemma find_address_lines:
  "ls \<noteq> [] \<Longrightarrow> list_all one_line ls \<Longrightarrow> list_all address_ok ls \<Longrightarrow> find_address True (join [LF] ls) = first_address ls"
proof (induction ls rule: induct_list012)
  case (2 l)
  then show ?case by (simp add: find_address_True find_address_end one_line_def split: option.split)
next
  case (3 l k ls)
  then show ?case using find_address_step [of l "join [LF] (k # ls)"] by (simp add: one_line_def cong: option.case_cong)
qed simp

lemma first_address_filter: "first_address (filter address_start ls) = first_address ls"
proof (induction ls)
  case (Cons l ls)
  then show ?case using address_at_start [of l] by (cases "address_at l") auto
qed simp

lemma kept_address: "filter address_start (kept_lines b ls) = filter address_start ls"
proof (induction ls arbitrary: b)
  case (Cons raw ls)
  have no: "\<not> address_start l" if "starts_with (c # p) (trim l)" "to_lower [c] \<noteq> ''a''" for c p l
  proof
    assume a: "address_start l"
    have "dropWhile js_ws l = [] \<or> \<not> js_ws (hd (dropWhile js_ws l))" using dropWhile_ends by blast
    moreover have "trim (dropWhile js_ws l) = trim l" by (simp add: trim_def dropWhile_idem)
    ultimately have "starts_with (c # p) (dropWhile js_ws l)" using starts_with_trans [OF that(1)] trim_prefix [of "dropWhile js_ws l"] by simp
    then obtain r where "dropWhile js_ws l = c # r" by (cases "dropWhile js_ws l") (auto simp: starts_with_def)
    then show False using a that(2) by (simp add: address_start_def to_lower_def)
  qed
  have "to_lower ''P'' \<noteq> ''a''" by code_simp
  then have "\<not> address_start raw" if "shows_key (now_in_interface raw b) raw \<or> is_hook raw"
    using that no [of "CHR ''P''"] by (auto simp: shows_key_def is_hook_def)
  moreover have "\<not> address_start ''PrivateKey = (hidden)''" by code_simp
  ultimately show ?case using Cons.IH by (auto simp: Let_def kept_line_of_def)
qed simp

subsection \<open>Normalising again changes nothing\<close>

text \<open>A file with one kind of section in front of the first peer, no empty address line and no carriage return.\<close>

definition agent_file :: "string \<Rightarrow> bool" where
  "agent_file conf \<longleftrightarrow> conf \<noteq> [] \<and> CR \<notin> set conf \<and> list_all address_ok (split_lines conf)
     \<and> (let pre = takeWhile (\<lambda>l. trim l \<noteq> ''[Peer]'') (split_lines conf)
        in list_ex is_header pre \<and> list_all (\<lambda>l. is_header l \<longrightarrow> trim l = ''[Interface]'') pre)"

text \<open>What a rewrite has to leave alone for the file to stay regular.\<close>

lemma agent_file_frame:
  assumes "agent_file conf" "CR \<notin> set conf'" "conf' \<noteq> []"
    and "filter is_header (split_lines conf') = filter is_header (split_lines conf)"
    and "filter address_start (split_lines conf') = filter address_start (split_lines conf)"
  shows "agent_file conf'"
proof -
  let ?np = "\<lambda>l. trim l \<noteq> ''[Peer]''"
  have tw: "filter is_header (takeWhile ?np ls) = takeWhile ?np (filter is_header ls)" for ls
    using peer_is_header by (induction ls) auto
  have "(list_ex is_header pre \<and> list_all (\<lambda>l. is_header l \<longrightarrow> trim l = ''[Interface]'') pre)
    \<longleftrightarrow> filter is_header pre \<noteq> [] \<and> list_all (\<lambda>l. trim l = ''[Interface]'') (filter is_header pre)" for pre
    by (auto simp: list_ex_iff list_all_iff filter_empty_conv)
  note pre = this [of "takeWhile ?np (split_lines _)", unfolded tw]
  have "address_ok l" if "l \<in> set (split_lines conf')" for l
  proof (cases "address_start l")
    case True
    then have "l \<in> set (filter address_start (split_lines conf))" unfolding assms(5) [symmetric] using that by simp
    then show ?thesis using assms(1) by (auto simp: agent_file_def list_all_iff)
  qed (simp add: address_ok_def)
  then show ?thesis using assms(1-3) unfolding agent_file_def Let_def pre assms(4) by (simp add: list_all_iff)
qed

lemma kept_headers: "filter is_header (kept_lines b ls) = filter is_header ls"
proof (induction ls arbitrary: b)
  case (Cons raw ls)
  then show ?case using header_unlike [of raw "now_in_interface raw b"] hidden_line(1) by (auto simp: Let_def kept_line_of_def)
qed simp

lemma in_interface_after:
  "list_ex is_header pre \<Longrightarrow> list_all (\<lambda>l. is_header l \<longrightarrow> trim l = ''[Interface]'') pre \<Longrightarrow> fold now_in_interface pre b"
proof (induction pre arbitrary: b rule: rev_induct)
  case (snoc l pre)
  show ?case
  proof (cases "is_header l")
    case True
    then show ?thesis using snoc.prems(2) by (simp add: now_in_interface_def)
  next
    case False
    then show ?thesis using snoc not_header [OF False] by simp
  qed
qed simp

lemma hook_written: "is_hook (hook_name b @ '' = '' @ t)" "\<not> is_header (hook_name b @ '' = '' @ t)"
  using hook_line_reads(1,2,3) [of b t] by (auto simp: is_hook_def is_header_def)

lemma hook_neutral: "hub_key key \<Longrightarrow> neutral key (hook_name b @ '' = '' @ t)" "\<not> starts_with ''Table'' (trim (hook_name b @ '' = '' @ t))"
  "\<not> shows_key c (hook_name b @ '' = '' @ t)"
proof -
  have h: "is_hook (hook_name b @ '' = '' @ t)" "\<not> is_header (hook_name b @ '' = '' @ t)" by (rule hook_written)+
  then obtain r where r: "trim (hook_name b @ '' = '' @ t) = ''Post'' @ r"
    by (auto simp: is_hook_def starts_with_def) (metis append_Cons append_Nil append_take_drop_id)+
  have n: "\<not> starts_with (c # p) (''Post'' @ r)" if "c \<noteq> CHR ''P'' \<or> hd p \<noteq> CHR ''o'' \<and> p \<noteq> []" for c p
    using that by (cases p) (auto simp: starts_with_def)
  show "neutral key (hook_name b @ '' = '' @ t)" if "hub_key key"
    using that h(2) n [of "CHR ''A''"] n [of "CHR ''E''"] unfolding hub_key_def neutral_def r by auto
  show "\<not> starts_with ''Table'' (trim (hook_name b @ '' = '' @ t))" unfolding r by (rule n) simp
  show "\<not> shows_key c (hook_name b @ '' = '' @ t)" unfolding shows_key_def r using n [of "CHR ''P''" "''rivateKey''"] by simp
qed

lemma hook_no_address: "\<not> address_start (hook_name b @ '' = '' @ t)" "\<not> address_start ''Table = off''"
proof -
  have "dropWhile js_ws (hook_name b @ '' = '' @ t) = hook_name b @ '' = '' @ t" by (cases b) (simp_all add: hook_name_def hd_ws)
  moreover have "take 7 (hook_name b @ '' = '' @ t) = take 7 (hook_name b @ '' = '')" by (cases b) (simp_all add: hook_name_def)
  moreover have "to_lower (take 7 (hook_name True @ '' = '')) \<noteq> ''address''" "to_lower (take 7 (hook_name False @ '' = '')) \<noteq> ''address''" by code_simp+
  then have "to_lower (take 7 (hook_name b @ '' = '')) \<noteq> ''address''" by (cases b) simp_all
  ultimately show "\<not> address_start (hook_name b @ '' = '' @ t)" by (simp add: address_start_def)
  show "\<not> address_start ''Table = off''" by code_simp
qed

text \<open>The lines of a normalised file.\<close>

definition norm_lines :: "string list \<Rightarrow> string \<Rightarrow> string \<Rightarrow> string list" where
  "norm_lines ls up down =
     (let K = kept_lines False ls; i = norm_insert K
      in take i K @ (if table_in False ls then [] else [''Table = off'']) @ [hook_name True @ '' = '' @ up, hook_name False @ '' = '' @ down] @ drop i K)"

lemma normalize_lines:
  assumes "conf \<noteq> []"
  shows "normalizeAgentConfig conf remote opts = Inr out \<longleftrightarrow>
    (\<exists>up down. buildHubPostUp (deriveTunnelSubnet conf) remote (filter (\<lambda>c. \<not> isHostRoute c) (parseHubPeerAllowedIPs conf)) opts = Inr up
       \<and> buildHubPostDown (deriveTunnelSubnet conf) remote (filter (\<lambda>c. \<not> isHostRoute c) (parseHubPeerAllowedIPs conf)) opts = Inr down
       \<and> out = join [LF] (norm_lines (split_lines conf) up down))"
  using assms by (auto simp: normalizeAgentConfig_def norm_fold norm_start_def norm_lines_def hook_name_def Let_def bind_res_iff)

lemma norm_insert_split:
  assumes "takeWhile (\<lambda>l. trim l \<noteq> ''[Peer]'') K \<noteq> []"
  shows "take (norm_insert K) K = takeWhile (\<lambda>l. trim l \<noteq> ''[Peer]'') K" "drop (norm_insert K) K = dropWhile (\<lambda>l. trim l \<noteq> ''[Peer]'') K"
proof -
  have i: "norm_insert K = length (takeWhile (\<lambda>l. trim l \<noteq> ''[Peer]'') K)" using assms by (simp add: norm_insert_def index_of_def Let_def)
  show "take (norm_insert K) K = takeWhile (\<lambda>l. trim l \<noteq> ''[Peer]'') K" unfolding i by (metis append_eq_conv_conj takeWhile_dropWhile_id)
  show "drop (norm_insert K) K = dropWhile (\<lambda>l. trim l \<noteq> ''[Peer]'') K" unfolding i by (metis append_eq_conv_conj takeWhile_dropWhile_id)
qed

lemma norm_again:
  assumes "agent_file conf" "ls = split_lines conf" "N = norm_lines ls up down"
  shows "kept_lines False N = (let K = kept_lines False ls in take (norm_insert K) K
        @ (if table_in False ls then [] else [''Table = off'']) @ drop (norm_insert K) K)"
    and "table_in False N" "norm_lines N up' down' = norm_lines ls up' down'"
    and "hub_key key \<Longrightarrow> hub_lines key z N = hub_lines key z ls" "filter address_start N = filter address_start ls"
    and "N \<noteq> []" "filter is_header N = filter is_header ls"
proof -
  let ?np = "\<lambda>l. trim l \<noteq> ''[Peer]''"
  define K where "K = kept_lines False ls"
  define A where "A = takeWhile ?np K"
  define B where "B = dropWhile ?np K"
  define T where "T = (if table_in False ls then [] else [''Table = off''])"
  define H where "H = [hook_name True @ '' = '' @ up, hook_name False @ '' = '' @ down]"
  let ?pre = "takeWhile ?np ls"
  have pre: "list_ex is_header ?pre" "list_all (\<lambda>l. is_header l \<longrightarrow> trim l = ''[Interface]'') ?pre"
    using assms(1,2) by (simp_all add: agent_file_def Let_def)
  have Ak: "A = kept_lines False ?pre" unfolding A_def K_def by (rule kept_takeWhile)
  have inA: "fold now_in_interface A False" unfolding Ak kept_state by (rule in_interface_after [OF pre])
  then have ne: "A \<noteq> []" by auto
  have KAB: "K = A @ B" unfolding A_def B_def by simp
  have AB: "take (norm_insert K) K = A" "drop (norm_insert K) K = B"
    using norm_insert_split [of K] ne unfolding A_def B_def by blast+
  have N: "N = A @ T @ H @ B" by (simp add: assms(3) norm_lines_def K_def [symmetric] AB T_def H_def Let_def)
  have kA: "kept_lines False A = A" unfolding Ak by (rule kept_again)
  have kB: "kept_lines True B = B"
  proof -
    have "kept_lines False A @ kept_lines True B = A @ B"
      using kept_again [of False ls] kept_append [of False A B] inA unfolding K_def [symmetric] KAB by simp
    then show ?thesis unfolding kA by simp
  qed
  have Tn: "kept_lines True T = T" "fold now_in_interface T True = True"
    using table_line not_header [OF table_line(1), of True] by (simp_all add: T_def kept_line_of_def)
  have Hn: "kept_lines True H = []" "fold now_in_interface H True = True"
    using hook_written hook_neutral(3) not_header [OF hook_written(2), of _ _ True] by (simp_all add: H_def kept_line_of_def)
  have kN: "kept_lines False N = A @ T @ B"
    using inA Tn Hn kA kB by (simp add: N kept_append)
  then show "kept_lines False N = (let K = kept_lines False ls in take (norm_insert K) K
        @ (if table_in False ls then [] else [''Table = off'']) @ drop (norm_insert K) K)"
    by (simp add: K_def [symmetric] AB T_def Let_def)
  have tN: "table_in False N"
  proof (cases "table_in False ls")
    case True
    then have "table_in False (A @ B)" using table_kept [of False ls] by (simp add: K_def [symmetric] KAB)
    then show ?thesis using inA Tn(2) Hn(2) by (auto simp: N table_append)
  next
    case False
    then show ?thesis using inA table_line(4) not_header [OF table_line(1), of True] by (simp add: N table_append T_def Let_def)
  qed
  then show "table_in False N" .
  have tw: "takeWhile ?np (A @ T @ B) = A @ T" "dropWhile ?np (A @ T @ B) = B"
  proof -
    have a: "\<forall>l \<in> set (A @ T). ?np l" using set_takeWhileD [of _ ?np K] by (auto simp: A_def T_def written_lines)
    have "takeWhile P (dropWhile P xs) = []" for P and xs :: "string list" by (induction xs) simp_all
    then have b: "takeWhile ?np B = []" unfolding B_def .
    have b2: "dropWhile ?np B = B" unfolding B_def by (rule dropWhile_idem)
    have "takeWhile ?np ((A @ T) @ B) = (A @ T) @ takeWhile ?np B" by (rule takeWhile_append2) (use a in blast)
    then show "takeWhile ?np (A @ T @ B) = A @ T" by (simp add: b)
    have "dropWhile ?np ((A @ T) @ B) = dropWhile ?np B" by (rule dropWhile_append2) (use a in blast)
    then show "dropWhile ?np (A @ T @ B) = B" by (simp add: b2)
  qed
  have "take (norm_insert (A @ T @ B)) (A @ T @ B) = A @ T" "drop (norm_insert (A @ T @ B)) (A @ T @ B) = B"
    using norm_insert_split [of "A @ T @ B"] ne unfolding tw by auto
  then show "norm_lines N up' down' = norm_lines ls up' down'"
    using tN by (simp add: norm_lines_def kN K_def [symmetric] AB T_def Let_def)
  show "hub_lines key z N = hub_lines key z ls" if k: "hub_key key"
  proof -
    have "list_all (neutral key) (T @ H)" using hook_neutral(1) [OF k] table_line(1,5,6) k by (auto simp: T_def H_def neutral_def hub_key_def)
    note nH = hub_lines_neutral [OF this]
    have "hub_lines key z N = hub_lines key z (A @ B)"
      using nH [of "fold next_zone A z"] hub_lines_append [of key "fold next_zone A z" "T @ H" B]
      by (simp add: N hub_lines_append)
    then show ?thesis using hub_lines_kept [OF k, of z False ls] by (simp add: K_def [symmetric] KAB)
  qed
  have "filter address_start (T @ H) = []" using hook_no_address by (simp add: T_def H_def)
  then have "filter address_start N = filter address_start (A @ B)" by (simp add: N)
  also have "\<dots> = filter address_start ls" using kept_address [of False ls] by (simp add: K_def [symmetric] KAB)
  finally show "filter address_start N = filter address_start ls" .
  show "N \<noteq> []" using ne by (simp add: N)
  have "filter is_header (T @ H) = []" using hook_written(2) table_line(1) by (simp add: T_def H_def)
  then have "filter is_header N = filter is_header (A @ B)" by (simp add: N)
  then show "filter is_header N = filter is_header ls" using kept_headers [of False ls] by (simp add: K_def [symmetric] KAB)
qed

lemma kept_one: "list_all one_line ls \<Longrightarrow> list_all one_line (kept_lines b ls)"
proof (induction ls arbitrary: b)
  case (Cons raw ls)
  have "one_line ''PrivateKey = (hidden)''" by code_simp
  with Cons show ?case by (simp add: Let_def kept_line_of_def)
qed simp

lemma norm_one:
  assumes "list_all one_line ls" "one_line up" "one_line down"
  shows "list_all one_line (norm_lines ls up down)"
proof -
  have "one_line ''Table = off''" "one_line (hook_name True)" "one_line (hook_name False)" "one_line '' = ''" by code_simp+
  moreover have "one_line ('' = '' @ x)" if "one_line x" for x
    using that \<open>one_line '' = ''\<close> unfolding one_line_append by blast
  moreover have "list_all one_line (take i K) \<and> list_all one_line (drop i K)" if "list_all one_line K" for i and K :: "string list"
    using that by (auto simp: list_all_iff dest: in_set_takeD in_set_dropD)
  ultimately show ?thesis using kept_one [OF assms(1)] assms(2,3) by (simp add: norm_lines_def one_line_append Let_def)
qed

lemma derive_lines:
  assumes "ls \<noteq> []" "list_all one_line ls" "list_all address_ok ls"
  shows "deriveTunnelSubnet (join [LF] ls) = subnet_of_address (first_address (filter address_start ls))"
  by (simp add: deriveTunnelSubnet_def find_address_lines [OF assms] first_address_filter)

text \<open>What a normalised file reads as.\<close>

lemma normalized_reads:
  assumes "agent_file conf" "normalizeAgentConfig conf remote opts = Inr out"
  obtains up down where
    "buildHubPostUp (deriveTunnelSubnet conf) remote (filter (\<lambda>c. \<not> isHostRoute c) (parseHubPeerAllowedIPs conf)) opts = Inr up"
    "buildHubPostDown (deriveTunnelSubnet conf) remote (filter (\<lambda>c. \<not> isHostRoute c) (parseHubPeerAllowedIPs conf)) opts = Inr down"
    "split_lines out = norm_lines (split_lines conf) up down" "out = join [LF] (norm_lines (split_lines conf) up down)"
    "deriveTunnelSubnet out = deriveTunnelSubnet conf" "parseHubPeerAllowedIPs out = parseHubPeerAllowedIPs conf"
    "out \<noteq> []" "CR \<notin> set out" "agent_file out"
    "\<And>key z. hub_key key \<Longrightarrow> hub_lines key z (split_lines out) = hub_lines key z (split_lines conf)"
proof -
  let ?ls = "split_lines conf"
  have ne: "conf \<noteq> []" and cr: "CR \<notin> set conf" and ad: "list_all address_ok ?ls" using assms(1) by (simp_all add: agent_file_def)
  obtain up down where b: "buildHubPostUp (deriveTunnelSubnet conf) remote (filter (\<lambda>c. \<not> isHostRoute c) (parseHubPeerAllowedIPs conf)) opts = Inr up"
    "buildHubPostDown (deriveTunnelSubnet conf) remote (filter (\<lambda>c. \<not> isHostRoute c) (parseHubPeerAllowedIPs conf)) opts = Inr down"
    and out: "out = join [LF] (norm_lines ?ls up down)" using assms(2) normalize_lines [OF ne] by blast
  define N where "N = norm_lines ?ls up down"
  note n = norm_again [OF assms(1) refl N_def]
  have one: "list_all one_line ?ls" by (rule split_lines_one [OF cr])
  have oneN: "list_all one_line N" unfolding N_def
    using norm_one [OF one] hook_one_line b by (simp add: buildHubPostUp_def buildHubPostDown_def)
  have sp: "split_lines out = N" unfolding out N_def [symmetric]
    using n(6) oneN by (intro split_lines_join) (auto simp: list_all_iff one_line_def)
  have lsne: "?ls \<noteq> []" by (simp add: split_lines_def Let_def)
  have adN: "list_all address_ok N"
  proof -
    have "address_ok l" if "l \<in> set N" for l
    proof (cases "address_start l")
      case True
      then have "l \<in> set (filter address_start ?ls)" unfolding n(5) [symmetric] using that by simp
      then show ?thesis using ad by (auto simp: list_all_iff)
    qed (simp add: address_ok_def)
    then show ?thesis by (simp add: list_all_iff)
  qed
  have dl: "deriveTunnelSubnet out = deriveTunnelSubnet conf"
    using derive_lines [OF n(6) oneN adN] derive_lines [OF lsne one ad] n(5)
    by (simp add: out N_def [symmetric] join_split_lines [OF cr])
  have pl: "parseHubPeerAllowedIPs out = parseHubPeerAllowedIPs conf" 
    using n(4) by (simp add: parseHubPeerAllowedIPs_def sp hub_ips_lines hub_key_def)
  have nout: "out \<noteq> []"
  proof
    assume "out = []"
    then have "N = [[]]" using sp by (simp add: split_lines_def)
    moreover have "2 \<le> length N" by (simp add: N_def norm_lines_def Let_def)
    ultimately show False by simp
  qed
  have cro: "CR \<notin> set out"
  proof -
    have "one_line (join [LF] xs) \<or> CR \<notin> set (join [LF] xs)" if "list_all one_line xs" for xs
      using that by (induction "[LF]" xs rule: join.induct) (auto simp: one_line_def)
    then show ?thesis unfolding out N_def [symmetric] using oneN by (auto simp: one_line_def)
  qed
  have af: "agent_file out" by (rule agent_file_frame [OF assms(1) cro nout]) (simp_all add: sp n(5,7))
  show thesis using nout cro that [OF b sp [unfolded N_def] out dl pl] n(4) sp af by blast
qed

lemma normalize_again:
  assumes "agent_file conf" "normalizeAgentConfig conf remote opts = Inr out"
  shows "normalizeAgentConfig out remote opts = Inr out
    \<and> deriveTunnelSubnet out = deriveTunnelSubnet conf \<and> parseHubPeerAllowedIPs out = parseHubPeerAllowedIPs conf"
proof -
  obtain up down where r:
    "buildHubPostUp (deriveTunnelSubnet conf) remote (filter (\<lambda>c. \<not> isHostRoute c) (parseHubPeerAllowedIPs conf)) opts = Inr up"
    "buildHubPostDown (deriveTunnelSubnet conf) remote (filter (\<lambda>c. \<not> isHostRoute c) (parseHubPeerAllowedIPs conf)) opts = Inr down"
    "split_lines out = norm_lines (split_lines conf) up down" "out = join [LF] (norm_lines (split_lines conf) up down)"
    "deriveTunnelSubnet out = deriveTunnelSubnet conf" "parseHubPeerAllowedIPs out = parseHubPeerAllowedIPs conf" "out \<noteq> []"
    using normalized_reads [OF assms] by metis
  have "norm_lines (split_lines out) up down = norm_lines (split_lines conf) up down"
    unfolding r(3) by (rule norm_again(3) [OF assms(1) refl refl])
  then have "normalizeAgentConfig out remote opts = Inr out"
    using r(1,2,4) unfolding normalize_lines [OF r(7)] r(5,6) by auto
  then show ?thesis using r(5,6) by blast
qed

text \<open>The stored configuration of an agent settles: normalising what was normalised with the same
  networks gives the same text, so that its hash does not change and an agent does not restart its
  tunnel on every synchronisation. Normalising leaves the tunnel network and the networks of the
  hub peer as they are. (Sections before the first peer are interface sections, an address is on
  one line, and there are no carriage returns.)\<close>

theorem normalizeAgentConfig_settles:
  assumes "agent_file conf" "normalizeAgentConfig conf remote opts = Inr out"
  shows "normalizeAgentConfig out remote opts = Inr out
    \<and> deriveTunnelSubnet out = deriveTunnelSubnet conf \<and> parseHubPeerAllowedIPs out = parseHubPeerAllowedIPs conf"
  using normalize_again [OF assms] .

subsection \<open>Only the hub's hooks, and no key\<close>

lemma no_hook_kept: "filter is_hook (kept_lines b ls) = []"
proof (induction ls arbitrary: b)
  case (Cons raw ls)
  then show ?case using hidden_line(3) by (auto simp: Let_def kept_line_of_def)
qed simp

fun no_key :: "bool \<Rightarrow> string list \<Rightarrow> bool" where
  "no_key b [] = True"
| "no_key b (l # ls) = (let b = now_in_interface l b in \<not> shows_key b l \<and> no_key b ls)"

lemma no_key_append: "no_key b (xs @ ys) \<longleftrightarrow> no_key b xs \<and> no_key (fold now_in_interface xs b) ys"
  by (induction xs arbitrary: b) (simp_all add: Let_def)


lemma kept_no_key: "no_key b (kept_lines b ls)"
proof (induction ls arbitrary: b)
  case (Cons raw ls)
  let ?b = "now_in_interface raw b"
  have s: "fold now_in_interface (kept_line_of ?b raw) b = ?b"
    using key_line [of ?b raw] hook_not_header [of raw] not_header [of raw b] not_header [OF hidden_line(1)]
    by (auto simp: kept_line_of_def)
  have "no_key b (kept_line_of ?b raw)" using hidden_line(2) by (simp add: kept_line_of_def Let_def)
  then show ?case using Cons.IH [of ?b] by (simp add: Let_def no_key_append s)
qed simp

lemma no_key_plain: "list_all (\<lambda>l. \<not> is_header l \<and> (\<forall>c. \<not> shows_key c l)) xs \<Longrightarrow> no_key b xs \<and> fold now_in_interface xs b = b"
  by (induction xs) (simp_all add: not_header Let_def)

lemma norm_lines_hooks: "filter is_hook (norm_lines ls up down) = [''PostUp = '' @ up, ''PostDown = '' @ down]"
proof -
  define K where "K = kept_lines False ls"
  have td: "filter P (take j K) = [] \<and> filter P (drop j K) = []" if "filter P K = []" for P j
    using that by (metis append_is_Nil_conv append_take_drop_id filter_append)
  have h: "is_hook (''PostUp = '' @ t)" "is_hook (''PostDown = '' @ t)" for t
    using hook_written(1) [of True t] hook_written(1) [of False t] by (simp_all add: hook_name_def)
  show ?thesis using td [OF no_hook_kept [of False ls, folded K_def]] table_line(3) h
    by (simp add: norm_lines_def K_def [symmetric] Let_def hook_name_def)
qed

lemma norm_lines_no_key: "no_key False (norm_lines ls up down)"
proof -
  define K where "K = kept_lines False ls"
  let ?T = "(if table_in False ls then [] else [''Table = off'']) @ [hook_name True @ '' = '' @ up, hook_name False @ '' = '' @ down]"
  let ?j = "norm_insert K"
  have "list_all (\<lambda>l. \<not> is_header l \<and> (\<forall>c. \<not> shows_key c l)) ?T" using table_line(1,2) hook_written(2) hook_neutral(3) by simp
  note t = no_key_plain [OF this, of "fold now_in_interface (take ?j K) False"]
  have k: "no_key False (take ?j K @ drop ?j K)" using kept_no_key [of False ls] by (simp add: K_def)
  have "norm_lines ls up down = take ?j K @ ?T @ drop ?j K" by (simp add: norm_lines_def K_def [symmetric] Let_def)
  then show ?thesis using t k by (simp only: no_key_append)
qed

lemma hooks_built:
  assumes "buildHubPostUp tunnel remote nets opts = Inr up" "buildHubPostDown tunnel remote nets opts = Inr down"
  obtains i where "sanitizeWgInterface (ho_iface opts) = Inr i" "up = hook_text True i (ho_localNets opts) tunnel remote nets"
    "down = hook_text False i (ho_localNets opts) tunnel remote nets"
    "list_all shell_word (i # tunnel # ho_localNets opts @ remote @ nets)"
proof -
  obtain i where i: "sanitizeWgInterface (ho_iface opts) = Inr i" "up = hook_text True i (ho_localNets opts) tunnel remote nets"
    "down = hook_text False i (ho_localNets opts) tunnel remote nets" "list_all CIDR_RE (ho_localNets opts @ tunnel # remote @ nets)"
    using assms unfolding buildHubPostUp_def buildHubPostDown_def build_hook_Inr by auto
  have "list_all shell_word (i # tunnel # ho_localNets opts @ remote @ nets)"
    using iface_word [OF i(1)] i(4) CIDR_word by (auto simp: list_all_iff)
  then show thesis by (rule that [OF i(1-3)])
qed

text \<open>A line as wg-quick reads it: the key is the text before the equals sign without a comment, in any case
  of letters. Hooks are run for four keys.\<close>

definition conf_key :: "string \<Rightarrow> string" where
  "conf_key l = to_lower (trim (takeWhile (\<lambda>c. c \<noteq> CHR ''='') (takeWhile (\<lambda>c. c \<noteq> CHR ''#'') l)))"

definition conf_value :: "string \<Rightarrow> string" where
  "conf_value l = trim (tl (dropWhile (\<lambda>c. c \<noteq> CHR ''='') (takeWhile (\<lambda>c. c \<noteq> CHR ''#'') l)))"

definition runs_hook :: "string \<Rightarrow> bool" where
  "runs_hook l \<longleftrightarrow> conf_key l \<in> {''preup'', ''postup'', ''predown'', ''postdown''}"

definition shows_secret :: "bool \<Rightarrow> string \<Rightarrow> bool" where
  "shows_secret inInterface l \<longleftrightarrow> inInterface \<and> conf_key l = ''privatekey'' \<and> conf_value l \<noteq> ''(hidden)''"

fun no_secret :: "bool \<Rightarrow> string list \<Rightarrow> bool" where
  "no_secret b [] = True"
| "no_secret b (l # ls) = (let b = now_in_interface l b in \<not> shows_secret b l \<and> no_secret b ls)"

text \<open>The spelling an upload has when it comes from the agent: no hooks besides PostUp and PostDown, these and
  the private key with capitals, and the word for a hidden key only as the key.\<close>

definition usual_spelling :: "string \<Rightarrow> bool" where
  "usual_spelling l \<longleftrightarrow> (runs_hook l \<longrightarrow> is_hook l)
     \<and> (conf_key l = ''privatekey'' \<longrightarrow> starts_with ''PrivateKey'' (trim l)
          \<and> (str_includes ''(hidden)'' (trim l) \<longrightarrow> conf_value l = ''(hidden)''))"

lemma written_keys:
  "conf_key ''PrivateKey = (hidden)'' = ''privatekey''" "conf_value ''PrivateKey = (hidden)'' = ''(hidden)''" "conf_key ''Table = off'' = ''table''"
  by code_simp+

lemma hook_key: "conf_key (hook_name b @ '' = '' @ t) = (if b then ''postup'' else ''postdown'')"
proof -
  have "to_lower (trim ''PostUp '') = ''postup''" "to_lower (trim ''PostDown '') = ''postdown''" by code_simp+
  then show ?thesis by (cases b) (simp_all add: conf_key_def hook_name_def)
qed

lemma norm_lines_in:
  "l \<in> set (norm_lines ls up down) \<Longrightarrow> l \<in> set ls \<and> \<not> is_hook l \<or> l \<in> {''PrivateKey = (hidden)'', ''Table = off''}
     \<or> (\<exists>b t. l = hook_name b @ '' = '' @ t)"
proof -
  have k: "l \<in> set (kept_lines b ls) \<Longrightarrow> l \<in> set ls \<and> \<not> is_hook l \<or> l = ''PrivateKey = (hidden)''" for b
  proof (induction ls arbitrary: b)
    case (Cons raw ls)
    then show ?case by (auto simp: Let_def kept_line_of_def split: if_split_asm)
  qed simp
  assume "l \<in> set (norm_lines ls up down)"
  then show ?thesis using k [of False]
    by (auto simp: norm_lines_def Let_def dest: in_set_takeD in_set_dropD split: if_split_asm)
qed

lemma norm_lines_spelling:
  assumes "list_all usual_spelling ls" "l \<in> set (norm_lines ls up down)"
  shows "usual_spelling l" "runs_hook l \<Longrightarrow> is_hook l"
proof -
  have w: "usual_spelling ''PrivateKey = (hidden)''" "usual_spelling ''Table = off''"
    using written_keys written_lines(1) by (simp_all add: usual_spelling_def runs_hook_def starts_with_def)
  have h: "usual_spelling (hook_name b @ '' = '' @ t)" for b t
    using hook_key [of b t] hook_written(1) [of b t] by (cases b) (simp_all add: usual_spelling_def)
  show s: "usual_spelling l" using norm_lines_in [OF assms(2)] assms(1) w h by (auto simp: list_all_iff)
  then show "runs_hook l \<Longrightarrow> is_hook l" by (simp add: usual_spelling_def)
qed

lemma no_key_no_secret: "no_key b ls \<Longrightarrow> list_all usual_spelling ls \<Longrightarrow> no_secret b ls"
  by (induction ls arbitrary: b) (auto simp: Let_def shows_key_def shows_secret_def usual_spelling_def)

text \<open>C6: Of the hooks an agent uploads nothing is kept: in a normalised file the lines that are a hook, by
  the beginning the code looks at or as wg-quick reads keys, are exactly the PostUp and the PostDown
  line the hub writes; they consist of the fixed texts and of words of digits, dots, slashes and the
  letters of an interface name, so that nothing in them ends a command or begins another; and no
  private key in an interface section has a value other than (hidden). (The upload spells its hooks
  and its private key the usual way and has no other hooks, since others are kept; it has no carriage
  returns, no section besides the interface's in front of the first peer, and no empty address.)\<close>

theorem only_hub_hooks:
  assumes "agent_file conf" "list_all usual_spelling (split_lines conf)" "normalizeAgentConfig conf remote opts = Inr out"
  shows "\<exists>iface nets. filter (\<lambda>l. is_hook l \<or> runs_hook l) (split_lines out) =
      [''PostUp = '' @ hook_text True iface (ho_localNets opts) (deriveTunnelSubnet conf) remote nets,
       ''PostDown = '' @ hook_text False iface (ho_localNets opts) (deriveTunnelSubnet conf) remote nets]
    \<and> list_all shell_word (iface # deriveTunnelSubnet conf # ho_localNets opts @ remote @ nets)
    \<and> no_secret False (split_lines out)"
proof -
  let ?nets = "filter (\<lambda>c. \<not> isHostRoute c) (parseHubPeerAllowedIPs conf)"
  let ?ls = "split_lines conf"
  obtain up down where r: "buildHubPostUp (deriveTunnelSubnet conf) remote ?nets opts = Inr up"
    "buildHubPostDown (deriveTunnelSubnet conf) remote ?nets opts = Inr down" "split_lines out = norm_lines ?ls up down"
    using normalized_reads [OF assms(1,3)] by metis
  obtain i where i: "up = hook_text True i (ho_localNets opts) (deriveTunnelSubnet conf) remote ?nets"
    "down = hook_text False i (ho_localNets opts) (deriveTunnelSubnet conf) remote ?nets"
    "list_all shell_word (i # deriveTunnelSubnet conf # ho_localNets opts @ remote @ ?nets)"
    by (rule hooks_built [OF r(1,2)])
  note sp = norm_lines_spelling [OF assms(2)]
  have "filter (\<lambda>l. is_hook l \<or> runs_hook l) (norm_lines ?ls up down) = filter is_hook (norm_lines ?ls up down)"
    by (rule filter_cong [OF refl]) (use sp(2) in blast)
  moreover have "no_secret False (norm_lines ?ls up down)"
    using no_key_no_secret [OF norm_lines_no_key] sp(1) by (simp add: list_all_iff)
  ultimately show ?thesis unfolding r(3) norm_lines_hooks using i by blast
qed

subsection \<open>Rewriting the hub peer\<close>

lemma starts_no_address: "starts_with (c # p) (trim l) \<Longrightarrow> c \<in> {CHR ''E'', CHR ''P''} \<or> (c = CHR ''A'' \<and> starts_with ''l'' p) \<Longrightarrow> \<not> address_start l"
proof
  assume s: "starts_with (c # p) (trim l)" and c: "c \<in> {CHR ''E'', CHR ''P''} \<or> (c = CHR ''A'' \<and> starts_with ''l'' p)" and a: "address_start l"
  have "dropWhile js_ws l = [] \<or> \<not> js_ws (hd (dropWhile js_ws l))" using dropWhile_ends by blast
  moreover have "trim (dropWhile js_ws l) = trim l" by (simp add: trim_def dropWhile_idem)
  ultimately have "starts_with (c # p) (dropWhile js_ws l)" using starts_with_trans [OF s] trim_prefix [of "dropWhile js_ws l"] by simp
  then obtain r where r: "dropWhile js_ws l = c # p @ r" by (auto simp: starts_with_def) (metis append_Cons append_take_drop_id)
  have low: "lower_char CHR ''E'' \<noteq> CHR ''a''" "lower_char CHR ''P'' \<noteq> CHR ''a''" "lower_char CHR ''l'' \<noteq> CHR ''d''" by code_simp+
  have "lower_char c = CHR ''a''" using a by (simp add: address_start_def to_lower_def r)
  then have "c = CHR ''A'' \<and> starts_with ''l'' p" using c low by auto
  then obtain p' where "p = CHR ''l'' # p'" by (cases p) (auto simp: starts_with_def)
  then show False using a low(3) by (simp add: address_start_def to_lower_def r)
qed

lemma hub_line_zone: "hub_line key z raw \<Longrightarrow> \<not> is_header raw \<and> next_zone raw z = z"
  using not_header [of raw] peer_is_header [of raw] by (auto simp: hub_line_def is_header_def)

lemma set_hub_frame:
  "filter is_header (set_hub_ips ips z rep ls) = filter is_header ls"
  "filter address_start (set_hub_ips ips z rep ls) = filter address_start ls"
proof (induction ls arbitrary: z rep)
  case (Cons raw ls)
  have w: "\<not> is_header (''AllowedIPs = '' @ x) \<and> starts_with ''AllowedIPs'' (trim (''AllowedIPs = '' @ x))" for x
  proof -
    have "\<exists>r. trim (''AllowedIPs ='' @ ('' '' @ x)) = ''AllowedIPs ='' @ r" by (subst trim_append) (simp_all add: hd_ws)
    then obtain r where "trim (''AllowedIPs = '' @ x) = ''AllowedIPs ='' @ r" by auto
    then show ?thesis by (simp add: is_header_def starts_with_def)
  qed
  have a: "\<not> address_start l" if "starts_with ''AllowedIPs'' (trim l)" for l
    using starts_no_address [OF that] by (simp add: starts_with_def)
  { case 1
    show ?case using Cons.IH(1) hub_line_zone [of "''AllowedIPs''" z raw] w [of "join '', '' ips"] by auto }
  { case 2
    show ?case using Cons.IH(2) a [of raw] a [of "''AllowedIPs = '' @ join '', '' ips"] w [of "join '', '' ips"]
      by (auto simp: hub_line_def) }
qed simp_all

text \<open>Whether the hub peer has a line of networks.\<close>

definition has_hub_ips :: "zone \<Rightarrow> string list \<Rightarrow> bool" where
  "has_hub_ips z ls \<longleftrightarrow> hub_lines ''AllowedIPs'' z ls \<noteq> []"

definition new_ips_line :: "string list \<Rightarrow> string" where
  "new_ips_line ips = ''AllowedIPs = '' @ join '', '' ips"

lemma set_hub_hit:
  "hub_line ''AllowedIPs'' z raw \<Longrightarrow>
     set_hub_ips ips z rep (raw # rest) = (if rep then [] else [new_ips_line ips]) @ set_hub_ips ips z True rest"
  using hub_line_zone [of "''AllowedIPs''" z raw] by (simp add: new_ips_line_def)

lemma set_hub_miss:
  "\<not> hub_line ''AllowedIPs'' z raw \<Longrightarrow> set_hub_ips ips z rep (raw # rest) = raw # set_hub_ips ips (next_zone raw z) rep rest"
  by simp

lemma keys_differ: "starts_with ''AllowedIPs'' t \<Longrightarrow> \<not> starts_with ''Endpoint'' t"
  by (cases t) (auto simp: starts_with_def)

lemma new_ips_line_zone:
  assumes "list_all (plain_item CHR '','') ips"
  shows "next_zone (new_ips_line ips) z = z" "\<not> hub_line ''Endpoint'' z' (new_ips_line ips)"
    and "hub_line ''AllowedIPs'' z raw \<Longrightarrow> hub_line ''AllowedIPs'' z (new_ips_line ips)"
proof -
  note w = written_ips [OF assms, of "new_ips_line ips", unfolded new_ips_line_def, OF refl, folded new_ips_line_def]
  show "next_zone (new_ips_line ips) z = z" using not_header [OF w(1)] by simp
  show "\<not> hub_line ''Endpoint'' z' (new_ips_line ips)" using keys_differ [OF w(2)] by (simp add: hub_line_def)
  show "hub_line ''AllowedIPs'' z raw \<Longrightarrow> hub_line ''AllowedIPs'' z (new_ips_line ips)"
    using w(1,2) peer_is_header [of "new_ips_line ips"] by (auto simp: hub_line_def is_header_def)
qed

lemma set_hub_lines:
  assumes "list_all (plain_item CHR '','') ips"
  shows "hub_lines ''AllowedIPs'' z (set_hub_ips ips z rep ls) = (if \<not> rep \<and> has_hub_ips z ls then [new_ips_line ips] else [])"
    and "hub_lines ''Endpoint'' z (set_hub_ips ips z rep ls) = hub_lines ''Endpoint'' z ls"
proof (induction ls arbitrary: z rep)
  case (Cons raw ls)
  note w = new_ips_line_zone [OF assms]
  { case 1
    show ?case
    proof (cases "hub_line ''AllowedIPs'' z raw")
      case True
      then show ?thesis using Cons.IH(1) [of z True] hub_line_zone [OF True] w(1) w(3) [OF True]
        by (simp add: has_hub_ips_def set_hub_hit [OF True] del: set_hub_ips.simps(2))
    next
      case False
      then show ?thesis using Cons.IH(1) [of "next_zone raw z" rep] by (simp add: has_hub_ips_def)
    qed }
  { case 2
    have no: "\<not> hub_line ''Endpoint'' z raw" if "hub_line ''AllowedIPs'' z raw"
      using that keys_differ by (auto simp: hub_line_def)
    show ?case
    proof (cases "hub_line ''AllowedIPs'' z raw")
      case True
      then show ?thesis using Cons.IH(2) [of z True] hub_line_zone [OF True] w(1,2) no
        by (simp add: set_hub_hit [OF True] del: set_hub_ips.simps(2))
    next
      case False
      then show ?thesis using Cons.IH(2) [of "next_zone raw z" rep] by simp
    qed }
qed (simp_all add: has_hub_ips_def)

lemma set_hub_fix:
  "hub_lines ''AllowedIPs'' z ls = [] \<Longrightarrow> set_hub_ips ips z rep ls = ls"
  "hub_lines ''AllowedIPs'' z ls = [new_ips_line ips] \<Longrightarrow> set_hub_ips ips z False ls = ls"
proof (induction ls arbitrary: z rep)
  case (Cons raw ls)
  { case 1
    then have "\<not> hub_line ''AllowedIPs'' z raw" "hub_lines ''AllowedIPs'' (next_zone raw z) ls = []" by (auto split: if_splits)
    then show ?case using Cons.IH(1) by simp }
  { case 2
    show ?case
    proof (cases "hub_line ''AllowedIPs'' z raw")
      case True
      then have "raw = new_ips_line ips" "hub_lines ''AllowedIPs'' z ls = []" using 2 hub_line_zone [OF True] by simp_all
      then show ?thesis using Cons.IH(1) [of z True] unfolding set_hub_hit [OF True] by simp
    next
      case False
      then show ?thesis using Cons.IH(2) [of "next_zone raw z"] 2 by simp
    qed }
qed simp_all

lemma set_hub_reads:
  assumes "list_all (plain_item CHR '','') ips"
  shows "hub_ips z (set_hub_ips ips z rep ls) = (if \<not> rep \<and> has_hub_ips z ls then ips else [])"
  using written_ips(5) [OF assms new_ips_line_def] by (simp add: hub_ips_lines set_hub_lines(1) [OF assms])

lemma set_hub_one: "list_all one_line ls \<Longrightarrow> list_all one_line ips \<Longrightarrow> list_all one_line (set_hub_ips ips z rep ls)"
proof (induction ls arbitrary: z rep)
  case (Cons raw ls)
  have "one_line '', ''" "one_line ''AllowedIPs = ''" by code_simp+
  then have "one_line (''AllowedIPs = '' @ join '', '' ips)" using one_line_parts [OF Cons.prems(2)] unfolding one_line_append by blast
  then show ?case using Cons by simp
qed simp

lemma rewritten_file:
  assumes "agent_file conf" "list_all one_line N"
    and "filter is_header N = filter is_header (split_lines conf)" "filter address_start N = filter address_start (split_lines conf)"
  shows "agent_file (join [LF] N)" "split_lines (join [LF] N) = N" "deriveTunnelSubnet (join [LF] N) = deriveTunnelSubnet conf"
proof -
  let ?ls = "split_lines conf"
  let ?c = "join [LF] N"
  have cr: "CR \<notin> set conf" and ad: "list_all address_ok ?ls" using assms(1) by (simp_all add: agent_file_def)
  have "list_ex is_header ?ls" using assms(1) unfolding agent_file_def Let_def list_ex_iff by (blast dest: set_takeWhileD)
  then have hd: "list_ex is_header N" by (metis assms(3) filter_empty_conv list_ex_iff)
  then have ne: "N \<noteq> []" by auto
  show sp: "split_lines ?c = N" using ne assms(2) by (intro split_lines_join) (auto simp: list_all_iff one_line_def)
  have "CR \<notin> set (join [LF] xs)" if "list_all one_line xs" for xs
    using that by (induction "[LF]" xs rule: join.induct) (auto simp: one_line_def)
  then have crc: "CR \<notin> set ?c" using assms(2) by blast
  have nec: "?c \<noteq> []"
  proof
    assume "?c = []"
    then have "N = [[]]" using sp by (simp add: split_lines_def)
    then show False using hd by (simp add: is_header_def trim_def starts_with_def)
  qed
  show af: "agent_file ?c" by (rule agent_file_frame [OF assms(1) crc nec]) (simp_all add: sp assms(3,4))
  have adN: "list_all address_ok N" using af by (simp add: agent_file_def sp)
  have "?ls \<noteq> []" by (simp add: split_lines_def Let_def)
  from derive_lines [OF ne assms(2) adN] derive_lines [OF this split_lines_one [OF cr] ad]
  show "deriveTunnelSubnet ?c = deriveTunnelSubnet conf" by (simp add: assms(4) join_split_lines [OF cr])
qed

lemma rewrite_ips_reads:
  assumes "agent_file conf" "list_all (plain_item CHR '','') ips" "list_all one_line ips"
  shows "agent_file (rewriteHubPeerAllowedIPs conf ips)"
    and "parseHubPeerAllowedIPs (rewriteHubPeerAllowedIPs conf ips) = (if has_hub_ips (0, False) (split_lines conf) then ips else [])"
    and "deriveTunnelSubnet (rewriteHubPeerAllowedIPs conf ips) = deriveTunnelSubnet conf"
    and "split_lines (rewriteHubPeerAllowedIPs conf ips) = set_hub_ips ips (0, False) False (split_lines conf)"
proof -
  have "list_all one_line (split_lines conf)" using split_lines_one assms(1) by (simp add: agent_file_def)
  note f = rewritten_file [OF assms(1) set_hub_one [OF this assms(3), of "(0, False)" False] set_hub_frame, folded rewriteHubPeerAllowedIPs_def]
  show "agent_file (rewriteHubPeerAllowedIPs conf ips)" "deriveTunnelSubnet (rewriteHubPeerAllowedIPs conf ips) = deriveTunnelSubnet conf"
    "split_lines (rewriteHubPeerAllowedIPs conf ips) = set_hub_ips ips (0, False) False (split_lines conf)" by (rule f)+
  then show "parseHubPeerAllowedIPs (rewriteHubPeerAllowedIPs conf ips) = (if has_hub_ips (0, False) (split_lines conf) then ips else [])"
    by (simp add: parseHubPeerAllowedIPs_def set_hub_reads [OF assms(2)])
qed

definition site_conf :: string where
  "site_conf = join [LF] [''[Interface]'', ''Address = 10.1.0.5/24'', ''PrivateKey = ab'', ''PostUp = reboot'',
     ''[Peer]'', ''AllowedIPs = 10.1.0.0/24, 10.2.0.0/24'']"

definition site_opts :: hook_opts where
  "site_opts = \<lparr>ho_iface = JStr ''wg0'', ho_localNets = [''10.3.0.0/24'']\<rparr>"

lemma site_regular: "agent_file site_conf" by code_simp

lemma site_reads:
  "deriveTunnelSubnet site_conf = ''10.1.0.0/24''" "parseHubPeerAllowedIPs site_conf = [''10.1.0.0/24'', ''10.2.0.0/24'']"
  "CIDR_RE ''10.1.0.0/24''" "CIDR_RE ''10.2.0.0/24''" "CIDR_RE ''10.3.0.0/24''" "sanitizeWgInterface (JStr ''wg0'') = Inr ''wg0''"
  "\<not> isHostRoute ''10.1.0.0/24''" "\<not> isHostRoute ''10.2.0.0/24''" "site_conf \<noteq> []"
  by code_simp+

lemma site_normal: obtains out where "normalizeAgentConfig site_conf [''10.2.0.0/24''] site_opts = Inr out"
proof -
  have h: "\<exists>t. build_hook isUp ''10.1.0.0/24'' [''10.2.0.0/24''] [''10.1.0.0/24'', ''10.2.0.0/24''] site_opts = Inr t" for isUp
    unfolding build_hook_Inr using site_reads by (simp add: site_opts_def)
  show thesis using that h [of True] h [of False] site_reads(1,2,7,8)
    unfolding normalize_lines [OF site_reads(9)] buildHubPostUp_def buildHubPostDown_def by auto
qed

theorem normalizeAgentConfig_settles_witness:
  "\<exists>out. normalizeAgentConfig site_conf [''10.2.0.0/24''] site_opts = Inr out
     \<and> normalizeAgentConfig out [''10.2.0.0/24''] site_opts = Inr out \<and> deriveTunnelSubnet out = ''10.1.0.0/24''
     \<and> parseHubPeerAllowedIPs out = [''10.1.0.0/24'', ''10.2.0.0/24'']"
proof -
  obtain out where n: "normalizeAgentConfig site_conf [''10.2.0.0/24''] site_opts = Inr out" by (rule site_normal)
  show ?thesis using n normalizeAgentConfig_settles [OF site_regular n] site_reads(1,2) by auto
qed

theorem only_hub_hooks_witness:
  "\<exists>out iface nets. normalizeAgentConfig site_conf [''10.2.0.0/24''] site_opts = Inr out
     \<and> filter runs_hook (split_lines site_conf) = [''PostUp = reboot''] \<and> filter (\<lambda>l. is_hook l \<or> runs_hook l) (split_lines out) =
      [''PostUp = '' @ hook_text True iface (ho_localNets site_opts) (deriveTunnelSubnet site_conf) [''10.2.0.0/24''] nets,
       ''PostDown = '' @ hook_text False iface (ho_localNets site_opts) (deriveTunnelSubnet site_conf) [''10.2.0.0/24''] nets]
     \<and> no_secret False (split_lines out) \<and> \<not> no_secret False (split_lines site_conf)"
proof -
  obtain out where n: "normalizeAgentConfig site_conf [''10.2.0.0/24''] site_opts = Inr out" by (rule site_normal)
  have "filter runs_hook (split_lines site_conf) = [''PostUp = reboot'']" "\<not> no_secret False (split_lines site_conf)"
    and sp: "list_all usual_spelling (split_lines site_conf)" by code_simp+
  then show ?thesis using n only_hub_hooks [OF site_regular sp n] by blast
qed

text \<open>The names of the keys are matched in one spelling, while wg-quick reads them in any case of
  letters, and of the four hooks only two are taken out.\<close>

lemma other_hooks_survive:
  "kept_lines False [''[Interface]'', ''privatekey = abc='', ''postup = reboot'', ''PreUp = reboot'', ''[Peer]'']
     = [''[Interface]'', ''privatekey = abc='', ''postup = reboot'', ''PreUp = reboot'', ''[Peer]'']"
  by code_simp

subsection \<open>An agent without a link\<close>

lemma trim_slash: "list_all is_digit d \<Longrightarrow> trim (a @ CHR ''/'' # d) = dropWhile js_ws a @ CHR ''/'' # d"
proof -
  assume d: "list_all is_digit d"
  have "\<not> js_ws CHR ''/''" by (simp add: js_ws_def)
  then have 1: "dropWhile js_ws (a @ CHR ''/'' # d) = dropWhile js_ws a @ CHR ''/'' # d" by (induction a) auto
  have "dropWhile js_ws (rev d @ CHR ''/'' # x) = rev d @ CHR ''/'' # x" for x
  proof (cases "rev d")
    case (Cons c r)
    then have "c \<in> set d" by (metis list.set_intros(1) set_rev)
    then show ?thesis using d Cons digit_not_ws [of c] by (simp add: list_all_iff)
  qed (simp add: js_ws_def)
  then show ?thesis unfolding trim_def 1 by simp
qed

lemma canonical_prefix:
  assumes "canonicalizeIpv4Network (a @ CHR ''/'' # str_of_nat m) = Some r"
  obtains w where "r = cidr_text w m"
proof -
  have "split_on CHR ''/'' (str_of_nat m) = [str_of_nat m]"
    by (rule split_on_no_sep) (use str_of_nat_digits [of m] in \<open>auto simp: list_all_iff is_digit_def simp del: str_of_nat_digits\<close>)
  then have "split_on CHR ''/'' (trim (a @ CHR ''/'' # str_of_nat m)) = split_on CHR ''/'' (dropWhile js_ws a) @ [str_of_nat m]"
    by (simp add: trim_slash split_on_append)
  then show thesis using assms that
    by (auto simp: canonicalizeIpv4Network_def Let_def append_eq_Cons_conv split: list.split_asm option.split_asm if_split_asm)
qed

lemma ends_with_same: "length p = length q \<Longrightarrow> ends_with p (x @ q) \<longleftrightarrow> p = q"
  by (auto simp: ends_with_def starts_with_def)

lemma tunnel_text: obtains w k where "deriveTunnelSubnet conf = cidr_text w k" "k < 32"
proof -
  have "''10.10.0.0/24'' = cidr_text 0x0A0A0000 24" by code_simp
  then have dflt: "\<exists>w. ''10.10.0.0/24'' = cidr_text w 24" by blast
  have c: "\<exists>w j. or_else (canonicalizeIpv4Network (a @ CHR ''/'' # str_of_nat k)) ''10.10.0.0/24'' = cidr_text w j \<and> j < 32"
    if k: "k < 32" for a k
  proof (cases "canonicalizeIpv4Network (a @ CHR ''/'' # str_of_nat k)")
    case None
    have "(24::nat) < 32" by simp
    with dflt show ?thesis unfolding None or_else_def by auto
  next
    case (Some r)
    then obtain w where "r = cidr_text w k" by (rule canonical_prefix)
    then show ?thesis using k unfolding Some or_else_def by auto
  qed
  have e: "''24'' = str_of_nat 24" by code_simp
  have "\<exists>w k. subnet_of_address m = cidr_text w k \<and> k < 32" for m
  proof (cases m)
    case (Some p)
    obtain a t where p: "p = (a, t)" by force
    define k where "k = (if nat_of_digits t = 32 then 24 else nat_of_digits t)"
    show ?thesis
    proof (cases "nat_of_digits t < 1 \<or> 32 < nat_of_digits t")
      case True
      then show ?thesis using Some p dflt by (auto simp: subnet_of_address_def Let_def)
    next
      case False
      then have k: "k < 32" by (auto simp: k_def)
      have "subnet_of_address m = or_else (canonicalizeIpv4Network (a @ CHR ''/'' # str_of_nat k)) ''10.10.0.0/24''"
        using False Some p e by (auto simp: subnet_of_address_def Let_def k_def)
      then show ?thesis using c [OF k, of a] by simp
    qed
  qed (use dflt in \<open>auto simp: subnet_of_address_def\<close>)
  then show thesis using that by (auto simp: deriveTunnelSubnet_def)
qed

lemma tunnel_not_host: "\<not> isHostRoute (deriveTunnelSubnet conf)"
proof -
  obtain w k where r: "deriveTunnelSubnet conf = cidr_text w k" "k < 32" by (rule tunnel_text)
  have "length (str_of_nat k) \<le> 2" using r(2) by simp
  moreover have "str_of_nat k \<noteq> ''32''" using r(2) str_32 str_of_nat_inject [of k 32] by auto
  moreover have "str_of_nat k \<noteq> ''128''" using \<open>length (str_of_nat k) \<le> 2\<close> by auto
  moreover have "CHR ''/'' \<notin> set (str_of_nat k)" using str_of_nat_digits [of k] by (auto simp: list_all_iff is_digit_def simp del: str_of_nat_digits)
  ultimately show ?thesis
    unfolding r(1) isHostRoute_def cidr_text_def ends_with_def starts_with_def
    by (cases "rev (str_of_nat k)" rule: remdups_adj.cases) (auto dest: arg_cong [where f = rev])
qed

lemma tunnel_plain: "plain_item CHR '','' (deriveTunnelSubnet conf)" "one_line (deriveTunnelSubnet conf)"
proof -
  obtain w k where r: "deriveTunnelSubnet conf = cidr_text w k" "k < 32" by (rule tunnel_text)
  have no: "c \<noteq> LF \<and> c \<noteq> CR" if "\<not> js_ws c" for c using that by (auto simp: js_ws_def)
  have ws: "\<not> js_ws c" if "c \<in> set (cidr_text w k)" for c using that by (rule cidr_text_no_ws)
  have "CHR '','' \<notin> set (intToIp w)" using set_intToIp [of "CHR '',''" w] by (auto simp: is_digit_def)
  moreover have "CHR '','' \<notin> set (str_of_nat k)" using str_of_nat_digits [of k] by (auto simp: list_all_iff is_digit_def simp del: str_of_nat_digits)
  ultimately have "CHR '','' \<notin> set (cidr_text w k)" by (auto simp: cidr_text_def)
  moreover have "trim (cidr_text w k) = cidr_text w k" using ws by (intro trim_id) (auto simp: hd_in_set last_in_set)
  ultimately show "plain_item CHR '','' (deriveTunnelSubnet conf)" "one_line (deriveTunnelSubnet conf)"
    using no ws by (auto simp: r plain_item_def one_line_def)
qed

lemma hub_lines_in: "l \<in> set (hub_lines key z ls) \<Longrightarrow> l \<in> set ls"
proof (induction ls arbitrary: z)
  case (Cons raw ls)
  show ?case using Cons.prems Cons.IH [of "next_zone raw z"] by (auto split: if_splits)
qed simp

lemma set_valOf: "set (valOf l) \<subseteq> set l"
proof -
  have "set (tl xs) \<subseteq> set xs" for xs :: string by (cases xs) auto
  then have "set (tl (dropWhile P l)) \<subseteq> set l" for P by (blast dest: set_dropWhileD)
  then show ?thesis unfolding valOf_def using set_trim [of l] set_trim [of "tl (dropWhile (\<lambda>c. c \<noteq> CHR ''='') l)"] by auto
qed

lemma host_plain:
  assumes "agent_file conf" "c \<in> set (parseHubPeerAllowedIPs conf)"
  shows "plain_item CHR '','' c" "one_line c"
proof -
  obtain l where l: "l \<in> set (split_lines conf)" "c \<in> set (comma_list (valOf (trim l)))"
    using assms(2) hub_lines_in [of _ "''AllowedIPs''" "(0, False)"] by (auto simp: parseHubPeerAllowedIPs_def hub_ips_lines)
  show "plain_item CHR '','' c" using comma_list_plain [of "valOf (trim l)"] l(2) by (simp add: list_all_iff)
  have "one_line l" using split_lines_one [of conf] assms(1) l(1) by (simp add: agent_file_def list_all_iff)
  moreover have "set (valOf (trim l)) \<subseteq> set l" using set_valOf set_trim by blast
  moreover have "set c \<subseteq> set (valOf (trim l))" using l(2) set_trim set_split_on by (fastforce simp: comma_list_def)
  ultimately show "one_line c" by (auto simp: one_line_def)
qed

lemma singleton_list: "distinct xs \<Longrightarrow> set xs = {x} \<Longrightarrow> xs = [x]"
  by (cases xs rule: remdups_adj.cases) (auto simp: insert_eq_iff)

text \<open>C16: An agent without a link keeps no network of a site. When its hub peer has a line of networks, these
  are afterwards the tunnel network and the host routes it had, and nothing else; without such a line
  there are none before and after. The hooks of the agent route the tunnel network at most, and
  rewrite the source of nothing else; and doing it again changes nothing. (The stored file has no
  carriage returns, no section besides the interface's in front of the first peer, and no empty
  address.)\<close>

theorem stripToTunnelOnly_reach:
  assumes "agent_file conf" "stripToTunnelOnly conf iface = Inr out"
  shows "parseHubPeerAllowedIPs out = (if has_hub_ips (0, False) (split_lines conf)
        then sort (uniq (deriveTunnelSubnet conf # filter isHostRoute (parseHubPeerAllowedIPs conf))) else [])
    \<and> (\<exists>i. let nets = if has_hub_ips (0, False) (split_lines conf) then [deriveTunnelSubnet conf] else []
        in filter is_hook (split_lines out) =
         [''PostUp = '' @ hook_text True i [] (deriveTunnelSubnet conf) [] nets,
          ''PostDown = '' @ hook_text False i [] (deriveTunnelSubnet conf) [] nets])
    \<and> stripToTunnelOnly out iface = Inr out"
proof -
  let ?t = "deriveTunnelSubnet conf"
  let ?H = "filter isHostRoute (parseHubPeerAllowedIPs conf)"
  let ?opts = "\<lparr>ho_iface = iface, ho_localNets = []\<rparr>"
  let ?has = "has_hub_ips (0, False) (split_lines conf)"
  define safe where "safe = sort (uniq (?t # ?H))"
  define c where "c = rewriteHubPeerAllowedIPs conf safe"
  define kept where "kept = (if ?has then safe else [])"
  have n: "normalizeAgentConfig c [] ?opts = Inr out"
    using assms(2) by (simp add: stripToTunnelOnly_def safe_def c_def Let_def)
  have pl: "list_all (plain_item CHR '','') safe" "list_all one_line safe"
    using host_plain [OF assms(1)] tunnel_plain [of conf] by (auto simp: safe_def list_all_iff)
  note rw = rewrite_ips_reads [OF assms(1) pl, folded c_def]
  have c: "agent_file c" "parseHubPeerAllowedIPs c = kept" "deriveTunnelSubnet c = ?t" using rw(1-3) by (simp_all add: kept_def)
  obtain up down where r:
    "buildHubPostUp ?t [] (filter (\<lambda>c. \<not> isHostRoute c) kept) ?opts = Inr up"
    "buildHubPostDown ?t [] (filter (\<lambda>c. \<not> isHostRoute c) kept) ?opts = Inr down"
    "split_lines out = norm_lines (split_lines c) up down"
    "deriveTunnelSubnet out = ?t" "parseHubPeerAllowedIPs out = kept" "agent_file out"
    "hub_lines ''AllowedIPs'' (0, False) (split_lines out) = hub_lines ''AllowedIPs'' (0, False) (split_lines c)"
    using normalized_reads [OF c(1) n] unfolding c(2,3) hub_key_def by metis
  have "filter (\<lambda>c. \<not> isHostRoute c) safe = [?t]"
    by (rule singleton_list) (use tunnel_not_host [of conf] in \<open>auto simp: safe_def\<close>)
  then have peers: "filter (\<lambda>c. \<not> isHostRoute c) kept = (if ?has then [?t] else [])" by (simp add: kept_def)
  obtain i where i: "up = hook_text True i [] ?t [] (if ?has then [?t] else [])" "down = hook_text False i [] ?t [] (if ?has then [?t] else [])"
    using hooks_built [OF r(1,2)] unfolding peers by (metis hook_opts.select_convs(2))
  have "rewriteHubPeerAllowedIPs out (sort (uniq (?t # filter isHostRoute kept))) = out"
  proof -
    have hl: "hub_lines ''AllowedIPs'' (0, False) (split_lines out) = (if ?has then [new_ips_line safe] else [])"
      using set_hub_lines(1) [OF pl(1)] by (simp add: r(7) rw(4))
    have "sort (uniq (?t # filter isHostRoute safe)) = safe"
      by (rule sorted_distinct_set_unique) (auto simp: safe_def)
    then have "set_hub_ips (sort (uniq (?t # filter isHostRoute kept))) (0, False) False (split_lines out) = split_lines out"
      using set_hub_fix(1) [of "(0, False)" "split_lines out"] set_hub_fix(2) [of "(0, False)" "split_lines out" safe] hl
      by (simp add: kept_def split: if_split_asm)
    then show ?thesis using join_split_lines r(6) by (simp add: rewriteHubPeerAllowedIPs_def agent_file_def)
  qed
  then have "stripToTunnelOnly out iface = Inr out"
    using normalize_again [OF c(1) n] by (simp add: stripToTunnelOnly_def r(4,5) Let_def)
  then show ?thesis using r(5) norm_lines_hooks [of "split_lines c" up down] unfolding r(3) i kept_def safe_def Let_def by blast
qed

theorem stripToTunnelOnly_reach_witness:
  "\<exists>out. stripToTunnelOnly (join [LF] [''[Interface]'', ''Address = 10.1.0.5/24'', ''[Peer]'', ''AllowedIPs = 10.9.0.1/32, 10.2.0.0/24'']) (JStr ''wg0'') = Inr out
     \<and> parseHubPeerAllowedIPs out = [''10.1.0.0/24'', ''10.9.0.1/32'']"
proof -
  let ?c = "join [LF] [''[Interface]'', ''Address = 10.1.0.5/24'', ''[Peer]'', ''AllowedIPs = 10.9.0.1/32, 10.2.0.0/24'']"
  have a: "agent_file ?c" "has_hub_ips (0, False) (split_lines ?c)" by code_simp+
  have "(case stripToTunnelOnly ?c (JStr ''wg0'') of Inr _ \<Rightarrow> True | Inl _ \<Rightarrow> False)" by code_simp
  then have b: "\<exists>out. stripToTunnelOnly ?c (JStr ''wg0'') = Inr out" by (auto split: sum.split_asm)
  have d: "sort (uniq (deriveTunnelSubnet ?c # filter isHostRoute (parseHubPeerAllowedIPs ?c))) = [''10.1.0.0/24'', ''10.9.0.1/32'']" by code_simp
  show ?thesis using b stripToTunnelOnly_reach [OF a(1)] a(2) unfolding d by auto
qed

end
