(* ===== verification/Agent_Sync.thy ===== *)
theory Agent_Sync
  imports Agent_Conf
begin

text \<open>
  The synchronisation of the agents' stored configurations with the metadata, in
  backend/internal/agent.js: \<open>_syncOneAgent\<close> and the loop of \<open>syncAgentConfigs\<close> over the table of
  agents. The database is the list of rows, SHA-256 and JSON.parse are arguments; log lines are left
  out.
\<close>

subsection \<open>One agent\<close>

definition sanitizeBool :: "jsval \<Rightarrow> bool \<Rightarrow> bool" where
  "sanitizeBool value dflt =
     (if is_nullish value then dflt
      else value = JBool True \<or> value = JNum (Fin 1) \<or> value = JStr ''true'' \<or> value = JStr ''1'')"

record sync_agent =
  sa_deleted :: bool
  sa_link :: "string option"
  sa_config :: "string option"
  sa_hash :: "string option"
  sa_acl :: agent_acl
  sa_preserve :: jsval
  sa_iface :: jsval

datatype sync_result =
    AmbiguousLinkName | NoLinkOrConfig | SameHash
  | SyncFailed agent_error
  | SyncChanged "string list" "string list" bool bool

definition hashConfig :: "(string \<Rightarrow> string) \<Rightarrow> string \<Rightarrow> string option" where
  "hashConfig sha t = (if t = [] then None else Some (sha t))"

text \<open>The text an agent should have: its networks, the endpoint of the hub and the hooks.\<close>

definition allowed_rewrite :: "string \<Rightarrow> string list \<Rightarrow> bool \<times> string" where
  "allowed_rewrite conf newAllowedIPs =
     (let changed = join '','' newAllowedIPs \<noteq> join '','' (sort (parseHubPeerAllowedIPs conf))
      in (changed, if changed then rewriteHubPeerAllowedIPs conf newAllowedIPs else conf))"

definition agent_opts :: "sync_agent \<Rightarrow> props \<Rightarrow> string \<Rightarrow> hook_opts" where
  "agent_opts agent linkMeta iface =
     \<lparr>ho_iface = JStr iface,
      ho_localNets = (if \<not> is_client_link linkMeta \<and> sanitizeBool (sa_preserve agent) False then uniq (imported_nets linkMeta) else [])\<rparr>"

definition computed_config :: "string option \<Rightarrow> sync_agent \<Rightarrow> props \<Rightarrow> string \<Rightarrow> string list \<Rightarrow> agent_error + string" where
  "computed_config hubHost agent linkMeta conf otherSiteNets =
     bind_res (sanitizeWgInterface (sa_iface agent)) (\<lambda>iface.
       normalizeAgentConfig
         (rewriteHubPeerEndpoint (snd (allowed_rewrite conf (computeHubPeerAllowedIPs (deriveTunnelSubnet conf) otherSiteNets))) hubHost)
         (sort otherSiteNets) (agent_opts agent linkMeta iface))"

definition sync_with :: "(string \<Rightarrow> string) \<Rightarrow> string option \<Rightarrow> sync_agent \<Rightarrow> props \<Rightarrow> string \<Rightarrow> string list \<Rightarrow> agent_error + sync_agent \<times> sync_result" where
  "sync_with sha hubHost agent linkMeta conf otherSiteNets =
     (let newAllowedIPs = computeHubPeerAllowedIPs (deriveTunnelSubnet conf) otherSiteNets;
          (allowedChanged, allowedRewritten) = allowed_rewrite conf newAllowedIPs;
          endpointChanged = (rewriteHubPeerEndpoint allowedRewritten hubHost \<noteq> allowedRewritten)
      in bind_res (computed_config hubHost agent linkMeta conf otherSiteNets) (\<lambda>newConfigText.
         let newHash = hashConfig sha newConfigText
         in if newHash = sa_hash agent then Inr (agent, SameHash)
            else Inr (agent\<lparr>sa_config := Some newConfigText, sa_hash := newHash\<rparr>,
                      SyncChanged newAllowedIPs (sort otherSiteNets) endpointChanged allowedChanged)))"

definition syncOneAgent ::
  "(string \<Rightarrow> jsval option) \<Rightarrow> (string \<Rightarrow> string) \<Rightarrow> string option \<Rightarrow> mesh \<Rightarrow> sync_agent \<Rightarrow> string \<Rightarrow> agent_error + sync_agent \<times> sync_result" where
  "syncOneAgent json sha hubHost mesh agent linkName =
     (if linkName \<in> set (mi_ambiguous mesh) then Inr (agent, AmbiguousLinkName)
      else (case (map_of (mi_linksByName mesh) linkName, or_else (sa_config agent) []) of
              (Some linkMeta, c # cs) \<Rightarrow>
                sync_with sha hubHost agent linkMeta (c # cs) (on_nets (agentOtherSiteNets json (sa_acl agent) linkMeta mesh))
            | _ \<Rightarrow> Inr (agent, NoLinkOrConfig)))"

subsection \<open>All agents\<close>

text \<open>The row and the result of an agent; none for a row the query does not return.\<close>

definition sync_row ::
  "(string \<Rightarrow> jsval option) \<Rightarrow> (string \<Rightarrow> string) \<Rightarrow> string option \<Rightarrow> mesh \<Rightarrow> sync_agent \<Rightarrow> sync_agent \<times> sync_result option" where
  "sync_row json sha hubHost mesh agent =
     (case (sa_deleted agent, sa_link agent) of
        (False, Some l) \<Rightarrow>
          (case syncOneAgent json sha hubHost mesh agent l of
             Inl e \<Rightarrow> (agent, Some (SyncFailed e))
           | Inr (a, r) \<Rightarrow> (a, Some r))
      | _ \<Rightarrow> (agent, None))"

definition syncAgentConfigs ::
  "(string \<Rightarrow> jsval option) \<Rightarrow> (string \<Rightarrow> string) \<Rightarrow> string option \<Rightarrow> links \<Rightarrow> sync_agent list \<Rightarrow> sync_agent list \<times> sync_result list" where
  "syncAgentConfigs json sha env links agents =
     (let rs = map (sync_row json sha (configuredHubHost env) (meshIndex links)) agents
      in (map fst rs, List.map_filter snd rs))"

subsection \<open>The endpoint settles\<close>

definition host_chars :: "string \<Rightarrow> bool" where
  "host_chars h \<longleftrightarrow> h \<noteq> [] \<and> list_all (\<lambda>c. \<not> js_ws c \<and> c \<noteq> CHR ''#'') h"

lemma configuredHubHost_chars: "configuredHubHost env = Some h \<Longrightarrow> host_chars h"
proof -
  assume a: "configuredHubHost env = Some h"
  have x: "\<not> js_ws c \<and> c \<noteq> CHR ''#''" if "is_alnum c \<or> c \<in> set ''.-_:[]''" for c
  proof -
    have "list_all (\<lambda>c. (is_alnum c \<or> c \<in> set ''.-_:[]'') \<longrightarrow> \<not> js_ws c \<and> c \<noteq> CHR ''#'') Enum.enum" by code_simp
    then have "(is_alnum c \<or> c \<in> set ''.-_:[]'') \<longrightarrow> \<not> js_ws c \<and> c \<noteq> CHR ''#''" unfolding list_all_iff enum_UNIV by (rule bspec) (rule UNIV_I)
    then show ?thesis using that by (rule mp)
  qed
  have r: "HUB_HOST_RE v \<Longrightarrow> host_chars v \<and> host_chars (''['' @ v @ '']'')" for v
    using x x [of "CHR ''[''"] x [of "CHR '']''"] by (auto simp: HUB_HOST_RE_def host_chars_def list_all_iff)
  show ?thesis using a r by (auto simp: configuredHubHost_def sanitizeHubHost_def Let_def split: if_split_asm)
qed

lemma endpoint_tail_inner:
  assumes "\<not> js_ws c" "host_chars h \<or> h = []"
  shows "endpoint_tail (c # h @ CHR '':'' # x) = None"
proof -
  let ?r = "h @ CHR '':'' # x"
  have ch: "\<not> js_ws d \<and> d \<noteq> CHR ''#''" if "d \<in> set h" for d using assms(2) that by (auto simp: host_chars_def list_all_iff)
  have c0: "\<not> js_ws CHR '':''" "\<not> is_digit CHR '':''" by code_simp+
  have r: "dropWhile js_ws ?r = ?r" using ch c0 by (cases h) auto
  have d: "\<exists>e s. dropWhile is_digit (g @ CHR '':'' # x) = e # s \<and> \<not> js_ws e \<and> e \<noteq> CHR ''#''" if "set g \<subseteq> set h" for g
    using that by (induction g) (use ch c0 in auto)
  obtain e s where e: "dropWhile is_digit ?r = e # s" "\<not> js_ws e" "e \<noteq> CHR ''#''" using d [of h] by blast
  show ?thesis using assms(1) e by (simp add: endpoint_tail_def r Let_def starts_with_def)
qed

lemma endpoint_parts_host:
  assumes "host_chars h \<or> h = []" "endpoint_tail (CHR '':'' # x) = Some (p, com)"
  shows "endpoint_parts acc (h @ CHR '':'' # x) = Some (acc @ h, p, com)"
  using assms(1)
proof (induction h arbitrary: acc)
  case (Cons c h)
  then have c: "\<not> js_ws c" "c \<noteq> CHR ''#''" and h: "host_chars h \<or> h = []" by (auto simp: host_chars_def)
  show ?case using endpoint_tail_inner [OF c(1) h, of x] Cons.IH [OF h, of "acc @ [c]"] c(2) by simp
qed (use assms(2) in simp)

text \<open>What the expression finds: digits, and a comment up to the end of the line.\<close>

definition tail_found :: "string \<Rightarrow> string \<Rightarrow> string option \<Rightarrow> bool" where
  "tail_found s p com \<longleftrightarrow> p \<noteq> [] \<and> list_all is_digit p \<and> set p \<subseteq> set s
     \<and> (case com of None \<Rightarrow> True
        | Some c \<Rightarrow> starts_with ''#'' c \<and> list_all (\<lambda>c. c \<noteq> LF \<and> c \<noteq> CR) c \<and> (\<exists>x. s = x @ c))"

lemma dropWhile_suffix: "\<exists>x. s = x @ dropWhile P s"
  by (metis takeWhile_dropWhile_id)

lemma suffix_trans: "\<exists>x. s = x @ t \<Longrightarrow> \<exists>x. t = x @ u \<Longrightarrow> \<exists>x. s = x @ u"
  by (metis append_assoc)

lemma endpoint_tail_found: "endpoint_tail s = Some (p, com) \<Longrightarrow> tail_found s p com"
proof -
  assume a: "endpoint_tail s = Some (p, com)"
  then obtain r where r: "dropWhile js_ws s = CHR '':'' # r" by (auto simp: endpoint_tail_def split: list.split_asm if_split_asm)
  define r1 where "r1 = dropWhile js_ws r"
  define r2 where "r2 = dropWhile js_ws (dropWhile is_digit r1)"
  have v: "p = takeWhile is_digit r1" "p \<noteq> []"
    "com = None \<and> r2 = [] \<or> com = Some r2 \<and> starts_with ''#'' r2 \<and> list_all (\<lambda>c. c \<noteq> LF \<and> c \<noteq> CR) r2"
    using a by (auto simp: endpoint_tail_def r r1_def r2_def Let_def split: if_split_asm)
  obtain x0 where "s = x0 @ CHR '':'' # r" using dropWhile_suffix [of s js_ws] unfolding r by blast
  then have 1: "\<exists>x. s = x @ r" by (metis append.assoc append_Cons append_Nil)
  have 2: "\<exists>x. s = x @ r1" unfolding r1_def by (rule suffix_trans [OF 1 dropWhile_suffix])
  have "\<exists>x. s = x @ dropWhile is_digit r1" by (rule suffix_trans [OF 2 dropWhile_suffix])
  then have 3: "\<exists>x. s = x @ r2" unfolding r2_def by (rule suffix_trans [OF _ dropWhile_suffix])
  have "set p \<subseteq> set s" "list_all is_digit p" using v(1) 2 by (auto simp: list_all_iff dest: set_takeWhileD)
  then show "tail_found s p com" using v(2,3) 3 by (auto simp: tail_found_def)
qed

lemma tail_found_suffix: "tail_found s p com \<Longrightarrow> tail_found (x @ s) p com"
  by (auto simp: tail_found_def split: option.splits)

lemma endpoint_parts_found: "endpoint_parts h s = Some (host, p, com) \<Longrightarrow> tail_found s p com"
proof (induction h s rule: endpoint_parts.induct)
  case (2 host' c r)
  show ?case
  proof (cases "endpoint_tail (c # r)")
    case None
    then have "tail_found r p com" using 2 by (simp split: if_split_asm)
    then show ?thesis using tail_found_suffix [of r p com "[c]"] by simp
  qed (use 2 endpoint_tail_found in auto)
qed simp

lemma endpoint_match_found: "endpoint_match t = Some (host, p, com) \<Longrightarrow> tail_found t p com"
proof -
  assume a: "endpoint_match t = Some (host, p, com)"
  then obtain r where r: "t = ''Endpoint'' @ r" by (auto simp: endpoint_match_def strip_prefix_Some split: option.split_asm)
  have m: "(case dropWhile js_ws r of c # r \<Rightarrow> if c = CHR ''='' then endpoint_parts [] (dropWhile js_ws r) else None | [] \<Rightarrow> None) = Some (host, p, com)"
    using a by (simp add: endpoint_match_def r strip_prefix_def starts_with_def)
  obtain r1 where d: "dropWhile js_ws r = CHR ''='' # r1" and e: "endpoint_parts [] (dropWhile js_ws r1) = Some (host, p, com)"
  proof (cases "dropWhile js_ws r")
    case (Cons c r1)
    then show thesis using m that [of r1] by (simp split: if_split_asm)
  next
    case Nil
    then show thesis using m unfolding Nil by simp
  qed
  obtain x0 where r1: "r = x0 @ CHR ''='' # r1" using dropWhile_suffix [of r js_ws] unfolding d by blast
  obtain x1 where "r1 = x1 @ dropWhile js_ws r1" using dropWhile_suffix by blast
  then have "t = (''Endpoint'' @ x0 @ CHR ''='' # x1) @ dropWhile js_ws r1" using r r1 by simp
  then show ?thesis using tail_found_suffix [OF endpoint_parts_found [OF e]] by metis
qed

lemma takeWhile_ends: "list_all P p \<Longrightarrow> s = [] \<or> \<not> P (hd s) \<Longrightarrow> takeWhile P (p @ s) = p \<and> dropWhile P (p @ s) = s"
  by (induction p) (cases s; simp)+

lemma written_endpoint:
  assumes h: "host_chars h" and f: "tail_found (trim raw) p com"
  defines "l \<equiv> ''Endpoint = '' @ h @ '':'' @ p @ (case com of None \<Rightarrow> [] | Some c \<Rightarrow> '' '' @ c)"
  shows "trim l = l" "endpoint_match l = Some (h, p, com)"
proof -
  have p: "p \<noteq> []" "list_all is_digit p" using f by (auto simp: tail_found_def)
  define x where "x = (case com of None \<Rightarrow> [] | Some c \<Rightarrow> '' '' @ c)"
  have com: "c \<noteq> [] \<and> hd c = CHR ''#'' \<and> \<not> js_ws (last c) \<and> list_all (\<lambda>c. c \<noteq> LF \<and> c \<noteq> CR) c" if cc: "com = Some c" for c
  proof -
    obtain y where y: "trim raw = y @ c" "starts_with ''#'' c" "list_all (\<lambda>c. c \<noteq> LF \<and> c \<noteq> CR) c" using f unfolding tail_found_def cc by auto
    then have c: "c \<noteq> [] \<and> hd c = CHR ''#''" by (cases c) (auto simp: starts_with_def)
    then have "trim raw \<noteq> []" using y(1) by simp
    then have "\<not> js_ws (last (trim raw))" by (rule trim_ends(2) [OF trim_idem])
    then show ?thesis using c y by simp
  qed
  have dg: "\<not> js_ws c" if "c \<in> set p" for c using p(2) that digit_not_ws by (auto simp: list_all_iff)
  have c0: "\<not> js_ws CHR '':''" "\<not> is_digit CHR '':''" "js_ws CHR '' ''" "\<not> is_digit CHR '' ''" "\<not> js_ws CHR ''#''" "\<not> js_ws CHR ''E''" "\<not> js_ws CHR ''=''"
    by code_simp+
  have l: "l = ''Endpoint = '' @ h @ '':'' @ p @ x" by (simp add: l_def x_def)
  have "\<not> js_ws (last (p @ x))" using p(1) dg com by (cases com) (auto simp: x_def)
  then show "trim l = l" using p(1) by (intro trim_id) (auto simp: l c0)
  have tl: "endpoint_tail (CHR '':'' # p @ x) = Some (p, com)"
  proof -
    have 1: "dropWhile js_ws (p @ x) = p @ x" using p(1) dg by (cases p) auto
    have xs: "x = [] \<or> \<not> is_digit (hd x)" using c0 by (cases com) (auto simp: x_def)
    have 2: "takeWhile is_digit (p @ x) = p" "dropWhile is_digit (p @ x) = x" using takeWhile_ends [OF p(2) xs] by auto
    show ?thesis
    proof (cases com)
      case None
      then have "x = []" by (simp add: x_def)
      then show ?thesis using 1 2 p(1) c0 None by (simp add: endpoint_tail_def Let_def del: takeWhile_eq_all_conv dropWhile_eq_Nil_conv)
    next
      case (Some c)
      then have "dropWhile js_ws x = c" using com [OF Some] c0 by (cases c) (auto simp: x_def)
      moreover have "c \<noteq> []" "starts_with ''#'' c" "list_all (\<lambda>c. c \<noteq> LF \<and> c \<noteq> CR) c"
        using com [OF Some] by (cases c; simp add: starts_with_def)+
      ultimately show ?thesis using 1 2 p(1) c0 Some by (simp add: endpoint_tail_def Let_def)
    qed
  qed
  have "dropWhile js_ws (h @ CHR '':'' # p @ x) = h @ CHR '':'' # p @ x" using h by (cases h) (auto simp: host_chars_def)
  moreover have "endpoint_parts [] (h @ CHR '':'' # p @ x) = Some (h, p, com)" using endpoint_parts_host [OF _ tl, of h "[]"] h by simp
  ultimately show "endpoint_match l = Some (h, p, com)" using c0
    by (simp add: endpoint_match_def l strip_prefix_def starts_with_def)
qed

text \<open>The first endpoint of the hub peer that can be read is the one the hub writes.\<close>

fun ep_ok :: "string \<Rightarrow> string list \<Rightarrow> bool" where
  "ep_ok h [] = True"
| "ep_ok h (l # ls) = (case endpoint_match (trim l) of None \<Rightarrow> ep_ok h ls | Some m \<Rightarrow> new_endpoint h l m = l)"

lemma set_endpoint_True: "set_endpoint h z True ls = ls"
  by (induction ls arbitrary: z) simp_all

lemma set_endpoint_fix: "ep_ok h (hub_lines ''Endpoint'' z ls) \<Longrightarrow> set_endpoint h z False ls = ls"
proof (induction ls arbitrary: z)
  case (Cons raw ls)
  show ?case
  proof (cases "hub_line ''Endpoint'' z raw")
    case True
    then show ?thesis using Cons.prems Cons.IH [of "next_zone raw z"] set_endpoint_True
      by (auto split: option.splits)
  next
    case False
    then show ?thesis using Cons.prems Cons.IH [of "next_zone raw z"] by simp
  qed
qed simp

lemma new_endpoint_cases:
  "new_endpoint h raw (host, p, com) = raw
   \<or> new_endpoint h raw (host, p, com) = ''Endpoint = '' @ h @ '':'' @ p @ (case com of None \<Rightarrow> [] | Some c \<Rightarrow> '' '' @ c)"
  by (simp add: new_endpoint_def)

lemma new_endpoint_again:
  assumes "host_chars h" "endpoint_match (trim raw) = Some m"
  shows "ep_ok h [new_endpoint h raw m]" "starts_with ''Endpoint'' (trim raw) \<Longrightarrow> starts_with ''Endpoint'' (trim (new_endpoint h raw m))"
proof -
  obtain host p com where m: "m = (host, p, com)" by (metis prod_cases3)
  define l where "l = ''Endpoint = '' @ h @ '':'' @ p @ (case com of None \<Rightarrow> [] | Some c \<Rightarrow> '' '' @ c)"
  note f = endpoint_match_found [OF assms(2) [unfolded m]]
  note w = written_endpoint [OF assms(1) f, folded l_def]
  have "new_endpoint h l (h, p, com) = l" by (simp add: new_endpoint_def)
  then have "ep_ok h [l]" using w by simp
  moreover have "starts_with ''Endpoint'' (trim l)" unfolding w(1) by (simp add: l_def starts_with_def)
  moreover have "new_endpoint h raw m = raw \<or> new_endpoint h raw m = l" using new_endpoint_cases unfolding m l_def .
  moreover have "ep_ok h [raw]" if "new_endpoint h raw m = raw" using that assms(2) by simp
  ultimately show "ep_ok h [new_endpoint h raw m]" "starts_with ''Endpoint'' (trim raw) \<Longrightarrow> starts_with ''Endpoint'' (trim (new_endpoint h raw m))"
    by metis+
qed

lemma starts_Endpoint: "starts_with ''Endpoint'' (trim l) \<Longrightarrow> \<not> is_header l \<and> \<not> address_start l \<and> \<not> starts_with ''AllowedIPs'' (trim l)"
proof -
  assume a: "starts_with ''Endpoint'' (trim l)"
  then have "\<not> starts_with ''AllowedIPs'' (trim l)" using keys_differ by blast
  moreover have "\<not> is_header l" using a by (cases "trim l") (auto simp: is_header_def starts_with_def)
  ultimately show ?thesis using starts_no_address [OF a] by simp
qed

lemma endpoint_hit:
  assumes "host_chars h" "hub_line ''Endpoint'' z raw" "endpoint_match (trim raw) = Some m"
  defines "l \<equiv> new_endpoint h raw m"
  shows "hub_line ''Endpoint'' z l" "next_zone l z = z" "\<not> is_header l" "\<not> address_start l" "\<not> starts_with ''AllowedIPs'' (trim l)"
proof -
  have "starts_with ''Endpoint'' (trim raw)" using assms(2) by (simp add: hub_line_def)
  note s = new_endpoint_again(2) [OF assms(1,3) this, folded l_def]
  show e: "\<not> is_header l" "\<not> address_start l" "\<not> starts_with ''AllowedIPs'' (trim l)" using starts_Endpoint [OF s] by simp_all
  show "next_zone l z = z" using not_header [OF e(1)] by simp
  show "hub_line ''Endpoint'' z l" using s e(1) assms(2) peer_is_header [of l] by (auto simp: hub_line_def is_header_def)
qed

lemma set_endpoint_ok: "host_chars h \<Longrightarrow> ep_ok h (hub_lines ''Endpoint'' z (set_endpoint h z False ls))"
proof (induction ls arbitrary: z)
  case (Cons raw ls)
  show ?case
  proof (cases "hub_line ''Endpoint'' z raw")
    case True
    show ?thesis
    proof (cases "endpoint_match (trim raw)")
      case None
      then show ?thesis using True Cons.IH [OF Cons.prems, of "next_zone raw z"] by simp
    next
      case (Some m)
      note e = endpoint_hit [OF Cons.prems True Some]
      have "ep_ok h [new_endpoint h raw m]" by (rule new_endpoint_again(1) [OF Cons.prems Some])
      moreover have "endpoint_match (trim (new_endpoint h raw m)) \<noteq> None"
      proof -
        obtain host p com where m: "m = (host, p, com)" by (metis prod_cases3)
        have "tail_found (trim raw) p com" by (rule endpoint_match_found [OF Some [unfolded m]])
        note w = written_endpoint [OF Cons.prems this]
        consider "new_endpoint h raw m = raw" | "new_endpoint h raw m = ''Endpoint = '' @ h @ '':'' @ p @ (case com of None \<Rightarrow> [] | Some c \<Rightarrow> '' '' @ c)"
          using new_endpoint_cases [of h raw host p com] unfolding m by blast
        then show ?thesis using w Some by cases (simp_all only: option.distinct not_False_eq_True)
      qed
      ultimately show ?thesis using True Some e(1,2) set_endpoint_True by (auto split: option.splits)
    qed
  next
    case False
    then show ?thesis using Cons.IH [OF Cons.prems, of "next_zone raw z"] by simp
  qed
qed simp

lemma set_endpoint_frame:
  assumes "host_chars h"
  shows "hub_lines ''AllowedIPs'' z' (set_endpoint h z rep ls) = hub_lines ''AllowedIPs'' z' ls"
    and "filter is_header (set_endpoint h z rep ls) = filter is_header ls"
    and "filter address_start (set_endpoint h z rep ls) = filter address_start ls"
proof -
  define same where "same = (\<lambda>a b. (\<forall>z. hub_lines ''AllowedIPs'' z a = hub_lines ''AllowedIPs'' z b)
     \<and> filter is_header a = filter is_header b \<and> filter address_start a = filter address_start b)"
  have step: "same (l # a) (raw # b)" if "same a b" "l = raw \<or> \<not> is_header l \<and> \<not> address_start l \<and> \<not> starts_with ''AllowedIPs'' (trim l)
      \<and> \<not> is_header raw \<and> \<not> address_start raw \<and> \<not> starts_with ''AllowedIPs'' (trim raw)" for l raw a b
  proof -
    have eq: "hub_lines ''AllowedIPs'' z a = hub_lines ''AllowedIPs'' z b" for z using that(1) unfolding same_def by blast
    have "hub_lines ''AllowedIPs'' z (l # a) = hub_lines ''AllowedIPs'' z (raw # b)" for z
      using that(2)
    proof
      assume n: "\<not> is_header l \<and> \<not> address_start l \<and> \<not> starts_with ''AllowedIPs'' (trim l)
        \<and> \<not> is_header raw \<and> \<not> address_start raw \<and> \<not> starts_with ''AllowedIPs'' (trim raw)"
      then have "next_zone l z = z" "next_zone raw z = z" using not_header by blast+
      then show ?thesis using n eq [of z] by (simp add: hub_line_def)
    qed (simp add: eq)
    moreover have "filter is_header (l # a) = filter is_header (raw # b)" "filter address_start (l # a) = filter address_start (raw # b)"
      using that unfolding same_def by (simp_all, blast+)
    ultimately show ?thesis unfolding same_def by blast
  qed
  have "same (set_endpoint h z rep ls) ls"
  proof (induction ls arbitrary: z rep)
    case (Cons raw ls)
    show ?case
    proof (cases "hub_line ''Endpoint'' z raw \<and> \<not> rep \<and> endpoint_match (trim raw) \<noteq> None")
      case True
      then obtain m where m: "endpoint_match (trim raw) = Some m" by blast
      have h: "hub_line ''Endpoint'' z raw" using True by blast
      then have "starts_with ''Endpoint'' (trim raw)" by (simp add: hub_line_def)
      with step [OF Cons.IH, of "new_endpoint h raw m" raw] starts_Endpoint endpoint_hit(3-5) [OF assms h m] True m
      show ?thesis by simp
    next
      case False
      then have "set_endpoint h z rep (raw # ls) = raw # set_endpoint h (next_zone raw z) rep ls" by (auto split: option.split)
      then show ?thesis using step [OF Cons.IH] by simp
    qed
  qed (simp add: same_def)
  then show "hub_lines ''AllowedIPs'' z' (set_endpoint h z rep ls) = hub_lines ''AllowedIPs'' z' ls"
    "filter is_header (set_endpoint h z rep ls) = filter is_header ls"
    "filter address_start (set_endpoint h z rep ls) = filter address_start ls" unfolding same_def by blast+
qed

lemma set_endpoint_one:
  assumes "host_chars h" "list_all one_line ls"
  shows "list_all one_line (set_endpoint h z rep ls)"
  using assms(2)
proof (induction ls arbitrary: z rep)
  case (Cons raw ls)
  have "one_line (new_endpoint h raw m)" if "endpoint_match (trim raw) = Some m" for m
  proof -
    obtain host p com where m: "m = (host, p, com)" by (metis prod_cases3)
    have f: "tail_found (trim raw) p com" by (rule endpoint_match_found [OF that [unfolded m]])
    have "\<not> js_ws c \<Longrightarrow> c \<noteq> LF \<and> c \<noteq> CR" for c by (auto simp: js_ws_def)
    then have "one_line h" using assms(1) by (auto simp: host_chars_def one_line_def list_all_iff)
    moreover have "one_line p" using f Cons.prems set_trim [of raw] by (auto simp: tail_found_def one_line_def)
    moreover have "one_line (case com of None \<Rightarrow> [] | Some c \<Rightarrow> '' '' @ c)"
      using f by (auto simp: tail_found_def one_line_def list_all_iff split: option.split)
    moreover have "one_line ''Endpoint = ''" "one_line '':''" by code_simp+
    ultimately have "one_line (''Endpoint = '' @ h @ '':'' @ p @ (case com of None \<Rightarrow> [] | Some c \<Rightarrow> '' '' @ c))"
      unfolding one_line_append by blast
    then show ?thesis using new_endpoint_cases [of h raw host p com] Cons.prems unfolding m by auto
  qed
  then show ?case using Cons by (auto split: option.split)
qed simp

lemma rewrite_endpoint_reads:
  assumes "agent_file conf" "hubHost = None \<or> (\<exists>h. hubHost = Some h \<and> host_chars h)"
  shows "agent_file (rewriteHubPeerEndpoint conf hubHost)"
    and "parseHubPeerAllowedIPs (rewriteHubPeerEndpoint conf hubHost) = parseHubPeerAllowedIPs conf"
    and "deriveTunnelSubnet (rewriteHubPeerEndpoint conf hubHost) = deriveTunnelSubnet conf"
    and "hub_lines ''AllowedIPs'' (0, False) (split_lines (rewriteHubPeerEndpoint conf hubHost)) = hub_lines ''AllowedIPs'' (0, False) (split_lines conf)"
    and "\<forall>h. hubHost = Some h \<longrightarrow> ep_ok h (hub_lines ''Endpoint'' (0, False) (split_lines (rewriteHubPeerEndpoint conf hubHost)))"
proof -
  let ?c = "rewriteHubPeerEndpoint conf hubHost"
  let ?a = "hub_lines ''AllowedIPs'' (0, False)"
  have "agent_file ?c \<and> ?a (split_lines ?c) = ?a (split_lines conf) \<and> deriveTunnelSubnet ?c = deriveTunnelSubnet conf
    \<and> (\<forall>h. hubHost = Some h \<longrightarrow> ep_ok h (hub_lines ''Endpoint'' (0, False) (split_lines ?c)))"
  proof (cases hubHost)
    case None
    then show ?thesis using assms(1) by (simp add: rewriteHubPeerEndpoint_def)
  next
    case (Some h)
    then have h: "host_chars h" using assms(2) by simp
    then have c: "?c = join [LF] (set_endpoint h (0, False) False (split_lines conf))"
      using assms(1) by (simp add: rewriteHubPeerEndpoint_def Some agent_file_def host_chars_def)
    have "list_all one_line (split_lines conf)" using split_lines_one assms(1) by (simp add: agent_file_def)
    note f = rewritten_file [OF assms(1) set_endpoint_one [OF h this, of "(0, False)" False] set_endpoint_frame(2,3) [OF h], folded c]
    show ?thesis unfolding f(2) using f(1,3) set_endpoint_frame(1) [OF h] set_endpoint_ok [OF h] Some by simp
  qed
  then show "agent_file ?c" "parseHubPeerAllowedIPs ?c = parseHubPeerAllowedIPs conf" "deriveTunnelSubnet ?c = deriveTunnelSubnet conf"
    "?a (split_lines ?c) = ?a (split_lines conf)"
    "\<forall>h. hubHost = Some h \<longrightarrow> ep_ok h (hub_lines ''Endpoint'' (0, False) (split_lines ?c))"
    by (simp_all add: parseHubPeerAllowedIPs_def hub_ips_lines)
qed

lemma rewrite_endpoint_fix:
  assumes "CR \<notin> set conf" "\<forall>h. hubHost = Some h \<longrightarrow> ep_ok h (hub_lines ''Endpoint'' (0, False) (split_lines conf))"
  shows "rewriteHubPeerEndpoint conf hubHost = conf"
  using assms set_endpoint_fix join_split_lines [OF assms(1)] by (auto simp: rewriteHubPeerEndpoint_def split: option.split)

subsection \<open>What a synchronisation leaves\<close>

lemma masq_checked:
  assumes "normalizeAgentConfig c remote opts = Inr out" "c \<noteq> []"
  shows "list_all CIDR_RE remote" "list_all CIDR_RE (ho_localNets opts)"
  using assms unfolding normalize_lines [OF assms(2)] buildHubPostUp_def build_hook_Inr by auto

lemma CIDR_plain: "CIDR_RE n \<Longrightarrow> plain_item CHR '','' n \<and> one_line n"
proof -
  assume "CIDR_RE n"
  then have w: "shell_word n" by (rule CIDR_word)
  have c: "\<not> js_ws c \<and> c \<noteq> CHR '',''" if "c \<in> set n" for c
  proof -
    have "is_digit c \<or> c \<in> set ''wg./''" using w that by (simp add: shell_word_def list_all_iff)
    moreover have "\<not> js_ws CHR ''w''" "\<not> js_ws CHR ''g''" "\<not> js_ws CHR ''.''" "\<not> js_ws CHR ''/''" "\<not> is_digit CHR '',''" by code_simp+
    ultimately show ?thesis using digit_not_ws [of c] by auto
  qed
  have "n \<noteq> []" using w by (simp add: shell_word_def)
  moreover have "trim n = n" using c \<open>n \<noteq> []\<close> by (intro trim_id) auto
  ultimately show ?thesis using c shell_word_one [OF w] by (auto simp: plain_item_def)
qed

lemma join_Nil: "join [c] ls = [] \<longleftrightarrow> ls = [] \<or> ls = [[]]"
  by (induction ls rule: induct_list012) auto

lemma set_endpoint_length: "length (set_endpoint h z rep ls) = length ls"
proof (induction ls arbitrary: z rep)
  case (Cons raw ls)
  show ?case using Cons.IH [of "next_zone raw z" rep] Cons.IH [of "next_zone raw z" True] by (cases rep) (simp_all split: option.split)
qed simp

lemma rewrite_endpoint_ne: "conf \<noteq> [] \<Longrightarrow> rewriteHubPeerEndpoint conf hubHost \<noteq> []"
proof -
  assume c: "conf \<noteq> []"
  have "split_lines conf \<noteq> [[]]"
  proof
    assume "split_lines conf = [[]]"
    then have "butlast (split_on LF conf) = [] \<and> last (split_on LF conf) = []" by (cases "butlast (split_on LF conf)") (auto simp: split_lines_def Let_def)
    then have "split_on LF conf = [[]]" by (metis append_butlast_last_id append_Nil split_on_not_Nil)
    then show False using c by (simp add: split_on_eq_iff)
  qed
  moreover have "split_lines conf \<noteq> []" by (simp add: split_lines_def Let_def)
  moreover have "set_endpoint h z False ls = [] \<or> set_endpoint h z False ls = [[]] \<Longrightarrow> ls = [] \<or> ls = [[]]" for h z ls
  proof -
    assume a: "set_endpoint h z False ls = [] \<or> set_endpoint h z False ls = [[]]"
    then have l: "length ls \<le> 1" using set_endpoint_length [of h z False ls] by auto
    have ne: "new_endpoint h raw m = [] \<Longrightarrow> raw = []" for raw m
      using new_endpoint_cases [of h raw "fst m" "fst (snd m)" "snd (snd m)"] by auto
    show ?thesis using a l ne by (cases ls) (auto split: if_split_asm option.split_asm)
  qed
  ultimately show ?thesis using c by (auto simp: rewriteHubPeerEndpoint_def join_Nil split: option.split)
qed

lemma rewrite_ips_ne: "agent_file conf \<Longrightarrow> rewriteHubPeerAllowedIPs conf ips \<noteq> []"
proof -
  assume a: "agent_file conf"
  let ?N = "set_hub_ips ips (0, False) False (split_lines conf)"
  have "list_ex is_header (split_lines conf)" using a unfolding agent_file_def Let_def list_ex_iff by (blast dest: set_takeWhileD)
  then have "filter is_header ?N \<noteq> []" unfolding set_hub_frame(1) by (simp add: filter_empty_conv list_ex_iff)
  then have "?N \<noteq> []" "?N \<noteq> [[]]" by (auto simp: is_header_def trim_def starts_with_def)
  then show ?thesis by (simp add: rewriteHubPeerAllowedIPs_def join_Nil)
qed

text \<open>The text a successful synchronisation computes, and what it reads as.\<close>

lemma synced_text:
  fixes nets :: "string list"
  assumes conf: "agent_file conf" and hub: "hubHost = None \<or> (\<exists>h. hubHost = Some h \<and> host_chars h)"
  defines "ips \<equiv> computeHubPeerAllowedIPs (deriveTunnelSubnet conf) nets"
  defines "c2 \<equiv> rewriteHubPeerEndpoint (snd (allowed_rewrite conf ips)) hubHost"
  assumes n: "normalizeAgentConfig c2 (sort nets) opts = Inr out"
  shows "agent_file out" "deriveTunnelSubnet out = deriveTunnelSubnet conf"
    and "has_hub_ips (0, False) (split_lines conf) \<Longrightarrow> set (parseHubPeerAllowedIPs out) = insert (deriveTunnelSubnet conf) (set nets)"
    and "snd (allowed_rewrite out ips) = out" "rewriteHubPeerEndpoint out hubHost = out"
    and "normalizeAgentConfig out (sort nets) opts = Inr out"
proof -
  let ?t = "deriveTunnelSubnet conf"
  let ?hl = "hub_lines ''AllowedIPs'' (0, False)"
  define changed where "changed \<longleftrightarrow> join '','' ips \<noteq> join '','' (sort (parseHubPeerAllowedIPs conf))"
  define c1 where "c1 = snd (allowed_rewrite conf ips)"
  have c1: "c1 = (if changed then rewriteHubPeerAllowedIPs conf ips else conf)"
    by (simp add: c1_def allowed_rewrite_def changed_def Let_def)
  have "c1 \<noteq> []" using rewrite_ips_ne [OF conf] conf by (simp add: c1 agent_file_def)
  then have "c2 \<noteq> []" unfolding c2_def c1_def [symmetric] by (rule rewrite_endpoint_ne)
  from masq_checked(1) [OF n this] have "list_all CIDR_RE nets" by (simp add: list_all_iff)
  then have pl: "list_all (plain_item CHR '','') ips" "list_all one_line ips"
    using CIDR_plain tunnel_plain [of conf] by (auto simp: ips_def computeHubPeerAllowedIPs_def list_all_iff)
  have set_ips: "set ips = insert ?t (set nets)" by (simp add: ips_def computeHubPeerAllowedIPs_def)
  have srt: "sort ips = ips" by (simp add: ips_def computeHubPeerAllowedIPs_def sorted_sort_id)
  note rw = rewrite_ips_reads [OF conf pl]
  have af1: "agent_file c1" and dt1: "deriveTunnelSubnet c1 = ?t" using conf rw(1,3) by (simp_all add: c1)
  note ep = rewrite_endpoint_reads [OF af1 hub, folded c2_def [folded c1_def]]
  have r: "deriveTunnelSubnet out = deriveTunnelSubnet c2" "parseHubPeerAllowedIPs out = parseHubPeerAllowedIPs c2"
    "CR \<notin> set out" "agent_file out" by (rule normalized_reads [OF ep(1) n], assumption)+
  have r5: "hub_lines key z (split_lines out) = hub_lines key z (split_lines c2)" if "hub_key key" for key z
    by (rule normalized_reads [OF ep(1) n]) (use that in blast)
  show "agent_file out" by (rule r(4))
  show "deriveTunnelSubnet out = ?t" by (simp add: r(1) ep(3) dt1)
  show "normalizeAgentConfig out (sort nets) opts = Inr out" using normalize_again [OF ep(1) n] by blast
  have pout: "parseHubPeerAllowedIPs out = parseHubPeerAllowedIPs c1" by (simp add: r(2) ep(2))
  have hout: "?hl (split_lines out) = ?hl (split_lines c1)" by (simp add: r5 hub_key_def ep(4))
  show "set (parseHubPeerAllowedIPs out) = insert ?t (set nets)" if "has_hub_ips (0, False) (split_lines conf)"
  proof (cases changed)
    case True
    then show ?thesis using rw(2) that by (simp add: pout c1 set_ips)
  next
    case False
    then have "same_ips ips (parseHubPeerAllowedIPs conf)" by (simp add: changed_def same_ips_def srt)
    then have "set ips = set (parseHubPeerAllowedIPs conf)"
      by (rule same_ips_set) (use pl(1) host_plain [OF conf] in \<open>auto simp: list_all_iff\<close>)
    then show ?thesis using False by (simp add: pout c1 set_ips)
  qed
  show "snd (allowed_rewrite out ips) = out"
  proof (cases "join '','' ips \<noteq> join '','' (sort (parseHubPeerAllowedIPs out))")
    case True
    have ch: changed using True by (cases changed) (auto simp: pout c1 changed_def)
    have hl: "?hl (split_lines out) = (if has_hub_ips (0, False) (split_lines conf) then [new_ips_line ips] else [])"
      using ch set_hub_lines(1) [OF pl(1)] by (simp add: hout c1 rw(4))
    have "set_hub_ips ips (0, False) False (split_lines out) = split_lines out"
      using set_hub_fix(1) [of "(0, False)" "split_lines out"] set_hub_fix(2) [of "(0, False)" "split_lines out"] hl by (simp split: if_split_asm)
    then show ?thesis using True join_split_lines [OF r(3)] by (simp add: allowed_rewrite_def rewriteHubPeerAllowedIPs_def)
  qed (simp add: allowed_rewrite_def)
  have "\<forall>h. hubHost = Some h \<longrightarrow> ep_ok h (hub_lines ''Endpoint'' (0, False) (split_lines out))"
    using ep(5) by (simp add: r5 hub_key_def)
  then show "rewriteHubPeerEndpoint out hubHost = out" by (rule rewrite_endpoint_fix [OF r(3)])
qed

subsection \<open>A synchronisation settles\<close>

definition bound_row :: "(string \<Rightarrow> bool) \<Rightarrow> sync_agent \<Rightarrow> bool" where
  "bound_row P a \<longleftrightarrow> (case sa_config a of None \<Rightarrow> True | Some c \<Rightarrow> c = [] \<or> P c)"

definition is_changed :: "sync_result \<Rightarrow> bool" where
  "is_changed r = (case r of SyncChanged _ _ _ _ \<Rightarrow> True | _ \<Rightarrow> False)"

lemma sync_with_Inr:
  assumes "sync_with sha hubHost agent m conf nets = Inr (agent', r)"
  obtains iface out where "sanitizeWgInterface (sa_iface agent) = Inr iface"
    "normalizeAgentConfig (rewriteHubPeerEndpoint (snd (allowed_rewrite conf (computeHubPeerAllowedIPs (deriveTunnelSubnet conf) nets))) hubHost)
       (sort nets) (agent_opts agent m iface) = Inr out"
    "(hashConfig sha out = sa_hash agent \<and> agent' = agent \<and> r = SameHash)
     \<or> (hashConfig sha out \<noteq> sa_hash agent \<and> agent' = agent\<lparr>sa_config := Some out, sa_hash := hashConfig sha out\<rparr> \<and> is_changed r)"
  using assms unfolding sync_with_def computed_config_def
  by (auto simp: bind_res_iff Let_def is_changed_def split: prod.splits if_split_asm)

lemma sync_with_again:
  assumes "agent_file conf" "hubHost = None \<or> (\<exists>h. hubHost = Some h \<and> host_chars h)"
    and "sync_with sha hubHost agent m conf nets = Inr (agent', r)" "is_changed r"
  obtains out where "sa_config agent' = Some out" "out \<noteq> []" "sync_with sha hubHost agent' m out nets = Inr (agent', SameHash)"
    "sa_link agent' = sa_link agent" "sa_deleted agent' = sa_deleted agent" "sa_acl agent' = sa_acl agent"
proof -
  let ?ips = "\<lambda>c. computeHubPeerAllowedIPs (deriveTunnelSubnet c) nets"
  obtain iface out where o: "sanitizeWgInterface (sa_iface agent) = Inr iface"
    "normalizeAgentConfig (rewriteHubPeerEndpoint (snd (allowed_rewrite conf (?ips conf))) hubHost) (sort nets) (agent_opts agent m iface) = Inr out"
    "agent' = agent\<lparr>sa_config := Some out, sa_hash := hashConfig sha out\<rparr>"
  proof (rule sync_with_Inr [OF assms(3)])
    fix iface out
    assume "sanitizeWgInterface (sa_iface agent) = Inr iface"
      "normalizeAgentConfig (rewriteHubPeerEndpoint (snd (allowed_rewrite conf (?ips conf))) hubHost) (sort nets) (agent_opts agent m iface) = Inr out"
      "hashConfig sha out = sa_hash agent \<and> agent' = agent \<and> r = SameHash
       \<or> hashConfig sha out \<noteq> sa_hash agent \<and> agent' = agent\<lparr>sa_config := Some out, sa_hash := hashConfig sha out\<rparr> \<and> is_changed r"
    then show thesis using that assms(4) by (auto simp: is_changed_def)
  qed
  note t = synced_text [OF assms(1,2) o(2)]
  have i: "?ips out = ?ips conf" by (simp add: t(2))
  have "agent_opts agent' m iface = agent_opts agent m iface" by (simp add: agent_opts_def o(3))
  then have "sync_with sha hubHost agent' m out nets = Inr (agent', SameHash)"
    using t(4,5,6) o(1) unfolding sync_with_def computed_config_def i by (cases "allowed_rewrite out (?ips conf)") (simp add: o(3) Let_def)
  moreover have "out \<noteq> []" using t(1) by (simp add: agent_file_def)
  ultimately show thesis using that [of out] by (simp add: o(3))
qed

lemma sync_row_again:
  assumes "bound_row agent_file a" "hubHost = None \<or> (\<exists>h. hubHost = Some h \<and> host_chars h)"
    and "sync_row json sha hubHost mesh a = (a', r)"
  shows "\<exists>r'. sync_row json sha hubHost mesh a' = (a', r') \<and> (\<forall>x. r' = Some x \<longrightarrow> \<not> is_changed x)"
proof (cases "\<exists>x. r = Some x \<and> is_changed x")
  case False
  have "a' = a"
  proof (cases "\<exists>l. \<not> sa_deleted a \<and> sa_link a = Some l")
    case True
    then obtain l where l: "\<not> sa_deleted a" "sa_link a = Some l" by blast
    show ?thesis
    proof (cases "syncOneAgent json sha hubHost mesh a l")
      case (Inr p)
      then have p: "p = (a', the r)" "r \<noteq> None" using assms(3) l by (auto simp: sync_row_def split: prod.splits)
      then have n: "\<not> is_changed (the r)" using False by auto
      show ?thesis using Inr n unfolding p(1) syncOneAgent_def
        by (auto split: if_split_asm option.split_asm list.split_asm elim!: sync_with_Inr)
    qed (use assms(3) l in \<open>simp add: sync_row_def\<close>)
  qed (use assms(3) in \<open>auto simp: sync_row_def split: bool.split_asm option.split_asm\<close>)
  then show ?thesis using assms(3) False by auto
next
  case True
  then obtain x where x: "r = Some x" "is_changed x" by blast
  then obtain l where l: "\<not> sa_deleted a" "sa_link a = Some l" "syncOneAgent json sha hubHost mesh a l = Inr (a', x)"
    using assms(3) by (auto simp: sync_row_def is_changed_def split: bool.split_asm option.split_asm sum.split_asm prod.split_asm)
  then obtain m conf where m: "l \<notin> set (mi_ambiguous mesh)" "map_of (mi_linksByName mesh) l = Some m" "sa_config a = Some conf" "conf \<noteq> []"
    "sync_with sha hubHost a m conf (on_nets (agentOtherSiteNets json (sa_acl a) m mesh)) = Inr (a', x)"
    using x(2) by (auto simp: syncOneAgent_def is_changed_def or_else_def split: if_split_asm option.split_asm list.split_asm)
  have "agent_file conf" using assms(1) m(3,4) by (simp add: bound_row_def)
  from sync_with_again [OF this assms(2) m(5) x(2)] obtain out where o: "sa_config a' = Some out" "out \<noteq> []"
    "sync_with sha hubHost a' m out (on_nets (agentOtherSiteNets json (sa_acl a) m mesh)) = Inr (a', SameHash)"
    "sa_link a' = sa_link a" "sa_deleted a' = sa_deleted a" "sa_acl a' = sa_acl a" by blast
  have "syncOneAgent json sha hubHost mesh a' l = Inr (a', SameHash)"
    using m(1,2) o(1,2,3,6) by (cases out) (simp_all add: syncOneAgent_def or_else_def)
  then show ?thesis using l(1,2) o(4,5) by (simp add: sync_row_def is_changed_def)
qed

text \<open>C8: Synchronising the agents settles: right after a synchronisation the next one, for the same metadata
  and the same hub host, changes no row and no agent restarts its tunnel, whatever lists, networks
  and endpoints the first one had to rewrite. (The stored configurations are regular files.)\<close>

theorem syncAgentConfigs_settles:
  assumes "\<forall>a \<in> set agents. bound_row agent_file a" "syncAgentConfigs json sha env links agents = (agents', results)"
  shows "fst (syncAgentConfigs json sha env links agents') = agents'
    \<and> list_all (\<lambda>r. \<not> is_changed r) (snd (syncAgentConfigs json sha env links agents'))"
proof -
  let ?s = "sync_row json sha (configuredHubHost env) (meshIndex links)"
  have hub: "configuredHubHost env = None \<or> (\<exists>h. configuredHubHost env = Some h \<and> host_chars h)"
    using configuredHubHost_chars by (cases "configuredHubHost env") auto
  have a: "agents' = map (\<lambda>a. fst (?s a)) agents" using assms(2) by (auto simp: syncAgentConfigs_def Let_def)
  have st: "fst (?s (fst (?s a))) = fst (?s a) \<and> (\<forall>x. snd (?s (fst (?s a))) = Some x \<longrightarrow> \<not> is_changed x)" if "a \<in> set agents" for a
    using sync_row_again [OF _ hub, of a json sha "meshIndex links" "fst (?s a)" "snd (?s a)"] assms(1) that by auto
  have "map (\<lambda>a. fst (?s a)) agents' = agents'" unfolding a by (simp add: st)
  moreover have "\<not> is_changed x" if "x \<in> set (List.map_filter snd (map ?s agents'))" for x
    using that st unfolding a by (auto simp: List.map_filter_def)
  ultimately show ?thesis by (simp add: syncAgentConfigs_def Let_def list_all_iff comp_def)
qed

subsection \<open>What an agent reaches after a synchronisation\<close>

text \<open>The networks of other sites that are meant for an agent.\<close>

definition meant_net :: "(string \<Rightarrow> jsval option) \<Rightarrow> links \<Rightarrow> agent_acl \<Rightarrow> props \<Rightarrow> string \<Rightarrow> bool" where
  "meant_net json links acl own n \<longleftrightarrow>
     (\<exists>lid m. (lid, m) \<in> set links \<and> \<not> is_client_link m \<and> n \<in> set (imported_nets m))
     \<and> isAcceptableNetworkPrefix n \<and> acl_allows json links acl n \<and> n \<notin> set (imported_nets own)
     \<and> (is_client_link own \<or> \<not> (\<exists>net \<in> set (imported_nets own). \<exists>A B. cidr_set net = Some A \<and> cidr_set n = Some B \<and> B \<subseteq> A))"

text \<open>C7: After a synchronisation that neither failed nor skipped the agent, the hub peer in its stored
  configuration lists exactly the tunnel network and the networks of other sites that are meant for
  it, so that a network removed from a site or from an access list is gone and no old one stays;
  the tunnel network is the one before; and the stored hash is the hash of the stored text. (The
  stored text has a line of networks in the hub peer, no carriage returns, no section besides the
  interface's in front of the first peer, and no empty address; the stored hash was the one of the
  stored text, and the stored and the computed text do not collide.)\<close>

theorem syncOneAgent_reach:
  assumes "syncOneAgent json sha (configuredHubHost env) (meshIndex links) a l = Inr (a', r)"
    and "r \<noteq> AmbiguousLinkName" "r \<noteq> NoLinkOrConfig"
    and "sa_config a = Some conf" "agent_file conf" "has_hub_ips (0, False) (split_lines conf)"
    and "sa_hash a = hashConfig sha conf"
    and "\<forall>own out. (l, own) \<in> set (mi_linksByName (meshIndex links))
      \<and> computed_config (configuredHubHost env) a own conf (on_nets (agentOtherSiteNets json (sa_acl a) own (meshIndex links))) = Inr out
      \<and> sha out = sha conf \<longrightarrow> out = conf"
  shows "\<exists>out own lid. sa_config a' = Some out \<and> sa_hash a' = hashConfig sha out
    \<and> (lid, own) \<in> set links \<and> meta_text own ''name'' = Some l
    \<and> set (parseHubPeerAllowedIPs out) = insert (deriveTunnelSubnet conf) {n. meant_net json links (sa_acl a) own n}
    \<and> deriveTunnelSubnet out = deriveTunnelSubnet conf"
proof -
  let ?hub = "configuredHubHost env"
  have hub: "?hub = None \<or> (\<exists>h. ?hub = Some h \<and> host_chars h)" using configuredHubHost_chars by (cases ?hub) auto
  have ne: "conf \<noteq> []" using assms(5) by (simp add: agent_file_def)
  obtain own where own: "map_of (mi_linksByName (meshIndex links)) l = Some own"
    "sync_with sha ?hub a own conf (on_nets (agentOtherSiteNets json (sa_acl a) own (meshIndex links))) = Inr (a', r)"
    using assms(1-4) ne by (auto simp: syncOneAgent_def or_else_def split: if_split_asm option.split_asm list.split_asm)
  define nets where "nets = on_nets (agentOtherSiteNets json (sa_acl a) own (meshIndex links))"
  have "n \<in> set nets \<longleftrightarrow> meant_net json links (sa_acl a) own n" for n
    unfolding nets_def meant_net_def by (rule other_nets_iff)
  then have nets: "set nets = {n. meant_net json links (sa_acl a) own n}" by blast
  have link: "\<exists>lid. (lid, own) \<in> set links" "meta_text own ''name'' = Some l"
    using map_of_SomeD [OF own(1)] by (simp_all add: linksByName_iff(1))
  obtain iface out where si: "sanitizeWgInterface (sa_iface a) = Inr iface" and o: "normalizeAgentConfig (rewriteHubPeerEndpoint
       (snd (allowed_rewrite conf (computeHubPeerAllowedIPs (deriveTunnelSubnet conf) nets))) ?hub) (sort nets) (agent_opts a own iface) = Inr out"
    "hashConfig sha out = sa_hash a \<and> a' = a \<and> r = SameHash
     \<or> hashConfig sha out \<noteq> sa_hash a \<and> a' = a\<lparr>sa_config := Some out, sa_hash := hashConfig sha out\<rparr> \<and> is_changed r"
    by (rule sync_with_Inr [OF own(2) [folded nets_def]])
  note t = synced_text [OF assms(5) hub o(1)]
  have out: "out \<noteq> []" using t(1) by (simp add: agent_file_def)
  have "sa_config a' = Some out \<and> sa_hash a' = hashConfig sha out"
    using o(2)
  proof
    assume e: "hashConfig sha out = sa_hash a \<and> a' = a \<and> r = SameHash"
    have "computed_config ?hub a own conf nets = Inr out" using si o(1) by (simp add: computed_config_def)
    moreover have "sha out = sha conf" using e assms(7) ne out by (simp add: hashConfig_def)
    ultimately have "out = conf" using assms(8) map_of_SomeD [OF own(1)] unfolding nets_def by blast
    then show ?thesis using e assms(4) by simp
  qed simp
  then show ?thesis using link t(2) t(3) [OF assms(6)] nets by blast
qed

text \<open>The first site of the example, whose networks and hub have changed.\<close>

definition sync_conf :: "string \<Rightarrow> string \<Rightarrow> string" where
  "sync_conf ips host = join [LF] [''[Interface]'', ''Address = 10.8.0.5/24'', ''[Peer]'', ''AllowedIPs = '' @ ips, ''Endpoint = '' @ host @ '':51820'']"

definition sync_agent1 :: sync_agent where
  "sync_agent1 = \<lparr>sa_deleted = False, sa_link = Some ''muc'', sa_config = Some (sync_conf ''10.8.0.0/24, 10.7.0.0/24'' ''old.example''),
     sa_hash = Some (sync_conf ''10.8.0.0/24, 10.7.0.0/24'' ''old.example''),
     sa_acl = \<lparr>aa_networks = None, aa_sites = None\<rparr>, sa_preserve = JNull, sa_iface = JStr ''wg1''\<rparr>"

lemma sync_agent1_parts:
  "map_of (mi_linksByName (meshIndex ex_mesh)) ''muc'' = Some (snd (ex_mesh ! 0))" "mi_ambiguous (meshIndex ex_mesh) = []"
  "on_nets (agentOtherSiteNets (\<lambda>t. None) \<lparr>aa_networks = None, aa_sites = None\<rparr> (snd (ex_mesh ! 0)) (meshIndex ex_mesh)) = [''10.2.0.0/16'']"
  "computeHubPeerAllowedIPs (deriveTunnelSubnet (sync_conf ''10.8.0.0/24, 10.7.0.0/24'' ''old.example'')) [''10.2.0.0/16''] = [''10.2.0.0/16'', ''10.8.0.0/24'']"
  "allowed_rewrite (sync_conf ''10.8.0.0/24, 10.7.0.0/24'' ''old.example'') [''10.2.0.0/16'', ''10.8.0.0/24'']
     = (True, sync_conf ''10.2.0.0/16, 10.8.0.0/24'' ''old.example'')"
  "rewriteHubPeerEndpoint (sync_conf ''10.2.0.0/16, 10.8.0.0/24'' ''old.example'') (configuredHubHost (Some ''hub.example''))
     = sync_conf ''10.2.0.0/16, 10.8.0.0/24'' ''hub.example''"
  "deriveTunnelSubnet (sync_conf ''10.2.0.0/16, 10.8.0.0/24'' ''hub.example'') = ''10.8.0.0/24''"
  "parseHubPeerAllowedIPs (sync_conf ''10.2.0.0/16, 10.8.0.0/24'' ''hub.example'') = [''10.2.0.0/16'', ''10.8.0.0/24'']"
  "CIDR_RE ''10.8.0.0/24''" "CIDR_RE ''10.2.0.0/16''" "sanitizeWgInterface (JStr ''wg1'') = Inr ''wg1''"
  "\<not> isHostRoute ''10.8.0.0/24''" "\<not> isHostRoute ''10.2.0.0/16''"
  by code_simp+

lemma sync_agent1_runs:
  obtains a' r where "syncOneAgent (\<lambda>t. None) (\<lambda>t. t) (configuredHubHost (Some ''hub.example'')) (meshIndex ex_mesh) sync_agent1 ''muc'' = Inr (a', r)"
    "r \<noteq> AmbiguousLinkName" "r \<noteq> NoLinkOrConfig"
proof -
  note p = sync_agent1_parts
  define c where "c = sync_conf ''10.8.0.0/24, 10.7.0.0/24'' ''old.example''"
  define c2 where "c2 = sync_conf ''10.2.0.0/16, 10.8.0.0/24'' ''hub.example''"
  define opts where "opts = agent_opts sync_agent1 (snd (ex_mesh ! 0)) ''wg1''"
  have "\<not> sanitizeBool JNull False" by code_simp
  then have o: "ho_iface opts = JStr ''wg1''" "ho_localNets opts = []" by (simp_all add: opts_def agent_opts_def sync_agent1_def)
  have h: "\<exists>t. build_hook isUp ''10.8.0.0/24'' [''10.2.0.0/16''] [''10.2.0.0/16'', ''10.8.0.0/24''] opts = Inr t" for isUp
    unfolding build_hook_Inr o using p(9,10,11) by auto
  have ne: "c2 \<noteq> []" "c \<noteq> []" by (simp_all add: c2_def c_def sync_conf_def)
  obtain out where n: "normalizeAgentConfig c2 [''10.2.0.0/16''] opts = Inr out"
    using h [of True] h [of False] p(7,8,12,13) unfolding normalize_lines [OF ne(1)] buildHubPostUp_def buildHubPostDown_def c2_def [symmetric] by auto
  have "syncOneAgent (\<lambda>t. None) (\<lambda>t. t) (configuredHubHost (Some ''hub.example'')) (meshIndex ex_mesh) sync_agent1 ''muc''
    = sync_with (\<lambda>t. t) (configuredHubHost (Some ''hub.example'')) sync_agent1 (snd (ex_mesh ! 0)) c [''10.2.0.0/16'']"
    using ne(2) p(1-3) by (cases c) (simp_all add: syncOneAgent_def sync_agent1_def or_else_def c_def [symmetric])
  also have "\<dots> = (let newHash = hashConfig (\<lambda>t. t) out in if newHash = sa_hash sync_agent1 then Inr (sync_agent1, SameHash)
      else Inr (sync_agent1\<lparr>sa_config := Some out, sa_hash := newHash\<rparr>, SyncChanged [''10.2.0.0/16'', ''10.8.0.0/24''] [''10.2.0.0/16'']
        (c2 \<noteq> sync_conf ''10.2.0.0/16, 10.8.0.0/24'' ''old.example'') True))"
  proof -
    have iface: "sanitizeWgInterface (sa_iface sync_agent1) = Inr ''wg1''" using p(11) by (simp add: sync_agent1_def)
    have "sort [''10.2.0.0/16''] = [''10.2.0.0/16'']" by simp
    then show ?thesis using n unfolding sync_with_def computed_config_def Let_def c_def p(4) p(5) snd_conv prod.case p(6) c2_def [symmetric] opts_def iface by simp
  qed
  finally show thesis using that by (auto simp: Let_def split: if_split_asm)
qed

theorem syncAgentConfigs_settles_witness:
  "snd (syncAgentConfigs (\<lambda>t. None) (\<lambda>t. t) (Some ''hub.example'') ex_mesh [sync_agent1]) \<noteq> []
   \<and> list_all (\<lambda>r. \<not> is_changed r) (snd (syncAgentConfigs (\<lambda>t. None) (\<lambda>t. t) (Some ''hub.example'') ex_mesh
       (fst (syncAgentConfigs (\<lambda>t. None) (\<lambda>t. t) (Some ''hub.example'') ex_mesh [sync_agent1]))))"
proof -
  obtain agents' results where s: "syncAgentConfigs (\<lambda>t. None) (\<lambda>t. t) (Some ''hub.example'') ex_mesh [sync_agent1] = (agents', results)"
    by (cases "syncAgentConfigs (\<lambda>t. None) (\<lambda>t. t) (Some ''hub.example'') ex_mesh [sync_agent1]")
  have "agent_file (sync_conf ''10.8.0.0/24, 10.7.0.0/24'' ''old.example'')" by code_simp
  then have b: "\<forall>a \<in> set [sync_agent1]. bound_row agent_file a" by (simp add: bound_row_def sync_agent1_def)
  have "snd (sync_row json sha hub mesh sync_agent1) \<noteq> None" for json sha hub mesh
    by (simp add: sync_row_def sync_agent1_def split: sum.split prod.split)
  then have "results \<noteq> []" using s by (auto simp: syncAgentConfigs_def Let_def List.map_filter_def)
  then show ?thesis using syncAgentConfigs_settles [OF b s] unfolding s by simp
qed

theorem syncOneAgent_reach_witness:
  "\<exists>a' r out own lid. syncOneAgent (\<lambda>t. None) (\<lambda>t. t) (configuredHubHost (Some ''hub.example'')) (meshIndex ex_mesh) sync_agent1 ''muc'' = Inr (a', r)
     \<and> sa_config a' = Some out \<and> (lid, own) \<in> set ex_mesh \<and> meta_text own ''name'' = Some ''muc''
     \<and> set (parseHubPeerAllowedIPs out) = insert ''10.8.0.0/24'' {n. meant_net (\<lambda>t. None) ex_mesh \<lparr>aa_networks = None, aa_sites = None\<rparr> own n}"
proof -
  obtain a' r where s: "syncOneAgent (\<lambda>t. None) (\<lambda>t. t) (configuredHubHost (Some ''hub.example'')) (meshIndex ex_mesh) sync_agent1 ''muc'' = Inr (a', r)"
    "r \<noteq> AmbiguousLinkName" "r \<noteq> NoLinkOrConfig" by (rule sync_agent1_runs)
  define c where "c = sync_conf ''10.8.0.0/24, 10.7.0.0/24'' ''old.example''"
  have c: "sa_config sync_agent1 = Some c" "sa_hash sync_agent1 = hashConfig (\<lambda>t. t) c" "sa_acl sync_agent1 = \<lparr>aa_networks = None, aa_sites = None\<rparr>"
    by (simp_all add: sync_agent1_def c_def hashConfig_def sync_conf_def)
  have f: "agent_file c" "has_hub_ips (0, False) (split_lines c)" "deriveTunnelSubnet c = ''10.8.0.0/24''"
    unfolding c_def by code_simp+
  have inj: "\<forall>own out. P own out \<and> Q own out \<and> out = c \<longrightarrow> out = c" for P Q :: "props \<Rightarrow> string \<Rightarrow> bool" by blast
  obtain out own lid where "sa_config a' = Some out" "(lid, own) \<in> set ex_mesh" "meta_text own ''name'' = Some ''muc''"
    "set (parseHubPeerAllowedIPs out) = insert ''10.8.0.0/24'' {n. meant_net (\<lambda>t. None) ex_mesh \<lparr>aa_networks = None, aa_sites = None\<rparr> own n}"
    using syncOneAgent_reach [OF s c(1) f(1,2) c(2) inj, unfolded f(3) c(3)] by (elim exE conjE) rule
  then show ?thesis using s(1) by (intro exI conjI)
qed

end
