(* ===== verification/Spec2Isabelle.thy ===== *)
theory Spec2Isabelle
  imports Ingress_Direct Site_Isolation Foreign_Drops Geo_Filter Link_Rename Wg_Plan Wg_Hub_Live Agent_Sync
begin

text \<open>
  FloppyGuard is a web panel for a WireGuard hub with remote agents and an nginx reverse proxy.
  This library models the core logic of its backend (JavaScript, src/backend/internal) and proves
  what it is meant to guarantee.

  The program. A hub runs WireGuard interfaces. Each peer of an interface is a link; what the panel
  knows about a link beyond the live peer (name, type, networks) is in a JSON metadata store.
  Agents are bound to links by name. The status view joins the live dump, the configuration files
  and the store; a plan previews a change of the store, applies it and lets the renames reach the
  agents. On the hub and on the agents, generated nftables and iptables rulesets restrict what a
  site may reach (ingress rules, site isolation, direct links between agents), and nginx restricts
  hosts to countries by the addresses of a country table.

  The theories, in the order they build on each other:
  Js_Prelude: values of JavaScript and the text operations the modules use, lists with JavaScript's
  rules, sums as results.
  Filter_Chain: evaluation of an ordered list of filter rules.
  Ipv4_Cidr (agent-ingress-rules.js, address part): 32-bit arithmetic, canonical texts, containment;
  the locale network_texts is the contract of a containment test on network texts.
  Ingress_Rules, Ingress_Chain, Ingress_Payload (agent-ingress-rules.js): cleaning of rules, the
  generated chain, its text, and what a packet that passes it means.
  Site_Isolation, Foreign_Drops (site-isolation-rules.js): networks of a site, pairs, the generated
  table, the verdict on two networks, and what other software on the hub drops.
  Direct_Link (agent-direct-link-rules.js): transfer networks, fitting of a new link, guards.
  Ingress_Direct (payloadFor of agent-ingress.js with the queries of agent-direct-link.js): the filter
  of an agent from the stored rows, direct links and the partners' addresses included.
  Geo_Ranges, Geo_Filter (geo-filter.js): ranges to prefixes (locale address_family, interpreted for
  both address widths), the country table, and the state machine of the generated file.
  Link_Rename (cascadeLinkRenames of wireguard.js over renameLinkBinding of agent.js): many renames
  through single ones that may fail and then have changed a part of the rows; the locales name_store
  and faulty_store, interpreted on the agent table.
  Wg_Metadata (wireguard.js): cleaning of patches, merging, the locked write of the store.
  Wg_Conf (wireguard.js): configuration texts, the dump, key rotation, the client configuration.
  Wg_Status (wireguard.js): records of links and interfaces, topology, route analysis, getStatus.
  Wg_Links (wireguard.js): overlapping networks, updatePeer, who may download a configuration, the
  deletion of bound agents.
  Wg_Plan (wireguard-plan.js): preview, apply, restore and the renames that follow a write.

  Wg_Hub_Conf (wireguard.js): the configuration file of the hub: its peers, the networks they should
  have, the hooks with the marker of the rules the panel owns, the rewrite and the removal of a peer.
  Wg_Hub_Rewrite: what a rewrite keeps and that writing again changes nothing. Wg_Hub_Peers: what the
  rewritten file says of every peer, and removals.
  Wg_Hub_Sync, Wg_Hub_Live (_syncHubConfCore of wireguard.js): one synchronisation of the hub, its
  commands, the NAT table they leave, and that it settles.
  Agent_Nets (agent.js): access lists and the networks an agent may reach. Agent_Conf (agent.js): the
  configuration text of an agent: the hub peer, the endpoint, the hooks, normalising it and reducing
  it to the tunnel. Agent_Sync (syncAgentConfigs of agent.js): the synchronisation of all agents.

  Conventions. A function keeps the name it has in the code. Texts are lists of Latin-1 characters;
  numbers that JavaScript computes exactly are integers, bitwise operators act on 32-bit words,
  BigInt is int. An exception is the left side of a sum, with one constructor per message. Objects
  used as maps are association lists in insertion order. What the code does not define (SHA-256,
  JSON.parse, gunzip, the answers of commands, the clock, localeCompare) is an argument; where a
  theorem needs a property of it, that is a hypothesis. A write lock makes the write of the store
  one step.

  Bounds. Decimal fractions of numbers are rendered with 25 digits (frac_digits), more than any
  number the code renders has. Loops over ranges end by a measure; no definition uses fuel.

  Not modelled: reading and writing files and the database, HTTP routes, the calls of wg, nft and
  nginx, certificates, users and tokens, the frontend. Of wireguard.js createPeer, deletePeer and the
  bandwidth history are open, of agent.js the enrolment, the heartbeat and the script it serves.
\<close>

end
